(* ===== verification/Prelude.thy ===== *)
theory Prelude
  imports Main "HOL-Library.Word"
begin

text \<open>
  Shared vocabulary of the development: the widths of the C integers, C strings as lists
  of the characters before the terminating NUL, the few functions of the C library that
  several files of the program call, the theorem collections of the development and
  generic facts on lists and words.

  A C string is the list of its characters before the NUL; a pointer into it is a suffix,
  so that reading at a pointer is \<open>deref\<close> (the NUL when the suffix is empty), advancing is
  \<open>tl\<close>, and two pointers into one string are equal iff their suffixes are.
\<close>

unbundle bit_operations_syntax

type_synonym u8 = "8 word"
type_synonym u16 = "16 word"
type_synonym u32 = "32 word"

named_theorems chattr_simps \<open>closed forms of the character classes and of case folding\<close>
named_theorems cstr_simps \<open>rewriting of the C string functions\<close>

section \<open>C strings\<close>

abbreviation NUL :: char where
  "NUL \<equiv> CHR 0x00"

definition deref :: "string \<Rightarrow> char" where
  "deref s = (case s of [] \<Rightarrow> NUL | c # _ \<Rightarrow> c)"

lemma deref_simps [simp]:
  "deref [] = NUL"
  "deref (c # s) = c"
  by (simp_all add: deref_def)

definition is_cstr :: "string \<Rightarrow> bool" where
  "is_cstr s \<longleftrightarrow> NUL \<notin> set s"

lemma is_cstr_simps [simp]:
  "is_cstr []"
  "is_cstr (c # s) \<longleftrightarrow> c \<noteq> NUL \<and> is_cstr s"
  "is_cstr (s @ t) \<longleftrightarrow> is_cstr s \<and> is_cstr t"
  by (auto simp: is_cstr_def)

lemma is_cstr_drop: "is_cstr s \<Longrightarrow> is_cstr (drop k s)"
  by (auto simp: is_cstr_def dest: in_set_dropD)

lemma is_cstr_take: "is_cstr s \<Longrightarrow> is_cstr (take k s)"
  by (auto simp: is_cstr_def dest: in_set_takeD)

text \<open>The C library's \<open>strchr\<close>: the suffix at the first occurrence, the terminator included.\<close>

fun strchr :: "string \<Rightarrow> char \<Rightarrow> string option" where
  "strchr [] c = (if c = NUL then Some [] else None)"
| "strchr (x # xs) c = (if x = c then Some (x # xs) else strchr xs c)"

lemma strchr_None: "c \<noteq> NUL \<Longrightarrow> strchr s c = None \<longleftrightarrow> c \<notin> set s"
  by (induction s) auto

lemma strchr_Some:
  "strchr s c = Some t \<Longrightarrow> c \<noteq> NUL \<Longrightarrow> \<exists>u. s = u @ t \<and> c \<notin> set u \<and> t \<noteq> [] \<and> hd t = c"
proof (induction s)
  case Nil
  then show ?case by simp
next
  case (Cons x xs)
  show ?case
  proof (cases "x = c")
    case True
    with Cons.prems show ?thesis by auto
  next
    case False
    with Cons obtain u where "xs = u @ t" "c \<notin> set u" "t \<noteq> []" "hd t = c" by auto
    with False show ?thesis by (intro exI [of _ "x # u"]) auto
  qed
qed

lemma strchr_length: "strchr s c = Some t \<Longrightarrow> length t \<le> length s"
  by (induction s) (auto split: if_splits)

text \<open>The value of a \<open>char\<close> where the type is signed, as on the platforms the server runs on.\<close>

definition schar :: "char \<Rightarrow> int" where
  "schar c = (let v = (of_char c :: int) in if v < 128 then v else v - 256)"

lemma of_char_int_bounds: "0 \<le> (of_char c :: int)" "(of_char c :: int) < 256"
proof -
  have "(of_char c :: int) = int (of_char c :: nat)" by (rule of_nat_of_char [symmetric])
  moreover have "(of_char c :: nat) < 256" by simp
  ultimately show "0 \<le> (of_char c :: int)" "(of_char c :: int) < 256" by linarith+
qed

lemma schar_inject [simp]: "schar c = schar d \<longleftrightarrow> c = d"
proof
  assume "schar c = schar d"
  then have "(of_char c :: int) = of_char d"
    using of_char_int_bounds [of c] of_char_int_bounds [of d]
    by (auto simp: schar_def Let_def split: if_splits)
  then show "c = d" by simp
qed simp

lemma schar_NUL [simp]: "schar NUL = 0" by (simp add: schar_def)

lemma schar_eq_0_iff [simp]: "schar c = 0 \<longleftrightarrow> c = NUL" using schar_inject [of c NUL] by simp

text \<open>The string a buffer holds: the bytes before its first NUL.\<close>

definition cstr_of :: "char list \<Rightarrow> string" where
  "cstr_of buf = takeWhile (\<lambda>c. c \<noteq> NUL) buf"

lemma cstr_of_append: "is_cstr s \<Longrightarrow> cstr_of (s @ NUL # r) = s"
  by (induction s) (auto simp: cstr_of_def)

lemma cstr_ofI:
  assumes "is_cstr s" "length s < length buf" "take (length s) buf = s" "buf ! length s = NUL"
  shows "cstr_of buf = s"
  using assms cstr_of_append id_take_nth_drop by metis

section \<open>Lists\<close>

lemma dropWhile_length_less: "xs \<noteq> [] \<Longrightarrow> P (hd xs) \<Longrightarrow> length (dropWhile P xs) < length xs"
  by (cases xs) (auto simp: le_imp_less_Suc length_dropWhile_le)

lemma dropWhile_drop: "\<exists>k \<le> length xs. dropWhile P xs = drop k xs \<and> (\<forall>i < k. P (xs ! i))"
proof (intro exI conjI allI impI)
  let ?k = "length (takeWhile P xs)"
  show "?k \<le> length xs" by (rule length_takeWhile_le)
  show "dropWhile P xs = drop ?k xs" by (rule dropWhile_eq_drop)
  fix i
  assume "i < ?k"
  then show "P (xs ! i)" by (metis nth_mem set_takeWhileD takeWhile_nth)
qed

lemma length_fold_same: "(\<And>x w. length (f x w) = length w) \<Longrightarrow> length (fold f xs w) = length w"
  by (induction xs arbitrary: w) auto

subsection \<open>Splitting at separators\<close>

text \<open>The reference for the splitters: the maximal non-empty runs of elements that are not separators.\<close>

function pieces :: "('a \<Rightarrow> bool) \<Rightarrow> 'a list \<Rightarrow> 'a list list" where
  "pieces P s = (let t = dropWhile P s in
     if t = [] then [] else takeWhile (\<lambda>c. \<not> P c) t # pieces P (dropWhile (\<lambda>c. \<not> P c) t))"
  by pat_completeness auto
termination
proof (relation "measure (\<lambda>(P, s). length s)", goal_cases)
  case 1
  then show ?case by simp
next
  case (2 P s t)
  then have "\<not> P (hd t)" using hd_dropWhile by metis
  then have "length (dropWhile (\<lambda>c. \<not> P c) t) < length t"
    using 2 dropWhile_length_less [of t "\<lambda>c. \<not> P c"] by simp
  moreover have "length t \<le> length s" using 2 by (simp add: length_dropWhile_le)
  ultimately show ?case by simp
qed

declare pieces.simps [simp del]

lemma pieces_Nil [simp]: "pieces P [] = []" by (simp add: pieces.simps)

lemma pieces_sep [simp]: "P c \<Longrightarrow> pieces P (c # s) = pieces P s"
  by (simp add: pieces.simps [of P "c # s"] pieces.simps [of P s])

lemma pieces_dropWhile [simp]: "pieces P (dropWhile P s) = pieces P s"
  by (induction s) auto

lemma pieces_field:
  assumes "w \<noteq> []" "\<forall>c \<in> set w. \<not> P c" "r = [] \<or> P (hd r)"
  shows "pieces P (w @ r) = w # pieces P r"
proof -
  have "dropWhile P (w @ r) = w @ r" using assms by (cases w) auto
  moreover have "takeWhile (\<lambda>c. \<not> P c) (w @ r) = w"
    using assms by (cases r) (auto simp: takeWhile_append)
  moreover have "dropWhile (\<lambda>c. \<not> P c) (w @ r) = r"
    using assms by (cases r) (auto simp: dropWhile_append)
  ultimately show ?thesis using assms(1) by (simp add: pieces.simps [of P "w @ r"])
qed

lemma pieces_cases:
  obtains (empty) "dropWhile P s = []" "pieces P s = []"
  | (field) w r where "dropWhile P s = w @ r" "w \<noteq> []" "\<forall>c \<in> set w. \<not> P c" "r = [] \<or> P (hd r)"
      "pieces P s = w # pieces P r" "length r < length s"
proof (cases "dropWhile P s = []")
  case True
  then show ?thesis by (intro empty) (simp_all add: pieces.simps [of P s] Let_def del: dropWhile_eq_Nil_conv)
next
  case False
  let ?t = "dropWhile P s"
  let ?w = "takeWhile (\<lambda>c. \<not> P c) ?t" and ?r = "dropWhile (\<lambda>c. \<not> P c) ?t"
  have t: "?t = ?w @ ?r" by simp
  have hd: "\<not> P (hd ?t)" using False by (rule hd_dropWhile)
  have w: "?w \<noteq> []" using hd False by (cases ?t) auto
  have c: "\<forall>c \<in> set ?w. \<not> P c" by (auto dest: set_takeWhileD)
  have r: "?r = [] \<or> P (hd ?r)" using hd_dropWhile [of "\<lambda>c. \<not> P c" ?t] by auto
  have "pieces P s = ?w # pieces P ?r"
    using pieces_field [OF w c r] t by (metis pieces_dropWhile)
  moreover have "length ?r < length s"
    using dropWhile_length_less [of ?t "\<lambda>c. \<not> P c"] hd False length_dropWhile_le [of P s] by linarith
  ultimately show ?thesis using field [OF t w c r] by blast
qed

lemma pieces_induct [case_names empty field]:
  assumes "\<And>s. dropWhile P s = [] \<Longrightarrow> Q s"
    and "\<And>s w r. dropWhile P s = w @ r \<Longrightarrow> w \<noteq> [] \<Longrightarrow> \<forall>c \<in> set w. \<not> P c \<Longrightarrow> r = [] \<or> P (hd r) \<Longrightarrow>
      pieces P s = w # pieces P r \<Longrightarrow> length r < length s \<Longrightarrow> Q r \<Longrightarrow> Q s"
  shows "Q s"
proof (induction "length s" arbitrary: s rule: less_induct)
  case less
  show ?case by (cases rule: pieces_cases [of P s]) (use assms less in blast)+
qed

lemma pieces_nonempty: "w \<in> set (pieces P s) \<Longrightarrow> w \<noteq> [] \<and> (\<forall>c \<in> set w. \<not> P c \<and> c \<in> set s)"
proof (induction s rule: pieces_induct [of P])
  case (empty s)
  then show ?case by (simp add: pieces.simps [of P s] Let_def del: dropWhile_eq_Nil_conv)
next
  case (field s w' r)
  have "set (w' @ r) \<subseteq> set s" using field(1) set_dropWhileD by (metis subsetI)
  with field show ?case by auto
qed

lemma pieces_cong: "(\<And>c. c \<in> set s \<Longrightarrow> P c = Q c) \<Longrightarrow> pieces P s = pieces Q s"
proof (induction s rule: pieces_induct [of P])
  case (empty s)
  then have "dropWhile Q s = []" by auto
  with empty(1) show ?case
    by (simp add: pieces.simps [of P s] pieces.simps [of Q s] Let_def del: dropWhile_eq_Nil_conv)
next
  case (field s w r)
  have d: "dropWhile Q s = w @ r" using field(1,8) dropWhile_cong [of s s Q P] by auto
  have sub: "set (w @ r) \<subseteq> set s" using field(1) set_dropWhileD by (metis subsetI)
  have "pieces Q s = w # pieces Q r"
    using pieces_field [of w Q r] field sub d
    by (metis Un_iff list.set_sel(1) pieces_dropWhile set_append subsetD)
  moreover have "pieces P r = pieces Q r" using field(7,8) sub by auto
  ultimately show ?case using field(5) by simp
qed

fun join :: "'a \<Rightarrow> 'a list list \<Rightarrow> 'a list" where
  "join c [] = []"
| "join c [x] = x"
| "join c (x # xs) = x @ c # join c xs"

lemma join_Cons: "xs \<noteq> [] \<Longrightarrow> join c (x # xs) = x @ c # join c xs"
  by (cases xs) auto

lemma join_snoc: "join c (xs @ [x]) = (if xs = [] then x else join c xs @ c # x)"
  by (induction xs rule: join.induct) auto

lemma pieces_join:
  "\<forall>x \<in> set xs. x \<noteq> [] \<and> c \<notin> set x \<Longrightarrow> pieces (\<lambda>d. d = c) (join c xs) = xs"
proof (induction xs rule: join.induct)
  case (2 c x)
  then show ?case using pieces_field [of x "\<lambda>d. d = c" "[]"] by auto
next
  case (3 c x y xs)
  then show ?case using pieces_field [of x "\<lambda>d. d = c" "c # join c (y # xs)"] by auto
qed simp

lemma is_cstr_join: "\<forall>x \<in> set xs. is_cstr x \<Longrightarrow> c \<noteq> NUL \<Longrightarrow> is_cstr (join c xs)"
  by (induction xs rule: join.induct) auto

text \<open>The length of a separated list, one separator counted per item.\<close>

definition span_size :: "'a list list \<Rightarrow> nat" where
  "span_size xs = sum_list (map (\<lambda>x. Suc (length x)) xs)"

lemma span_size_join: "xs \<noteq> [] \<Longrightarrow> Suc (length (join c xs)) = span_size xs"
  by (induction xs rule: join.induct) (auto simp: span_size_def)

lemma span_size_pieces_dropWhile: "span_size (pieces P s) \<le> Suc (length (dropWhile P s))"
proof (induction s rule: pieces_induct [of P])
  case (empty s)
  then show ?case by (simp add: span_size_def pieces.simps [of P s] Let_def del: dropWhile_eq_Nil_conv)
next
  case (field s w r)
  have "length (dropWhile P r) < length r" if "r \<noteq> []"
    using that field(4) dropWhile_length_less by blast
  with field(5,7) show ?case unfolding field(1) by (cases "r = []") (auto simp: span_size_def)
qed

lemma span_size_pieces: "span_size (pieces P s) \<le> Suc (length s)"
  using span_size_pieces_dropWhile [of P s] length_dropWhile_le [of P s] by linarith

section \<open>Words\<close>

lemma and_mask_bit: "(w :: u32) AND 2 ^ k \<noteq> 0 \<longleftrightarrow> bit w k"
  by (simp add: and_exp_eq_0_iff_not_bit)

lemma unat_and_mask: "unat ((w :: 'a::len word) AND mask k) = unat w mod 2 ^ k"
proof -
  have "unat (w AND mask k) = take_bit k (unat w)"
    by (simp add: take_bit_eq_mask [symmetric] unsigned_take_bit_eq)
  then show ?thesis by (simp add: take_bit_eq_mod)
qed

end
