(* ===== verification/Chattr.thy ===== *)
theory Chattr
  imports Prelude
begin

text \<open>
  The character tables (\<open>ircd/table_gen.c\<close>, \<open>include/ircd_chattr.h\<close>). The generator
  program \<open>table_gen.c\<close> builds the three tables that \<open>ircd_string.c\<close> includes as
  \<open>chattr.tab.c\<close>; the model runs the same sequence of marks on tables that are functions
  on characters. The closed forms that follow (\<open>chattr_simps\<close>) are proved from that run,
  and they are what the rest of the development rewrites with.
\<close>

section \<open>Attribute bits\<close>

definition NTL_ALNUM :: u32 where "NTL_ALNUM = 0x0001"
definition NTL_ALPHA :: u32 where "NTL_ALPHA = 0x0002"
definition NTL_CNTRL :: u32 where "NTL_CNTRL = 0x0004"
definition NTL_DIGIT :: u32 where "NTL_DIGIT = 0x0008"
definition NTL_GRAPH :: u32 where "NTL_GRAPH = 0x0010"
definition NTL_LOWER :: u32 where "NTL_LOWER = 0x0020"
definition NTL_PRINT :: u32 where "NTL_PRINT = 0x0040"
definition NTL_PUNCT :: u32 where "NTL_PUNCT = 0x0080"
definition NTL_SPACE :: u32 where "NTL_SPACE = 0x0100"
definition NTL_UPPER :: u32 where "NTL_UPPER = 0x0200"
definition NTL_IRCCH :: u32 where "NTL_IRCCH = 0x0400"
definition NTL_IRCCL :: u32 where "NTL_IRCCL = 0x0800"
definition NTL_IRCNK :: u32 where "NTL_IRCNK = 0x1000"
definition NTL_IRCUI :: u32 where "NTL_IRCUI = 0x2000"
definition NTL_IRCHN :: u32 where "NTL_IRCHN = 0x4000"
definition NTL_IRCIP :: u32 where "NTL_IRCIP = 0x8000"
definition NTL_EOL :: u32 where "NTL_EOL = 0x10000"
definition NTL_KTIME :: u32 where "NTL_KTIME = 0x20000"
definition NTL_CHPFX :: u32 where "NTL_CHPFX = 0x40000"
definition NTL_IRCIP6 :: u32 where "NTL_IRCIP6 = 0x80000"

lemmas NTL_defs =
  NTL_ALNUM_def NTL_ALPHA_def NTL_CNTRL_def NTL_DIGIT_def NTL_GRAPH_def NTL_LOWER_def
  NTL_PRINT_def NTL_PUNCT_def NTL_SPACE_def NTL_UPPER_def NTL_IRCCH_def NTL_IRCCL_def
  NTL_IRCNK_def NTL_IRCUI_def NTL_IRCHN_def NTL_IRCIP_def NTL_EOL_def NTL_KTIME_def
  NTL_CHPFX_def NTL_IRCIP6_def

section \<open>The table generator\<close>

record chattr_tables =
  NTL_tolower_tab :: "char \<Rightarrow> char"
  NTL_toupper_tab :: "char \<Rightarrow> char"
  NTL_char_attrib :: "char \<Rightarrow> u32"

definition zeroTables :: chattr_tables where
  "zeroTables = \<lparr>NTL_tolower_tab = (\<lambda>c. c), NTL_toupper_tab = (\<lambda>c. c),
     NTL_char_attrib = (\<lambda>_. 0)\<rparr>"

definition markString :: "u32 \<Rightarrow> string \<Rightarrow> chattr_tables \<Rightarrow> chattr_tables" where
  "markString macro s t = t\<lparr>NTL_char_attrib := (\<lambda>c.
     if List.member s c then NTL_char_attrib t c OR macro else NTL_char_attrib t c)\<rparr>"

definition unMarkString :: "u32 \<Rightarrow> string \<Rightarrow> chattr_tables \<Rightarrow> chattr_tables" where
  "unMarkString macro s t = t\<lparr>NTL_char_attrib := (\<lambda>c.
     if List.member s c then NTL_char_attrib t c AND NOT macro else NTL_char_attrib t c)\<rparr>"

definition in_range :: "char \<Rightarrow> char \<Rightarrow> char \<Rightarrow> bool" where
  "in_range from till c \<longleftrightarrow> (of_char from :: nat) \<le> of_char c \<and> (of_char c :: nat) \<le> of_char till"

definition markRange :: "u32 \<Rightarrow> char \<Rightarrow> char \<Rightarrow> chattr_tables \<Rightarrow> chattr_tables" where
  "markRange macro from till t = t\<lparr>NTL_char_attrib := (\<lambda>c.
     if in_range from till c then NTL_char_attrib t c OR macro else NTL_char_attrib t c)\<rparr>"

definition moveMacro :: "u32 \<Rightarrow> u32 \<Rightarrow> chattr_tables \<Rightarrow> chattr_tables" where
  "moveMacro from to t = t\<lparr>NTL_char_attrib := (\<lambda>c.
     if NTL_char_attrib t c AND from \<noteq> 0 then NTL_char_attrib t c OR to
     else NTL_char_attrib t c)\<rparr>"

text \<open>
  \<open>setLowHi\<close> walks the lower-case characters \<open>i\<close> of the range and sets
  \<open>tolower[j] = i\<close> and \<open>toupper[i] = j\<close> for \<open>j = i + (firsthi - firstlow)\<close>, reduced to a
  byte. Read as a table lookup at \<open>c\<close>: the lower-case entry changes when the \<open>i\<close> that
  \<open>c\<close> comes from lies in the range.
\<close>

definition setLowHi :: "char \<Rightarrow> char \<Rightarrow> char \<Rightarrow> chattr_tables \<Rightarrow> chattr_tables" where
  "setLowHi firstlow lastlow firsthi t = t\<lparr>
     NTL_tolower_tab := (\<lambda>c.
       let i = char_of (256 + of_char c + of_char firstlow - of_char firsthi :: nat)
       in if in_range firstlow lastlow i then i else NTL_tolower_tab t c),
     NTL_toupper_tab := (\<lambda>c.
       if in_range firstlow lastlow c
       then char_of (256 + of_char c + of_char firsthi - of_char firstlow :: nat)
       else NTL_toupper_tab t c)\<rparr>"

definition elementary_sets :: "chattr_tables \<Rightarrow> chattr_tables" where
  "elementary_sets t0 =
    (let t1 = markRange NTL_LOWER (CHR ''a'') (CHR ''z'') t0;
         t2 = markString NTL_LOWER ''{|}~'' t1;
         t3 = markRange NTL_UPPER (CHR ''A'') (CHR ''Z'') t2;
         t4 = markString NTL_UPPER [CHR ''['', CHR 0x5C, CHR '']'', CHR 0x5E] t3;
         t5 = markRange NTL_DIGIT (CHR ''0'') (CHR ''9'') t4;
         t6 = markRange NTL_CNTRL (CHR 0x00) (CHR 0x1F) t5;
         t7 = markString NTL_PUNCT
                (CHR ''!'' # CHR 0x22 # ''#$%&'' @ CHR 0x27 # ''()*+,-./:;<=>?@_'' @ [CHR 0x60]) t6
     in markString NTL_SPACE
          [CHR 0x09, CHR 0x0A, CHR 0x0B, CHR 0x0C, CHR 0x0D, CHR 0x20] t7)"

definition derived_sets :: "chattr_tables \<Rightarrow> chattr_tables" where
  "derived_sets t0 =
    (let t1 = moveMacro (NTL_LOWER OR NTL_UPPER) NTL_ALPHA t0;
         t2 = moveMacro (NTL_ALPHA OR NTL_DIGIT) NTL_ALNUM t1;
         t3 = moveMacro (NTL_ALNUM OR NTL_PUNCT) NTL_GRAPH t2;
         t4 = moveMacro NTL_GRAPH NTL_PRINT t3;
         t5 = markString NTL_PRINT '' '' t4;
         t6 = markRange NTL_IRCCH (CHR 0x21) (CHR 0xFF) t5;
         t7 = unMarkString NTL_IRCCH [CHR 0x2C, CHR 0xA0] t6;
         t8 = markRange NTL_IRCCL (CHR 0xC0) (CHR 0xD6) t7;
         t9 = markRange NTL_IRCCL (CHR 0xD8) (CHR 0xDE) t8;
         t10 = moveMacro NTL_ALNUM NTL_IRCHN t9;
         t11 = markString NTL_IRCHN ''-_.'' t10;
         t12 = moveMacro NTL_DIGIT NTL_IRCIP t11;
         t13 = markString NTL_IRCIP ''.'' t12;
         t14 = moveMacro NTL_DIGIT NTL_IRCIP6 t13;
         t15 = markString NTL_IRCIP6 '':.ABCDEFabcdef'' t14;
         t16 = moveMacro (NTL_DIGIT OR NTL_ALPHA) NTL_IRCNK t15;
         t17 = markString NTL_IRCNK [CHR ''-'', CHR ''_'', CHR 0x60] t16;
         t18 = moveMacro NTL_ALNUM NTL_IRCUI t17;
         t19 = markRange NTL_IRCUI (CHR 0xE0) (CHR 0xF6) t18;
         t20 = markRange NTL_IRCUI (CHR 0xF8) (CHR 0xFE) t19;
         t21 = markRange NTL_IRCUI (CHR 0xC0) (CHR 0xD6) t20;
         t22 = markRange NTL_IRCUI (CHR 0xD8) (CHR 0xDE) t21;
         t23 = markString NTL_IRCUI
                 [CHR ''.'', CHR ''-'', CHR ''_'', CHR 0x5E, CHR 0x27, CHR 0x60, CHR ''~''] t22;
         t24 = markString NTL_EOL [CHR 0x0A, CHR 0x0D] t23;
         t25 = markString NTL_CHPFX ''#&'' t24
     in markString NTL_KTIME '' ,-0123456789'' t25)"

definition makeTables :: chattr_tables where
  "makeTables =
    (let t = derived_sets (elementary_sets zeroTables);
         t1 = setLowHi (CHR ''a'') (CHR ''z'') (CHR ''A'') t;
         t2 = setLowHi (CHR 0xE0) (CHR 0xF6) (CHR 0xC0) t1;
         t3 = setLowHi (CHR 0xF8) (CHR 0xFE) (CHR 0xD8) t2
     in setLowHi (CHR ''{'') (CHR ''~'') (CHR ''['') t3)"

section \<open>The macros of \<open>ircd_chattr.h\<close>\<close>

definition ToLower :: "char \<Rightarrow> char" where "ToLower c = NTL_tolower_tab makeTables c"
definition ToUpper :: "char \<Rightarrow> char" where "ToUpper c = NTL_toupper_tab makeTables c"
definition CharAttr :: "char \<Rightarrow> u32" where "CharAttr c = NTL_char_attrib makeTables c"
definition IsAlnum :: "char \<Rightarrow> bool" where "IsAlnum c \<longleftrightarrow> CharAttr c AND NTL_ALNUM \<noteq> 0"
definition IsAlpha :: "char \<Rightarrow> bool" where "IsAlpha c \<longleftrightarrow> CharAttr c AND NTL_ALPHA \<noteq> 0"
definition IsDigit :: "char \<Rightarrow> bool" where "IsDigit c \<longleftrightarrow> CharAttr c AND NTL_DIGIT \<noteq> 0"
definition IsSpace :: "char \<Rightarrow> bool" where "IsSpace c \<longleftrightarrow> CharAttr c AND NTL_SPACE \<noteq> 0"
definition IsCntrl :: "char \<Rightarrow> bool" where "IsCntrl c \<longleftrightarrow> CharAttr c AND NTL_CNTRL \<noteq> 0"
definition IsChannelChar :: "char \<Rightarrow> bool" where
  "IsChannelChar c \<longleftrightarrow> CharAttr c AND NTL_IRCCH \<noteq> 0"

definition IsChannelPrefix :: "char \<Rightarrow> bool" where
  "IsChannelPrefix c \<longleftrightarrow> CharAttr c AND NTL_CHPFX \<noteq> 0"

definition IsNickChar :: "char \<Rightarrow> bool" where "IsNickChar c \<longleftrightarrow> CharAttr c AND NTL_IRCNK \<noteq> 0"
definition IsUserChar :: "char \<Rightarrow> bool" where "IsUserChar c \<longleftrightarrow> CharAttr c AND NTL_IRCUI \<noteq> 0"
definition IsHostChar :: "char \<Rightarrow> bool" where "IsHostChar c \<longleftrightarrow> CharAttr c AND NTL_IRCHN \<noteq> 0"
definition IsEol :: "char \<Rightarrow> bool" where "IsEol c \<longleftrightarrow> CharAttr c AND NTL_EOL \<noteq> 0"

section \<open>Closed forms\<close>

text \<open>
  The attribute words are read bit by bit. \<open>attr_bit\<close> keeps the powers of two folded, so
  that one rewrite rule per generator step (\<open>has_attr_simps\<close>) runs the generator on a
  single attribute.
\<close>

definition attr_bit :: "nat \<Rightarrow> u32" where "attr_bit k = 2 ^ k"

lemma NTL_bits:
  "NTL_ALNUM = attr_bit 0" "NTL_ALPHA = attr_bit 1" "NTL_CNTRL = attr_bit 2"
  "NTL_DIGIT = attr_bit 3" "NTL_GRAPH = attr_bit 4" "NTL_LOWER = attr_bit 5"
  "NTL_PRINT = attr_bit 6" "NTL_PUNCT = attr_bit 7" "NTL_SPACE = attr_bit 8"
  "NTL_UPPER = attr_bit 9" "NTL_IRCCH = attr_bit 10" "NTL_IRCCL = attr_bit 11"
  "NTL_IRCNK = attr_bit 12" "NTL_IRCUI = attr_bit 13" "NTL_IRCHN = attr_bit 14"
  "NTL_IRCIP = attr_bit 15" "NTL_EOL = attr_bit 16" "NTL_KTIME = attr_bit 17"
  "NTL_CHPFX = attr_bit 18" "NTL_IRCIP6 = attr_bit 19"
  by (simp_all add: NTL_defs attr_bit_def)

definition has_attr :: "chattr_tables \<Rightarrow> nat \<Rightarrow> char \<Rightarrow> bool" where
  "has_attr t k c \<longleftrightarrow> bit (NTL_char_attrib t c) k"

lemma and_attr_bits: "(w :: u32) AND (attr_bit i OR attr_bit j) = 0 \<longleftrightarrow> \<not> bit w i \<and> \<not> bit w j"
  by (simp add: attr_bit_def bit.conj_disj_distrib or_eq_0_iff and_exp_eq_0_iff_not_bit)

lemma and_attr_bit: "(w :: u32) AND attr_bit i = 0 \<longleftrightarrow> \<not> bit w i"
  by (simp add: attr_bit_def and_exp_eq_0_iff_not_bit)

lemma has_attr_simps:
  "k < 32 \<Longrightarrow> has_attr (markString (attr_bit j) s t) k c =
     (if j = k then has_attr t k c \<or> c \<in> set s else has_attr t k c)"
  "k < 32 \<Longrightarrow> has_attr (unMarkString (attr_bit j) s t) k c =
     (if j = k then has_attr t k c \<and> c \<notin> set s else has_attr t k c)"
  "k < 32 \<Longrightarrow> has_attr (markRange (attr_bit j) a b t) k c =
     (if j = k then has_attr t k c \<or> in_range a b c else has_attr t k c)"
  "k < 32 \<Longrightarrow> has_attr (moveMacro (attr_bit i) (attr_bit j) t) k c =
     (if j = k then has_attr t k c \<or> has_attr t i c else has_attr t k c)"
  "k < 32 \<Longrightarrow> has_attr (moveMacro (attr_bit i OR attr_bit i') (attr_bit j) t) k c =
     (if j = k then has_attr t k c \<or> has_attr t i c \<or> has_attr t i' c else has_attr t k c)"
  "has_attr (setLowHi x y z t) k c = has_attr t k c"
  "has_attr zeroTables k c = False"
  by (auto simp: has_attr_def markString_def unMarkString_def markRange_def moveMacro_def
      setLowHi_def zeroTables_def and_attr_bits and_attr_bit)
    (auto simp: attr_bit_def bit_simps)

lemma CharAttr_bit: "CharAttr c AND attr_bit k \<noteq> 0 \<longleftrightarrow> has_attr makeTables k c"
  by (simp add: CharAttr_def has_attr_def and_attr_bit)

lemmas attr_run =
  NTL_bits CharAttr_bit makeTables_def derived_sets_def elementary_sets_def Let_def has_attr_simps

lemma IsDigit_iff [chattr_simps]: "IsDigit c \<longleftrightarrow> in_range (CHR ''0'') (CHR ''9'') c"
  by (simp add: IsDigit_def attr_run)

lemma IsAlpha_iff [chattr_simps]: 
  "IsAlpha c \<longleftrightarrow> in_range (CHR ''A'') (CHR ''Z'') c \<or> in_range (CHR ''a'') (CHR ''z'') c
   \<or> c \<in> {CHR ''{'', CHR ''|'', CHR ''}'', CHR ''~'', CHR ''['', CHR 0x5C, CHR '']'', CHR 0x5E}"
  by (auto simp add: IsAlpha_def attr_run)

lemma IsAlnum_iff [chattr_simps]: "IsAlnum c \<longleftrightarrow> IsAlpha c \<or> IsDigit c"
  by (simp add: IsAlnum_def IsAlpha_iff IsDigit_iff attr_run) blast

lemma IsSpace_iff [chattr_simps]:
  "IsSpace c \<longleftrightarrow> c \<in> {CHR 0x09, CHR 0x0A, CHR 0x0B, CHR 0x0C, CHR 0x0D, CHR 0x20}"
  by (auto simp add: IsSpace_def attr_run)

lemma IsChannelPrefix_iff [chattr_simps]: "IsChannelPrefix c \<longleftrightarrow> c \<in> {CHR ''#'', CHR ''&''}"
  by (auto simp add: IsChannelPrefix_def attr_run)

lemma IsEol_iff [chattr_simps]: "IsEol c \<longleftrightarrow> c = CHR 0x0A \<or> c = CHR 0x0D"
  by (simp add: IsEol_def attr_run)

lemma setLowHi_lower:
  assumes "of_char hi \<le> (of_char lo :: nat)" "of_char lo \<le> (of_char la :: nat)"
  shows "NTL_tolower_tab (setLowHi lo la hi t) c =
    (if of_char hi \<le> (of_char c :: nat) \<and> of_char c + of_char lo \<le> of_char hi + (of_char la :: nat)
     then char_of (of_char c + of_char lo - of_char hi :: nat) else NTL_tolower_tab t c)"
proof -
  let ?n = "of_char c :: nat" and ?lo = "of_char lo :: nat"
    and ?la = "of_char la :: nat" and ?hi = "of_char hi :: nat"
  have b: "?n < 256" "?la < 256" by simp_all
  have eq: "256 + ?n + ?lo - ?hi = (?n + ?lo - ?hi) + 256" using assms by simp
  have ch: "char_of (256 + ?n + ?lo - ?hi) = char_of (?n + ?lo - ?hi)"
    unfolding eq by (metis char_of_mod_256 mod_add_self2)
  have "in_range lo la (char_of (?n + ?lo - ?hi)) \<longleftrightarrow> ?hi \<le> ?n \<and> ?n + ?lo \<le> ?hi + ?la"
  proof (cases "?n + ?lo - ?hi < 256")
    case True
    then have "(of_char (char_of (?n + ?lo - ?hi) :: char) :: nat) = ?n + ?lo - ?hi" by simp
    then show ?thesis using assms by (auto simp: in_range_def)
  next
    case False
    moreover have "?lo < 256" by simp
    ultimately have "?n + ?lo - ?hi - 256 < 256" "256 \<le> ?n + ?lo - ?hi" using b by linarith+
    then have "(of_char (char_of (?n + ?lo - ?hi) :: char) :: nat) = ?n + ?lo - ?hi - 256"
      by (simp add: le_mod_geq)
    then show ?thesis unfolding in_range_def using False b assms by linarith
  qed
  then show ?thesis
    by (simp add: setLowHi_def Let_def ch)
qed

lemma tolower_marks [simp]:
  "NTL_tolower_tab (markString m s t) = NTL_tolower_tab t"
  "NTL_tolower_tab (unMarkString m s t) = NTL_tolower_tab t"
  "NTL_tolower_tab (markRange m a b t) = NTL_tolower_tab t"
  "NTL_tolower_tab (moveMacro m m' t) = NTL_tolower_tab t"
  by (simp_all add: markString_def unMarkString_def markRange_def moveMacro_def)

lemma ToLower_eq [chattr_simps]:
  "ToLower c = (let n = of_char c :: nat in
     if 65 \<le> n \<and> n \<le> 94 \<or> 192 \<le> n \<and> n \<le> 214 \<or> 216 \<le> n \<and> n \<le> 222
     then char_of (n + 32) else c)"
  by (auto simp: ToLower_def makeTables_def Let_def setLowHi_lower derived_sets_def
      elementary_sets_def zeroTables_def)

lemma of_char_eq: "c = d \<longleftrightarrow> (of_char c :: nat) = of_char d" by simp

lemma of_char_ToLower:
  "of_char (ToLower c) = (let n = of_char c :: nat in
     if 65 \<le> n \<and> n \<le> 94 \<or> 192 \<le> n \<and> n \<le> 214 \<or> 216 \<le> n \<and> n \<le> 222
     then n + 32 else n)"
  by (simp add: ToLower_eq Let_def)

lemma ToLower_idem [simp]: "ToLower (ToLower c) = ToLower c"
proof -
  have "(of_char (ToLower (ToLower c)) :: nat) = of_char (ToLower c)"
    by (simp add: of_char_ToLower Let_def)
  then show ?thesis by simp
qed

lemma ToLower_NUL_iff [simp]: "ToLower c = NUL \<longleftrightarrow> c = NUL"
  by (auto simp add: of_char_eq [of _ NUL] of_char_ToLower Let_def simp del: of_char_eq_iff)

lemma NUL_ToLower_iff [simp]: "NUL = ToLower c \<longleftrightarrow> c = NUL"
  using ToLower_NUL_iff [of c] by metis

lemma ToLower_const [simp]:
  "ToLower NUL = NUL" "ToLower (CHR ''*'') = CHR ''*''" "ToLower (CHR ''?'') = CHR ''?''"
  "ToLower (CHR '','') = CHR '',''" "ToLower (CHR ''@'') = CHR ''@''"
  by (simp_all add: ToLower_eq)

lemma ToLower_wild [simp]:
  "ToLower c = CHR ''*'' \<longleftrightarrow> c = CHR ''*''" "ToLower c = CHR ''?'' \<longleftrightarrow> c = CHR ''?''"
  by (auto simp add: of_char_eq [of _ "CHR ''*''"] of_char_eq [of _ "CHR ''?''"] of_char_ToLower
      Let_def simp del: of_char_eq_iff)

text \<open>The closed forms are also the code equations, so that evaluation does not build the tables.\<close>

declare ToLower_eq [code] IsDigit_iff [code] IsAlpha_iff [code] IsAlnum_iff [code] IsSpace_iff [code]
  IsChannelPrefix_iff [code] IsEol_iff [code]

end
