(* ===== verification/IrcdString.thy ===== *)
theory IrcdString
  imports Chattr "HOL-Library.Signed_Division"
begin

text \<open>
  The string library of \<open>ircd/ircd_string.c\<close>: wildcard detection, the re-entrant tokenizer and
  the three list splitters built on the same idea (\<open>canonize\<close>, \<open>unique_name_vector\<close>,
  \<open>token_vector\<close>), the bounded copy, the case-insensitive comparisons, \<open>host_from_uh\<close> and
  \<open>itoa\<close>.  The address functions of the file are in the theory \<open>InAddr\<close>.

  A pointer into a string is the suffix it points to.  The in-place writes of a NUL over a
  separator show up as the token ending there: a token is the part of the string up to the NUL
  that was written.
\<close>

section \<open>Wildcards\<close>

fun string_has_wildcards :: "string \<Rightarrow> bool" where
  "string_has_wildcards [] = False"
| "string_has_wildcards (c # s) =
    (if c = CHR 0x5C then (case s of [] \<Rightarrow> False | _ # s' \<Rightarrow> string_has_wildcards s')
     else if c = CHR ''*'' \<or> c = CHR ''?'' then True
     else string_has_wildcards s)"

section \<open>Comparison\<close>

fun ircd_strcmp :: "string \<Rightarrow> string \<Rightarrow> int" where
  "ircd_strcmp a b =
    (if ToLower (deref a) = ToLower (deref b)
     then (case (a, b) of
             (_ # a', _ # b') \<Rightarrow> ircd_strcmp a' b'
           | _ \<Rightarrow> 0)
     else schar (ToLower (deref a)) - schar (ToLower (deref b)))"

declare ircd_strcmp.simps [simp del]

text \<open>The loop of \<open>ircd_strncmp\<close>, entered with \<open>left\<close> already decremented once.\<close>

fun ircd_strncmp_loop :: "string \<Rightarrow> string \<Rightarrow> nat \<Rightarrow> int" where
  "ircd_strncmp_loop a b left =
    (if ToLower (deref a) = ToLower (deref b)
     then (case (a, b) of
             (_ # a', _ # b') \<Rightarrow> (case left of 0 \<Rightarrow> 0 | Suc left' \<Rightarrow> ircd_strncmp_loop a' b' left')
           | _ \<Rightarrow> 0)
     else schar (ToLower (deref a)) - schar (ToLower (deref b)))"

declare ircd_strncmp_loop.simps [simp del]

definition ircd_strncmp :: "string \<Rightarrow> string \<Rightarrow> nat \<Rightarrow> int" where
  "ircd_strncmp a b n = (case n of 0 \<Rightarrow> 0 | Suc left \<Rightarrow> ircd_strncmp_loop a b left)"

section \<open>Bounded copy\<close>

text \<open>
  \<open>s\<close> is the write index into the buffer and \<open>n\<close> its bound \<open>endp\<close>.  The result carries the
  index after the loop, which the code compares with \<open>endp\<close>.
\<close>

function strncpy_loop :: "char list \<Rightarrow> nat \<Rightarrow> nat \<Rightarrow> string \<Rightarrow> char list \<times> nat" where
  "strncpy_loop buf s n s2 =
    (if s < n
     then (case s2 of [] \<Rightarrow> (buf[s := NUL], s + 1)
           | c # s2' \<Rightarrow> strncpy_loop (buf[s := c]) (s + 1) n s2')
     else (buf, s))"
  by pat_completeness auto
termination by (relation "measure (\<lambda>(buf, s, n, s2). n - s)") auto

declare strncpy_loop.simps [simp del]

definition ircd_strncpy :: "char list \<Rightarrow> string \<Rightarrow> nat \<Rightarrow> char list" where
  "ircd_strncpy s1 s2 n =
    (let (buf, s) = strncpy_loop s1 0 n s2 in if s = n then buf[s := NUL] else buf)"

definition host_from_uh :: "char list \<Rightarrow> string \<Rightarrow> nat \<Rightarrow> char list" where
  "host_from_uh buf userhost len =
    (let s = (case strchr userhost (CHR ''@'') of Some (_ # s) \<Rightarrow> s | _ \<Rightarrow> userhost)
     in (ircd_strncpy buf s len)[len := NUL])"

section \<open>Tokenizers\<close>

definition is_sep :: "string \<Rightarrow> char \<Rightarrow> bool" where
  "is_sep fs c \<longleftrightarrow> strchr fs c \<noteq> None"

definition ircd_strtok :: "string option \<Rightarrow> string option \<Rightarrow> string \<Rightarrow> string option \<times> string option" where
  "ircd_strtok save str fs =
    (let pos = (case str of Some s \<Rightarrow> Some s | None \<Rightarrow> save)
     in case pos of
          None \<Rightarrow> (None, None)
        | Some p \<Rightarrow>
            (let tmp = dropWhile (is_sep fs) p
             in if tmp = [] then (None, None)
                else (Some (takeWhile (\<lambda>c. \<not> is_sep fs c) tmp),
                      (case dropWhile (\<lambda>c. \<not> is_sep fs c) tmp of
                         [] \<Rightarrow> None | _ # r \<Rightarrow> Some r))))"

definition save_size :: "string option \<Rightarrow> nat" where
  "save_size save = (case save of None \<Rightarrow> 0 | Some p \<Rightarrow> Suc (length p))"

lemma save_size_simps [simp]: "save_size None = 0" "save_size (Some p) = Suc (length p)"
  by (simp_all add: save_size_def)

lemma after_sep_less: "dropWhile Q (dropWhile P p) = c # r \<Longrightarrow> length r < length p"
  using length_dropWhile_le [of Q "dropWhile P p"] length_dropWhile_le [of P p] by simp

lemma strtok_save_less:
  assumes "ircd_strtok save None fs = (Some t, save')"
  shows "save_size save' < save_size save"
proof (cases save)
  case None
  with assms show ?thesis by (simp add: ircd_strtok_def)
next
  case (Some p)
  let ?tmp = "dropWhile (is_sep fs) p"
  have save': "save' = (case dropWhile (\<lambda>c. \<not> is_sep fs c) ?tmp of [] \<Rightarrow> None | _ # r \<Rightarrow> Some r)"
    using assms unfolding ircd_strtok_def Some Let_def option.case
    by (simp only: prod.inject option.distinct simp_thms split: if_splits)
  show ?thesis
  proof (cases "dropWhile (\<lambda>c. \<not> is_sep fs c) ?tmp")
    case Nil
    show ?thesis unfolding save' Some Nil by simp
  next
    case (Cons c r)
    from after_sep_less [OF this] show ?thesis unfolding save' Some Cons by simp
  qed
qed

definition loop_size :: "string option \<times> string option \<Rightarrow> nat" where
  "loop_size tp = (case tp of (None, _) \<Rightarrow> 0 | (Some _, p) \<Rightarrow> Suc (save_size p))"

lemma loop_size_less: "loop_size (ircd_strtok p None fs) < loop_size (Some t, p)"
  using strtok_save_less [of p fs] by (auto simp: loop_size_def split: prod.split option.split)

text \<open>
  The inner loop of \<open>canonize\<close>: looks for \<open>s\<close> among the items of \<open>cbuf\<close>; the arguments \<open>t\<close>
  and \<open>p2\<close> are the loop's variables.  Each separator the tokenizer overwrites is restored
  through \<open>p2[-1] = ','\<close> before the next call or after the \<open>break\<close>, so \<open>cbuf\<close> is unchanged
  when the loop ends and only whether \<open>t\<close> is non-null is returned.
\<close>

function canonize_seek :: "string \<Rightarrow> string option \<times> string option \<Rightarrow> bool" where
  "canonize_seek s (None, p2) = False"
| "canonize_seek s (Some t, p2) =
    (if ircd_strcmp s t = 0 then True else canonize_seek s (ircd_strtok p2 None '',''))"
  by pat_completeness auto
termination by (relation "measure (\<lambda>(s, tp). loop_size tp)") (simp_all add: loop_size_less)

text \<open>
  The outer loop: \<open>cbuf\<close> is the string accumulated so far and \<open>l\<close> the flag that it holds an
  item.  \<open>cp\<close> stands after the NUL of the last item copied, so the write through \<open>cp - 1\<close> turns
  that NUL into a comma and the copy appends.
\<close>

function canonize_loop :: "string option \<times> string option \<Rightarrow> string \<Rightarrow> bool \<Rightarrow> string" where
  "canonize_loop (None, p) cbuf l = cbuf"
| "canonize_loop (Some s, p) cbuf l =
    (if l \<and> canonize_seek s (ircd_strtok None (Some cbuf) '','')
     then canonize_loop (ircd_strtok p None '','') cbuf l
     else canonize_loop (ircd_strtok p None '','') (if l then cbuf @ '','' @ s else s) True)"
  by pat_completeness auto
termination by (relation "measure (\<lambda>(tp, cbuf, l). loop_size tp)") (simp_all add: loop_size_less)

definition canonize :: "string \<Rightarrow> string" where
  "canonize buffer = canonize_loop (ircd_strtok None (Some buffer) '','') [] False"

lemma strchr_rest_less: "strchr s c = Some (d # r) \<Longrightarrow> length (dropWhile P r) < length s"
  using strchr_length [of s c "d # r"] length_dropWhile_le [of P r] by simp

text \<open>\<open>unique_name_vector\<close>: the strings the pointers of \<open>vector\<close> point to, in order.\<close>

function unv_loop :: "string \<Rightarrow> char \<Rightarrow> string list \<Rightarrow> nat \<Rightarrow> string list" where
  "unv_loop start token vector sz =
    (case strchr start token of
       Some (_ # rest) \<Rightarrow>
         (let name = take (length start - Suc (length rest)) start;
              nxt = dropWhile (\<lambda>c. c = token) rest
          in if (\<exists>v \<in> set vector. ircd_strcmp v name = 0)
             then unv_loop nxt token vector sz
             else (let vector' = vector @ [name]
                   in if length vector' = sz then vector' else unv_loop nxt token vector' sz))
     | _ \<Rightarrow>
         (if start = [] then vector
          else if (\<exists>v \<in> set vector. ircd_strcmp v start = 0) then vector
          else vector @ [start]))"
  by pat_completeness auto
termination
  by (relation "measure (\<lambda>(start, token, vector, sz). length start)")
    (auto dest: strchr_rest_less)

declare unv_loop.simps [simp del]

definition unique_name_vector :: "string \<Rightarrow> char \<Rightarrow> nat \<Rightarrow> string list" where
  "unique_name_vector names token sz =
    unv_loop (dropWhile (\<lambda>c. c = token) names) token [] sz"

text \<open>
  \<open>token_vector\<close>: the last pointer stored is left unterminated by this function, so its string
  is the unsplit rest of the input; it is returned beside the terminated ones.
\<close>

function tv_loop :: "string list \<Rightarrow> string \<Rightarrow> char \<Rightarrow> nat \<Rightarrow> string list" where
  "tv_loop acc start token sz =
    (case strchr start token of
       Some (_ # rest) \<Rightarrow>
         (let acc' = acc @ [take (length start - Suc (length rest)) start]
          in if rest = [] then acc'
             else if Suc (length acc') < sz then tv_loop acc' rest token sz
             else acc' @ [rest])
     | _ \<Rightarrow> acc @ [start])"
  by pat_completeness auto
termination
  by (relation "measure (\<lambda>(acc, start, token, sz). length start)")
    (auto dest: strchr_length)

declare tv_loop.simps [simp del]

definition token_vector :: "string \<Rightarrow> char \<Rightarrow> nat \<Rightarrow> string list" where
  "token_vector names token sz = tv_loop [] names token sz"

section \<open>Decimal output\<close>

text \<open>The digits in the order of the array \<open>s\<close>, least significant first.\<close>

lemma itoa_quot: "(n - n smod 10) sdiv 10 = (n :: int) sdiv 10"
proof -
  have "10 * m sdiv 10 = m" for m :: int
    by (simp add: signed_divide_int_def sgn_mult abs_mult mult_sgn_abs)
  then show ?thesis by (simp add: minus_smod_eq_mult_sdiv)
qed

function itoa_loop :: "int \<Rightarrow> string" where
  "itoa_loop n =
    (let c = char_of (n smod 10 + 48); n' = (n - n smod 10) sdiv 10
     in if 0 < n' then c # itoa_loop n' else [c])"
  by pat_completeness auto
termination
proof (relation "measure nat", goal_cases)
  case 1
  then show ?case by simp
next
  case (2 n c n')
  then have "0 < n sdiv 10" "n' = n sdiv 10" by (simp_all only: itoa_quot)
  then show ?case by (auto simp: signed_divide_int_def sgn_if split: if_splits)
qed

declare itoa_loop.simps [simp del]

definition itoa :: "int \<Rightarrow> string" where
  "itoa n = rev (itoa_loop n)"

section \<open>Correctness of comparison and copy\<close>

definition fold_eq :: "string \<Rightarrow> string \<Rightarrow> bool" where
  "fold_eq a b \<longleftrightarrow> map ToLower a = map ToLower b"

lemma ircd_strcmp_step [simp]:
  "ircd_strcmp [] [] = 0"
  "b \<noteq> NUL \<Longrightarrow> ircd_strcmp [] (b # bs) = - schar (ToLower b)"
  "a \<noteq> NUL \<Longrightarrow> ircd_strcmp (a # as) [] = schar (ToLower a)"
  "ircd_strcmp (a # as) (b # bs) =
    (if ToLower a = ToLower b then ircd_strcmp as bs
     else schar (ToLower a) - schar (ToLower b))"
  by (simp_all add: ircd_strcmp.simps [of "[]"] ircd_strcmp.simps [of "_ # _"])

lemma ircd_strcmp_0_iff:
  "is_cstr a \<Longrightarrow> is_cstr b \<Longrightarrow> ircd_strcmp a b = 0 \<longleftrightarrow> fold_eq a b"
proof (induction a arbitrary: b)
  case Nil
  then show ?case by (cases b) (auto simp: fold_eq_def)
next
  case (Cons x a)
  then show ?case by (cases b) (auto simp: fold_eq_def)
qed
lemma ircd_strcmp_less_iff:
  "is_cstr a \<Longrightarrow> is_cstr b \<Longrightarrow>
   ircd_strcmp a b < 0 \<longleftrightarrow>
   ord_class.lexordp (map (schar \<circ> ToLower) a @ [0]) (map (schar \<circ> ToLower) b @ [0])"
proof (induction a arbitrary: b)
  case Nil
  then show ?case by (cases b) (auto simp: order.strict_iff_order)
next
  case (Cons x a)
  show ?case
  proof (cases b)
    case Nil
    with Cons.prems show ?thesis by (auto simp: order.strict_iff_order)
  next
    case (Cons y b')
    have "ToLower x \<noteq> ToLower y \<Longrightarrow>
        schar (ToLower x) < schar (ToLower y) \<or> schar (ToLower y) < schar (ToLower x)"
      by (metis linorder_neqE schar_inject)
    with Cons Cons.prems Cons.IH [of b'] show ?thesis by auto
  qed
qed

lemma ircd_strncmp_loop_0_iff:
  "is_cstr a \<Longrightarrow> is_cstr b \<Longrightarrow>
   ircd_strncmp_loop a b k = 0 \<longleftrightarrow> fold_eq (take (Suc k) a) (take (Suc k) b)"
proof (induction a arbitrary: b k)
  case Nil
  then show ?case by (cases b) (auto simp: fold_eq_def ircd_strncmp_loop.simps [of "[]"])
next
  case (Cons x a)
  show ?case
  proof (cases b)
    case Nil
    with Cons.prems show ?thesis
      by (auto simp: fold_eq_def ircd_strncmp_loop.simps [of "_ # _"])
  next
    case (Cons y b')
    with Cons.prems Cons.IH [of b' "k - 1"] show ?thesis
      by (cases k) (auto simp: fold_eq_def ircd_strncmp_loop.simps [of "_ # _"])
  qed
qed

lemma ircd_strncmp_0_iff:
  "is_cstr a \<Longrightarrow> is_cstr b \<Longrightarrow> ircd_strncmp a b n = 0 \<longleftrightarrow> fold_eq (take n a) (take n b)"
  by (cases n) (simp_all add: ircd_strncmp_def ircd_strncmp_loop_0_iff fold_eq_def)

lemma strncpy_loop_spec:
  assumes "n < length buf" "s \<le> n"
  shows "strncpy_loop buf s n s2 =
    (if s + length s2 < n
     then (take s buf @ s2 @ [NUL] @ drop (Suc (s + length s2)) buf, Suc (s + length s2))
     else (take s buf @ take (n - s) s2 @ drop n buf, n))"
  using assms
proof (induction buf s n s2 rule: strncpy_loop.induct)
  case (1 buf s n s2)
  show ?case
  proof (cases "s < n")
    case False
    with "1.prems" show ?thesis by (simp add: strncpy_loop.simps [of buf])
  next
    case True
    show ?thesis
    proof (cases s2)
      case Nil
      with True "1.prems" show ?thesis
        by (simp add: strncpy_loop.simps [of buf] upd_conv_take_nth_drop)
    next
      case (Cons c s2')
      have t: "take (Suc s) (buf[s := c]) = take s buf @ [c]"
        using True "1.prems" by (simp add: take_Suc_conv_app_nth)
      show ?thesis
        using "1.IH" [OF True Cons] True "1.prems" Cons
        by (simp add: strncpy_loop.simps [of buf] t Suc_diff_Suc [symmetric])
    qed
  qed
qed

lemma ircd_strncpy_eq:
  assumes "n < length buf"
  shows "ircd_strncpy buf s2 n =
    (if Suc (length s2) < n then s2 @ [NUL] @ drop (Suc (length s2)) buf
     else take n (s2 @ [NUL]) @ [NUL] @ drop (Suc n) buf)"
proof -
  consider (lt) "Suc (length s2) < n" | (eq) "Suc (length s2) = n" | (gt) "n \<le> length s2"
    by linarith
  then show ?thesis
  proof cases
    case lt
    with assms show ?thesis by (simp add: ircd_strncpy_def strncpy_loop_spec)
  next
    case eq
    with assms show ?thesis
      by (auto simp add: ircd_strncpy_def strncpy_loop_spec list_update_append upd_conv_take_nth_drop)
  next
    case gt
    with assms show ?thesis
      by (auto simp add: ircd_strncpy_def strncpy_loop_spec list_update_append
           upd_conv_take_nth_drop Cons_nth_drop_Suc [symmetric])
  qed
qed

lemma ircd_strncpy_spec:
  assumes "n < length buf" "is_cstr s2"
  shows "cstr_of (ircd_strncpy buf s2 n) = take n s2"
    and "length (ircd_strncpy buf s2 n) = length buf"
    and "drop (Suc n) (ircd_strncpy buf s2 n) = drop (Suc n) buf"
    and "ircd_strncpy buf s2 n ! n = (if Suc (length s2) < n then buf ! n else NUL)"
proof -
  note e = ircd_strncpy_eq [OF assms(1), of s2]
  show "cstr_of (ircd_strncpy buf s2 n) = take n s2"
    using assms
    by (intro cstr_ofI) (auto simp: e is_cstr_take nth_append min_def)
  show "length (ircd_strncpy buf s2 n) = length buf"
    using assms by (auto simp: e)
  show "drop (Suc n) (ircd_strncpy buf s2 n) = drop (Suc n) buf"
    using assms by (cases "length s2 \<le> n") (auto simp: e Suc_diff_le min_def)
  show "ircd_strncpy buf s2 n ! n = (if Suc (length s2) < n then buf ! n else NUL)"
    using assms by (auto simp: e nth_append)
qed

lemma ircd_strncpy_force_NUL:
  assumes "n < length buf" "is_cstr s2"
  shows "cstr_of ((ircd_strncpy buf s2 n)[n := NUL]) = take n s2"
  using assms
  by (intro cstr_ofI)
    (auto simp: ircd_strncpy_eq is_cstr_take nth_append min_def nth_list_update list_update_append
      split: nat.splits)

lemma host_from_uh_spec:
  assumes "len < length buf" "is_cstr uh"
  shows "cstr_of (host_from_uh buf uh len) =
    take len (if CHR ''@'' \<in> set uh then tl (dropWhile (\<lambda>c. c \<noteq> CHR ''@'') uh) else uh)"
proof (cases "strchr uh (CHR ''@'')")
  case None
  moreover have "CHR ''@'' \<notin> set uh" using None by (subst strchr_None [symmetric]) auto
  ultimately show ?thesis using assms by (simp add: host_from_uh_def ircd_strncpy_force_NUL)
next
  case (Some t)
  then obtain u where u: "uh = u @ t" "CHR ''@'' \<notin> set u" "t \<noteq> []" "hd t = CHR ''@''"
    using strchr_Some [OF Some] by auto
  then obtain t' where t: "t = CHR ''@'' # t'" by (cases t) auto
  have "dropWhile (\<lambda>c. c \<noteq> CHR ''@'') uh = t"
    using u t by (auto simp: dropWhile_append3 dropWhile_append)
  moreover have "is_cstr t'" using assms u t by simp
  ultimately show ?thesis
    using assms Some u t by (auto simp: host_from_uh_def ircd_strncpy_force_NUL)
qed

section \<open>Correctness of the splitters and of decimal output\<close>

text \<open>All tokens a loop over \<open>ircd_strtok\<close> sees, from the result of a first call.\<close>

function strtok_tokens :: "string \<Rightarrow> string option \<times> string option \<Rightarrow> string list" where
  "strtok_tokens fs (None, p) = []"
| "strtok_tokens fs (Some t, p) = t # strtok_tokens fs (ircd_strtok p None fs)"
  by pat_completeness auto
termination by (relation "measure (\<lambda>(fs, tp). loop_size tp)") (simp_all add: loop_size_less)

lemma strtok_resume: "ircd_strtok (Some s) None fs = ircd_strtok None (Some s) fs"
  by (simp add: ircd_strtok_def)

lemma strtok_None [simp]: "ircd_strtok None None fs = (None, None)"
  by (simp add: ircd_strtok_def)

lemma strtok_field:
  assumes "dropWhile (is_sep fs) s = w @ r" "w \<noteq> []" "\<forall>c \<in> set w. \<not> is_sep fs c"
    "r = [] \<or> is_sep fs (hd r)"
  shows "ircd_strtok None (Some s) fs = (Some w, case r of [] \<Rightarrow> None | _ # r' \<Rightarrow> Some r')"
proof -
  have "takeWhile (\<lambda>c. \<not> is_sep fs c) (w @ r) = w"
    using assms by (cases r) (auto simp: takeWhile_append)
  moreover have "dropWhile (\<lambda>c. \<not> is_sep fs c) (w @ r) = r"
    using assms by (cases r) (auto simp: dropWhile_append)
  ultimately show ?thesis unfolding ircd_strtok_def Let_def option.case assms(1) using assms(2) by simp
qed

lemma strtok_tokens_pieces: "strtok_tokens fs (ircd_strtok None (Some s) fs) = pieces (is_sep fs) s"
proof (induction s rule: pieces_induct [of "is_sep fs"])
  case (empty s)
  then have "ircd_strtok None (Some s) fs = (None, None)"
    unfolding ircd_strtok_def Let_def option.case empty by simp
  with empty show ?case by (simp add: pieces.simps [of "is_sep fs" s] Let_def del: dropWhile_eq_Nil_conv)
next
  case (field s w r)
  have "strtok_tokens fs (ircd_strtok (case r of [] \<Rightarrow> None | _ # r' \<Rightarrow> Some r') None fs) =
    pieces (is_sep fs) r"
  proof (cases r)
    case (Cons c r')
    then have "is_sep fs c" using field(4) by simp
    then have "ircd_strtok None (Some r') fs = ircd_strtok None (Some r) fs"
      unfolding Cons by (simp add: ircd_strtok_def)
    with field(7) Cons show ?thesis by (simp add: strtok_resume)
  qed simp
  with field show ?case by (simp add: strtok_field)
qed

text \<open>Dropping the items that repeat an earlier one up to case.\<close>

fun dedup_onto :: "string list \<Rightarrow> string list \<Rightarrow> string list" where
  "dedup_onto acc [] = acc"
| "dedup_onto acc (x # xs) =
    (if \<exists>v \<in> set acc. fold_eq v x then dedup_onto acc xs else dedup_onto (acc @ [x]) xs)"

abbreviation dedup :: "string list \<Rightarrow> string list" where
  "dedup xs \<equiv> dedup_onto [] xs"

lemma dedup_onto_prefix: "\<exists>ys. dedup_onto acc xs = acc @ ys \<and> set ys \<subseteq> set xs"
proof (induction xs arbitrary: acc)
  case (Cons x xs)
  from Cons.IH [of acc] Cons.IH [of "acc @ [x]"] show ?case by fastforce
qed simp

lemma dedup_onto_complete: "x \<in> set xs \<union> set acc \<Longrightarrow> \<exists>v \<in> set (dedup_onto acc xs). fold_eq v x"
proof (induction xs arbitrary: acc)
  case Nil
  then show ?case by (auto simp: fold_eq_def)
next
  case (Cons y xs)
  show ?case
  proof (cases "\<exists>v \<in> set acc. fold_eq v y")
    case True
    then obtain v where v: "v \<in> set acc" "fold_eq v y" by blast
    have "v \<in> set (dedup_onto acc xs)" using v(1) dedup_onto_prefix [of acc xs] by auto
    then have "\<exists>u \<in> set (dedup_onto acc xs). fold_eq u y" using v(2) by auto
    moreover have "x = y \<or> x \<in> set xs \<union> set acc" using Cons.prems by auto
    ultimately show ?thesis using True Cons.IH [of acc] by auto
  next
    case False
    with Cons.IH [of "acc @ [y]"] Cons.prems show ?thesis by auto
  qed
qed

lemma dedup_onto_distinct:
  "distinct (map (map ToLower) acc) \<Longrightarrow> distinct (map (map ToLower) (dedup_onto acc xs))"
proof (induction xs arbitrary: acc)
  case (Cons x xs)
  show ?case
  proof (cases "\<exists>v \<in> set acc. fold_eq v x")
    case False
    then have "map ToLower x \<notin> map ToLower ` set acc" by (auto simp: fold_eq_def)
    with False Cons show ?thesis by simp
  qed (use Cons in simp)
qed simp

lemma dedup_onto_id:
  "distinct (map (map ToLower) (acc @ xs)) \<Longrightarrow> dedup_onto acc xs = acc @ xs"
proof (induction xs arbitrary: acc)
  case (Cons x xs)
  then have "\<not> (\<exists>v \<in> set acc. fold_eq v x)"
    by (auto simp: fold_eq_def) (metis image_eqI)
  with Cons.IH [of "acc @ [x]"] Cons.prems show ?case by simp
qed simp

lemma fold_eq_sym: "fold_eq a b \<longleftrightarrow> fold_eq b a" by (auto simp: fold_eq_def)

lemma canonize_seek_iff: "canonize_seek s tp \<longleftrightarrow> (\<exists>t \<in> set (strtok_tokens '','' tp). ircd_strcmp s t = 0)"
  by (induction s tp rule: canonize_seek.induct) auto

lemma comma_sep: "is_cstr s \<Longrightarrow> pieces (is_sep '','') s = pieces (\<lambda>c. c = CHR '','') s"
  by (intro pieces_cong) (auto simp: is_cstr_def is_sep_def)

definition items_ok :: "string list \<Rightarrow> bool" where
  "items_ok xs \<longleftrightarrow> (\<forall>x \<in> set xs. x \<noteq> [] \<and> CHR '','' \<notin> set x \<and> is_cstr x)"

lemma items_ok_pieces: "is_cstr s \<Longrightarrow> items_ok (pieces (\<lambda>c. c = CHR '','') s)"
  unfolding items_ok_def is_cstr_def using pieces_nonempty [of _ "\<lambda>c. c = CHR '',''" s] by blast

lemma canonize_seek_join:
  assumes "items_ok acc" "is_cstr s"
  shows "canonize_seek s (ircd_strtok None (Some (join (CHR '','') acc)) '','')
    \<longleftrightarrow> (\<exists>v \<in> set acc. fold_eq v s)"
proof -
  have "is_cstr (join (CHR '','') acc)" using assms(1) by (intro is_cstr_join) (auto simp: items_ok_def)
  moreover have "pieces (\<lambda>c. c = CHR '','') (join (CHR '','') acc) = acc"
    using assms(1) by (intro pieces_join) (auto simp: items_ok_def)
  moreover have "\<forall>v \<in> set acc. ircd_strcmp s v = 0 \<longleftrightarrow> fold_eq v s"
    using assms by (auto simp: ircd_strcmp_0_iff items_ok_def fold_eq_sym)
  ultimately show ?thesis by (simp add: canonize_seek_iff strtok_tokens_pieces comma_sep)
qed

lemma canonize_loop_eq:
  "items_ok (strtok_tokens '','' tp) \<Longrightarrow> items_ok acc \<Longrightarrow>
   canonize_loop tp (join (CHR '','') acc) (acc \<noteq> []) =
   join (CHR '','') (dedup_onto acc (strtok_tokens '','' tp))"
proof (induction "'',''" tp arbitrary: acc rule: strtok_tokens.induct)
  case (1 p)
  then show ?case by simp
next
  case (2 t p)
  have ok: "items_ok (strtok_tokens '','' (ircd_strtok p None '',''))" "is_cstr t" "items_ok [t]"
    using "2.prems" by (auto simp: items_ok_def)
  then have ok': "items_ok (acc @ [t])" using "2.prems"(2) by (auto simp: items_ok_def)
  note seek = canonize_seek_join [OF "2.prems"(2) ok(2)]
  show ?case
  proof (cases "\<exists>v \<in> set acc. fold_eq v t")
    case True
    then have "acc \<noteq> []" by auto
    with True "2.hyps" [OF ok(1) "2.prems"(2)] seek show ?thesis by simp
  next
    case False
    with "2.hyps" [OF ok(1) ok'] seek show ?thesis by (auto simp: join_snoc)
  qed
qed

theorem canonize_eq:
  assumes "is_cstr b"
  shows "canonize b = join (CHR '','') (dedup (pieces (\<lambda>c. c = CHR '','') b))"
  using canonize_loop_eq [of "ircd_strtok None (Some b) '',''" "[]"] items_ok_pieces [OF assms]
  by (simp add: canonize_def strtok_tokens_pieces comma_sep assms items_ok_def)

lemma dedup_items_ok: "items_ok xs \<Longrightarrow> items_ok (dedup xs)"
  using dedup_onto_prefix [of "[]" xs] by (auto simp: items_ok_def)

lemma canonize_pieces:
  assumes "is_cstr b"
  shows "pieces (\<lambda>c. c = CHR '','') (canonize b) = dedup (pieces (\<lambda>c. c = CHR '','') b)"
  using dedup_items_ok [OF items_ok_pieces [OF assms]] unfolding canonize_eq [OF assms]
  by (intro pieces_join) (auto simp: items_ok_def)

lemma canonize_cstr: "is_cstr b \<Longrightarrow> is_cstr (canonize b)"
  using dedup_items_ok [OF items_ok_pieces [of b]]
  by (auto simp: canonize_eq items_ok_def intro!: is_cstr_join)

lemma canonize_idem: 
  assumes "is_cstr b"
  shows "canonize (canonize b) = canonize b"
proof -
  let ?d = "dedup (pieces (\<lambda>c. c = CHR '','') b)"
  have "canonize (canonize b) = join (CHR '','') (dedup ?d)"
    using canonize_eq [OF canonize_cstr [OF assms]] canonize_pieces [OF assms] by simp
  also have "dedup ?d = ?d" by (simp add: dedup_onto_distinct dedup_onto_id)
  finally show ?thesis by (simp add: canonize_eq [OF assms])
qed

lemma span_size_dedup: "span_size (dedup_onto acc xs) \<le> span_size acc + span_size xs"
proof (induction xs arbitrary: acc)
  case (Cons x xs)
  from Cons.IH [of acc] Cons.IH [of "acc @ [x]"] show ?case by (auto simp: span_size_def)
qed (simp add: span_size_def)

lemma canonize_length:
  assumes "is_cstr b"
  shows "length (canonize b) \<le> length b"
proof -
  let ?p = "pieces (\<lambda>c. c = CHR '','') b"
  have "span_size (dedup ?p) \<le> Suc (length b)"
    using span_size_dedup [of "[]" ?p] span_size_pieces [of "\<lambda>c. c = CHR '',''" b]
    by (simp add: span_size_def)
  then show ?thesis using span_size_join [of "dedup ?p" "CHR '',''"]
    by (cases "dedup ?p") (auto simp: canonize_eq assms)
qed

lemma unv_loop_eq:
  assumes "is_cstr start" "start = [] \<or> hd start \<noteq> token" "token \<noteq> NUL" "length vec < sz"
    "\<forall>v \<in> set vec. is_cstr v"
  shows "unv_loop start token vec sz = take sz (dedup_onto vec (pieces (\<lambda>c. c = token) start))"
  using assms
proof (induction start token vec sz rule: unv_loop.induct)
  case (1 start token vec sz)
  show ?case
  proof (cases "strchr start token")
    case None
    then have n: "token \<notin> set start" using "1.prems"(3) strchr_None by blast
    show ?thesis
    proof (cases "start = []")
      case True
      with "1.prems" show ?thesis by (simp add: unv_loop.simps [of "[]"])
    next
      case False
      then have "pieces (\<lambda>c. c = token) start = [start]"
        using pieces_field [of start "\<lambda>c. c = token" "[]"] n by auto
      with False None "1.prems" show ?thesis
        by (auto simp: unv_loop.simps [of start] ircd_strcmp_0_iff)
    qed
  next
    case (Some t)
    obtain u where u: "start = u @ t" "token \<notin> set u" "t \<noteq> []" "hd t = token"
      using strchr_Some [OF Some] "1.prems"(3) by auto
    then obtain r where t: "t = token # r" by (cases t) auto
    have un: "u \<noteq> []" using u t "1.prems"(2) by (cases u) auto
    let ?e = "dropWhile (\<lambda>c. c = token) r"
    have p: "pieces (\<lambda>c. c = token) start = u # pieces (\<lambda>c. c = token) ?e"
      using pieces_field [of u "\<lambda>c. c = token" t] u un t by auto
    have nm: "take (length start - Suc (length r)) start = u" using u(1) t by simp
    have e: "is_cstr ?e" "?e = [] \<or> hd ?e \<noteq> token" "is_cstr u"
      using "1.prems"(1) u t hd_dropWhile [of "\<lambda>c. c = token" r]
      by (auto simp: is_cstr_def dest: set_dropWhileD)
    have ex: "(\<exists>v \<in> set vec. ircd_strcmp v u = 0) \<longleftrightarrow> (\<exists>v \<in> set vec. fold_eq v u)"
      using "1.prems"(5) e(3) by (auto simp: ircd_strcmp_0_iff)
    note step = unv_loop.simps [of start token vec sz, unfolded Some option.case t list.case nm Let_def ex]
    show ?thesis
    proof (cases "\<exists>v \<in> set vec. fold_eq v u")
      case True
      with step show ?thesis
        using "1.IH"(1) [OF Some t nm [symmetric] refl] ex e "1.prems" p by simp
    next
      case False
      show ?thesis
      proof (cases "length (vec @ [u]) = sz")
        case True
        obtain ys where "dedup_onto (vec @ [u]) (pieces (\<lambda>c. c = token) ?e) = (vec @ [u]) @ ys"
          using dedup_onto_prefix by blast
        with True False show ?thesis unfolding step p by (auto simp: Suc_diff_Suc)
      next
        case long: False
        with step show ?thesis
          using "1.IH"(2) [OF Some t nm [symmetric] refl] False ex e "1.prems" p by simp
      qed
    qed
  qed
qed

theorem unique_name_vector_eq:
  assumes "is_cstr names" "token \<noteq> NUL" "0 < sz"
  shows "unique_name_vector names token sz = take sz (dedup (pieces (\<lambda>c. c = token) names))"
proof -
  have "is_cstr (dropWhile (\<lambda>c. c = token) names)"
    using assms(1) by (auto simp: is_cstr_def dest: set_dropWhileD)
  moreover have "dropWhile (\<lambda>c. c = token) names = [] \<or> hd (dropWhile (\<lambda>c. c = token) names) \<noteq> token"
    using hd_dropWhile [of "\<lambda>c. c = token" names] by auto
  ultimately show ?thesis
    unfolding unique_name_vector_def using assms unv_loop_eq by (subst unv_loop_eq) auto
qed

lemma tv_loop_join:
  assumes "token \<noteq> NUL"
  shows "join token (tv_loop acc start token sz) = join token (acc @ [start]) \<or>
    join token (tv_loop acc start token sz) @ [token] = join token (acc @ [start])"
  using assms
proof (induction acc start token sz rule: tv_loop.induct)
  case (1 acc start token sz)
  show ?case
  proof (cases "strchr start token")
    case None
    then show ?thesis by (simp add: tv_loop.simps [of acc])
  next
    case (Some t)
    obtain u where u: "start = u @ t" "token \<notin> set u" "t \<noteq> []" "hd t = token"
      using strchr_Some [OF Some] "1.prems" by auto
    then obtain r where t: "t = token # r" by (cases t) auto
    have nm: "take (length start - Suc (length r)) start = u" using u(1) t by simp
    note step = tv_loop.simps [of acc start token sz, unfolded Some option.case t list.case nm Let_def]
    have j: "join token ((acc @ [u]) @ [r]) = join token (acc @ [start])"
      using u(1) t by (simp add: join_snoc del: append_assoc)
    have j': "r = [] \<Longrightarrow> join token (acc @ [u]) @ [token] = join token (acc @ [start])"
      using u(1) t by (simp add: join_snoc)
    show ?thesis
      using "1.IH" [OF Some t refl, unfolded nm] "1.prems" j j' unfolding step by (auto split: if_splits)
  qed
qed

lemma tv_loop_length: "Suc (length acc) < sz \<Longrightarrow> length (tv_loop acc start token sz) \<le> sz"
proof (induction acc start token sz rule: tv_loop.induct)
  case (1 acc start token sz)
  show ?case
  proof (cases "\<exists>c r. strchr start token = Some (c # r)")
    case True
    then obtain c r where s: "strchr start token = Some (c # r)" by blast
    show ?thesis
      using "1.IH" [OF s refl refl] "1.prems"
      unfolding tv_loop.simps [of acc start token sz, unfolded s option.case list.case Let_def]
      by (auto split: if_splits)
  next
    case False
    then show ?thesis using "1.prems"
      by (simp add: tv_loop.simps [of acc] split: option.splits list.splits)
  qed
qed

definition dec_value :: "string \<Rightarrow> int" where
  "dec_value s = foldl (\<lambda>a c. 10 * a + (of_char c - 48)) 0 s"

lemma dec_value_snoc: "dec_value (s @ [c]) = 10 * dec_value s + (of_char c - 48)"
  by (simp add: dec_value_def)

lemma of_char_digit: "0 \<le> m \<Longrightarrow> m < 10 \<Longrightarrow> of_char (char_of (m + 48) :: char) = (m + 48 :: int)"
  by (simp add: of_char_of)

lemma digit_0_iff: "0 \<le> m \<Longrightarrow> m < 10 \<Longrightarrow> char_of (m + 48) = CHR ''0'' \<longleftrightarrow> m = (0 :: int)"
proof -
  assume "0 \<le> m" "m < 10"
  then have "of_char (char_of (m + 48) :: char) = m + 48" by (rule of_char_digit)
  moreover have "of_char (CHR ''0'') = (48 :: int)" by simp
  ultimately show ?thesis by (metis add_cancel_left_left of_char_eq_iff)
qed

lemma itoa_loop_nonneg:
  "0 \<le> n \<Longrightarrow> itoa_loop n =
    (if n div 10 = 0 then [char_of (n + 48)] else char_of (n mod 10 + 48) # itoa_loop (n div 10))"
proof -
  assume "0 \<le> n"
  then have m: "n smod 10 = n mod 10" "n sdiv 10 = n div 10" "0 \<le> n div 10" "n div 10 = 0 \<longrightarrow> n mod 10 = n"
    by (auto simp: signed_modulo_int_def signed_divide_int_def sgn_if)
  from m(3,4) show ?thesis 
    unfolding itoa_loop.simps [of n] itoa_quot unfolding Let_def m(1,2) by auto
qed

lemma itoa_loop_value:
  "0 \<le> n \<Longrightarrow> dec_value (rev (itoa_loop n)) = n \<and> (\<forall>c \<in> set (itoa_loop n). IsDigit c) \<and>
    (0 < n \<longrightarrow> last (itoa_loop n) \<noteq> CHR ''0'') \<and> itoa_loop n \<noteq> []"
proof (induction "nat n" arbitrary: n rule: less_induct)
  case less
  have dig: "IsDigit (char_of (m + 48))" if "0 \<le> m" "m < 10" for m :: int
  proof -
    have "int (of_char (char_of (m + 48) :: char)) = m + 48"
      using of_char_digit [OF that] of_nat_of_char by metis
    with that show ?thesis by (simp add: chattr_simps in_range_def)
  qed
  show ?case
  proof (cases "n div 10 = 0")
    case True
    then have "n < 10" using less.prems by presburger
    then show ?thesis using less.prems dig [of n] True itoa_loop_nonneg [OF less.prems]
     by (auto simp: dec_value_def of_char_digit digit_0_iff)
  next
    case False
    then have "0 < n div 10" "nat (n div 10) < nat n" using less.prems by auto
    then show ?thesis using less.hyps [of "n div 10"] less.prems itoa_loop_nonneg [of n] dig [of "n mod 10"] False
      by (auto simp: dec_value_snoc of_char_digit)
  qed
qed

lemma itoa_value:
  assumes "0 \<le> n"
  shows "dec_value (itoa n) = n" "\<forall>c \<in> set (itoa n). IsDigit c"
    "0 < n \<Longrightarrow> hd (itoa n) \<noteq> CHR ''0''"
  using itoa_loop_value [OF assms] by (auto simp: itoa_def hd_rev)

section \<open>Properties\<close>

text \<open>
  \<open>ircd_strcmp\<close> is 0 exactly on strings that are equal up to case and negative exactly when the
  folded strings, with their terminators, are in lexicographic order of signed characters.
\<close>

lemma strcmp_order:
  assumes "is_cstr a" "is_cstr b"
  shows "(ircd_strcmp a b = 0 \<longleftrightarrow> map ToLower a = map ToLower b) \<and>
    (ircd_strcmp a b < 0 \<longleftrightarrow>
     ord_class.lexordp (map (schar \<circ> ToLower) a @ [0]) (map (schar \<circ> ToLower) b @ [0]))"
  using assms by (simp add: ircd_strcmp_0_iff ircd_strcmp_less_iff fold_eq_def)

text \<open>
  \<open>ircd_strncpy\<close> leaves in the buffer the first \<open>n\<close> characters of the source, NUL-terminated, and
  writes no byte behind position \<open>n\<close>.
\<close>

lemma strncpy_bounded:
  assumes "n < length buf" "is_cstr s2"
  shows "cstr_of (ircd_strncpy buf s2 n) = take n s2 \<and> length (ircd_strncpy buf s2 n) = length buf \<and>
    drop (Suc n) (ircd_strncpy buf s2 n) = drop (Suc n) buf"
  using assms by (simp add: ircd_strncpy_spec)

text \<open>
  \<open>canonize\<close> is the list of the items of its argument without those that repeat an earlier one up
  to case; it is idempotent and its result is no longer than its argument.
\<close>

lemma canonize_correct:
  assumes "is_cstr b"
  shows "canonize b = join (CHR '','') (dedup (pieces (\<lambda>c. c = CHR '','') b)) \<and>
    canonize (canonize b) = canonize b \<and> length (canonize b) \<le> length b"
  using canonize_eq [OF assms] canonize_idem [OF assms] canonize_length [OF assms] by blast

text \<open>
  \<open>unique_name_vector\<close> gives the first \<open>size\<close> distinct non-empty items, in order.
\<close>

lemma unique_name_vector_correct:
  assumes "is_cstr names" "token \<noteq> NUL" "0 < sz"
  shows "unique_name_vector names token sz = take sz (dedup (pieces (\<lambda>c. c = token) names)) \<and>
    distinct (map (map ToLower) (unique_name_vector names token sz))"
  using assms by (simp add: unique_name_vector_eq dedup_onto_distinct take_map [symmetric] distinct_take)

end
