(* ===== verification/Match.thy ===== *)
theory Match
  imports IrcdString
begin

text \<open>
  The wildcard matcher of \<open>ircd/match.c\<close> (\<open>match\<close> and \<open>collapse\<close>; \<open>mmatch\<close> is in \<open>Mmatch\<close>) and its
  specification.  The source's loops move four pointers into two strings; here a pointer is the
  suffix it points to, so the test \<open>m_tmp == mask\<close> compares suffixes of one string.  A read past
  the terminating NUL is the outcome \<open>None\<close>.
\<close>

section \<open>The matcher\<close>

text \<open>
  The state of \<open>match\<close> between two rounds of its loop: \<open>m\<close>, \<open>n\<close>, \<open>m_tmp\<close>, \<open>n_tmp\<close>.  A round
  either returns (\<open>Inl\<close>) or continues (\<open>Inr\<close>).
\<close>

type_synonym mstate = "string \<times> string \<times> string \<times> string"

definition backtrack :: "string \<Rightarrow> string \<Rightarrow> string \<Rightarrow> int option + mstate" where
  "backtrack msk m_tmp n_tmp =
    (if m_tmp = msk then Inl (Some 1)
     else case n_tmp of
            [] \<Rightarrow> Inl None
          | _ # n \<Rightarrow> if n = [] then Inl (Some 1) else Inr (m_tmp, n, m_tmp, n))"

text \<open>The inner loop over a run of wildcards; \<open>None\<close> is its \<open>goto backtrack\<close>.\<close>

fun wild_run :: "string \<Rightarrow> string \<Rightarrow> bool \<Rightarrow> (string \<times> string \<times> bool) option" where
  "wild_run [] n star_p = Some ([], n, star_p)"
| "wild_run (c # m) n star_p =
    (if c = CHR ''*'' then wild_run m n True
     else if c = CHR ''?'' then (case n of [] \<Rightarrow> None | _ # n' \<Rightarrow> wild_run m n' star_p)
     else Some (c # m, n, star_p))"

definition normal_character :: "string \<Rightarrow> mstate \<Rightarrow> int option + mstate" where
  "normal_character msk st = (case st of (m, n, m_tmp, n_tmp) \<Rightarrow>
    (case n of
       [] \<Rightarrow> Inl (Some (if deref m \<noteq> NUL then 1 else 0))
     | d # n' \<Rightarrow>
         if ToLower (deref m) \<noteq> ToLower d then backtrack msk m_tmp n_tmp
         else Inr (tl m, n', m_tmp, n_tmp)))"

definition is_wild :: "char \<Rightarrow> bool" where
  "is_wild c \<longleftrightarrow> c = CHR ''*'' \<or> c = CHR ''?''"

definition match_step :: "string \<Rightarrow> mstate \<Rightarrow> int option + mstate" where
  "match_step msk st = (case st of (m, n, m_tmp, n_tmp) \<Rightarrow>
    (case m of
       [] \<Rightarrow> if n = [] then Inl (Some 0) else backtrack msk m_tmp n_tmp
     | c # m1 \<Rightarrow>
         if c = CHR 0x5C then
           normal_character msk (if is_wild (deref m1) then m1 else m, n, m_tmp, n_tmp)
         else if is_wild c then
           (case wild_run m n False of
              None \<Rightarrow> backtrack msk m_tmp n_tmp
            | Some (m', n', star_p) \<Rightarrow>
                if star_p then
                  (if m' = [] then Inl (Some 0)
                   else normal_character msk
                     (m', dropWhile (\<lambda>d. ToLower d \<noteq> ToLower (deref m')) n', m', n'))
                else normal_character msk (m', n', m_tmp, n_tmp))
         else normal_character msk st))"

lemma wild_run_length:
  "wild_run m n s = Some (m', n', s') \<Longrightarrow> length m' \<le> length m \<and> length n' \<le> length n"
proof (induction m arbitrary: n s)
  case (Cons c m)
  then show ?case by (fastforce split: if_splits list.splits)
qed simp

lemma wild_run_shorter:
  assumes "wild_run (c # m) n s = Some (m', n', s')" "is_wild c"
  shows "length m' \<le> length m" "length n' \<le> length n"
  using assms wild_run_length [of m n True m' n' s'] wild_run_length [of m "tl n" s m' n' s']
  by (auto simp: is_wild_def split: if_splits list.splits)

definition match_measure :: "mstate \<Rightarrow> nat \<times> nat \<times> nat" where
  "match_measure st = (case st of (m, n, mt, nt) \<Rightarrow>
     (max (length m) (length mt), max (length n) (length nt), length m))"

lemma backtrack_Inr:
  "backtrack msk mt nt = Inr st' \<Longrightarrow> mt \<noteq> msk \<and> nt \<noteq> [] \<and> tl nt \<noteq> [] \<and> st' = (mt, tl nt, mt, tl nt)"
  by (auto simp: backtrack_def split: if_splits list.splits)

lemma normal_character_Inr:
  "normal_character msk (m, n, mt, nt) = Inr st' \<Longrightarrow>
   n \<noteq> [] \<and> st' = (tl m, tl n, mt, nt) \<or> backtrack msk mt nt = Inr st'"
  by (auto simp: normal_character_def split: if_splits list.splits)

lemma match_step_less:
  assumes "match_step msk st = Inr st'"
  shows "(match_measure st', match_measure st) \<in> less_than <*lex*> less_than <*lex*> less_than"
proof -
  obtain m n mt nt where st: "st = (m, n, mt, nt)" by (cases st) auto
  have bt: "(match_measure st', match_measure (m, n, mt, nt)) \<in> less_than <*lex*> less_than <*lex*> less_than"
    if "backtrack msk mt nt = Inr st'"
    using backtrack_Inr [OF that] by (cases nt) (auto simp: match_measure_def)
  have nc: "(match_measure st', match_measure (m, n, mt, nt)) \<in> less_than <*lex*> less_than <*lex*> less_than"
    if "normal_character msk (m', n', mt, nt) = Inr st'" "length (tl m') < length m" "length n' \<le> length n"
    for m' n'
    using normal_character_Inr [OF that(1)]
  proof
    assume "n' \<noteq> [] \<and> st' = (tl m', tl n', mt, nt)"
    with that(2,3) show ?thesis by (cases n') (auto simp: match_measure_def)
  qed (rule bt)
  show ?thesis
  proof (cases m)
    case Nil
    with assms st bt show ?thesis by (auto simp: match_step_def split: if_splits)
  next
    case (Cons c m1)
    consider "c = CHR 0x5C" | "c \<noteq> CHR 0x5C" "\<not> is_wild c" | "c \<noteq> CHR 0x5C" "is_wild c" by blast
    then show ?thesis
    proof cases
      case 1
      then show ?thesis using assms nc [of "if is_wild (deref m1) then m1 else m" n] unfolding st Cons
        by (cases m1) (auto simp: match_step_def split: if_splits)
    next
      case 2
      then show ?thesis using assms nc [of m n] unfolding st Cons
        by (auto simp: match_step_def)
    next
      case 3
      show ?thesis
      proof (cases "wild_run m n False")
        case None
        with 3 assms bt show ?thesis unfolding st Cons by (simp add: match_step_def)
      next
        case (Some r)
        obtain m' n' star where r: "r = (m', n', star)" by (cases r) auto
        have l: "length m' \<le> length m1" "length n' \<le> length n"
          using wild_run_shorter [of c m1 n False m' n' star] Some r 3 Cons by auto
        show ?thesis
        proof (cases star)
          case False
          with 3 assms Some r l nc [of m' n'] show ?thesis unfolding st Cons
            by (simp add: match_step_def)
        next
          case True
          with 3 assms Some r l show ?thesis unfolding st Cons
            by (auto simp: match_step_def match_measure_def split: if_splits
                dest!: normal_character_Inr backtrack_Inr)
        qed
      qed
    qed
  qed
qed

function match_loop :: "string \<Rightarrow> mstate \<Rightarrow> int option" where
  "match_loop msk st = (case match_step msk st of Inl r \<Rightarrow> r | Inr st' \<Rightarrow> match_loop msk st')"
  by pat_completeness auto
termination
proof (relation "inv_image (less_than <*lex*> less_than <*lex*> less_than) (match_measure \<circ> snd)", goal_cases)
  case 1
  then show ?case by (intro wf_inv_image wf_lex_prod wf_less_than)
next
  case (2 msk st st')
  then show ?case using match_step_less by (simp add: in_inv_image)
qed

declare match_loop.simps [simp del]

definition match :: "string \<Rightarrow> string \<Rightarrow> int option" where
  "match msk name = match_loop msk (msk, name, msk, name)"

section \<open>The specification and the correctness of the matcher\<close>

datatype tok = Star | Any | Lit char

fun toks :: "string \<Rightarrow> tok list" where
  "toks [] = []"
| "toks (c # m) =
    (if c = CHR 0x5C \<and> is_wild (deref m) then Lit (hd m) # toks (tl m)
     else if c = CHR ''*'' then Star # toks m
     else if c = CHR ''?'' then Any # toks m
     else Lit c # toks m)"

fun tmatch :: "tok list \<Rightarrow> string \<Rightarrow> bool" where
  "tmatch [] n = (n = [])"
| "tmatch (Star # ts) [] = tmatch ts []"
| "tmatch (Star # ts) (d # n) = (tmatch ts (d # n) \<or> tmatch (Star # ts) n)"
| "tmatch (Any # ts) n = (n \<noteq> [] \<and> tmatch ts (tl n))"
| "tmatch (Lit c # ts) n = (n \<noteq> [] \<and> ToLower (hd n) = ToLower c \<and> tmatch ts (tl n))"

fun minlen_of :: "tok list \<Rightarrow> nat" where
  "minlen_of [] = 0"
| "minlen_of (Star # ts) = minlen_of ts"
| "minlen_of (_ # ts) = Suc (minlen_of ts)"

lemma tmatch_Star: "tmatch (Star # ts) n \<longleftrightarrow> (\<exists>q \<le> length n. tmatch ts (drop q n))"
proof (induction n)
  case (Cons d n)
  have "(\<exists>q \<le> length (d # n). tmatch ts (drop q (d # n))) \<longleftrightarrow>
    tmatch ts (d # n) \<or> (\<exists>q \<le> length n. tmatch ts (drop q n))"
    by (metis (no_types, opaque_lifting) Suc_le_mono drop0 drop_Suc_Cons le0 length_Cons not0_implies_Suc)
  with Cons show ?case by simp
qed simp

lemma tmatch_minlen: "tmatch ts n \<Longrightarrow> minlen_of ts \<le> length n"
proof (induction ts n rule: tmatch.induct)
  case (4 ts n)
  then show ?case by (cases n) auto
next
  case (5 c ts n)
  then show ?case by (cases n) auto
qed auto

definition starless :: "tok list \<Rightarrow> bool" where
  "starless ts \<longleftrightarrow> Star \<notin> set ts"

lemma starless_append: "starless seg \<Longrightarrow> tmatch (seg @ ts) n \<longleftrightarrow>
  length seg \<le> length n \<and> tmatch seg (take (length seg) n) \<and> tmatch ts (drop (length seg) n)"
proof (induction seg arbitrary: n)
  case (Cons t seg)
  then show ?case by (cases t; cases n) (auto simp: starless_def)
qed simp

lemma minlen_append: "starless seg \<Longrightarrow> minlen_of (seg @ ts) = length seg + minlen_of ts"
  by (induction seg rule: minlen_of.induct) (auto simp: starless_def)

definition escape :: "string \<Rightarrow> bool" where
  "escape m \<longleftrightarrow> deref m = CHR 0x5C \<and> is_wild (deref (tl m))"

text \<open>Masks in which no escaped wildcard directly follows a wildcard.\<close>

fun esc_ok :: "string \<Rightarrow> bool" where
  "esc_ok [] = True"
| "esc_ok (c # m) =
    (if c = CHR 0x5C \<and> is_wild (deref m) then esc_ok (tl m)
     else (is_wild c \<longrightarrow> \<not> escape m) \<and> esc_ok m)"

lemma tmatch_Star_Star: "tmatch (Star # Star # ts) n \<longleftrightarrow> tmatch (Star # ts) n"
  by (induction n) auto

lemma tmatch_Star_Any: "tmatch (Star # Any # ts) (d # n) \<longleftrightarrow> tmatch (Star # ts) n"
  by (induction n arbitrary: d) auto

lemma tmatch_Star_drop: "tmatch (Star # ts) (drop j n) \<Longrightarrow> tmatch (Star # ts) n"
proof (induction n arbitrary: j)
  case (Cons d n)
  then show ?case by (cases j) auto
qed simp

definition starred :: "bool \<Rightarrow> tok list \<Rightarrow> tok list" where
  "starred s ts = (if s then Star # ts else ts)"

lemma toks_wild: "toks (CHR ''*'' # m) = Star # toks m" "toks (CHR ''?'' # m) = Any # toks m"
  by simp_all

lemma wild_run_None: "wild_run m n s = None \<Longrightarrow> \<not> tmatch (starred s (toks m)) n"
proof (induction m arbitrary: n s)
  case (Cons c m)
  consider "c = CHR ''*''" | "c = CHR ''?''" | "\<not> is_wild c" by (auto simp: is_wild_def)
  then show ?case
  proof cases
    case 1
    then show ?thesis using Cons.IH [of n True] Cons.prems
      by (auto simp: starred_def tmatch_Star_Star)
  next
    case 2
    then show ?thesis using Cons.IH [of "tl n" s] Cons.prems
      by (cases n) (auto simp: starred_def tmatch_Star_Any simp del: tmatch.simps(3))
  next
    case 3
    then show ?thesis using Cons.prems by (simp add: is_wild_def)
  qed
qed simp

lemma wild_run_Some:
  "wild_run m n s = Some (m', n', s') \<Longrightarrow>
   tmatch (starred s (toks m)) n \<longleftrightarrow> tmatch (starred s' (toks m')) n'"
proof (induction m arbitrary: n s)
  case (Cons c m)
  consider "c = CHR ''*''" | "c = CHR ''?''" | "\<not> is_wild c" by (auto simp: is_wild_def)
  then show ?case
  proof cases
    case 1
    then show ?thesis using Cons.IH [of n True] Cons.prems
      by (auto simp: starred_def tmatch_Star_Star)
  next
    case 2
    then show ?thesis using Cons.IH [of "tl n" s] Cons.prems
      by (cases n) (auto simp: starred_def tmatch_Star_Any simp del: tmatch.simps(3))
  next
    case 3
    then show ?thesis using Cons.prems by (auto simp: is_wild_def)
  qed
qed simp

lemma wild_run_any:
  "wild_run m n s = Some (m', n', s') \<Longrightarrow>
   \<exists>r. n' = drop r n \<and> r \<le> length n \<and>
     (\<forall>x. wild_run m x s = (if r \<le> length x then Some (m', drop r x, s') else None))"
proof (induction m arbitrary: n s)
  case (Cons c m)
  consider "c = CHR ''*''" | "c = CHR ''?''" | "\<not> is_wild c" by (auto simp: is_wild_def)
  then show ?case
  proof cases
    case 1
    then show ?thesis using Cons.IH [of n True] Cons.prems by auto
  next
    case 2
    then obtain d n1 where n: "n = d # n1" "wild_run m n1 s = Some (m', n', s')"
      using Cons.prems by (auto split: list.splits)
    from Cons.IH [OF n(2)] obtain r where
      r: "n' = drop r n1" "r \<le> length n1"
        "\<And>x. wild_run m x s = (if r \<le> length x then Some (m', drop r x, s') else None)" by blast
    show ?thesis
      by (rule exI [of _ "Suc r"]) (use 2 n r in \<open>auto split: list.splits\<close>)
  next
    case 3
    then show ?thesis using Cons.prems by (intro exI [of _ 0]) (auto simp: is_wild_def)
  qed
qed (auto intro!: exI [of _ 0])

lemma star_closed:
  assumes "wild_run m n False = Some (m', n', True)" "tmatch (toks m) (drop j n)"
  shows "tmatch (toks m) n"
proof -
  obtain r where r: "n' = drop r n"
    "\<And>x. wild_run m x False = (if r \<le> length x then Some (m', drop r x, True) else None)"
    using wild_run_any [OF assms(1)] by blast
  have *: "r \<le> length (drop j n)"
    using assms(2) wild_run_None [of m "drop j n" False] r(2) [of "drop j n"]
    by (cases "r \<le> length (drop j n)") (auto simp: starred_def)
  then have "tmatch (Star # toks m') (drop r (drop j n))"
    using assms(2) wild_run_Some [of m "drop j n" False m' "drop r (drop j n)" True] r(2)
    by (auto simp: starred_def)
  then have "tmatch (Star # toks m') (drop r n)"
    using tmatch_Star_drop [of "toks m'" j "drop r n"] by (simp add: add.commute)
  then show ?thesis
    using wild_run_Some [OF assms(1)] r(1) by (simp add: starred_def)
qed

lemma wild_run_True: "wild_run m n True = Some (m', n', s') \<Longrightarrow> s'"
  by (induction m arbitrary: n) (auto split: if_splits list.splits)

lemma wild_run_nostar:
  "wild_run m n False = Some (m', n', False) \<Longrightarrow>
   \<exists>r. toks m = replicate r Any @ toks m' \<and> n' = drop r n \<and> r \<le> length n"
proof (induction m arbitrary: n)
  case (Cons c m)
  consider "c = CHR ''*''" | "c = CHR ''?''" | "\<not> is_wild c" by (auto simp: is_wild_def)
  then show ?case
  proof cases
    case 1
    then show ?thesis using Cons.prems wild_run_True by fastforce
  next
    case 2
    then obtain d n1 where n: "n = d # n1" "wild_run m n1 False = Some (m', n', False)"
      using Cons.prems by (auto split: list.splits)
    from Cons.IH [OF n(2)] obtain r where
      r: "toks m = replicate r Any @ toks m'" "n' = drop r n1" "r \<le> length n1" by blast
    show ?thesis by (rule exI [of _ "Suc r"]) (use 2 n r in auto)
  next
    case 3
    then show ?thesis using Cons.prems by (intro exI [of _ 0]) (auto simp: is_wild_def)
  qed
qed (auto intro!: exI [of _ 0])

lemma wild_run_stop:
  assumes "wild_run m n s = Some (m', n', s')" "esc_ok m" "\<not> escape m" "is_cstr m" "is_cstr n"
  shows "esc_ok m' \<and> \<not> escape m' \<and> \<not> is_wild (deref m') \<and> is_cstr m' \<and> is_cstr n'"
  using assms
proof (induction m arbitrary: n s)
  case Nil
  then show ?case by (simp add: is_wild_def)
next
  case (Cons c m)
  consider "c = CHR ''*''" | "c = CHR ''?''" | "\<not> is_wild c" by (auto simp: is_wild_def)
  then show ?case
  proof cases
    case 1
    then show ?thesis using Cons.IH [of n True] Cons.prems by (auto simp: is_wild_def)
  next
    case 2
    then obtain d n1 where n: "n = d # n1" "wild_run m n1 s = Some (m', n', s')"
      using Cons.prems by (auto split: list.splits)
    with 2 show ?thesis using Cons.IH [of n1 s] Cons.prems by (auto simp: is_wild_def)
  next
    case 3
    then show ?thesis using Cons.prems by (auto simp: is_wild_def)
  qed
qed

text \<open>
  The invariant of the loop.  Before the first star the rest of the mask must match the rest of
  the name.  Afterwards \<open>m_tmp\<close> is the part of the mask after the last run with a star: the mask
  matches iff that part matches the name from some position at or after \<open>n_tmp\<close>; the positions
  before \<open>p\<close> are known not to do, and at \<open>p\<close> the tokens between \<open>m_tmp\<close> and \<open>m\<close> have matched.
\<close>

definition lit_head :: "tok list \<Rightarrow> bool" where
  "lit_head ts \<longleftrightarrow> (\<exists>c ts'. ts = Lit c # ts')"

definition star_inv :: "string \<Rightarrow> string \<Rightarrow> mstate \<Rightarrow> nat \<Rightarrow> tok list \<Rightarrow> bool" where
  "star_inv msk name st p seg = (case st of (m, n, mt, nt) \<Rightarrow>
    starless seg \<and> toks mt = seg @ toks m \<and> p + length seg \<le> length nt \<and>
    n = drop (p + length seg) nt \<and> tmatch seg (take (length seg) (drop p nt)) \<and> nt \<noteq> [] \<and>
    lit_head (toks mt) \<and> (\<forall>q < p. \<not> tmatch (toks mt) (drop q nt)) \<and>
    (tmatch (toks msk) name \<longleftrightarrow> (\<exists>q. tmatch (toks mt) (drop q nt))))"

definition match_inv :: "string \<Rightarrow> string \<Rightarrow> mstate \<Rightarrow> bool" where
  "match_inv msk name st = (case st of (m, n, mt, nt) \<Rightarrow>
    esc_ok m \<and> esc_ok mt \<and> is_cstr m \<and> is_cstr n \<and> is_cstr mt \<and> is_cstr nt \<and>
    length m \<le> length msk \<and> length mt \<le> length msk \<and>
    (if mt = msk then tmatch (toks msk) name \<longleftrightarrow> tmatch (toks m) n
     else \<exists>p seg. star_inv msk name st p seg))"

definition outcome_ok :: "string \<Rightarrow> string \<Rightarrow> int option + mstate \<Rightarrow> bool" where
  "outcome_ok msk name out = (case out of
     Inl r \<Rightarrow> r = Some (if tmatch (toks msk) name then 0 else 1)
   | Inr st \<Rightarrow> match_inv msk name st)"

lemma tmatch_Lit_Nil: "\<not> tmatch (Lit c # ts) []" by simp

lemma star_inv_at: "star_inv msk name (m, n, mt, nt) p seg \<Longrightarrow>
  tmatch (toks mt) (drop p nt) \<longleftrightarrow> tmatch (toks m) n"
  unfolding star_inv_def by (auto simp: starless_append add.commute)

lemma star_inv_fail:
  assumes "star_inv msk name (m, n, mt, nt) p seg" "\<not> tmatch (toks m) n"
  shows "tmatch (toks msk) name \<longleftrightarrow> (\<exists>q. tmatch (toks mt) (drop q (tl nt)))"
proof -
  have "\<not> tmatch (toks mt) (drop 0 nt)"
    using assms star_inv_at [OF assms(1)] by (cases "p = 0") (auto simp: star_inv_def)
  then have "(\<exists>q. tmatch (toks mt) (drop q nt)) \<longleftrightarrow> (\<exists>q. tmatch (toks mt) (drop (Suc q) nt))"
    using not0_implies_Suc by metis
  with assms(1) show ?thesis by (simp add: star_inv_def drop_Suc)
qed

lemma backtrack_ok:
  assumes "match_inv msk name (m, n, mt, nt)" "\<not> tmatch (toks m) n"
  shows "outcome_ok msk name (backtrack msk mt nt)"
proof (cases "mt = msk")
  case True
  with assms show ?thesis by (simp add: match_inv_def outcome_ok_def backtrack_def)
next
  case False
  with assms obtain p seg where i: "star_inv msk name (m, n, mt, nt) p seg"
    by (auto simp: match_inv_def)
  obtain d n1 where nt: "nt = d # n1" using i by (cases nt) (auto simp: star_inv_def)
  obtain c ts where c: "toks mt = Lit c # ts"
    using i unfolding star_inv_def prod.case lit_head_def by blast
  have g: "tmatch (toks msk) name \<longleftrightarrow> (\<exists>q. tmatch (toks mt) (drop q n1))"
    using star_inv_fail [OF i assms(2)] nt by simp
  show ?thesis
  proof (cases "n1 = []")
    case True
    with g c False nt show ?thesis by (simp add: outcome_ok_def backtrack_def)
  next
    case n1: False
    have "star_inv msk name (mt, n1, mt, n1) 0 []"
      using g c n1 by (simp add: star_inv_def starless_def lit_head_def)
    moreover have "is_cstr n1" using assms(1) nt by (simp add: match_inv_def)
    ultimately have "match_inv msk name (mt, n1, mt, n1)"
      using assms(1) False by (auto simp: match_inv_def)
    with False nt n1 show ?thesis by (simp add: outcome_ok_def backtrack_def)
  qed
qed

lemma no_room:
  assumes "match_inv msk name (m, [], mt, nt)" "toks m = Lit c # ts"
  shows "\<not> tmatch (toks msk) name"
proof (cases "mt = msk")
  case True
  with assms show ?thesis by (simp add: match_inv_def)
next
  case False
  with assms obtain p seg where i: "star_inv msk name (m, [], mt, nt) p seg"
    by (auto simp: match_inv_def)
  have l: "length nt = p + length seg" using i by (auto simp: star_inv_def)
  have "\<not> tmatch (toks mt) (drop q nt)" for q
  proof (cases "q < p")
    case False
    have "length seg < minlen_of (toks mt)" using i assms(2) by (auto simp: star_inv_def minlen_append)
    then show ?thesis using tmatch_minlen [of "toks mt" "drop q nt"] l False by auto
  qed (use i in \<open>auto simp: star_inv_def\<close>)
  with i show ?thesis by (auto simp: star_inv_def)
qed

lemma normal_ok:
  assumes "match_inv msk name (m, n, mt, nt)" "toks m = Lit (deref m0) # toks (tl m0)"
    "deref m0 \<noteq> NUL" "esc_ok (tl m0)" "is_cstr (tl m0)" "length (tl m0) \<le> length msk"
  shows "outcome_ok msk name (normal_character msk (m0, n, mt, nt))"
proof (cases n)
  case Nil
  with assms no_room [of msk name m mt nt "deref m0"] show ?thesis
    by (simp add: normal_character_def outcome_ok_def)
next
  case (Cons d n1)
  show ?thesis
  proof (cases "ToLower (deref m0) = ToLower d")
    case False
    then have "\<not> tmatch (toks m) n" using assms(2) Cons by auto
    with backtrack_ok [OF assms(1)] False Cons show ?thesis by (simp add: normal_character_def)
  next
    case True
    have "match_inv msk name (tl m0, n1, mt, nt)"
    proof (cases "mt = msk")
      case mt: True
      with assms Cons True show ?thesis by (auto simp: match_inv_def)
    next
      case mt: False
      with assms(1) obtain p seg where i: "star_inv msk name (m, n, mt, nt) p seg"
        by (auto simp: match_inv_def)
      have nd: "drop (p + length seg) nt = d # n1" using i Cons by (simp add: star_inv_def)
      then have l: "p + length seg < length nt" by (metis drop_eq_Nil2 linorder_not_less list.simps(3))
      have n1: "n1 = drop (Suc (p + length seg)) nt" using nd by (simp add: drop_Suc tl_drop [symmetric])
      have t: "take (Suc (length seg)) (drop p nt) = take (length seg) (drop p nt) @ [d]"
        using nd l by (simp add: take_Suc_conv_app_nth) (metis hd_drop_conv_nth list.sel(1))
      have "star_inv msk name (tl m0, n1, mt, nt) p (seg @ [Lit (deref m0)])"
        using i l t n1 True assms(2) by (auto simp: star_inv_def starless_append starless_def)
      with assms Cons mt show ?thesis by (auto simp: match_inv_def)
    qed
    with True Cons show ?thesis by (simp add: normal_character_def outcome_ok_def)
  qed
qed

lemma toks_plain:
  assumes "m \<noteq> []" "\<not> is_wild (deref m)" "\<not> escape m"
  shows "toks m = Lit (deref m) # toks (tl m)"
  using assms by (cases m) (auto simp: is_wild_def escape_def)

lemma toks_escape:
  assumes "escape m"
  shows "toks m = Lit (deref (tl m)) # toks (tl (tl m))"
  using assms by (cases m; cases "tl m") (auto simp: is_wild_def escape_def)

lemma esc_ok_tl: "esc_ok m \<Longrightarrow> \<not> escape m \<Longrightarrow> esc_ok (tl m)"
  by (cases m) (auto simp: escape_def)

lemma is_cstr_tl: "is_cstr m \<Longrightarrow> is_cstr (tl m)" by (cases m) auto

lemma match_inv_Any:
  assumes "match_inv msk name (m, n, mt, nt)" "toks m = replicate r Any @ toks m'" "r \<le> length n"
    "esc_ok m'" "is_cstr m'" "length m' \<le> length msk"
  shows "match_inv msk name (m', drop r n, mt, nt)"
proof -
  have ar: "tmatch (replicate k Any) x \<longleftrightarrow> length x = k" for k x
  proof (induction k arbitrary: x)
    case (Suc k)
    then show ?case by (cases x) auto
  qed simp
  have al: "starless (replicate k Any)" for k by (auto simp: starless_def)
  have e: "tmatch (toks m) n \<longleftrightarrow> tmatch (toks m') (drop r n)"
    using assms(2,3) by (simp add: starless_append al ar)
  show ?thesis
  proof (cases "mt = msk")
    case True
    with assms e show ?thesis by (auto simp: match_inv_def is_cstr_drop)
  next
    case False
    with assms(1) obtain p seg where i: "star_inv msk name (m, n, mt, nt) p seg"
      by (auto simp: match_inv_def)
    have t: "take (length seg + r) (drop p nt) = take (length seg) (drop p nt) @ take r n"
    proof -
      have "n = drop (length seg) (drop p nt)" using i by (auto simp: star_inv_def add.commute)
      then show ?thesis by (simp only: take_add)
    qed
    have "star_inv msk name (m', drop r n, mt, nt) p (seg @ replicate r Any)"
      using i assms(2,3) t ar [of r]
      by (auto simp: star_inv_def starless_append starless_def ac_simps)
    with assms False show ?thesis by (auto simp: match_inv_def is_cstr_drop)
  qed
qed

lemma star_ok:
  assumes "match_inv msk name (m, n, mt, nt)" "wild_run m n False = Some (m', n', True)"
    "m' \<noteq> []" "esc_ok m'" "\<not> escape m'" "\<not> is_wild (deref m')" "is_cstr m'" "is_cstr n'" 
    "length m' < length msk"
  shows "outcome_ok msk name (normal_character msk
    (m', dropWhile (\<lambda>d. ToLower d \<noteq> ToLower (deref m')) n', m', n'))"
proof -
  let ?G = "tmatch (toks msk) name"
  have G: "?G \<longleftrightarrow> tmatch (toks m) n"
  proof (cases "mt = msk")
    case False
    with assms(1) obtain p seg where i: "star_inv msk name (m, n, mt, nt) p seg"
      by (auto simp: match_inv_def)
    have "tmatch (toks m) n" if "tmatch (toks mt) (drop q nt)" for q
    proof -
      have "p \<le> q" using i that by (force simp: star_inv_def not_less [symmetric])
      then have "tmatch (toks m) (drop (q - p) n)"
        using that i by (auto simp: star_inv_def starless_append ac_simps)
      then show ?thesis using star_closed assms(2) by blast
    qed
    with star_inv_at [OF i] i show ?thesis by (auto simp: star_inv_def)
  qed (use assms(1) in \<open>simp add: match_inv_def\<close>)
  have G': "?G \<longleftrightarrow> (\<exists>q \<le> length n'. tmatch (toks m') (drop q n'))"
    using G wild_run_Some [OF assms(2)] by (simp add: starred_def tmatch_Star)
  have tk: "toks m' = Lit (deref m') # toks (tl m')" using assms by (intro toks_plain)
  let ?k = "length (takeWhile (\<lambda>d. ToLower d \<noteq> ToLower (deref m')) n')"
  have dw: "dropWhile (\<lambda>d. ToLower d \<noteq> ToLower (deref m')) n' = drop ?k n'" by (rule dropWhile_eq_drop)
  have lo: "\<not> tmatch (toks m') (drop q n')" if "q < ?k" for q
  proof -
    have "q < length n'" using that length_takeWhile_le order_less_le_trans by blast
    moreover have "ToLower (n' ! q) \<noteq> ToLower (deref m')"
      using that by (metis (mono_tags, lifting) nth_mem set_takeWhileD takeWhile_nth)
    ultimately show ?thesis by (simp add: tk hd_drop_conv_nth)
  qed
  show ?thesis
  proof (cases "drop ?k n'")
    case Nil
    have "\<not> tmatch (toks m') (drop q n')" for q
    proof (cases "q < ?k")
      case False
      with Nil have "drop q n' = []" by simp
      then show ?thesis by (simp add: tk)
    qed (rule lo)
    then have "\<not> ?G" using G' by blast
    moreover have "deref m' \<noteq> NUL" using assms(3,7) by (cases m') auto
    ultimately show ?thesis unfolding dw Nil by (simp add: normal_character_def outcome_ok_def)
  next
    case (Cons d n1)
    have d: "ToLower d = ToLower (deref m')"
      using hd_dropWhile [of "\<lambda>d. ToLower d \<noteq> ToLower (deref m')" n'] Cons dw by auto
    have k: "?k < length n'" using Cons by (metis drop_eq_Nil2 linorder_not_less list.simps(3))
    have n1: "n1 = drop (Suc ?k) n'" using Cons by (simp add: drop_Suc tl_drop [symmetric])
    have g: "?G \<longleftrightarrow> (\<exists>q. tmatch (toks m') (drop q n'))"
      unfolding G' by (metis drop_all nle_le order_refl)
    have "take 1 (drop ?k n') = [d]" using Cons by simp
    then have "star_inv msk name (tl m', n1, m', n') ?k [Lit (deref m')]"
      unfolding star_inv_def prod.case using k n1 lo d g tk Cons
      by (intro conjI) (auto simp: starless_def lit_head_def)
    then have "match_inv msk name (tl m', n1, m', n')"
      using assms n1 by (auto simp: match_inv_def esc_ok_tl is_cstr_tl is_cstr_drop)
    then show ?thesis unfolding dw Cons using d by (simp add: normal_character_def outcome_ok_def)
  qed
qed

lemma inv_success:
  assumes "match_inv msk name (m, n, mt, nt)" "tmatch (toks m) n"
  shows "tmatch (toks msk) name"
proof (cases "mt = msk")
  case False
  with assms(1) obtain p seg where i: "star_inv msk name (m, n, mt, nt) p seg"
    by (auto simp: match_inv_def)
  with star_inv_at [OF i] assms(2) show ?thesis by (auto simp: star_inv_def)
qed (use assms in \<open>simp add: match_inv_def\<close>)

lemma plain_ok:
  assumes "match_inv msk name (m, n, mt, nt)" "\<not> escape m" "\<not> is_wild (deref m)"
  shows "outcome_ok msk name (normal_character msk (m, n, mt, nt))"
proof (cases m)
  case Nil
  show ?thesis
  proof (cases n)
    case n: Nil
    with inv_success [OF assms(1)] Nil show ?thesis
      by (simp add: normal_character_def outcome_ok_def)
  next
    case (Cons d n1)
    then have "NUL \<noteq> ToLower d" using assms(1) by (auto simp: match_inv_def)
    with backtrack_ok [OF assms(1)] Cons Nil show ?thesis by (auto simp: normal_character_def)
  qed
next
  case (Cons c m1)
  have ok: "esc_ok m" "is_cstr m" "length m \<le> length msk" using assms(1) by (auto simp: match_inv_def)
  show ?thesis
    using normal_ok [OF assms(1), of m] toks_plain [of m] assms(2,3) ok esc_ok_tl [OF ok(1) assms(2)]
    by (auto simp: Cons)
qed

lemma wild_ok:
  assumes inv: "match_inv msk name (m, n, mt, nt)" and m: "m = c # m1" "is_wild c"
    and run: "wild_run m n False = Some (m', n', star)"
  shows "outcome_ok msk name
    (if star then
       (if m' = [] then Inl (Some 0)
        else normal_character msk (m', dropWhile (\<lambda>d. ToLower d \<noteq> ToLower (deref m')) n', m', n'))
     else normal_character msk (m', n', mt, nt))"
proof -
  have ok: "esc_ok m" "is_cstr m" "is_cstr n" "length m \<le> length msk" "\<not> escape m"
    using inv m by (auto simp: match_inv_def is_wild_def escape_def)
  note stop = wild_run_stop [OF run ok(1,5,2,3)]
  have lt: "length m' < length msk"
    using wild_run_shorter [of c m1 n False m' n' star] run m ok(4) by auto
  show ?thesis
  proof (cases star)
    case True
    show ?thesis
    proof (cases "m' = []")
      case m': True
      have "tmatch [Star] x" for x by (induction x) auto
      then have "tmatch (toks m) n"
        using wild_run_Some [OF run] True m' by (simp add: starred_def)
      with inv_success [OF inv] True m' show ?thesis by (simp add: outcome_ok_def)
    next
      case False
      with star_ok [OF inv, of m' n'] run True stop lt show ?thesis by auto
    qed
  next
    case False
    then obtain q where q: "toks m = replicate q Any @ toks m'" "n' = drop q n" "q \<le> length n"
      using wild_run_nostar [of m n m' n'] run by auto
    have "match_inv msk name (m', n', mt, nt)"
      using match_inv_Any [OF inv q(1,3)] stop lt q(2) by simp
    with plain_ok stop False show ?thesis by auto
  qed
qed

lemma match_step_ok:
  assumes "match_inv msk name st"
  shows "outcome_ok msk name (match_step msk st)"
proof -
  obtain m n mt nt where st: "st = (m, n, mt, nt)" by (cases st) auto
  note inv = assms [unfolded st]
  have ok: "esc_ok m" "is_cstr m" "is_cstr n" "length m \<le> length msk"
    using inv by (auto simp: match_inv_def)
  consider (nil) "m = []" | (esc) "m \<noteq> []" "escape m" | (wild) "m \<noteq> []" "is_wild (deref m)"
    | (lit) "m \<noteq> []" "\<not> escape m" "\<not> is_wild (deref m)" by blast
  then show ?thesis
  proof cases
    case nil
    with inv_success [OF inv] backtrack_ok [OF inv] show ?thesis
      by (auto simp: st match_step_def outcome_ok_def [of msk name "Inl _"])
  next
    case esc
    then obtain w m1 where m: "m = CHR 0x5C # w # m1" "is_wild w"
      by (cases m; cases "tl m") (auto simp: escape_def is_wild_def)
    have "outcome_ok msk name (normal_character msk (w # m1, n, mt, nt))"
      using normal_ok [OF inv, of "w # m1"] m ok by auto
    then show ?thesis using m by (simp add: st match_step_def)
  next
    case wild
    then obtain c m1 where m: "m = c # m1" "is_wild c" by (cases m) auto
    have c: "c \<noteq> CHR 0x5C" using m by (auto simp: is_wild_def)
    show ?thesis
    proof (cases "wild_run m n False")
      case None
      then have "\<not> tmatch (toks m) n" using wild_run_None [of m n False] by (simp add: starred_def)
      with backtrack_ok [OF inv] None m c show ?thesis by (simp add: st match_step_def)
    next
      case (Some r)
      obtain m' n' star where r: "r = (m', n', star)" by (cases r) auto
      show ?thesis using wild_ok [OF inv m Some [unfolded r]] Some r m c by (simp add: st match_step_def)
    qed
  next
    case lit
    then obtain c m1 where m: "m = c # m1" by (cases m) auto
    from plain_ok [OF inv] lit m show ?thesis by (auto simp: st match_step_def escape_def)
  qed
qed

lemma match_loop_ok:
  "match_inv msk name st \<Longrightarrow> match_loop msk st = Some (if tmatch (toks msk) name then 0 else 1)"
proof (induction msk st rule: match_loop.induct)
  case (1 msk st)
  with match_step_ok [OF "1.prems"] show ?case
    by (cases "match_step msk st") (auto simp: match_loop.simps [of msk st] outcome_ok_def)
qed

lemma match_eq_tmatch:
  "is_cstr msk \<Longrightarrow> is_cstr name \<Longrightarrow> esc_ok msk \<Longrightarrow>
   match msk name = Some (if tmatch (toks msk) name then 0 else 1)"
  unfolding match_def by (rule match_loop_ok) (simp add: match_inv_def)

text \<open>Without the condition on escapes the loop still ends, with an answer and in bounds.\<close>

definition match_safe :: "string \<Rightarrow> int option + mstate \<Rightarrow> bool" where
  "match_safe msk out = (case out of
     Inl r \<Rightarrow> r = Some 0 \<or> r = Some 1
   | Inr (m, n, mt, nt) \<Rightarrow> mt = msk \<or> nt \<noteq> [])"

lemma backtrack_safe: "mt = msk \<or> nt \<noteq> [] \<Longrightarrow> match_safe msk (backtrack msk mt nt)"
  by (auto simp: match_safe_def backtrack_def split: list.split)

lemma normal_character_safe:
  "n = [] \<or> mt = msk \<or> nt \<noteq> [] \<Longrightarrow> match_safe msk (normal_character msk (m, n, mt, nt))"
  using backtrack_safe [of mt msk nt]
  by (cases n) (auto simp: normal_character_def match_safe_def [of _ "Inl _"] match_safe_def [of _ "Inr _"])

lemma match_step_safe:
  assumes "mt = msk \<or> nt \<noteq> []"
  shows "match_safe msk (match_step msk (m, n, mt, nt))"
proof (cases m)
  case Nil
  with assms backtrack_safe show ?thesis by (simp add: match_step_def match_safe_def [of _ "Inl _"])
next
  case (Cons c m1)
  note nc = normal_character_safe [OF disjI2 [OF assms]]
  show ?thesis
  proof (cases "c \<noteq> CHR 0x5C \<and> is_wild c")
    case False
    with Cons nc show ?thesis by (auto simp: match_step_def)
  next
    case True
    show ?thesis
    proof (cases "wild_run m n False")
      case None
      with True Cons backtrack_safe [OF assms] show ?thesis by (simp add: match_step_def)
    next
      case (Some r)
      obtain m' n' star where r: "r = (m', n', star)" by (cases r) auto
      have "match_safe msk (normal_character msk
          (m', dropWhile (\<lambda>d. ToLower d \<noteq> ToLower (deref m')) n', m', n'))"
        by (cases n') (simp_all add: normal_character_safe)
      with True Cons Some r nc show ?thesis
        by (simp add: match_step_def match_safe_def [of _ "Inl _"])
    qed
  qed
qed

lemma match_loop_safe:
  "match_safe msk (Inr st) \<Longrightarrow> match_loop msk st \<in> {Some 0, Some 1}"
proof (induction msk st rule: match_loop.induct)
  case (1 msk st)
  obtain m n mt nt where st: "st = (m, n, mt, nt)" by (cases st) auto
  have s: "match_safe msk (match_step msk st)"
    using "1.prems" match_step_safe unfolding st by (simp add: match_safe_def [of msk "Inr _"])
  show ?case
  proof (cases "match_step msk st")
    case (Inl r)
    with s show ?thesis by (auto simp: match_loop.simps [of msk st] match_safe_def)
  next
    case (Inr st')
    with s "1.IH" [OF Inr] show ?thesis by (simp add: match_loop.simps [of msk st])
  qed
qed

lemma match_returns: "match msk name \<in> {Some 0, Some 1}"
  unfolding match_def by (rule match_loop_safe) (simp add: match_safe_def)

lemma match_escape_after_star:
  "match [CHR ''*'', CHR 0x5C, CHR ''*''] ''a*'' = Some 1"
  "tmatch (toks [CHR ''*'', CHR 0x5C, CHR ''*'']) ''a*''"
  by code_simp+

section \<open>Collapsing a mask\<close>

fun collapse_rest :: "string \<Rightarrow> bool \<Rightarrow> string" where
  "collapse_rest [] star = (if star then ''*'' else [])"
| "collapse_rest (c # m) star =
    (if c = CHR ''*'' then collapse_rest m True
     else (if star \<and> c \<noteq> CHR ''?'' then ''*'' else []) @
       (if c = CHR 0x5C \<and> is_wild (deref m) then c # hd m # collapse_rest (tl m) (star \<and> c = CHR ''?'')
        else c # collapse_rest m (star \<and> c = CHR ''?'')))"

fun collapse :: "string \<Rightarrow> string" where
  "collapse [] = []"
| "collapse (c # m) =
    (if c = CHR ''*'' \<and> is_wild (deref m) then collapse_rest (c # m) False
     else if c = CHR 0x5C \<and> is_wild (deref m) then c # hd m # collapse (tl m)
     else c # collapse m)"

lemma tmatch_cong:
  assumes "\<And>n. tmatch ts n = tmatch ts' n"
  shows "tmatch (t # ts) n = tmatch (t # ts') n"
  using assms by (cases t) (simp_all add: tmatch_Star)

lemma tmatch_starred_cong:
  "(\<And>n. tmatch ts n = tmatch ts' n) \<Longrightarrow> tmatch (starred s ts) n = tmatch (starred s ts') n"
  using tmatch_cong [of ts ts' Star] by (simp add: starred_def)

lemma toks_esc: "is_wild w \<Longrightarrow> toks (CHR 0x5C # w # m) = Lit w # toks m"
  by simp

lemma toks_nonesc: "\<not> is_wild c \<Longrightarrow> \<not> (c = CHR 0x5C \<and> is_wild (deref m)) \<Longrightarrow> toks (c # m) = Lit c # toks m"
  by (auto simp: is_wild_def)

lemma deref_collapse_rest: "\<not> is_wild (deref m) \<Longrightarrow> deref (collapse_rest m False) = deref m"
  by (cases m) (auto simp: is_wild_def)

lemma is_wild_NUL [simp]: "\<not> is_wild NUL" by (simp add: is_wild_def)

lemma tmatch_collapse_rest: "tmatch (toks (collapse_rest m s)) n \<longleftrightarrow> tmatch (starred s (toks m)) n"
proof (induction m s arbitrary: n rule: collapse_rest.induct)
  case (1 star)
  then show ?case by (simp add: starred_def)
next
  case (2 c m s)
  consider (star) "c = CHR ''*''" | (any) "c = CHR ''?''" | (esc) "c = CHR 0x5C" "is_wild (deref m)"
    | (lit) "\<not> is_wild c" "\<not> (c = CHR 0x5C \<and> is_wild (deref m))" by (auto simp: is_wild_def)
  then show ?case
  proof cases
    case star
    then show ?thesis using 2 by (auto simp: starred_def tmatch_Star_Star)
  next
    case any
    then have ih: "tmatch (toks (collapse_rest m s)) n = tmatch (starred s (toks m)) n" for n
      using "2.IH" by simp
    show ?thesis
    proof (cases n)
      case (Cons d n')
      with any ih show ?thesis by (cases s) (simp_all add: starred_def tmatch_Star_Any del: tmatch.simps(3))
    qed (use any ih in \<open>simp add: starred_def\<close>)
  next
    case esc
    then obtain w m1 where m: "m = w # m1" "is_wild w" by (cases m) auto
    have ih: "tmatch (toks (collapse_rest m1 False)) n = tmatch (toks m1) n" for n
      using "2.IH"(2) esc m by (simp add: starred_def)
    have "tmatch (Lit w # toks (collapse_rest m1 False)) n = tmatch (Lit w # toks m1) n" for n
      using ih by (rule tmatch_cong)
    then have "tmatch (starred s (Lit w # toks (collapse_rest m1 False))) n = tmatch (starred s (Lit w # toks m1)) n"
      by (rule tmatch_starred_cong)
    then show ?thesis using esc m by (cases s) (simp_all add: starred_def toks_esc)
  next
    case lit
    have ih: "tmatch (toks (collapse_rest m False)) n = tmatch (toks m) n" for n
      using "2.IH"(3) lit by (auto simp: starred_def is_wild_def)
    have "tmatch (Lit c # toks (collapse_rest m False)) n = tmatch (Lit c # toks m) n" for n
      using ih by (rule tmatch_cong)
    then have e: "tmatch (starred s (Lit c # toks (collapse_rest m False))) n = tmatch (starred s (Lit c # toks m)) n"
      by (rule tmatch_starred_cong)
    have t: "toks (c # collapse_rest m False) = Lit c # toks (collapse_rest m False)"
      using lit by (intro toks_nonesc) (auto simp: deref_collapse_rest)
    have t': "toks (c # m) = Lit c # toks m" using lit by (rule toks_nonesc)
    have r: "collapse_rest (c # m) s = (if s then ''*'' else []) @ c # collapse_rest m False"
      using lit by (auto simp: is_wild_def)
    have "toks (collapse_rest (c # m) s) = starred s (Lit c # toks (collapse_rest m False))"
      unfolding r using t by (cases s) (simp_all add: starred_def del: toks.simps(2), simp add: t)
    with e t' show ?thesis by simp
  qed
qed

lemma deref_collapse: "\<not> is_wild (deref m) \<Longrightarrow> deref (collapse m) = deref m"
  by (cases m) (auto simp: is_wild_def)

lemma tmatch_collapse: "tmatch (toks (collapse m)) n \<longleftrightarrow> tmatch (toks m) n"
proof (induction m arbitrary: n rule: collapse.induct)
  case (2 c m)
  consider (run) "c = CHR ''*''" "is_wild (deref m)" | (esc) "c = CHR 0x5C" "is_wild (deref m)"
    | (wild) "is_wild c" "\<not> (c = CHR ''*'' \<and> is_wild (deref m))"
    | (lit) "\<not> is_wild c" "\<not> (c = CHR 0x5C \<and> is_wild (deref m))" by (auto simp: is_wild_def)
  then show ?case
  proof cases
    case run
    then have "collapse (c # m) = collapse_rest (c # m) False" by simp
    then show ?thesis using tmatch_collapse_rest [of "c # m" False n] by (simp add: starred_def del: toks.simps)
  next
    case esc
    then obtain w m1 where m: "m = w # m1" "is_wild w" by (cases m) auto
    with esc "2.IH"(1) show ?thesis by (simp add: toks_esc)
  next
    case wild
    then have c: "collapse (c # m) = c # collapse m" by (auto simp: is_wild_def)
    have t: "\<exists>t. \<forall>x. toks (c # x) = t # toks x" using wild by (auto simp: is_wild_def)
    then obtain t where t: "\<And>x. toks (c # x) = t # toks x" by blast
    have "\<And>n. tmatch (toks (collapse m)) n = tmatch (toks m) n" using "2.IH"(2) wild by (auto simp: is_wild_def)
    then show ?thesis unfolding c t by (rule tmatch_cong)
  next
    case lit
    then have c: "collapse (c # m) = c # collapse m" by (auto simp: is_wild_def)
    have "\<And>n. tmatch (toks (collapse m)) n = tmatch (toks m) n" using "2.IH"(2) lit by (auto simp: is_wild_def)
    then have "tmatch (Lit c # toks (collapse m)) n = tmatch (Lit c # toks m) n" by (rule tmatch_cong)
    moreover have "toks (c # collapse m) = Lit c # toks (collapse m)"
      using lit by (intro toks_nonesc) (auto simp: deref_collapse)
    ultimately show ?thesis using lit unfolding c by (simp add: toks_nonesc del: toks.simps collapse.simps)
  qed
qed simp

text \<open>A collapsed mask: no unescaped star is directly followed by a wildcard.\<close>

fun collapsed :: "tok list \<Rightarrow> bool" where
  "collapsed (Star # t # ts) = (t \<noteq> Star \<and> t \<noteq> Any \<and> collapsed (t # ts))"
| "collapsed (t # ts) = collapsed ts"
| "collapsed [] = True"

lemma collapsed_Lit: "collapsed (Lit c # ts) = collapsed ts" "collapsed (Any # ts) = collapsed ts"
  by simp_all

lemma collapsed_collapse_rest: "collapsed (toks (collapse_rest m s))"
proof (induction m s rule: collapse_rest.induct)
  case (2 c m s)
  consider (star) "c = CHR ''*''" | (any) "c = CHR ''?''" | (esc) "c = CHR 0x5C" "is_wild (deref m)"
    | (lit) "\<not> is_wild c" "\<not> (c = CHR 0x5C \<and> is_wild (deref m))" by (auto simp: is_wild_def)
  then show ?case
  proof cases
    case lit
    have t: "toks (c # collapse_rest m False) = Lit c # toks (collapse_rest m False)"
      using lit by (intro toks_nonesc) (auto simp: deref_collapse_rest)
    have r: "collapse_rest (c # m) s = (if s then ''*'' else []) @ c # collapse_rest m False"
      using lit by (auto simp: is_wild_def)
    have "collapsed (toks (collapse_rest m False))" using "2.IH"(3) lit by (auto simp: is_wild_def)
    then show ?thesis unfolding r using t
      by (cases s) (simp_all add: toks_wild del: toks.simps)
  next
    case esc
    then obtain w m1 where m: "m = w # m1" "is_wild w" by (cases m) auto
    with esc 2 show ?thesis by (auto simp: toks_esc)
  qed (use 2 in auto)
qed simp

lemma is_wild_deref: "is_wild (deref m) \<Longrightarrow> \<exists>w m1. m = w # m1 \<and> is_wild w"
  by (cases m) auto

lemma length_collapse_rest: "length (collapse_rest m s) \<le> length m + (if s then 1 else 0)"
  by (induction m s rule: collapse_rest.induct) (auto split: if_splits dest!: is_wild_deref)

lemma length_collapse: "length (collapse m) \<le> length m"
proof (induction m rule: collapse.induct)
  case (2 c m)
  then show ?case
    using length_collapse_rest [of "c # m" False]
    by (auto simp del: collapse_rest.simps dest!: is_wild_deref)
qed simp

lemma collapsed_collapse: "collapsed (toks (collapse m))"
proof (induction m rule: collapse.induct)
  case (2 c m)
  consider (run) "c = CHR ''*''" "is_wild (deref m)" | (esc) "c = CHR 0x5C" "is_wild (deref m)"
    | (star) "c = CHR ''*''" "\<not> is_wild (deref m)" | (any) "c = CHR ''?''"
    | (lit) "\<not> is_wild c" "\<not> (c = CHR 0x5C \<and> is_wild (deref m))" by (auto simp: is_wild_def)
  then show ?case
  proof cases
    case run
    then have "collapse (c # m) = collapse_rest (c # m) False" by simp
    then show ?thesis using collapsed_collapse_rest by metis
  next
    case esc
    with 2 show ?thesis by (auto simp: toks_esc dest!: is_wild_deref)
  next
    case star
    then have ih: "collapsed (toks (collapse m))" using "2.IH"(2) by (auto simp: is_wild_def)
    have "\<not> is_wild (deref (collapse m))" using star deref_collapse by auto
    then have "toks (collapse m) = [] \<or> lit_head (toks (collapse m))"
      by (cases "collapse m") (auto simp: is_wild_def lit_head_def)
    with star ih show ?thesis by (auto simp: lit_head_def)
  next
    case lit
    then have "collapsed (toks (collapse m))" using "2.IH"(2) by (auto simp: is_wild_def)
    moreover have "toks (c # collapse m) = Lit c # toks (collapse m)"
      using lit by (intro toks_nonesc) (auto simp: deref_collapse)
    moreover have "collapse (c # m) = c # collapse m" using lit by (auto simp: is_wild_def)
    ultimately show ?thesis by simp
  qed (use 2 in auto)
qed simp

section \<open>Properties\<close>

text \<open>
  C2.  For a mask in which no escaped wildcard directly follows a wildcard, \<open>match\<close> returns 0 exactly
  when the name belongs to the language of the mask (\<open>*\<close> any string, \<open>?\<close> one character, every other
  character itself up to case), and 1 otherwise.
\<close>

theorem match_correct:
  assumes "is_cstr msk" "is_cstr name" "esc_ok msk"
  shows "match msk name = Some (if tmatch (toks msk) name then 0 else 1)"
  using assms by (rule match_eq_tmatch)

theorem match_correct_witness:
  "is_cstr ''*F?o*'' \<and> esc_ok ''*F?o*'' \<and> match ''*F?o*'' ''a.foobar'' = Some 0"
proof -
  have h: "is_cstr ''*F?o*''" "is_cstr ''a.foobar''" "esc_ok ''*F?o*''" by code_simp+
  have "tmatch (toks ''*F?o*'') ''a.foobar''" by code_simp
  with match_correct [OF h] h show ?thesis by simp
qed

text \<open>
  On all inputs \<open>match\<close> ends, answers 0 or 1 and never reads behind the terminator of the name.
\<close>

lemma match_total: "match msk name = Some 0 \<or> match msk name = Some 1"
  using match_returns [of msk name] by blast

text \<open>
  Collapsing a mask keeps its language, removes every wildcard directly after a star and never
  makes the string longer (it works in place).
\<close>

lemma collapse_same_language:
  "tmatch (toks (collapse m)) n = tmatch (toks m) n \<and> collapsed (toks (collapse m)) \<and>
   length (collapse m) \<le> length m"
  by (simp add: tmatch_collapse collapsed_collapse length_collapse)

end
