(* ===== verification/InAddr.thy ===== *)
theory InAddr
  imports IrcdString
begin

text \<open>
  IP addresses: the type \<open>struct irc_in_addr\<close> and the test macros of \<open>include/res.h\<close>, printing
  and parsing (\<open>ircd_ntoa_r\<close>, \<open>ircd_aton_ip4\<close>, \<open>ipmask_parse\<close> of \<open>ircd/ircd_string.c\<close>) and
  \<open>ipmask_check\<close> of \<open>ircd/match.c\<close>.

  The eight words of an address are in network order in memory.  The host is little-endian, as
  on the platforms the server is built for, so \<open>htons\<close> and \<open>ntohs\<close> swap the two bytes of a word
  and \<open>htonl\<close> and \<open>ntohl\<close> reverse the four bytes of a double word.  The functions that parse
  return \<open>None\<close> where the C function returns 0 characters used; an unwritten \<open>*pbits\<close> is \<open>None\<close>.
\<close>

section \<open>Byte order\<close>

definition htons :: "u16 \<Rightarrow> u16" where
  "htons w = push_bit 8 w OR drop_bit 8 w"

abbreviation ntohs :: "u16 \<Rightarrow> u16" where
  "ntohs \<equiv> htons"

definition htonl :: "u32 \<Rightarrow> u32" where
  "htonl w = push_bit 24 w OR (push_bit 8 w AND 0x00FF0000) OR (drop_bit 8 w AND 0x0000FF00) OR drop_bit 24 w"

abbreviation ntohl :: "u32 \<Rightarrow> u32" where
  "ntohl \<equiv> htonl"

section \<open>Addresses\<close>

record irc_in_addr =
  in6_16 :: "u16 list"

definition wf_addr :: "irc_in_addr \<Rightarrow> bool" where
  "wf_addr a \<longleftrightarrow> length (in6_16 a) = 8"

definition irc_in_addr_is_ipv4 :: "irc_in_addr \<Rightarrow> bool" where
  "irc_in_addr_is_ipv4 a \<longleftrightarrow>
    in6_16 a ! 0 = 0 \<and> in6_16 a ! 1 = 0 \<and> in6_16 a ! 2 = 0 \<and> in6_16 a ! 3 = 0 \<and> in6_16 a ! 4 = 0 \<and>
    (in6_16 a ! 5 = 0 \<and> in6_16 a ! 6 \<noteq> 0 \<or> in6_16 a ! 5 = 65535)"

text \<open>The operand of \<open>~\<close> is promoted to \<open>int\<close>, so the complement is taken there.\<close>

definition irc_in_addr_valid :: "irc_in_addr \<Rightarrow> bool" where
  "irc_in_addr_valid a \<longleftrightarrow>
    in6_16 a ! 0 \<noteq> 0 \<and> NOT (uint (in6_16 a ! 0)) \<noteq> 0 \<or>
    in6_16 a ! 1 \<noteq> in6_16 a ! 0 \<or> in6_16 a ! 2 \<noteq> in6_16 a ! 0 \<or> in6_16 a ! 3 \<noteq> in6_16 a ! 0 \<or>
    in6_16 a ! 4 \<noteq> in6_16 a ! 0 \<or> in6_16 a ! 5 \<noteq> in6_16 a ! 0 \<or> in6_16 a ! 6 \<noteq> in6_16 a ! 0 \<or>
    in6_16 a ! 7 \<noteq> in6_16 a ! 0"

definition irc_in_addr_cmp :: "irc_in_addr \<Rightarrow> irc_in_addr \<Rightarrow> bool" where
  "irc_in_addr_cmp a b \<longleftrightarrow>
    (if irc_in_addr_is_ipv4 a
     then in6_16 a ! 6 \<noteq> in6_16 b ! 6 \<or> in6_16 a ! 7 \<noteq> in6_16 b ! 7 \<or> \<not> irc_in_addr_is_ipv4 b
     else in6_16 a \<noteq> in6_16 b)"

section \<open>Printing\<close>

text \<open>
  The literal table \<open>IpQuadTab\<close> holds the decimal numerals of 0 to 255 without leading zeros; its
  entries are computed here.
\<close>

definition digit_char :: "nat \<Rightarrow> char" where
  "digit_char d = char_of (d + 48)"

definition IpQuadTab :: "nat \<Rightarrow> string" where
  "IpQuadTab n =
    (if n < 10 then [digit_char n]
     else if n < 100 then [digit_char (n div 10), digit_char (n mod 10)]
     else [digit_char (n div 100), digit_char (n div 10 mod 10), digit_char (n mod 10)])"

text \<open>The bytes \<open>pch\<close> walks over: the low byte of a word in memory comes first.\<close>

definition pch_bytes :: "u16 \<Rightarrow> nat \<times> nat" where
  "pch_bytes w = (unat (w AND 255), unat (drop_bit 8 w))"

definition ntoa_ip4 :: "irc_in_addr \<Rightarrow> string" where
  "ntoa_ip4 a =
    (let (b0, b1) = pch_bytes (in6_16 a ! 6); (b2, b3) = pch_bytes (in6_16 a ! 7)
     in IpQuadTab b0 @ ''.'' @ IpQuadTab b1 @ ''.'' @ IpQuadTab b2 @ ''.'' @ IpQuadTab b3)"

text \<open>The search for the run of zero words: \<open>ii\<close>, \<open>max_start\<close>, \<open>max_zeros\<close>, \<open>curr_zeros\<close>.\<close>

fun zeros_loop :: "u16 list \<Rightarrow> nat \<Rightarrow> nat \<Rightarrow> nat \<Rightarrow> nat \<Rightarrow> nat \<times> nat" where
  "zeros_loop [] ii max_start max_zeros curr_zeros =
    (if curr_zeros > max_zeros then (ii - curr_zeros, curr_zeros) else (max_start, max_zeros))"
| "zeros_loop (w # ws) ii max_start max_zeros curr_zeros =
    (if w = 0 then zeros_loop ws (ii + 1) max_start max_zeros (curr_zeros + 1)
     else if curr_zeros > max_zeros then zeros_loop ws (ii + 1) (ii - curr_zeros) curr_zeros 0
     else zeros_loop ws (ii + 1) max_start max_zeros curr_zeros)"

definition hex_char :: "nat \<Rightarrow> char" where
  "hex_char d = ''0123456789abcdef'' ! d"

definition ntoa_part :: "u16 \<Rightarrow> string" where
  "ntoa_part part =
    (if part \<ge> 0x1000 then [hex_char (unat (drop_bit 12 part))] else []) @
    (if part \<ge> 0x100 then [hex_char (unat (drop_bit 8 part AND 15))] else []) @
    (if part \<ge> 0x10 then [hex_char (unat (drop_bit 4 part AND 15))] else []) @
    [hex_char (unat (part AND 15))]"

function ntoa_words :: "u16 list \<Rightarrow> nat \<Rightarrow> nat \<Rightarrow> nat \<Rightarrow> string" where
  "ntoa_words ws ii max_start max_zeros =
    (if ii < 8 then
       (if max_zeros > 0 \<and> ii = max_start
        then '':'' @ ntoa_words ws (ii + (max_zeros - 1) + 1) max_start max_zeros
        else ntoa_part (ntohs (ws ! ii)) @ (if ii < 7 then '':'' else []) @
          ntoa_words ws (ii + 1) max_start max_zeros)
     else [])"
  by pat_completeness auto
termination by (relation "measure (\<lambda>(ws, ii, s, z). 8 - ii)") auto

declare ntoa_words.simps [simp del]

definition ircd_ntoa_r :: "irc_in_addr \<Rightarrow> string" where
  "ircd_ntoa_r a =
    (if irc_in_addr_is_ipv4 a then ntoa_ip4 a
     else (let (max_start, max_zeros) = zeros_loop (drop 1 (in6_16 a)) 1 1 0 0
           in ntoa_words (in6_16 a) 0 max_start max_zeros))"

section \<open>Parsing\<close>

fun aton_bits :: "string \<Rightarrow> u32 \<Rightarrow> u32 \<times> string" where
  "aton_bits [] bits = (bits, [])"
| "aton_bits (c # s) bits =
    (if IsDigit c then aton_bits s (bits * 10 + of_char c - 48) else (bits, c # s))"

text \<open>\<open>pbits\<close> tells whether the caller passes a pointer for the number of bits.\<close>

fun aton_loop :: "string \<Rightarrow> bool \<Rightarrow> nat \<Rightarrow> u32 \<Rightarrow> u32 \<Rightarrow> (string \<times> u32 \<times> u8) option" where
  "aton_loop [] pbits dots part ip =
    (if dots < 3 then None else Some ([], htonl (ip OR push_bit (24 - 8 * dots) part), 32))"
| "aton_loop (c # s) pbits dots part ip =
    (if c = CHR ''.'' then
       (if dots + 1 > 3 \<or> deref s = CHR ''.'' then None
        else (let ip' = ip OR push_bit (32 - 8 * (dots + 1)) part
              in if deref s = CHR ''*'' then
                   (if dropWhile (\<lambda>d. d = CHR ''*'' \<or> d = CHR ''.'') (tl s) \<noteq> [] then None
                    else Some ([], htonl ip', of_nat ((dots + 1) * 8)))
                 else aton_loop s pbits (dots + 1) 0 ip'))
     else if c = CHR ''/'' then
       (if \<not> pbits \<or> \<not> IsDigit (deref s) then None
        else (let (bits, r) = aton_bits s 0
              in if bits > 32 then None
                 else Some (r, htonl (ip OR push_bit (24 - 8 * dots) part), ucast bits)))
     else if IsDigit c then
       (let part' = part * 10 + of_char c - 48
        in if part' > 255 then None else aton_loop s pbits dots part' ip)
     else None)"

definition ircd_aton_ip4 :: "string \<Rightarrow> bool \<Rightarrow> (nat \<times> u32 \<times> u8) option" where
  "ircd_aton_ip4 inp pbits =
    (if deref inp = CHR ''.'' then None
     else case aton_loop inp pbits 0 0 0 of
            None \<Rightarrow> None
          | Some (rest, ip, bits) \<Rightarrow> Some (length inp - length rest, ip, bits))"

text \<open>
  The IPv6 loop of \<open>ipmask_parse\<close>, with its variables \<open>part\<close>, \<open>ii\<close>, \<open>colon\<close>, the words of \<open>*ip\<close> and
  \<open>part_start\<close>.  Its result is the state at the label \<open>finish\<close>; the branch for \<open>'*'\<close> returns
  directly, with \<open>colon\<close> 8, in which case the code after \<open>finish\<close> does nothing.
\<close>

definition hex_value :: "char \<Rightarrow> u32 option" where
  "hex_value c =
    (if in_range (CHR ''0'') (CHR ''9'') c then Some (of_char c - 48)
     else if in_range (CHR ''A'') (CHR ''F'') c then Some (of_char c - 65 + 10)
     else if in_range (CHR ''a'') (CHR ''f'') c then Some (of_char c - 97 + 10)
     else None)"

fun ip6_loop :: "string \<Rightarrow> bool \<Rightarrow> u32 \<Rightarrow> nat \<Rightarrow> nat \<Rightarrow> u16 list \<Rightarrow> string \<Rightarrow>
    (string \<times> nat \<times> nat \<times> u16 list \<times> u8 option) option" where
  "ip6_loop [] pbits part ii colon ws part_start =
    (if ii < 8 then
       (let ws' = ws[ii := htons (ucast part)]
        in if colon = 8 \<and> ii + 1 < 8 then None else Some ([], ii + 1, colon, ws', Some 128))
     else Some ([], ii, colon, ws, None))"
| "ip6_loop (c # s) pbits part ii colon ws part_start =
    (if ii < 8 then
       (case hex_value c of
          Some chval \<Rightarrow>
            (let part' = push_bit 4 part OR chval
             in if part' > 0xffff then None else ip6_loop s pbits part' ii colon ws part_start)
        | None \<Rightarrow>
          if c = CHR '':'' then
            (if deref s = CHR ''.'' then None
             else (let ws' = ws[ii := htons (ucast part)]
                   in if deref s = CHR '':'' then
                        (if colon < 8 \<or> ii + 1 = 8 then None
                         else ip6_loop (tl s) pbits 0 (ii + 1) (ii + 1) ws' s)
                      else ip6_loop s pbits 0 (ii + 1) colon ws' s))
          else if c = CHR ''.'' then
            (case ircd_aton_ip4 part_start pbits of
               None \<Rightarrow> None
             | Some (len, ip4, bits) \<Rightarrow>
                 if ii > 6 then None
                 else Some (drop len part_start, ii + 2, colon,
                   (ws[ii := htons (ucast (drop_bit 16 (ntohl ip4)))])
                     [ii + 1 := htons (ucast (ntohl ip4 AND 65535))],
                   Some (bits + 96)))
          else if c = CHR ''/'' then
            (if \<not> pbits \<or> \<not> IsDigit (deref s) then None
             else (let ws' = ws[ii := htons (ucast part)]; (p, r) = aton_bits s 0
                   in if p > 128 then None else Some (r, ii + 1, colon, ws', Some (ucast p))))
          else if c = CHR ''*'' then
            (if dropWhile (\<lambda>d. d = CHR ''*'' \<or> d = CHR '':'') s \<noteq> [] \<or> colon < 8 then None
             else if part \<noteq> 0 \<and> ii < 8
                  then Some ([], ii + 1, colon, ws[ii := htons (ucast part)], Some (of_nat ((ii + 1) * 16)))
                  else Some ([], ii, colon, ws, Some (of_nat (ii * 16))))
          else None)
     else None)"

definition ip6_shift :: "nat \<Rightarrow> nat \<Rightarrow> u16 list \<Rightarrow> u16 list" where
  "ip6_shift ii colon ws =
    (if colon < 8 then
       (let ws1 = fold (\<lambda>jj w. w[7 - jj := w ! (ii - jj - 1)]) [0..<ii - colon] ws
        in fold (\<lambda>jj w. w[colon + jj := 0]) [0..<8 - ii] ws1)
     else ws)"

text \<open>The result: the number of characters used, the address, and what is written to \<open>*pbits\<close>.\<close>

definition ip_zero :: irc_in_addr where
  "ip_zero = \<lparr>in6_16 = replicate 8 0\<rparr>"

definition ip6_parse :: "string \<Rightarrow> bool \<Rightarrow> (nat \<times> irc_in_addr \<times> u8 option) option" where
  "ip6_parse inp pbits =
    (let start = (if deref inp = CHR '':'' then
                    (if deref (drop 1 inp) \<noteq> CHR '':'' \<or> deref (drop 2 inp) = CHR '':'' then None
                     else Some (0, drop 2 inp, drop 2 inp))
                  else Some (8, inp, []))
     in case start of
          None \<Rightarrow> None
        | Some (colon, s, part_start) \<Rightarrow>
            (case ip6_loop s pbits 0 0 colon (in6_16 ip_zero) part_start of
               None \<Rightarrow> None
             | Some (rest, ii, colon', ws, bits) \<Rightarrow>
                 Some (length inp - length rest, \<lparr>in6_16 = ip6_shift ii colon' ws\<rparr>,
                   if pbits then bits else None)))"

definition ip4_parse :: "string \<Rightarrow> bool \<Rightarrow> (nat \<times> irc_in_addr \<times> u8 option) option" where
  "ip4_parse inp pbits =
    (case ircd_aton_ip4 inp pbits of
       None \<Rightarrow> None
     | Some (len, addr, bits) \<Rightarrow>
         Some (len, \<lparr>in6_16 = [0, 0, 0, 0, 0, htons 65535, htons (ucast (drop_bit 16 (ntohl addr))),
             htons (ucast (ntohl addr AND 65535))]\<rparr>, if pbits then Some (bits + 96) else None))"

definition ipmask_parse :: "string \<Rightarrow> bool \<Rightarrow> (nat \<times> irc_in_addr \<times> u8 option) option" where
  "ipmask_parse inp pbits =
    (let colon = strchr inp (CHR '':''); dot = strchr inp (CHR ''.'')
     in if colon \<noteq> None \<and> (dot = None \<or> length (the dot) < length (the colon)) then ip6_parse inp pbits
        else if dot \<noteq> None \<or> strchr inp (CHR ''/'') \<noteq> None then ip4_parse inp pbits
        else if deref inp = CHR ''*'' then
          (if dropWhile (\<lambda>d. d = CHR ''*'') inp \<noteq> [] then None
           else Some (length inp, ip_zero, if pbits then Some 0 else None))
        else None)"

section \<open>Matching a prefix\<close>

fun ipmask_loop :: "u16 list \<Rightarrow> u16 list \<Rightarrow> u8 \<Rightarrow> int" where
  "ipmask_loop (a # as) (m # ms) bits =
    (if bits < 16 then (if drop_bit (16 - unat bits) (htons (a XOR m)) = 0 then 1 else 0)
     else if a \<noteq> m then 0
     else if bits - 16 = 0 then 1
     else ipmask_loop as ms (bits - 16))"
| "ipmask_loop _ _ _ = -1"

definition ipmask_check :: "irc_in_addr \<Rightarrow> irc_in_addr \<Rightarrow> u8 \<Rightarrow> int" where
  "ipmask_check addr msk bits = ipmask_loop (in6_16 addr) (in6_16 msk) bits"

section \<open>Correctness\<close>

lemma bit_htons: "bit (htons w) k \<longleftrightarrow> (if k < 8 then bit w (k + 8) else k < 16 \<and> bit w (k - 8))"
  by (auto simp: htons_def bit_simps add.commute dest: bit_imp_le_length)

lemma htons_htons [simp]: "htons (htons w) = w"
  by (rule bit_word_eqI) (auto simp: bit_htons)

lemma htons_inject: "htons v = htons w \<longleftrightarrow> v = w" by (metis htons_htons)

lemma htons_xor: "htons (v XOR w) = htons v XOR htons w"
  by (rule bit_word_eqI) (auto simp: bit_htons bit_simps)

lemma bit_htonl: "bit (htonl w) k \<longleftrightarrow>
  (if k < 8 then bit w (k + 24) else if k < 16 then bit w (k + 8)
   else if k < 24 then bit w (k - 8) else k < 32 \<and> bit w (k - 24))"
proof -
  have a: "bit (0x00FF0000 :: u32) k \<longleftrightarrow> 16 \<le> k \<and> k < 24"
  proof -
    have "(0x00FF0000 :: u32) = push_bit 16 (mask 8)" by (simp add: mask_eq_exp_minus_1 push_bit_eq_mult)
    then show ?thesis by (simp only: bit_simps) auto
  qed
  have b: "bit (0x0000FF00 :: u32) k \<longleftrightarrow> 8 \<le> k \<and> k < 16"
  proof -
    have "(0x0000FF00 :: u32) = push_bit 8 (mask 8)" by (simp add: mask_eq_exp_minus_1 push_bit_eq_mult)
    then show ?thesis by (simp only: bit_simps) auto
  qed
  show ?thesis
    unfolding htonl_def bit_or_iff bit_and_iff a b
    by (auto simp: bit_simps add.commute dest: bit_imp_le_length)
qed

lemma htonl_htonl [simp]: "htonl (htonl w) = w"
  by (rule bit_word_eqI) (auto simp: bit_htonl)

definition quad_ip :: "u16 \<Rightarrow> u16 \<Rightarrow> u32" where
  "quad_ip w6 w7 = push_bit 24 (ucast (w6 AND 255)) OR push_bit 16 (ucast (drop_bit 8 w6)) OR
     push_bit 8 (ucast (w7 AND 255)) OR ucast (drop_bit 8 w7)"

lemma low_masks: "(255 :: u16) = mask 8" "(65535 :: u32) = mask 16"
  by (simp_all add: mask_eq_exp_minus_1)

lemma quad_ip_hi: "htons (ucast (drop_bit 16 (quad_ip w6 w7))) = w6"
  unfolding quad_ip_def low_masks
  by (rule bit_word_eqI) (auto simp: bit_htons bit_simps dest: bit_imp_le_length)

lemma quad_ip_lo: "htons (ucast (quad_ip w6 w7 AND 65535)) = w7"
  unfolding quad_ip_def low_masks
  by (rule bit_word_eqI) (auto simp: bit_htons bit_simps dest: bit_imp_le_length)

lemma of_char_digit_char: "d < 10 \<Longrightarrow> (of_char (digit_char d) :: nat) = d + 48"
  by (simp add: digit_char_def of_char_of)

lemma IsDigit_digit_char: "d < 10 \<Longrightarrow> IsDigit (digit_char d)"
  by (simp add: chattr_simps in_range_def of_char_digit_char)

lemma digit_char_not_sep:
  assumes "d < 10"
  shows "digit_char d \<noteq> CHR ''.''" "digit_char d \<noteq> CHR ''/''" "digit_char d \<noteq> CHR ''*''" "digit_char d \<noteq> CHR '':''"
  using assms of_char_digit_char [OF assms] by (auto simp: of_char_eq simp del: of_char_eq_iff)

lemma aton_digit:
  assumes "d < 10" "10 * p + d < 256"
  shows "aton_loop (digit_char d # s) pb dots (of_nat p) ip = aton_loop s pb dots (of_nat (10 * p + d)) ip"
proof -
  have "(of_char (digit_char d) :: u32) = of_nat (d + 48)"
    using of_char_digit_char [OF assms(1)] of_nat_of_char by metis
  then have e: "of_nat p * 10 + of_char (digit_char d) - 48 = (of_nat (10 * p + d) :: u32)" by simp
  have l: "\<not> (of_nat (10 * p + d) :: u32) > 255"
    using assms(2) by (simp only: word_less_nat_alt unat_of_nat) simp
  have "aton_loop (digit_char d # s) pb dots (of_nat p) ip =
    (let part' = of_nat p * 10 + of_char (digit_char d) - 48
     in if part' > 255 then None else aton_loop s pb dots part' ip)"
    using assms by (simp add: IsDigit_digit_char digit_char_not_sep)
  then show ?thesis unfolding e Let_def using l by (simp only: if_False)
qed

lemma aton_quad:
  assumes "b < 256"
  shows "aton_loop (IpQuadTab b @ s) pb dots 0 ip = aton_loop s pb dots (of_nat b) ip"
proof -
  note d = aton_digit [of _ 0, simplified of_nat_0]
  consider "b < 10" | "10 \<le> b" "b < 100" | "100 \<le> b" by linarith
  then show ?thesis
  proof cases
    case 3
    have e: "10 * (b div 100) + b div 10 mod 10 = b div 10" "10 * (b div 10) + b mod 10 = b"
      using mult_div_mod_eq [of 10 "b div 10"] by (simp_all add: div_mult2_eq [symmetric])
    show ?thesis using 3 assms d [of "b div 100"] aton_digit [of "b div 10 mod 10" "b div 100"] aton_digit [of "b mod 10" "b div 10"] e
      by (simp add: IpQuadTab_def del: of_nat_add of_nat_mult)
  next
    case 2
    have e: "10 * (b div 10) + b mod 10 = b" by simp
    show ?thesis using 2 assms d [of "b div 10"] aton_digit [of "b mod 10" "b div 10"] e
      by (simp add: IpQuadTab_def del: of_nat_add of_nat_mult)
  qed (use d [of b] assms in \<open>simp add: IpQuadTab_def\<close>)
qed

lemma digit_charI: "k < 10 \<Longrightarrow> \<exists>d < 10. digit_char k = digit_char d" by blast

lemma IpQuadTab_digits: "b < 256 \<Longrightarrow> c \<in> set (IpQuadTab b) \<Longrightarrow> \<exists>d < 10. c = digit_char d"
  by (auto simp: IpQuadTab_def split: if_splits intro!: digit_charI)

lemma IpQuadTab_head: "b < 256 \<Longrightarrow> \<exists>d < 10. deref (IpQuadTab b @ s) = digit_char d"
  by (auto simp: IpQuadTab_def intro!: digit_charI)

lemma aton_dot:
  assumes "dots < 3" "b < 256"
  shows "aton_loop (CHR ''.'' # IpQuadTab b @ s) pb dots part ip =
    aton_loop s pb (dots + 1) (of_nat b) (ip OR push_bit (24 - 8 * dots) part)"
proof -
  obtain d where "d < 10" "deref (IpQuadTab b @ s) = digit_char d"
    using IpQuadTab_head [OF assms(2)] by blast
  with assms show ?thesis by (simp add: digit_char_not_sep aton_quad diff_add_inverse2)
qed

lemma aton_last:
  "b < 256 \<Longrightarrow> aton_loop (CHR ''.'' # IpQuadTab b) pb (Suc (Suc 0)) part ip =
    Some ([], htonl ((ip OR push_bit 8 part) OR of_nat b), 32)"
  using aton_dot [of "Suc (Suc 0)" b "[]"] by (simp del: aton_loop.simps(2))

lemma pch_bytes_bound: "fst (pch_bytes w) < 256" "snd (pch_bytes w) < 256"
proof -
  have "unat (w AND mask 8) < 256" by (simp add: unat_and_mask)
  then show "fst (pch_bytes w) < 256" by (simp add: pch_bytes_def low_masks)
  have "unat (drop_bit 8 w) = unat w div 2 ^ 8" by (subst unat_drop_bit_eq) (rule drop_bit_eq_div)
  moreover have "unat w < 2 ^ 16" using unsigned_less [of w] by simp
  ultimately show "snd (pch_bytes w) < 256" by (simp add: pch_bytes_def)
qed

lemma aton_ntoa_ip4:
  "ircd_aton_ip4 (ntoa_ip4 a) pb =
    Some (length (ntoa_ip4 a), htonl (quad_ip (in6_16 a ! 6) (in6_16 a ! 7)), 32)"
proof -
  let ?w6 = "in6_16 a ! 6" and ?w7 = "in6_16 a ! 7"
  let ?b0 = "fst (pch_bytes ?w6)" and ?b1 = "snd (pch_bytes ?w6)"
  let ?b2 = "fst (pch_bytes ?w7)" and ?b3 = "snd (pch_bytes ?w7)"
  have s: "ntoa_ip4 a = IpQuadTab ?b0 @ CHR ''.'' # IpQuadTab ?b1 @ CHR ''.'' # IpQuadTab ?b2 @
      CHR ''.'' # IpQuadTab ?b3 @ []"
    by (simp add: ntoa_ip4_def case_prod_beta)
  have ip: "((((0 OR push_bit 24 (of_nat ?b0)) OR push_bit 16 (of_nat ?b1)) OR
      push_bit 8 (of_nat ?b2)) OR of_nat ?b3) = quad_ip ?w6 ?w7"
    by (simp add: quad_ip_def pch_bytes_def or.assoc)
  have "aton_loop (ntoa_ip4 a) pb 0 0 0 = Some ([], htonl (quad_ip ?w6 ?w7), 32)"
    unfolding s ip [symmetric] by (simp add: aton_quad aton_dot aton_last pch_bytes_bound del: aton_loop.simps(2))
  moreover obtain d where "d < 10" "deref (ntoa_ip4 a) = digit_char d"
    using IpQuadTab_head [OF pch_bytes_bound(1)] unfolding s by blast
  ultimately show ?thesis by (simp add: ircd_aton_ip4_def digit_char_not_sep)
qed

lemma ntoa_ip4_chars: "CHR '':'' \<notin> set (ntoa_ip4 a)" "CHR ''.'' \<in> set (ntoa_ip4 a)"
proof -
  have "CHR '':'' \<notin> set (IpQuadTab b)" if "b < 256" for b
    using IpQuadTab_digits [OF that] digit_char_not_sep(4) by metis
  then show "CHR '':'' \<notin> set (ntoa_ip4 a)"
    by (auto simp: ntoa_ip4_def case_prod_beta pch_bytes_bound)
  show "CHR ''.'' \<in> set (ntoa_ip4 a)" by (simp add: ntoa_ip4_def case_prod_beta)
qed

text \<open>The IPv4-mapped form of an address, which is what the parser builds.\<close>

definition ip4_mapped :: "irc_in_addr \<Rightarrow> irc_in_addr" where
  "ip4_mapped a = \<lparr>in6_16 = [0, 0, 0, 0, 0, 65535, in6_16 a ! 6, in6_16 a ! 7]\<rparr>"

lemma ipmask_parse_ntoa_ip4:
  assumes "irc_in_addr_is_ipv4 a"
  shows "ipmask_parse (ircd_ntoa_r a) pb =
    Some (length (ircd_ntoa_r a), ip4_mapped a, if pb then Some 128 else None)"
proof -
  have c: "strchr (ntoa_ip4 a) (CHR '':'') = None" using ntoa_ip4_chars(1) by (subst strchr_None) auto
  obtain t where d: "strchr (ntoa_ip4 a) (CHR ''.'') = Some t"
    using ntoa_ip4_chars(2) strchr_None [of "CHR ''.''" "ntoa_ip4 a"] by auto
  have w5: "htons 65535 = 65535" by (simp add: htons_def)
  show ?thesis using assms
    by (simp add: ircd_ntoa_r_def ipmask_parse_def ip4_parse_def c d aton_ntoa_ip4 quad_ip_hi quad_ip_lo ip4_mapped_def w5)
qed

lemma ip4_mapped_cmp: "irc_in_addr_is_ipv4 a \<Longrightarrow> \<not> irc_in_addr_cmp a (ip4_mapped a)"
  by (simp add: irc_in_addr_cmp_def irc_in_addr_is_ipv4_def ip4_mapped_def)

definition ip_bit :: "irc_in_addr \<Rightarrow> nat \<Rightarrow> bool" where
  "ip_bit a i = bit (ntohs (in6_16 a ! (i div 16))) (15 - i mod 16)"

definition word_bit :: "u16 \<Rightarrow> nat \<Rightarrow> bool" where
  "word_bit w j = bit (ntohs w) (15 - j)"

lemma word_eq_bits: "a = b \<longleftrightarrow> (\<forall>j < 16. word_bit a j = word_bit b j)"
proof
  assume *: "\<forall>j < 16. word_bit a j = word_bit b j"
  have "htons a = htons b"
  proof (rule bit_word_eqI)
    fix n assume "n < LENGTH(16)"
    then show "bit (htons a) n = bit (htons b) n"
      using * [rule_format, of "15 - n"] by (auto simp: word_bit_def)
  qed
  then show "a = b" by (simp add: htons_inject)
qed simp

lemma prefix_bits:
  assumes "k < 16"
  shows "drop_bit (16 - k) (htons (a XOR m)) = 0 \<longleftrightarrow> (\<forall>j < k. word_bit a j = word_bit m j)"
proof -
  have "drop_bit (16 - k) (htons (a XOR m)) = 0 \<longleftrightarrow>
      (\<forall>n < 16. bit (htons a) (16 - k + n) = bit (htons m) (16 - k + n))"
    by (auto simp: bit_eq_iff bit_simps htons_xor)
  also have "\<dots> \<longleftrightarrow> (\<forall>j < k. word_bit a j = word_bit m j)"
  proof
    assume *: "\<forall>n<16. bit (htons a) (16 - k + n) = bit (htons m) (16 - k + n)"
    show "\<forall>j < k. word_bit a j = word_bit m j"
    proof (intro allI impI)
      fix j assume j: "j < k"
      have "k - 1 - j < 16" using assms by linarith
      with * have "bit (htons a) (16 - k + (k - 1 - j)) = bit (htons m) (16 - k + (k - 1 - j))"
        by blast
      moreover have "16 - k + (k - 1 - j) = 15 - j" using j assms by linarith
      ultimately show "word_bit a j = word_bit m j" by (simp only: word_bit_def)
    qed
  next
    assume *: "\<forall>j < k. word_bit a j = word_bit m j"
    show "\<forall>n<16. bit (htons a) (16 - k + n) = bit (htons m) (16 - k + n)"
    proof (intro allI impI)
      fix n :: nat assume "n < 16"
      show "bit (htons a) (16 - k + n) = bit (htons m) (16 - k + n)"
      proof (cases "n < k")
        case True
        then have "15 - (k - 1 - n) = 16 - k + n" using assms by linarith
        with * True show ?thesis by (auto simp: word_bit_def dest!: spec [of _ "k - 1 - n"])
      next
        case False
        then have "\<not> bit (htons x) (16 - k + n)" for x
          using assms bit_imp_le_length [of "htons x" "16 - k + n"] by auto
        then show ?thesis by simp
      qed
    qed
  qed
  finally show ?thesis .
qed

abbreviation agree :: "u16 list \<Rightarrow> u16 list \<Rightarrow> nat \<Rightarrow> bool" where
  "agree as ms k \<equiv> \<forall>i < k. word_bit (as ! (i div 16)) (i mod 16) = word_bit (ms ! (i div 16)) (i mod 16)"

lemma agree_Cons:
  assumes "16 \<le> k"
  shows "agree (a # as) (m # ms) k \<longleftrightarrow> a = m \<and> agree as ms (k - 16)"
proof (intro iffI conjI)
  assume *: "agree (a # as) (m # ms) k"
  have "word_bit a j = word_bit m j" if "j < 16" for j
    using * [rule_format, of j] that assms by simp
  then show "a = m" by (subst word_eq_bits) blast
  show "agree as ms (k - 16)"
  proof (intro allI impI)
    fix i assume "i < k - 16"
    then show "word_bit (as ! (i div 16)) (i mod 16) = word_bit (ms ! (i div 16)) (i mod 16)"
      using * [rule_format, of "i + 16"] by (simp add: div_add_self2 [of 16 i, simplified])
  qed
next
  assume *: "a = m \<and> agree as ms (k - 16)"
  show "agree (a # as) (m # ms) k"
  proof (intro allI impI)
    fix i assume "i < k"
    with * show "word_bit ((a # as) ! (i div 16)) (i mod 16) = word_bit ((m # ms) ! (i div 16)) (i mod 16)"
      by (cases "i < 16") (auto simp: le_div_geq le_mod_geq)
  qed
qed

lemma ipmask_loop_spec:
  "length as = length ms \<Longrightarrow> unat bits \<le> 16 * length as \<Longrightarrow> as \<noteq> [] \<Longrightarrow>
   ipmask_loop as ms bits = (if agree as ms (unat bits) then 1 else 0)"
proof (induction as ms bits rule: ipmask_loop.induct)
  case (1 a as m ms bits)
  show ?case
  proof (cases "bits < 16")
    case True
    then have "unat bits < 16" by (simp add: word_less_nat_alt)
    with True prefix_bits [of "unat bits" a m] show ?thesis by simp
  next
    case False
    then have ge: "16 \<le> unat bits" by (simp add: word_le_nat_alt not_less)
    have sub: "unat (bits - 16) = unat bits - 16" using False by (simp add: unat_sub word_le_nat_alt not_less)
    have z: "bits - 16 = 0 \<longleftrightarrow> unat bits = 16"
    proof -
      have "bits - 16 = 0 \<longleftrightarrow> unat (bits - 16) = 0" by (rule unsigned_eq_0_iff [symmetric])
      then show ?thesis unfolding sub using ge by linarith
    qed
    show ?thesis
    proof (cases "a = m \<and> bits - 16 \<noteq> 0")
      case True
      then have "unat bits > 16" using ge z by linarith
      then have "as \<noteq> []" using "1.prems" by auto
      with 1 True False sub show ?thesis by (simp add: agree_Cons [OF ge] del: diff_eq_eq)
    next
      case no: False
      then show ?thesis using False z ge by (auto simp: agree_Cons [OF ge])
    qed
  qed
qed simp_all

lemma ipmask_check_spec:
  assumes "wf_addr a" "wf_addr m" "unat bits \<le> 128"
  shows "ipmask_check a m bits = (if \<forall>i < unat bits. ip_bit a i = ip_bit m i then 1 else 0)"
  using ipmask_loop_spec [of "in6_16 a" "in6_16 m" bits] assms
  unfolding ipmask_check_def ip_bit_def word_bit_def wf_addr_def by (cases "in6_16 a") auto

lemma ucast_bits: "(p :: u32) \<le> 128 \<Longrightarrow> unat (ucast p :: u8) = unat p"
  by (simp add: unsigned_ucast_eq take_bit_eq_mod word_le_nat_alt)

lemma aton_loop_bits: "aton_loop s pb dots part ip = Some (r, a, b) \<Longrightarrow> dots \<le> 3 \<Longrightarrow> unat b \<le> 32"
proof (induction s pb dots part ip rule: aton_loop.induct)
  case (1 pb dots part ip)
  then show ?case by (auto split: if_splits)
next
  case (2 c s pb dots part ip)
  consider (dot) "c = CHR ''.''" | (slash) "c = CHR ''/''"
    | (other) "c \<noteq> CHR ''.''" "c \<noteq> CHR ''/''" by blast
  then show ?case
  proof cases
    case dot
    have k: "unat (of_nat ((dots + 1) * 8) :: u8) \<le> 32" if "dots + 1 \<le> 3"
      using that by (simp only: unat_of_nat) simp
    show ?thesis
      using "2.prems" "2.IH"(1) [OF dot _ refl] k dot by (auto simp: Let_def split: if_splits)
  next
    case slash
    have "unat (ucast p :: u8) \<le> 32" if "p \<le> 32" for p :: u32
      using that ucast_bits [of p] by (simp add: word_le_nat_alt)
    with "2.prems" slash show ?thesis
      by (auto simp: Let_def not_less split: if_splits prod.splits)
  next
    case other
    with "2.prems" "2.IH"(2) [OF _ _ _ refl] show ?thesis
      by (auto simp: Let_def split: if_splits)
  qed
qed

lemma ircd_aton_ip4_bits: "ircd_aton_ip4 s pb = Some (len, a, b) \<Longrightarrow> unat b \<le> 32 \<and> len \<le> length s"
  by (auto simp: ircd_aton_ip4_def dest: aton_loop_bits split: if_splits option.splits)

lemma plus_96: "unat (b :: u8) \<le> 32 \<Longrightarrow> unat (b + 96) \<le> 128"
  by (simp add: unat_word_ariths)

lemma ip6_loop_bits:
  "ip6_loop s pb part ii colon ws ps = Some (r, ii', colon', ws', bits) \<Longrightarrow>
   length ws' = length ws \<and> (\<forall>b. bits = Some b \<longrightarrow> unat b \<le> 128)"
proof (induction s pb part ii colon ws ps rule: ip6_loop.induct)
  case (1 pb part ii colon ws ps)
  then show ?case by (auto simp: Let_def split: if_splits)
next
  case (2 c s pb part ii colon ws ps)
  show ?case
  proof (cases "hex_value c")
    case (Some v)
    with "2.prems" "2.IH"(3) [OF _ Some refl] show ?thesis by (auto simp: Let_def split: if_splits)
  next
    case None
    have k: "unat (of_nat (n * 16) :: u8) \<le> 128" if "n \<le> 8" for n
      using that by (simp only: unat_of_nat) simp
    consider (colon) "c = CHR '':''" | (dot) "c = CHR ''.''" | (slash) "c = CHR ''/''" | (star) "c = CHR ''*''"
      | (other) "c \<noteq> CHR '':''" "c \<noteq> CHR ''.''" "c \<noteq> CHR ''/''" "c \<noteq> CHR ''*''" by blast
    then show ?thesis
    proof cases
      case colon
      then show ?thesis using "2.prems" "2.IH"(1,2) [OF _ None colon _ refl]
        by (auto simp: Let_def None [unfolded colon] split: if_splits)
    next
      case dot
      then show ?thesis using "2.prems"
        by (auto simp: None [unfolded dot] split: if_splits option.splits intro!: plus_96 dest: ircd_aton_ip4_bits)
    next
      case slash
      then show ?thesis using "2.prems"
        by (auto simp: Let_def None [unfolded slash] not_less ucast_bits word_le_nat_alt split: if_splits prod.splits)
    next
      case star
      have "ws' = ws \<and> bits = Some (of_nat (ii * 16)) \<or>
          ws' = ws[ii := htons (ucast part)] \<and> bits = Some (of_nat ((ii + 1) * 16))" "ii < 8"
        using "2.prems" star by (auto simp: None [unfolded star] simp del: of_nat_mult of_nat_add split: if_splits)
      then show ?thesis using k [of ii] k [of "ii + 1"] by fastforce
    qed (use "2.prems" None in \<open>auto split: if_splits\<close>)
  qed
qed

lemma length_ip6_shift: "length (ip6_shift ii colon ws) = length ws"
  by (simp add: ip6_shift_def Let_def length_fold_same)

lemma ip6_parse_wf:
  assumes "ip6_parse inp pb = Some (len, a, bits)"
  shows "wf_addr a \<and> len \<le> length inp \<and> (\<forall>b. bits = Some b \<longrightarrow> unat b \<le> 128)"
  using assms
  by (auto simp: ip6_parse_def Let_def wf_addr_def length_ip6_shift ip_zero_def
      dest!: ip6_loop_bits split: if_splits option.splits)

lemma ip4_parse_wf:
  assumes "ip4_parse inp pb = Some (len, a, bits)"
  shows "wf_addr a \<and> len \<le> length inp \<and> (\<forall>b. bits = Some b \<longrightarrow> unat b \<le> 128)"
  using assms
  by (auto simp: ip4_parse_def wf_addr_def intro!: plus_96
      dest!: ircd_aton_ip4_bits split: if_splits option.splits)

lemma ipmask_parse_cases:
  "ipmask_parse inp pb = ip6_parse inp pb \<or> ipmask_parse inp pb = ip4_parse inp pb \<or>
   ipmask_parse inp pb = Some (length inp, ip_zero, if pb then Some 0 else None) \<or>
   ipmask_parse inp pb = None"
  unfolding ipmask_parse_def Let_def by presburger

lemma ipmask_parse_wf:
  assumes "ipmask_parse inp pb = Some (len, a, bits)"
  shows "wf_addr a \<and> len \<le> length inp \<and> (\<forall>b. bits = Some b \<longrightarrow> unat b \<le> 128)"
  using ipmask_parse_cases [of inp pb]
proof (elim disjE)
  assume "ipmask_parse inp pb = Some (length inp, ip_zero, if pb then Some 0 else None)"
  with assms show ?thesis by (auto simp: wf_addr_def ip_zero_def split: if_splits)
next
  assume "ipmask_parse inp pb = ip6_parse inp pb"
  with assms show ?thesis by (intro ip6_parse_wf) simp
next
  assume "ipmask_parse inp pb = ip4_parse inp pb"
  with assms show ?thesis by (intro ip4_parse_wf) simp
qed (use assms in simp)

section \<open>Addresses the functions get wrong\<close>

text \<open>
  The counter of zero words is not reset after a run that is no longer than the best one, so
  the words between two runs can be dropped from the printed form.
\<close>

lemma ntoa_ip6_drops_word:
  "ircd_ntoa_r \<lparr>in6_16 = [256, 0, 0, 512, 0, 768, 0, 0]\<rparr> = ''1:0:0:2:0::''"
  by (simp add: ircd_ntoa_r_def irc_in_addr_is_ipv4_def ntoa_words.simps ntoa_part_def htons_def
      hex_char_def)

text \<open>A dotted quad directly after an inner double colon is refused.\<close>

lemma ipmask_parse_embedded: "ipmask_parse ''1::1.2.3.4'' True = None"
  by code_simp

text \<open>A colon after the eighth word is accepted, and then \<open>*pbits\<close> is not written.\<close>

lemma ipmask_parse_no_bits:
  "ipmask_parse ''1:2:3:4:5:6:7:8:'' True =
    Some (16, \<lparr>in6_16 = [256, 512, 768, 1024, 1280, 1536, 1792, 2048]\<rparr>, None)"
  by code_simp

lemma all_ones_valid: "irc_in_addr_valid \<lparr>in6_16 = replicate 8 65535\<rparr>"
  by (simp add: irc_in_addr_valid_def)

section \<open>Properties\<close>

text \<open>
  Printing an IPv4 address and parsing it back gives the IPv4-mapped form of the same address,
  uses the whole string and reports 128 bits.
\<close>

lemma ip4_print_parse:
  assumes "irc_in_addr_is_ipv4 a"
  shows "ipmask_parse (ircd_ntoa_r a) pb =
      Some (length (ircd_ntoa_r a), ip4_mapped a, if pb then Some 128 else None) \<and>
    \<not> irc_in_addr_cmp a (ip4_mapped a)"
  using assms by (simp add: ipmask_parse_ntoa_ip4 ip4_mapped_cmp)

text \<open>
  Whatever \<open>ipmask_parse\<close> accepts is a well-formed address, with at most 128 bits and no more
  characters used than there are.
\<close>

lemma ipmask_parse_bounds:
  assumes "ipmask_parse inp pb = Some (len, a, bits)"
  shows "wf_addr a \<and> len \<le> length inp \<and> (\<forall>b. bits = Some b \<longrightarrow> unat b \<le> 128)"
  using assms by (rule ipmask_parse_wf)

text \<open>
  For up to 128 bits \<open>ipmask_check\<close> is 1 exactly when the two addresses agree on that many leading
  bits, and 0 otherwise.
\<close>

lemma ipmask_check_prefix:
  assumes "wf_addr a" "wf_addr m" "unat bits \<le> 128"
  shows "ipmask_check a m bits = (if \<forall>i < unat bits. ip_bit a i = ip_bit m i then 1 else 0)"
  using assms by (rule ipmask_check_spec)

end
