(* ===== verification/Numnicks.thy ===== *)
theory Numnicks
  imports InAddr Match
begin

text \<open>
  Numeric nicks, \<open>ircd/numnicks.c\<close>: the base-64 code of numbers and addresses, the table of
  servers by numeric, the tables of the clients of each server, and the allocation of a numeric
  to a new local client.

  Clients and servers are the identities (\<open>nat\<close>) of their structures.  In the base-64 code a read or write outside
  an array is the outcome \<open>None\<close>.  In the lookups \<open>None\<close> is the null pointer that a free slot holds; \<open>server_at\<close> and \<open>client_at\<close>
  also give it for an index outside the table and for the empty numeric, where the code reads outside an array.  For the
  tables as they are allocated and numerics that are not empty this does not happen: \<open>FindNServer_reads\<close> and \<open>client_at_reads\<close>
  show that every lookup reads a slot of the table.
\<close>

section \<open>The base-64 code\<close>

definition NUMNICKLOG :: nat where "NUMNICKLOG = 6"
definition NUMNICKMASK :: u32 where "NUMNICKMASK = 63"
definition NN_MAX_SERVER :: nat where "NN_MAX_SERVER = 4096"
definition NN_MAX_CLIENT :: nat where "NN_MAX_CLIENT = 262144"

definition convert2y :: string where
  "convert2y = ''ABCDEFGHIJKLMNOPQRSTUVWXYZabcdefghijklmnopqrstuvwxyz0123456789[]''"

text \<open>The table \<open>convert2n\<close>, 0 for every character that is not a digit of the code.\<close>

definition convert2n :: "char \<Rightarrow> nat" where
  "convert2n c =
    (if in_range (CHR ''0'') (CHR ''9'') c then of_char c - 48 + 52
     else if in_range (CHR ''A'') (CHR ''Z'') c then of_char c - 65
     else if in_range (CHR ''a'') (CHR ''z'') c then of_char c - 97 + 26
     else if c = CHR ''['' then 62
     else if c = CHR '']'' then 63
     else 0)"

fun base64_loop :: "u32 \<Rightarrow> string \<Rightarrow> u32" where
  "base64_loop i [] = i"
| "base64_loop i (c # s) = base64_loop (push_bit NUMNICKLOG i + of_nat (convert2n c)) s"

text \<open>On an empty string the first \<open>*s++\<close> steps over the terminator and the loop reads behind it.\<close>

definition base64toint :: "string \<Rightarrow> u32 option" where
  "base64toint s = (case s of [] \<Rightarrow> None | c # s' \<Rightarrow> Some (base64_loop (of_nat (convert2n c)) s'))"

fun inttobase64 :: "u32 \<Rightarrow> nat \<Rightarrow> string" where
  "inttobase64 v 0 = []"
| "inttobase64 v (Suc count) =
    inttobase64 (drop_bit NUMNICKLOG v) count @ [convert2y ! unat (v AND NUMNICKMASK)]"

section \<open>Addresses\<close>

fun iptobase64_words :: "u16 list \<Rightarrow> nat \<Rightarrow> nat \<Rightarrow> nat \<Rightarrow> string" where
  "iptobase64_words [] ii max_start max_zeros = []"
| "iptobase64_words (w # ws) ii max_start max_zeros =
    (if ii = max_start \<and> max_zeros \<noteq> 0
     then CHR ''_'' # iptobase64_words (drop (max_zeros - 1) ws) (ii + max_zeros) max_start max_zeros
     else inttobase64 (ucast (ntohs w)) 3 @ iptobase64_words ws (ii + 1) max_start max_zeros)"

definition iptobase64 :: "irc_in_addr \<Rightarrow> bool \<Rightarrow> string" where
  "iptobase64 addr v6_ok =
    (if irc_in_addr_is_ipv4 addr then
       inttobase64 (push_bit 16 (ucast (ntohs (in6_16 addr ! 6))) OR ucast (ntohs (in6_16 addr ! 7))) 6
     else if \<not> v6_ok then
       (if in6_16 addr ! 0 = htons 0x2002
        then inttobase64 (push_bit 16 (ucast (ntohs (in6_16 addr ! 1))) OR ucast (ntohs (in6_16 addr ! 2))) 6
        else ''AAAAAA'')
     else
       (let lead = takeWhile (\<lambda>w. w \<noteq> 0) (in6_16 addr);
            rest = dropWhile (\<lambda>w. w \<noteq> 0) (in6_16 addr);
            zero = length lead;
            (max_start, max_zeros) = zeros_loop rest zero zero 0 0
        in concat (map (\<lambda>w. inttobase64 (ucast (ntohs w)) 3) lead) @
           iptobase64_words rest zero max_start max_zeros))"

text \<open>
  The loop of \<open>base64toip\<close>; \<open>ws\<close> are the words of \<open>*addr\<close> and \<open>pos\<close> the next one.  \<open>None\<close> is a
  read behind the terminator or a write behind the last word, which includes the case that the
  unsigned subtraction for \<open>left\<close> wraps around.
\<close>

function base64toip_loop :: "string \<Rightarrow> nat \<Rightarrow> u16 list \<Rightarrow> u16 list option" where
  "base64toip_loop inp pos ws =
    (if pos < 8 then
       (if deref inp = CHR ''_'' then
          (if length inp \<le> 25 \<and> pos \<le> (25 - length inp) div 3 \<and> (25 - length inp) div 3 \<le> 8 then
             base64toip_loop (tl inp) ((25 - length inp) div 3)
               (take pos ws @ replicate ((25 - length inp) div 3 - pos) 0 @ drop ((25 - length inp) div 3) ws)
           else None)
        else case inp of
               c1 # c2 # c3 # inp' \<Rightarrow>
                 (let accum = (of_nat (convert2n c1) :: u16);
                      accum = push_bit NUMNICKLOG accum OR of_nat (convert2n c2);
                      accum = push_bit NUMNICKLOG accum OR of_nat (convert2n c3)
                  in base64toip_loop inp' (pos + 1) (ws[pos := ntohs accum]))
             | _ \<Rightarrow> None)
     else Some ws)"
  by pat_completeness auto
termination
  by (relation "measure (\<lambda>(inp, pos, ws). length inp)") (auto simp: deref_def split: list.splits)

declare base64toip_loop.simps [simp del]

definition base64toip :: "string \<Rightarrow> irc_in_addr option" where
  "base64toip inp =
    (if length inp = 6 then
       (case base64toint inp of
          None \<Rightarrow> None
        | Some v \<Rightarrow>
            Some (if v \<noteq> 0 then \<lparr>in6_16 = [0, 0, 0, 0, 0, htons 65535, htons (ucast (drop_bit 16 v)),
                                    htons (ucast (v AND 65535))]\<rparr>
                  else ip_zero))
     else map_option (\<lambda>ws. \<lparr>in6_16 = ws\<rparr>) (base64toip_loop inp 0 (in6_16 ip_zero)))"

section \<open>Servers and their clients\<close>

text \<open>
  \<open>struct Server\<close> as far as it concerns numerics, together with the name and the numeric of the
  client structure it belongs to.
\<close>

record server =
  cli_name :: string
  cli_yxx :: string
  nn_capacity :: string
  nn_mask :: u32
  client_list :: "nat option list"

text \<open>
  The file's static variables \<open>server_list\<close>, \<open>lastNNServer\<close> and \<open>last_nn\<close>, and the structures they
  lead to: the servers and the numerics of users.
\<close>

record nn_state =
  server_list :: "nat option list"
  lastNNServer :: nat
  last_nn :: nat
  servers :: "nat \<Rightarrow> server option"
  user_yxx :: "nat \<Rightarrow> string"

definition server_at :: "nn_state \<Rightarrow> u32 option \<Rightarrow> nat option" where
  "server_at st i = (case i of None \<Rightarrow> None
     | Some i \<Rightarrow> if unat i < length (server_list st) then server_list st ! unat i else None)"

definition FindXNServer :: "nn_state \<Rightarrow> string \<Rightarrow> nat option" where
  "FindXNServer st numeric = server_at st (base64toint (take 2 numeric))"

definition FindNServer :: "nn_state \<Rightarrow> string \<Rightarrow> nat option" where
  "FindNServer st numeric =
    (if length numeric < 3 then server_at st (base64toint numeric)
     else if length numeric = 3 then server_at st (Some (of_nat (convert2n (deref numeric))))
     else FindXNServer st numeric)"

definition client_at :: "nn_state \<Rightarrow> nat \<Rightarrow> u32 option \<Rightarrow> nat option" where
  "client_at st sid v = (case (servers st sid, v) of
     (Some srv, Some v) \<Rightarrow>
       if unat (v AND nn_mask srv) < length (client_list srv)
       then client_list srv ! unat (v AND nn_mask srv) else None
   | _ \<Rightarrow> None)"

definition findNUser :: "nn_state \<Rightarrow> string \<Rightarrow> nat option" where
  "findNUser st yxx =
    (if length yxx = 5 then
       (case FindXNServer st yxx of
          Some sid \<Rightarrow> client_at st sid (base64toint (drop 2 yxx))
        | None \<Rightarrow> None)
     else
       (case FindNServer st yxx of
          Some sid \<Rightarrow> client_at st sid (base64toint (drop 1 yxx))
        | None \<Rightarrow> None))"

definition set_slot :: "nn_state \<Rightarrow> nat \<Rightarrow> nat \<Rightarrow> nat option \<Rightarrow> nn_state" where
  "set_slot st sid i c = (case servers st sid of
     None \<Rightarrow> st
   | Some srv \<Rightarrow> st\<lparr>servers := (servers st)(sid \<mapsto> srv\<lparr>client_list := (client_list srv)[i := c]\<rparr>)\<rparr>)"

definition slot_of :: "nn_state \<Rightarrow> nat \<Rightarrow> string \<Rightarrow> nat" where
  "slot_of st sid yxx = (case (servers st sid, base64toint yxx) of
     (Some srv, Some v) \<Rightarrow> unat (v AND nn_mask srv)
   | _ \<Rightarrow> 0)"

definition RemoveYXXClient :: "nn_state \<Rightarrow> nat \<Rightarrow> string \<Rightarrow> nn_state" where
  "RemoveYXXClient st sid yxx =
    (if yxx \<noteq> [] then set_slot st sid (slot_of st sid yxx) None else st)"

text \<open>
  \<open>SetServerYXX\<close>.  The buffers \<open>cli_yxx\<close> and \<open>nn_capacity\<close> of a server that is being introduced
  hold zeros, so the assignments to single characters of the second branch store the strings
  of one and two characters.
\<close>

definition SetServerYXX :: "nn_state \<Rightarrow> nat \<Rightarrow> string \<Rightarrow> nn_state" where
  "SetServerYXX st sid yxx = (case servers st sid of
     None \<Rightarrow> st
   | Some srv \<Rightarrow>
       (let srv1 = (if length yxx = 5
                    then srv\<lparr>cli_yxx := take 2 yxx, nn_capacity := take 3 (drop 2 yxx)\<rparr>
                    else srv\<lparr>cli_yxx := take 1 yxx, nn_capacity := take 2 (drop 1 yxx)\<rparr>)
        in case (base64toint (nn_capacity srv1), base64toint (cli_yxx srv1)) of
             (Some msk, Some i) \<Rightarrow>
               st\<lparr>servers := (servers st)(sid \<mapsto>
                     srv1\<lparr>nn_mask := msk, client_list := replicate (unat msk + 1) None\<rparr>),
                  lastNNServer := (if unat i \<ge> lastNNServer st then unat i + 1 else lastNNServer st),
                  server_list := (server_list st)[unat i := Some sid]\<rparr>
           | _ \<Rightarrow> st))"

text \<open>The doubling loop of \<open>SetYXXCapacity\<close>, on 32 bits: it may never end.\<close>

partial_function (option) capacity_loop :: "u32 \<Rightarrow> u32 \<Rightarrow> u32 option" where
  "capacity_loop max_clients capacity =
    (if max_clients < capacity then capacity_loop (push_bit 1 max_clients) capacity
     else Some max_clients)"

text \<open>\<open>None\<close>: the loop does not end; \<open>Some (Inl ())\<close>: the program exits with the message.\<close>

definition SetYXXCapacity :: "nn_state \<Rightarrow> nat \<Rightarrow> u32 \<Rightarrow> (unit + nn_state) option" where
  "SetYXXCapacity st sid capacity = (case capacity_loop 16 capacity of
     None \<Rightarrow> None
   | Some max_clients \<Rightarrow>
       (if unat max_clients > NN_MAX_CLIENT then Some (Inl ())
        else (case servers st sid of
            None \<Rightarrow> None
          | Some srv \<Rightarrow>
              (let m = max_clients - 1;
                   srv' = srv\<lparr>nn_capacity := inttobase64 m 3, nn_mask := m,
                             client_list := replicate (unat m + 1) None\<rparr>
               in case base64toint (cli_yxx srv) of
                    None \<Rightarrow> None
                  | Some i \<Rightarrow> Some (Inr (st\<lparr>servers := (servers st)(sid \<mapsto> srv'),
                        server_list := (server_list st)[unat i := Some sid]\<rparr>))))))"

definition SetYXXServerName :: "nn_state \<Rightarrow> nat \<Rightarrow> u32 \<Rightarrow> nn_state" where
  "SetYXXServerName st sid numeric = (case servers st sid of
     None \<Rightarrow> st
   | Some srv \<Rightarrow>
       st\<lparr>servers := (servers st)(sid \<mapsto> srv\<lparr>cli_yxx := inttobase64 numeric 2\<rparr>),
          lastNNServer := (if unat numeric \<ge> lastNNServer st then unat numeric + 1 else lastNNServer st),
          server_list := (server_list st)[unat numeric := Some sid]\<rparr>)"

definition ClearServerYXX :: "nn_state \<Rightarrow> nat \<Rightarrow> nn_state" where
  "ClearServerYXX st sid = (case servers st sid of
     None \<Rightarrow> st
   | Some srv \<Rightarrow>
       if server_at st (base64toint (cli_yxx srv)) = Some sid
       then st\<lparr>server_list := (server_list st)[(case base64toint (cli_yxx srv) of
              Some i \<Rightarrow> unat i | None \<Rightarrow> 0) := None]\<rparr>
       else st)"

text \<open>
  \<open>SetRemoteNumNick\<close>: the second component is the client in the way, which the caller's
  \<open>exit_client\<close> removes; among other things that calls \<open>RemoveYXXClient\<close> for it.
\<close>

definition SetRemoteNumNick :: "nn_state \<Rightarrow> nat \<Rightarrow> nat \<Rightarrow> string \<Rightarrow> nn_state \<times> nat option" where
  "SetRemoteNumNick st sid acptr yxx =
    (let cyxx = (if length yxx = 5 then drop 2 yxx else take 2 (drop 1 yxx));
         st1 = st\<lparr>user_yxx := (user_yxx st)(acptr := cyxx)\<rparr>;
         ghost = client_at st1 sid (base64toint cyxx);
         st2 = (case ghost of None \<Rightarrow> st1 | Some g \<Rightarrow> RemoveYXXClient st1 sid (user_yxx st g))
     in (set_slot st2 sid (slot_of st2 sid cyxx) (Some acptr), ghost))"

text \<open>The search of \<open>SetLocalNumNick\<close>; \<open>None\<close> when \<open>count\<close> reaches its limit.\<close>

definition next_nn :: "nat \<Rightarrow> nat" where
  "next_nn nn = (if nn + 1 = NN_MAX_CLIENT then 0 else nn + 1)"

function local_search :: "nat option list \<Rightarrow> nat \<Rightarrow> nat \<Rightarrow> nat \<Rightarrow> nat option" where
  "local_search cl msk nn count =
    (if cl ! (nn AND msk) \<noteq> None
     then (if count + 1 \<ge> NN_MAX_CLIENT then None else local_search cl msk (next_nn nn) (count + 1))
     else Some nn)"
  by pat_completeness auto
termination
  by (relation "measure (\<lambda>(cl, msk, nn, count). NN_MAX_CLIENT - count)") auto

declare local_search.simps [simp del]

definition SetLocalNumNick :: "nn_state \<Rightarrow> nat \<Rightarrow> nat \<Rightarrow> nn_state option" where
  "SetLocalNumNick st me cptr = (case servers st me of
     None \<Rightarrow> None
   | Some srv \<Rightarrow>
       (case local_search (client_list srv) (unat (nn_mask srv)) (last_nn st) 0 of
          None \<Rightarrow> None
        | Some nn \<Rightarrow>
            Some ((set_slot st me (nn AND unat (nn_mask srv)) (Some cptr))
              \<lparr>user_yxx := (user_yxx st)(cptr := inttobase64 (of_nat nn) 3), last_nn := next_nn nn\<rparr>)))"

definition find_match_server :: "nn_state \<Rightarrow> string \<Rightarrow> nat option" where
  "find_match_server st msk =
    (if msk = [] then None
     else (let m = collapse msk
           in case List.find (\<lambda>s. case s of
                  Some sid \<Rightarrow> (case servers st sid of Some srv \<Rightarrow> match m (cli_name srv) = Some 0 | None \<Rightarrow> False)
                | None \<Rightarrow> False) (take (lastNNServer st) (server_list st)) of
                Some (Some sid) \<Rightarrow> Some sid
              | _ \<Rightarrow> None))"

section \<open>Correctness of the code\<close>

lemma convert_table: "map convert2n convert2y = [0..<64]"
  by code_simp

lemma convert_inverse: "k < 64 \<Longrightarrow> convert2n (convert2y ! k) = k"
proof -
  assume "k < 64"
  moreover have "length convert2y = 64" by (simp add: convert2y_def)
  ultimately have "convert2n (convert2y ! k) = map convert2n convert2y ! k" by simp
  then show ?thesis using \<open>k < 64\<close> by (simp add: convert_table)
qed

lemma convert2n_less: "convert2n c < 64"
  using in_range_def[of "CHR ''0''" "CHR ''9''" c] in_range_def[of "CHR ''A''" "CHR ''Z''" c]
    in_range_def[of "CHR ''a''" "CHR ''z''" c]
  by (auto simp: convert2n_def)

lemma base64_loop_append: "base64_loop i (s @ [c]) = push_bit 6 (base64_loop i s) + of_nat (convert2n c)"
  by (induction s arbitrary: i) (auto simp: NUMNICKLOG_def)

lemma length_inttobase64 [simp]: "length (inttobase64 v n) = n"
  by (induction n arbitrary: v) auto

lemma base64toint_snoc:
  "s \<noteq> [] \<Longrightarrow> base64toint (s @ [c]) = map_option (\<lambda>i. push_bit 6 i + of_nat (convert2n c)) (base64toint s)"
  by (cases s) (auto simp: base64toint_def base64_loop_append)

lemma digit_back: "of_nat (convert2n (convert2y ! unat (v AND NUMNICKMASK))) = v AND mask 6"
proof -
  have m: "(63 :: u32) = mask 6" by (simp add: mask_eq_exp_minus_1)
  have "unat (v AND mask 6) < 64" by (simp add: unat_and_mask)
  then show ?thesis by (simp add: NUMNICKMASK_def m convert_inverse)
qed

lemma split_six: "push_bit 6 (drop_bit 6 v) + (v AND mask 6) = (v :: u32)"
proof -
  have "push_bit 6 (drop_bit 6 v) + (v AND mask 6) = push_bit 6 (drop_bit 6 v) OR (v AND mask 6)"
    by (rule disjunctive_add) (auto simp: bit_simps)
  also have "\<dots> = v" by (rule bit_word_eqI) (auto simp: bit_simps)
  finally show ?thesis .
qed

lemma base64_roundtrip:
  "drop_bit (6 * Suc n) v = 0 \<Longrightarrow> base64toint (inttobase64 v (Suc n)) = Some v"
proof (induction n arbitrary: v)
  case 0
  have "v AND mask 6 = v" using 0 split_six [of v] by simp
  then show ?case using digit_back [of v] by (simp add: base64toint_def)
next
  case (Suc n)
  have ne: "inttobase64 (drop_bit 6 v) (Suc n) \<noteq> []" by (metis length_inttobase64 list.size(3) nat.distinct(1))
  have "drop_bit (6 * Suc n) (drop_bit 6 v) = 0" using Suc.prems by (simp add: drop_bit_drop_bit ac_simps)
  from Suc.IH [OF this] show ?case
    using base64toint_snoc [OF ne] digit_back [of v] split_six [of v]
    by (simp only: inttobase64.simps(2) [of v "Suc n"] NUMNICKLOG_def) simp
qed

lemma drop_bit_less: "unat (v :: u32) < 2 ^ k \<Longrightarrow> drop_bit k v = 0"
proof -
  assume "unat v < 2 ^ k"
  then have "unat (drop_bit k v) = 0" by (subst unat_drop_bit_eq) (simp add: drop_bit_eq_div)
  then show ?thesis by (simp only: unsigned_eq_0_iff)
qed

lemma drop_bit_all: "32 \<le> k \<Longrightarrow> drop_bit k (v :: u32) = 0"
  by (rule bit_word_eqI) (auto simp: bit_simps dest: bit_imp_le_length)

lemma base64_step_bound:
  assumes "unat i < 64 ^ n"
  shows "unat (push_bit 6 i + of_nat (convert2n c) :: u32) < 64 ^ Suc n"
proof -
  have "unat (push_bit 6 i + of_nat (convert2n c) :: u32) \<le> unat i * 64 + convert2n c"
    using convert2n_less [of c]
    by (simp add: push_bit_eq_mult unat_word_ariths unat_of_nat mod_simps)
  also have "\<dots> < (unat i + 1) * 64" using convert2n_less [of c] by simp
  also have "\<dots> \<le> 64 ^ n * 64" using assms by (intro mult_le_mono1) simp
  finally show ?thesis by simp
qed

lemma base64_bound: "base64toint s = Some v \<Longrightarrow> unat v < 64 ^ length s"
proof (induction s arbitrary: v rule: rev_induct)
  case Nil
  then show ?case by (simp add: base64toint_def)
next
  case (snoc c s)
  show ?case
  proof (cases "s = []")
    case True
    have "unat (of_nat (convert2n c) :: u32) < 64"
      using convert2n_less [of c] by (simp add: unat_of_nat)
    with snoc.prems True show ?thesis by (auto simp: base64toint_def)
  next
    case False
    then obtain i where "base64toint s = Some i" "v = push_bit 6 i + of_nat (convert2n c)"
      using snoc.prems by (auto simp: base64toint_snoc)
    with snoc.IH base64_step_bound [of i "length s" c] show ?thesis by simp
  qed
qed

lemma inttobase64_inject:
  assumes "unat v < 64 ^ Suc n" "unat w < 64 ^ Suc n" "inttobase64 v (Suc n) = inttobase64 w (Suc n)"
  shows "v = w"
proof -
  have "(64 :: nat) ^ Suc n = 2 ^ (6 * Suc n)" by (simp add: power_mult power_add)
  then show ?thesis
    using assms base64_roundtrip [of n v] base64_roundtrip [of n w] drop_bit_less by (metis option.inject)
qed

subsection \<open>Addresses\<close>

lemma ip_pack_ntohs:
  "htons (ucast (drop_bit 16 (push_bit 16 (ucast (ntohs a)) OR ucast (ntohs b) :: u32))) = a"
  "htons (ucast ((push_bit 16 (ucast (ntohs a)) OR ucast (ntohs b) :: u32) AND 65535)) = b"
  unfolding low_masks
  by (rule bit_word_eqI, auto simp: bit_htons bit_simps dest: bit_imp_le_length)+

lemma iptobase64_ip4:
  assumes "irc_in_addr_is_ipv4 a" "in6_16 a ! 6 \<noteq> 0 \<or> in6_16 a ! 7 \<noteq> 0"
  shows "base64toip (iptobase64 a v6) = Some (ip4_mapped a)"
proof -
  define v :: u32 where "v = push_bit 16 (ucast (ntohs (in6_16 a ! 6))) OR ucast (ntohs (in6_16 a ! 7))"
  have parts: "htons (ucast (drop_bit 16 v)) = in6_16 a ! 6" "htons (ucast (v AND 65535)) = in6_16 a ! 7"
    unfolding v_def by (rule ip_pack_ntohs)+
  have "drop_bit (6 * Suc 5) v = 0" by (rule drop_bit_all) simp
  then have r: "base64toint (inttobase64 v 6) = Some v"
    using base64_roundtrip [of 5 v] by (simp add: numeral_eq_Suc)
  have nz: "v \<noteq> 0" using parts assms(2) by (auto simp: htons_def)
  have w5: "htons 65535 = 65535" by (simp add: htons_def)
  show ?thesis using assms(1) nz r
    by (simp add: base64toip_def iptobase64_def v_def [symmetric] parts ip4_mapped_def w5)
qed

lemma iptobase64_null:
  assumes "irc_in_addr_is_ipv4 a" "in6_16 a ! 6 = 0" "in6_16 a ! 7 = 0"
  shows "base64toip (iptobase64 a v6) = Some ip_zero"
proof -
  have "base64toint (inttobase64 0 6) = Some 0" using base64_roundtrip [of 5 0] by (simp add: numeral_eq_Suc)
  with assms show ?thesis by (simp add: base64toip_def iptobase64_def htons_def)
qed

text \<open>The IPv6 form: three digits per word.\<close>

definition enc_words :: "u16 list \<Rightarrow> string" where
  "enc_words ws = concat (map (\<lambda>w. inttobase64 (ucast (ntohs w)) 3) ws)"

lemma enc_words_simps [simp]:
  "enc_words [] = []" "enc_words (w # ws) = inttobase64 (ucast (ntohs w)) 3 @ enc_words ws"
  by (simp_all add: enc_words_def)

lemma length_enc_words: "length (enc_words ws) = 3 * length ws"
  by (induction ws) auto

lemma iptobase64_words_eq:
  "iptobase64_words ws ii ms mz =
    (if mz \<noteq> 0 \<and> ii \<le> ms \<and> ms < ii + length ws
     then enc_words (take (ms - ii) ws) @ CHR ''_'' # enc_words (drop (ms - ii + mz) ws)
     else enc_words ws)"
proof (induction ws ii ms mz rule: iptobase64_words.induct)
  case (1 ii ms mz)
  then show ?case by simp
next
  case (2 w ws ii ms mz)
  show ?case
  proof (cases "ii = ms \<and> mz \<noteq> 0")
    case True
    then show ?thesis using "2.IH"(1) [OF True] by (cases mz) auto
  next
    case False
    have "take (ms - ii) (w # ws) = w # take (ms - Suc ii) ws" "drop (ms - ii + mz) (w # ws) = drop (ms - Suc ii + mz) ws"
      if "Suc ii \<le> ms" using that by (simp_all add: Suc_diff_le take_Cons' drop_Cons')
    with False "2.IH"(2) [OF False] show ?thesis by (cases "Suc ii \<le> ms") auto
  qed
qed

lemma zeros_loop_bounds:
  "lo \<le> ms \<Longrightarrow> ms + mz \<le> ii \<Longrightarrow> lo + cz \<le> ii \<Longrightarrow>
   zeros_loop ws ii ms mz cz = (ms', mz') \<Longrightarrow> lo \<le> ms' \<and> ms' + mz' \<le> ii + length ws"
proof (induction ws arbitrary: ii ms mz cz)
  case Nil
  then show ?case by (auto split: if_splits)
next
  case (Cons w ws)
  show ?case
    using Cons.prems Cons.IH [of ms mz "ii + 1" "cz + 1"] Cons.IH [of "ii - cz" cz "ii + 1" 0]
      Cons.IH [of ms mz "ii + 1" cz]
    by (auto split: if_splits)
qed

lemma enc_digits:
  fixes w :: u16
  defines "v \<equiv> ucast w :: u32"
  defines "d k \<equiv> convert2y ! unat (drop_bit k v AND NUMNICKMASK)"
  shows "inttobase64 v 3 = [d 12, d 6, d 0]"
    and "push_bit 6 (push_bit 6 (of_nat (convert2n (d 12))) OR of_nat (convert2n (d 6)))
      OR of_nat (convert2n (d 0)) = w"
proof -
  show "inttobase64 v 3 = [d 12, d 6, d 0]"
    by (simp add: numeral_eq_Suc NUMNICKLOG_def d_def drop_bit_drop_bit)
  have m: "(63 :: u32) = mask 6" by (simp add: mask_eq_exp_minus_1)
  have c: "of_nat (convert2n (d k)) = (ucast (drop_bit k v AND mask 6) :: u16)" for k
  proof -
    have "unat (drop_bit k v AND mask 6) < 64" by (simp add: unat_and_mask)
    then show ?thesis by (simp add: d_def NUMNICKMASK_def m convert_inverse)
  qed
  show "push_bit 6 (push_bit 6 (of_nat (convert2n (d 12))) OR of_nat (convert2n (d 6)))
      OR of_nat (convert2n (d 0)) = w"
    unfolding c v_def
  proof (rule bit_word_eqI)
    fix n assume "n < LENGTH(16)"
    then show "bit (push_bit 6 (push_bit 6 (ucast (drop_bit 12 (ucast w :: u32) AND mask 6) :: u16) OR
        ucast (drop_bit 6 (ucast w :: u32) AND mask 6)) OR ucast (drop_bit 0 (ucast w :: u32) AND mask 6)) n
        = bit w n"
      by (cases "n < 12") (auto simp: bit_simps dest: bit_imp_le_length)
  qed
qed

lemma convert2y_no_underscore: "k < 64 \<Longrightarrow> convert2y ! k \<noteq> CHR ''_''"
proof -
  assume "k < 64"
  then have "convert2y ! k \<in> set convert2y" by (intro nth_mem) (simp add: convert2y_def)
  moreover have "CHR ''_'' \<notin> set convert2y" by (simp add: convert2y_def)
  ultimately show ?thesis by metis
qed

lemma decode_words:
  "pos + length ws \<le> 8 \<Longrightarrow> length acc = 8 \<Longrightarrow>
   base64toip_loop (enc_words ws @ rest) pos acc =
   base64toip_loop rest (pos + length ws) (take pos acc @ ws @ drop (pos + length ws) acc)"
proof (induction ws arbitrary: pos acc)
  case Nil
  then show ?case by simp
next
  case (Cons w ws)
  let ?v = "ucast (ntohs w) :: u32"
  let ?d = "\<lambda>k. convert2y ! unat (drop_bit k ?v AND NUMNICKMASK)"
  have m: "(63 :: u32) = mask 6" by (simp add: mask_eq_exp_minus_1)
  have nu: "?d 12 \<noteq> CHR ''_''"
    by (rule convert2y_no_underscore) (simp add: NUMNICKMASK_def m unat_and_mask)
  have "base64toip_loop (enc_words (w # ws) @ rest) pos acc =
      base64toip_loop (enc_words ws @ rest) (pos + 1) (acc[pos := w])"
    using Cons.prems nu enc_digits(2) [of "ntohs w"]
    by (simp add: enc_digits(1) base64toip_loop.simps [of "_ # _"] NUMNICKLOG_def Let_def)
  also have "\<dots> = base64toip_loop rest (pos + 1 + length ws)
      (take (pos + 1) (acc[pos := w]) @ ws @ drop (pos + 1 + length ws) (acc[pos := w]))"
    using Cons.prems by (intro Cons.IH) auto
  also have "take (pos + 1) (acc[pos := w]) = take pos acc @ [w]"
    using Cons.prems by (simp add: take_Suc_conv_app_nth)
  finally show ?case using Cons.prems by simp
qed

text \<open>
  The condition under which the encoder is right: all the words it replaces by the underscore
  are zero.
\<close>

definition zero_run :: "irc_in_addr \<Rightarrow> nat \<times> nat" where
  "zero_run a = (let zero = length (takeWhile (\<lambda>w. w \<noteq> 0) (in6_16 a))
     in zeros_loop (drop zero (in6_16 a)) zero zero 0 0)"

definition run_ok :: "irc_in_addr \<Rightarrow> bool" where
  "run_ok a \<longleftrightarrow> (case zero_run a of (s, z) \<Rightarrow> \<forall>i < z. in6_16 a ! (s + i) = 0)"

lemma iptobase64_ip6_form:
  assumes "\<not> irc_in_addr_is_ipv4 a" "zero_run a = (ms, mz)" "wf_addr a"
  shows "iptobase64 a True =
    (if mz \<noteq> 0 then enc_words (take ms (in6_16 a)) @ CHR ''_'' # enc_words (drop (ms + mz) (in6_16 a))
     else enc_words (in6_16 a))"
    and "ms + mz \<le> 8"
proof -
  let ?ws = "in6_16 a" and ?k = "length (takeWhile (\<lambda>w. w \<noteq> 0) (in6_16 a))"
  have lead: "takeWhile (\<lambda>w. w \<noteq> 0) ?ws = take ?k ?ws" by (metis takeWhile_eq_take)
  have rest: "dropWhile (\<lambda>w. w \<noteq> 0) ?ws = drop ?k ?ws" by (rule dropWhile_eq_drop)
  have z: "zeros_loop (drop ?k ?ws) ?k ?k 0 0 = (ms, mz)" using assms(2) by (simp add: zero_run_def Let_def)
  have len: "?k + length (drop ?k ?ws) = 8" using assms(3) length_takeWhile_le [of "\<lambda>w. w \<noteq> 0" ?ws]
    by (simp add: wf_addr_def)
  have b: "?k \<le> ms" "ms + mz \<le> 8" using zeros_loop_bounds [OF _ _ _ z, of ?k] len by auto
  then show "ms + mz \<le> 8" by simp
  have "take ?k ?ws @ take (ms - ?k) (drop ?k ?ws) = take ms ?ws"
    using b by (metis le_add_diff_inverse take_add)
  then have "enc_words (take ms ?ws) = enc_words (take ?k ?ws) @ enc_words (take (ms - ?k) (drop ?k ?ws))"
    by (simp add: enc_words_def flip: map_append concat_append)
  moreover have "enc_words ?ws = enc_words (take ?k ?ws) @ enc_words (drop ?k ?ws)"
    by (simp add: enc_words_def flip: map_append concat_append)
  moreover have "iptobase64 a True = enc_words (take ?k ?ws) @ iptobase64_words (drop ?k ?ws) ?k ms mz"
    using assms(1) z by (simp add: iptobase64_def Let_def enc_words_def lead [symmetric] rest)
  ultimately show "iptobase64 a True =
    (if mz \<noteq> 0 then enc_words (take ms (in6_16 a)) @ CHR ''_'' # enc_words (drop (ms + mz) (in6_16 a))
     else enc_words (in6_16 a))"
    using b len by (auto simp: iptobase64_words_eq)
qed

lemma iptobase64_ip6:
  assumes "\<not> irc_in_addr_is_ipv4 a" "wf_addr a" "run_ok a"
  shows "base64toip (iptobase64 a True) = Some a"
proof -
  obtain ms mz where z: "zero_run a = (ms, mz)" by (cases "zero_run a") auto
  let ?ws = "in6_16 a"
  note form = iptobase64_ip6_form [OF assms(1) z assms(2)]
  have l8: "length ?ws = 8" using assms(2) by (simp add: wf_addr_def)
  have len: "length (iptobase64 a True) \<noteq> 6"
    unfolding form(1) by (simp add: length_enc_words l8) presburger
  have "base64toip_loop (iptobase64 a True) 0 (replicate 8 0) = Some ?ws"
  proof (cases "mz = 0")
    case True
    then show ?thesis unfolding form(1) using decode_words [of 0 ?ws "replicate 8 0" "[]"] l8
      by (simp add: base64toip_loop.simps [of "[]"])
  next
    case False
    let ?tail = "drop (ms + mz) ?ws"
    have "replicate mz 0 = take mz (drop ms ?ws)"
      using assms(3) z form(2) l8 by (intro nth_equalityI) (auto simp: run_ok_def)
    then have ws: "take ms ?ws @ replicate mz 0 @ ?tail = ?ws"
      using append_take_drop_id [of mz "drop ms ?ws"] append_take_drop_id [of ms ?ws]
      by (simp add: add.commute)
    have q: "(25 - length (CHR ''_'' # enc_words ?tail)) div 3 = ms + mz"
      using form(2) l8 by (simp add: length_enc_words)
    have ms: "ms < 8" "ms \<le> 8" using form(2) False by auto
    have "base64toip_loop (iptobase64 a True) 0 (replicate 8 0) =
        base64toip_loop (CHR ''_'' # enc_words ?tail) ms (take ms ?ws @ replicate (8 - ms) 0)"
      unfolding form(1) using decode_words [of 0 "take ms ?ws" "replicate 8 0" "CHR ''_'' # enc_words ?tail"] l8 ms False
      by (simp add: min_def)
    also have "\<dots> = base64toip_loop (enc_words ?tail @ []) (ms + mz)
        (take ms ?ws @ replicate mz 0 @ replicate (8 - (ms + mz)) 0)"
      using q ms form(2) l8 by (subst base64toip_loop.simps) (simp add: length_enc_words min_def)
    also have "\<dots> = base64toip_loop [] 8 ?ws"
      using decode_words [of "ms + mz" ?tail "take ms ?ws @ replicate mz 0 @ replicate (8 - (ms + mz)) 0" "[]"]
        l8 form(2) ws ms False by (simp add: min_def)
    finally show ?thesis by (simp add: base64toip_loop.simps)
  qed
  with len show ?thesis by (simp add: base64toip_def ip_zero_def)
qed

section \<open>Lookups stay inside the tables\<close>

lemma server_index:
  assumes "s \<noteq> []" "length s \<le> 2"
  shows "\<exists>i. base64toint s = Some i \<and> unat i < NN_MAX_SERVER"
proof -
  have n: "unat (of_nat (convert2n c) :: u32) = convert2n c" for c using convert2n_less [of c] by (simp add: unat_of_nat)
  obtain c r where s: "s = c # r" using assms(1) by (cases s) auto
  show ?thesis
  proof (cases r)
    case Nil
    then show ?thesis using n [of c] convert2n_less [of c] by (simp add: s base64toint_def NN_MAX_SERVER_def)
  next
    case (Cons d r')
    then have r: "r = [d]" using assms(2) s by simp
    have "push_bit NUMNICKLOG (of_nat (convert2n c)) + of_nat (convert2n d) = (of_nat (convert2n c * 64 + convert2n d) :: u32)"
      by (simp add: NUMNICKLOG_def push_bit_eq_mult)
    moreover have "convert2n c * 64 + convert2n d < 4096" using convert2n_less [of c] convert2n_less [of d] by linarith
    moreover from this have "unat (of_nat (convert2n c * 64 + convert2n d) :: u32) = convert2n c * 64 + convert2n d" by (simp only: unat_of_nat) simp
    ultimately show ?thesis by (simp add: s r base64toint_def NN_MAX_SERVER_def)
  qed
qed

lemma FindNServer_reads:
  assumes "numeric \<noteq> []" "length (server_list st) = NN_MAX_SERVER"
  shows "\<exists>i < NN_MAX_SERVER. FindNServer st numeric = server_list st ! i"
proof -
  have r: "\<exists>i < NN_MAX_SERVER. server_at st (base64toint s) = server_list st ! i" if "s \<noteq> []" "length s \<le> 2" for s
    using server_index [OF that] assms(2) by (auto simp: server_at_def)
  have "unat (of_nat (convert2n c) :: u32) < NN_MAX_SERVER" for c
    using convert2n_less [of c] by (simp add: unat_of_nat NN_MAX_SERVER_def)
  with r [of numeric] r [of "take 2 numeric"] assms show ?thesis
    by (auto simp: FindNServer_def FindXNServer_def server_at_def)
qed

lemma client_at_reads:
  assumes "servers st sid = Some srv" "length (client_list srv) = unat (nn_mask srv) + 1" "s \<noteq> []"
  shows "\<exists>i < length (client_list srv). client_at st sid (base64toint s) = client_list srv ! i"
proof -
  obtain v where v: "base64toint s = Some v" using assms(3) by (cases s) (auto simp: base64toint_def)
  have "unat (v AND nn_mask srv) \<le> unat (nn_mask srv)" by (simp add: word_and_le1 flip: word_le_nat_alt)
  then have "unat (v AND nn_mask srv) < length (client_list srv)" using assms(2) by simp
  with assms(1) v show ?thesis by (auto simp: client_at_def)
qed

section \<open>Allocation of numerics\<close>

lemma base64_roundtrip3: "nn < 262144 \<Longrightarrow> base64toint (inttobase64 (of_nat nn) 3) = Some (of_nat nn)"
  using base64_roundtrip [of 2 "of_nat nn"] by (simp add: drop_bit_less unat_of_nat numeral_3_eq_3)

lemma base64_roundtrip2: "nn < 4096 \<Longrightarrow> base64toint (inttobase64 (of_nat nn) 2) = Some (of_nat nn)"
proof -
  assume "nn < 4096"
  then have "drop_bit (6 * Suc 1) (of_nat nn :: u32) = 0"
    by (intro drop_bit_less) (simp add: unat_of_nat)
  from base64_roundtrip [OF this] show ?thesis by (simp only: One_nat_def numeral_2_eq_2)
qed

lemma and_mask_nat: "(nn :: nat) AND (2 ^ k - Suc 0) = nn mod 2 ^ k"
  unfolding One_nat_def [symmetric] by (metis mask_eq_exp_minus_1 take_bit_eq_mask take_bit_eq_mod)

lemma next_nn_mod: "k \<le> 18 \<Longrightarrow> nn < NN_MAX_CLIENT \<Longrightarrow> (next_nn nn + d) mod 2 ^ k = (nn + Suc d) mod 2 ^ k"
proof -
  assume k: "k \<le> 18" "nn < NN_MAX_CLIENT"
  have "(2 :: nat) ^ k dvd 2 ^ 18" using k(1) by (rule le_imp_power_dvd)
  then have "(nn + 1) mod 2 ^ k = next_nn nn mod 2 ^ k"
    by (auto simp: next_nn_def NN_MAX_CLIENT_def dvd_eq_mod_eq_0)
  then show ?thesis by (metis add_Suc_right add_Suc_shift mod_add_left_eq Suc_eq_plus1)
qed

lemma local_search_finds:
  assumes "k \<le> 18" "nn < NN_MAX_CLIENT" "count + d < NN_MAX_CLIENT" "cl ! ((nn + d) mod 2 ^ k) = None"
  shows "\<exists>nn'. local_search cl (2 ^ k - 1) nn count = Some nn' \<and> nn' < NN_MAX_CLIENT \<and> cl ! (nn' mod 2 ^ k) = None"
  using assms
proof (induction d arbitrary: nn count)
  case 0
  then show ?case by (subst local_search.simps) (simp add: and_mask_nat)
next
  case (Suc d)
  show ?case
  proof (cases "cl ! (nn mod 2 ^ k)")
    case None
    with Suc.prems show ?thesis by (subst local_search.simps) (simp add: and_mask_nat)
  next
    case (Some c)
    have "next_nn nn < NN_MAX_CLIENT" using Suc.prems by (auto simp: next_nn_def)
    moreover have "cl ! ((next_nn nn + d) mod 2 ^ k) = None"
      using Suc.prems next_nn_mod [of k nn d] by simp
    ultimately have "\<exists>nn'. local_search cl (2 ^ k - 1) (next_nn nn) (count + 1) = Some nn' \<and>
        nn' < NN_MAX_CLIENT \<and> cl ! (nn' mod 2 ^ k) = None"
      using Suc.prems by (intro Suc.IH) auto
    with Some Suc.prems show ?thesis
      by (subst local_search.simps) (auto simp: and_mask_nat)
  qed
qed

lemma local_search_complete:
  assumes "k \<le> 18" "nn < NN_MAX_CLIENT" "j < 2 ^ k" "cl ! j = None"
  shows "\<exists>nn'. local_search cl (2 ^ k - 1) nn 0 = Some nn' \<and> nn' < NN_MAX_CLIENT \<and> cl ! (nn' mod 2 ^ k) = None"
proof -
  let ?d = "(j + 2 ^ k - nn mod 2 ^ k) mod 2 ^ k"
  have "?d < 2 ^ k" by simp
  also have "(2 :: nat) ^ k \<le> 2 ^ 18" using assms(1) by (rule power_increasing) simp
  finally have "0 + ?d < NN_MAX_CLIENT" by (simp add: NN_MAX_CLIENT_def)
  moreover have "(nn + ?d) mod 2 ^ k = j"
  proof -
    have "(nn + ?d) mod 2 ^ k = (nn mod 2 ^ k + (j + 2 ^ k - nn mod 2 ^ k)) mod 2 ^ k" by (simp add: mod_simps)
    also have "nn mod 2 ^ k + (j + 2 ^ k - nn mod 2 ^ k) = j + 2 ^ k"
      by (simp add: less_imp_le_nat trans_le_add2)
    finally show ?thesis using assms(3) by simp
  qed
  ultimately show ?thesis using assms local_search_finds [of k nn 0 ?d cl] by simp
qed

lemma local_search_none:
  assumes "\<forall>j < 2 ^ k. cl ! j \<noteq> None" 
  shows "local_search cl (2 ^ k - 1) nn count = None"
  using assms
proof (induction "NN_MAX_CLIENT - count" arbitrary: nn count rule: less_induct)
  case less
  have "cl ! (nn mod 2 ^ k) \<noteq> None" using less.prems by simp
  then show ?case using less
    by (subst local_search.simps) (auto simp: and_mask_nat)
qed

text \<open>
  The server \<open>me\<close> as it is set up by \<open>SetYXXServerName\<close> and \<open>SetYXXCapacity\<close>: its numeric
  \<open>n\<close> and a table of \<open>2 ^ k\<close> slots.
\<close>

definition local_server :: "nn_state \<Rightarrow> nat \<Rightarrow> server \<Rightarrow> nat \<Rightarrow> nat \<Rightarrow> bool" where
  "local_server st me srv n k \<longleftrightarrow>
    servers st me = Some srv \<and> k \<le> 18 \<and> unat (nn_mask srv) = 2 ^ k - 1 \<and> length (client_list srv) = 2 ^ k \<and>
    n < NN_MAX_SERVER \<and> cli_yxx srv = inttobase64 (of_nat n) 2 \<and>
    length (server_list st) = NN_MAX_SERVER \<and> server_list st ! n = Some me \<and> last_nn st < NN_MAX_CLIENT"

lemma unat_small: "n < 2 ^ 32 \<Longrightarrow> unat (of_nat n :: u32) = n"
  by (simp add: unat_of_nat)

lemma unat_and: "unat (v AND w) = unat v AND unat (w :: u32)"
  by (rule unsigned_and_eq)

lemma SetLocalNumNick_spec:
  assumes "local_server st me srv n k" "None \<in> set (client_list srv)"
  obtains st' nn where "SetLocalNumNick st me c = Some st'" "nn < NN_MAX_CLIENT"
    "client_list srv ! (nn mod 2 ^ k) = None"
    "user_yxx st' = (user_yxx st)(c := inttobase64 (of_nat nn) 3)"
    "servers st' = (servers st)(me \<mapsto> srv\<lparr>client_list := (client_list srv)[nn mod 2 ^ k := Some c]\<rparr>)"
    "server_list st' = server_list st" "last_nn st' < NN_MAX_CLIENT" "lastNNServer st' = lastNNServer st"
proof -
  obtain j where "j < 2 ^ k" "client_list srv ! j = None"
    using assms by (auto simp: in_set_conv_nth local_server_def)
  then obtain nn where nn: "local_search (client_list srv) (2 ^ k - 1) (last_nn st) 0 = Some nn"
      "nn < NN_MAX_CLIENT" "client_list srv ! (nn mod 2 ^ k) = None"
    using local_search_complete [of k "last_nn st" j "client_list srv"] assms(1) by (auto simp: local_server_def)
  let ?st = "(set_slot st me (nn AND unat (nn_mask srv)) (Some c))
    \<lparr>user_yxx := (user_yxx st)(c := inttobase64 (of_nat nn) 3), last_nn := next_nn nn\<rparr>"
  have "SetLocalNumNick st me c = Some ?st"
    using assms(1) nn(1) by (simp add: SetLocalNumNick_def local_server_def)
  moreover have "next_nn nn < NN_MAX_CLIENT" using nn(2) by (auto simp: next_nn_def)
  ultimately show ?thesis
    using that [of ?st nn] nn assms(1) by (simp add: local_server_def set_slot_def and_mask_nat)
qed

lemma findNUser_local:
  assumes "servers st me = Some srv" "unat (nn_mask srv) = 2 ^ k - 1" "length (client_list srv) = 2 ^ k"
    "n < NN_MAX_SERVER" "cli_yxx srv = inttobase64 (of_nat n) 2" "length (server_list st) = NN_MAX_SERVER"
    "server_list st ! n = Some me" "nn < NN_MAX_CLIENT"
  shows "findNUser st (cli_yxx srv @ inttobase64 (of_nat nn) 3) = client_list srv ! (nn mod 2 ^ k)"
proof -
  have "unat (of_nat n :: u32) = n" "unat (of_nat nn :: u32) = nn"
    using assms(4,8) by (simp_all add: unat_small NN_MAX_SERVER_def NN_MAX_CLIENT_def)
  then show ?thesis using assms
    by (simp add: findNUser_def FindXNServer_def server_at_def client_at_def base64_roundtrip2 base64_roundtrip3
        unat_and and_mask_nat NN_MAX_SERVER_def NN_MAX_CLIENT_def)
qed

lemma unat_pow2: "k \<le> 31 \<Longrightarrow> unat (2 ^ k :: u32) = 2 ^ k"
proof -
  assume "k \<le> 31"
  then have "(2 :: nat) ^ k < 2 ^ 32" by (intro power_strict_increasing) auto
  moreover have "(2 ^ k :: u32) = of_nat (2 ^ k)" by simp
  ultimately show ?thesis by (simp only: unat_small)
qed

lemma capacity_loop_16:
  assumes "unat capacity \<le> 2 ^ 31" "k \<le> 31" "4 \<le> k" "4 < k \<Longrightarrow> 2 ^ (k - 1) < unat capacity"
  shows "\<exists>k'. 4 \<le> k' \<and> k' \<le> 31 \<and> capacity_loop (2 ^ k) capacity = Some (2 ^ k') \<and>
    unat capacity \<le> 2 ^ k' \<and> (4 < k' \<longrightarrow> 2 ^ (k' - 1) < unat capacity)"
  using assms(2-)
proof (induction "31 - k" arbitrary: k)
  {
    case 0
    then have "k = 31" by simp
    moreover have "\<not> (2 ^ 31 :: u32) < capacity" using assms(1) unat_pow2 [of 31] by (simp add: word_less_nat_alt)
    ultimately show ?case using 0 assms(1)
      by (intro exI [of _ 31]) (subst capacity_loop.simps, auto)
  next
    case (Suc d)
    show ?case
    proof (cases "unat capacity \<le> 2 ^ k")
      case True
      then have "\<not> (2 ^ k :: u32) < capacity" using unat_pow2 [of k] Suc by (simp add: word_less_nat_alt)
      then have "capacity_loop (2 ^ k) capacity = Some (2 ^ k)" by (subst capacity_loop.simps) simp
      with True Suc.prems show ?thesis by blast
    next
      case False
      then have "(2 ^ k :: u32) < capacity" using unat_pow2 [of k] Suc by (simp add: word_less_nat_alt)
      moreover have "push_bit 1 (2 ^ k :: u32) = 2 ^ Suc k" by (simp add: push_bit_eq_mult)
      ultimately have "capacity_loop (2 ^ k) capacity = capacity_loop (2 ^ Suc k) capacity"
        by (subst capacity_loop.simps) (simp only: if_True)
      moreover have "\<exists>k'. 4 \<le> k' \<and> k' \<le> 31 \<and> capacity_loop (2 ^ Suc k) capacity = Some (2 ^ k') \<and>
          unat capacity \<le> 2 ^ k' \<and> (4 < k' \<longrightarrow> 2 ^ (k' - 1) < unat capacity)"
        using False Suc.hyps(2) Suc.prems by (intro Suc.hyps(1)) auto
      ultimately show ?thesis by simp
    qed
  }
qed

text \<open>Beyond half the range of the type the doubling passes through 0 and never ends.\<close>

lemma capacity_loop_diverges:
  "capacity_loop m capacity = Some r \<Longrightarrow> unat capacity > 2 ^ 31 \<longrightarrow> m \<noteq> 0 \<and> (\<forall>k \<le> 31. m \<noteq> 2 ^ k)"
proof (erule capacity_loop.raw_induct [rotated], intro impI)
  fix loop m capacity r
  assume ih: "\<And>m c r. loop m c = Some r \<Longrightarrow> unat c > 2 ^ 31 \<longrightarrow> m \<noteq> 0 \<and> (\<forall>k \<le> 31. m \<noteq> (2 :: u32) ^ k)"
    and body: "(if m < capacity then loop (push_bit 1 m) capacity else Some m) = Some r"
    and big: "unat (capacity :: u32) > 2 ^ 31"
  show "m \<noteq> 0 \<and> (\<forall>k \<le> 31. m \<noteq> 2 ^ k)"
  proof (cases "m < capacity")
    case True
    with body have "loop (push_bit 1 m) capacity = Some r" by (simp only: if_True)
    with ih big have ih': "push_bit 1 m \<noteq> 0 \<and> (\<forall>k \<le> 31. push_bit 1 m \<noteq> 2 ^ k)" by blast
    have "push_bit 1 (2 ^ k :: u32) = 2 ^ Suc k" for k by (simp add: push_bit_eq_mult)
    moreover have "push_bit 1 (2 ^ 31 :: u32) = 0" by (simp add: push_bit_eq_mult)
    ultimately show ?thesis using ih' by (metis Suc_leI le_neq_implies_less push_bit_of_0)
  next
    case False
    have "(2 ^ k :: u32) < capacity" if "k \<le> 31" for k
    proof -
      have "(2 :: nat) ^ k \<le> 2 ^ 31" using that by (intro power_increasing) auto
      then show ?thesis using big that by (simp add: word_less_nat_alt unat_pow2)
    qed
    moreover have "0 < capacity" using big by (simp add: word_less_nat_alt)
    ultimately show ?thesis using False by blast
  qed
qed

definition nn_inv :: "nn_state \<Rightarrow> bool" where
  "nn_inv st \<longleftrightarrow> length (server_list st) = NN_MAX_SERVER \<and> lastNNServer st \<le> NN_MAX_SERVER \<and>
    (\<forall>i. lastNNServer st \<le> i \<and> i < NN_MAX_SERVER \<longrightarrow> server_list st ! i = None) \<and>
    (\<forall>sid srv. servers st sid = Some srv \<longrightarrow>
      client_list srv = [] \<or> length (client_list srv) = unat (nn_mask srv) + 1)"

lemma nn_inv_set_slot: "nn_inv st \<Longrightarrow> nn_inv (set_slot st sid i c)"
  by (auto simp: nn_inv_def set_slot_def split: option.splits)

lemma nn_inv_user_yxx [simp]: "nn_inv (st\<lparr>user_yxx := u\<rparr>) = nn_inv st" "nn_inv (st\<lparr>last_nn := n\<rparr>) = nn_inv st"
  by (simp_all add: nn_inv_def)

lemma nn_inv_RemoveYXXClient: "nn_inv st \<Longrightarrow> nn_inv (RemoveYXXClient st sid yxx)"
  by (simp add: RemoveYXXClient_def nn_inv_set_slot)

lemma nn_inv_SetRemoteNumNick: "nn_inv st \<Longrightarrow> nn_inv (fst (SetRemoteNumNick st sid c yxx))"
  by (auto simp: SetRemoteNumNick_def Let_def intro!: nn_inv_set_slot nn_inv_RemoveYXXClient split: option.split)

lemma nn_inv_SetLocalNumNick: "nn_inv st \<Longrightarrow> SetLocalNumNick st me c = Some st' \<Longrightarrow> nn_inv st'"
  by (auto simp: SetLocalNumNick_def nn_inv_set_slot split: option.splits)

lemma nth_update_None: "xs ! j = None \<Longrightarrow> j < length xs \<Longrightarrow> (xs[i := None]) ! j = None"
  by (cases "i = j") auto

lemma nn_inv_ClearServerYXX: "nn_inv st \<Longrightarrow> nn_inv (ClearServerYXX st sid)"
  by (auto simp: ClearServerYXX_def nn_inv_def nth_update_None split: option.split)

lemma base64_two_digits: "base64toint s = Some i \<Longrightarrow> length s \<le> 2 \<Longrightarrow> unat i < NN_MAX_SERVER"
proof -
  assume "base64toint s = Some i" "length s \<le> 2"
  then have "unat i < 64 ^ length s" "(64 :: nat) ^ length s \<le> 64 ^ 2"
    using base64_bound power_increasing [of "length s" 2 "64 :: nat"] by auto
  then show ?thesis by (simp add: NN_MAX_SERVER_def)
qed

lemma nn_inv_announce:
  assumes "nn_inv st" "i < NN_MAX_SERVER"
    "client_list srv = [] \<or> length (client_list srv) = unat (nn_mask srv) + 1"
  shows "nn_inv (st\<lparr>servers := (servers st)(sid \<mapsto> srv),
    lastNNServer := (if i \<ge> lastNNServer st then i + 1 else lastNNServer st),
    server_list := (server_list st)[i := Some sid]\<rparr>)"
  using assms by (auto simp: nn_inv_def split: if_splits)

lemma nn_inv_SetServerYXX:
  assumes "nn_inv st"
  shows "nn_inv (SetServerYXX st sid yxx)"
proof (cases "servers st sid")
  case None
  with assms show ?thesis by (simp add: SetServerYXX_def)
next
  case (Some srv)
  define srv1 where "srv1 = (if length yxx = 5
      then srv\<lparr>cli_yxx := take 2 yxx, nn_capacity := take 3 (drop 2 yxx)\<rparr>
      else srv\<lparr>cli_yxx := take 1 yxx, nn_capacity := take 2 (drop 1 yxx)\<rparr>)"
  have l: "length (cli_yxx srv1) \<le> 2" by (simp add: srv1_def min_def)
  note e = SetServerYXX_def [of st sid yxx, unfolded Some option.case srv1_def [symmetric] Let_def]
  show ?thesis
  proof (cases "base64toint (nn_capacity srv1) = None \<or> base64toint (cli_yxx srv1) = None")
    case True
    with assms show ?thesis unfolding e by (auto split: option.split)
  next
    case False
    then obtain m i where mi: "base64toint (nn_capacity srv1) = Some m" "base64toint (cli_yxx srv1) = Some i"
      by auto
    from nn_inv_announce [OF assms base64_two_digits [OF mi(2) l],
      of "srv1\<lparr>nn_mask := m, client_list := replicate (unat m + 1) None\<rparr>" sid]
    show ?thesis unfolding e mi by simp
  qed
qed

lemma nn_inv_SetYXXServerName:
  "nn_inv st \<Longrightarrow> unat numeric < NN_MAX_SERVER \<Longrightarrow> nn_inv (SetYXXServerName st sid numeric)"
proof -
  assume a: "nn_inv st" "unat numeric < NN_MAX_SERVER"
  show ?thesis
  proof (cases "servers st sid")
    case (Some srv)
    with a(1) have "client_list srv = [] \<or> length (client_list srv) = unat (nn_mask srv) + 1"
      by (auto simp: nn_inv_def)
    with nn_inv_announce [OF a, of "srv\<lparr>cli_yxx := inttobase64 numeric 2\<rparr>" sid] Some show ?thesis
      by (simp add: SetYXXServerName_def)
  qed (use a in \<open>simp add: SetYXXServerName_def\<close>)
qed

text \<open>The two calls at start-up give a server that can hand out numerics.\<close>

lemma setup_local_server:
  assumes "nn_inv st" "servers st me = Some srv" "n < NN_MAX_SERVER" "last_nn st < NN_MAX_CLIENT"
    "unat capacity \<le> NN_MAX_CLIENT"
  shows "\<exists>st' srv' k. SetYXXCapacity (SetYXXServerName st me (of_nat n)) me capacity = Some (Inr st') \<and>
    nn_inv st' \<and> local_server st' me srv' n k \<and> unat capacity \<le> 2 ^ k \<and> set (client_list srv') = {None}"
proof -
  let ?st1 = "SetYXXServerName st me (of_nat n)"
  let ?srv1 = "srv\<lparr>cli_yxx := inttobase64 (of_nat n) 2\<rparr>"
  have un: "unat (of_nat n :: u32) = n" using assms(3) by (simp add: unat_small NN_MAX_SERVER_def)
  have inv1: "nn_inv ?st1" using assms un by (intro nn_inv_SetYXXServerName) auto
  have s1: "servers ?st1 me = Some ?srv1" "last_nn ?st1 = last_nn st" using assms(2) by (simp_all add: SetYXXServerName_def)
  have ln: "n < lastNNServer ?st1" using assms(2) un by (simp add: SetYXXServerName_def)
  have "unat capacity \<le> 2 ^ 31" using assms(5) by (simp add: NN_MAX_CLIENT_def)
  then obtain k where k: "4 \<le> k" "k \<le> 31" "capacity_loop (2 ^ 4) capacity = Some (2 ^ k)"
      "unat capacity \<le> 2 ^ k" "4 < k \<longrightarrow> 2 ^ (k - 1) < unat capacity"
    using capacity_loop_16 [of capacity 4] by auto
  have k18: "k \<le> 18"
  proof (rule ccontr)
    assume "\<not> k \<le> 18"
    then have "(2 :: nat) ^ 18 \<le> 2 ^ (k - 1)" by (intro power_increasing) auto
    with k(5) assms(5) \<open>\<not> k \<le> 18\<close> show False by (simp add: NN_MAX_CLIENT_def)
  qed
  have u: "unat (2 ^ k - 1 :: u32) = 2 ^ k - 1"
  proof -
    have "(2 ^ k :: u32) \<noteq> 0" using unat_pow2 [OF k(2)] by (metis power_not_zero unsigned_0 zero_neq_numeral)
    from unat_minus_one [OF this] show ?thesis by (simp only: unat_pow2 [OF k(2)])
  qed
  let ?srv2 = "?srv1\<lparr>nn_capacity := inttobase64 (2 ^ k - 1) 3, nn_mask := 2 ^ k - 1,
      client_list := replicate (unat (2 ^ k - 1 :: u32) + 1) None\<rparr>"
  let ?st2 = "?st1\<lparr>servers := (servers ?st1)(me \<mapsto> ?srv2), server_list := (server_list ?st1)[n := Some me]\<rparr>"
  have le: "(2 :: nat) ^ k \<le> NN_MAX_CLIENT"
    using power_increasing [OF k18, of "2 :: nat"] by (simp add: NN_MAX_CLIENT_def)
  have b: "base64toint (inttobase64 (of_nat n) 2) = Some (of_nat n)"
    using assms(3) by (simp add: base64_roundtrip2 NN_MAX_SERVER_def)
  have c: "SetYXXCapacity ?st1 me capacity = Some (Inr ?st2)"
    using k(3) le b s1 un by (simp add: SetYXXCapacity_def unat_pow2 [OF k(2)] Let_def)
  have ann: "?st2 = ?st1\<lparr>servers := (servers ?st1)(me \<mapsto> ?srv2),
      lastNNServer := (if n \<ge> lastNNServer ?st1 then n + 1 else lastNNServer ?st1),
      server_list := (server_list ?st1)[n := Some me]\<rparr>" using ln by simp
  have "nn_inv ?st2" unfolding ann by (rule nn_inv_announce [OF inv1 assms(3)]) simp
  moreover have "local_server ?st2 me ?srv2 n k"
    using assms(3,4) k18 u s1 inv1 by (simp add: local_server_def nn_inv_def)
  moreover have "set (client_list ?srv2) = {None}" by (auto simp: set_replicate_conv_if)
  ultimately show ?thesis using c k(4) by blast
qed

text \<open>A numeric handed out by \<open>SetLocalNumNick\<close> finds the client, and no other numeric changes.\<close>

lemma SetLocalNumNick_lookup:
  assumes "local_server st me srv n k" "None \<in> set (client_list srv)"
  shows "\<exists>st' srv'. SetLocalNumNick st me c = Some st' \<and> local_server st' me srv' n k \<and>
    findNUser st' (cli_yxx srv' @ user_yxx st' c) = Some c \<and>
    findNUser st (cli_yxx srv' @ user_yxx st' c) = None \<and>
    (\<forall>nn < NN_MAX_CLIENT. findNUser st (cli_yxx srv @ inttobase64 (of_nat nn) 3) \<noteq> None \<longrightarrow>
       findNUser st' (cli_yxx srv @ inttobase64 (of_nat nn) 3) =
       findNUser st (cli_yxx srv @ inttobase64 (of_nat nn) 3))"
proof -
  obtain st' nn where st': "SetLocalNumNick st me c = Some st'" "nn < NN_MAX_CLIENT"
    "client_list srv ! (nn mod 2 ^ k) = None"
    "user_yxx st' = (user_yxx st)(c := inttobase64 (of_nat nn) 3)"
    "servers st' = (servers st)(me \<mapsto> srv\<lparr>client_list := (client_list srv)[nn mod 2 ^ k := Some c]\<rparr>)"
    "server_list st' = server_list st" "last_nn st' < NN_MAX_CLIENT"
    using SetLocalNumNick_spec [OF assms, of c] by blast
  let ?srv = "srv\<lparr>client_list := (client_list srv)[nn mod 2 ^ k := Some c]\<rparr>"
  have ls: "local_server st' me ?srv n k" using assms(1) st' by (simp add: local_server_def)
  have old: "findNUser st (cli_yxx srv @ inttobase64 (of_nat m) 3) = client_list srv ! (m mod 2 ^ k)"
    if "m < NN_MAX_CLIENT" for m
    using assms(1) that by (intro findNUser_local) (auto simp: local_server_def)
  have new: "findNUser st' (cli_yxx srv @ inttobase64 (of_nat m) 3) = client_list ?srv ! (m mod 2 ^ k)"
    if "m < NN_MAX_CLIENT" for m
    using findNUser_local [of st' me ?srv k n m] ls that by (auto simp: local_server_def)
  have len: "length (client_list srv) = 2 ^ k" using assms(1) by (simp add: local_server_def)
  show ?thesis
  proof (intro exI conjI allI impI)
    show "SetLocalNumNick st me c = Some st'" "local_server st' me ?srv n k" by (fact st'(1), fact ls)
    show "findNUser st' (cli_yxx ?srv @ user_yxx st' c) = Some c"
      using new [OF st'(2)] st'(4) len by simp
    show "findNUser st (cli_yxx ?srv @ user_yxx st' c) = None"
      using old [OF st'(2)] st'(3,4) by simp
    fix m assume "m < NN_MAX_CLIENT" "findNUser st (cli_yxx srv @ inttobase64 (of_nat m) 3) \<noteq> None"
    then show "findNUser st' (cli_yxx srv @ inttobase64 (of_nat m) 3) = findNUser st (cli_yxx srv @ inttobase64 (of_nat m) 3)"
      using old new st'(3) len by (auto simp: nth_list_update)
  qed
qed

definition name_matches :: "nn_state \<Rightarrow> string \<Rightarrow> nat option \<Rightarrow> bool" where
  "name_matches st m s = (case s of
     Some sid \<Rightarrow> (case servers st sid of Some srv \<Rightarrow> match m (cli_name srv) = Some 0 | None \<Rightarrow> False)
   | None \<Rightarrow> False)"

lemma find_match_server_first:
  assumes "find_match_server st msk = Some sid"
  shows "\<exists>i < lastNNServer st. i < length (server_list st) \<and> server_list st ! i = Some sid \<and>
    name_matches st (collapse msk) (Some sid) \<and>
    (\<forall>j < i. \<not> name_matches st (collapse msk) (server_list st ! j))"
proof -
  have "List.find (name_matches st (collapse msk)) (take (lastNNServer st) (server_list st)) = Some (Some sid)"
    using assms by (auto simp: find_match_server_def name_matches_def [abs_def] Let_def split: if_splits option.splits)
  then show ?thesis by (auto simp: find_Some_iff)
qed

section \<open>Properties\<close>

text \<open>
  A number that fits into a count of base-64 digits is recovered from its code.
\<close>

lemma base64_code:
  assumes "unat v < 64 ^ Suc n"
  shows "base64toint (inttobase64 v (Suc n)) = Some v"
proof -
  have "(64 :: nat) ^ Suc n = 2 ^ (6 * Suc n)" by (simp add: power_mult power_add)
  with assms show ?thesis by (intro base64_roundtrip drop_bit_less) simp
qed

text \<open>
  C37.  An IPv6 address that is sent in the IPv6 form (\<open>v6_ok\<close>) is recovered from its base-64 form whenever the words which
  the encoder takes for the longest run of zeros are zero (\<open>run_ok\<close>: the encoder does not reset its count of zeros and may drop a
  word that is not).  From an IPv4 address other than 0.0.0.0 the same IPv4 address is recovered, as a mapped address, and
  0.0.0.0 becomes the null address.
\<close>

theorem base64_ip_roundtrip:
  assumes "wf_addr a"
  shows "(\<not> irc_in_addr_is_ipv4 a \<and> run_ok a \<longrightarrow> base64toip (iptobase64 a True) = Some a) \<and>
    (irc_in_addr_is_ipv4 a \<longrightarrow> base64toip (iptobase64 a v6_ok) =
       Some (if in6_16 a ! 6 = 0 \<and> in6_16 a ! 7 = 0 then ip_zero else \<lparr>in6_16 = [0, 0, 0, 0, 0, 65535, in6_16 a ! 6, in6_16 a ! 7]\<rparr>))"
  using assms iptobase64_ip6 [of a] iptobase64_ip4 [of a v6_ok] iptobase64_null [of a v6_ok] by (auto simp: ip4_mapped_def)

theorem base64_ip_roundtrip_witness:
  "base64toip (iptobase64 \<lparr>in6_16 = [1, 0, 0, 0, 2, 0, 0, 3]\<rparr> True) = Some \<lparr>in6_16 = [1, 0, 0, 0, 2, 0, 0, 3]\<rparr> \<and>
   base64toip (iptobase64 \<lparr>in6_16 = [0, 0, 0, 0, 0, 65535, 10, 1]\<rparr> False) = Some \<lparr>in6_16 = [0, 0, 0, 0, 0, 65535, 10, 1]\<rparr>"
proof -
  let ?a = "\<lparr>in6_16 = [1, 0, 0, 0, 2, 0, 0, 3]\<rparr>" and ?b = "\<lparr>in6_16 = [0, 0, 0, 0, 0, 65535, 10, 1]\<rparr>"
  have "wf_addr ?a" "wf_addr ?b" "\<not> irc_in_addr_is_ipv4 ?a" "irc_in_addr_is_ipv4 ?b"
    by (simp_all add: wf_addr_def irc_in_addr_is_ipv4_def)
  moreover have "run_ok ?a" by code_simp
  ultimately show ?thesis using base64_ip_roundtrip [of ?a] base64_ip_roundtrip [of ?b False] by simp
qed

text \<open>
  C15.  While the table of the local server has a free slot, a new local client gets a numeric; looking
  that numeric up finds the client, it found nobody before, and every numeric that was in use
  still finds the same client.
\<close>

theorem local_numeric_found:
  assumes "local_server st me srv n k" "None \<in> set (client_list srv)"
  shows "\<exists>st' srv'. SetLocalNumNick st me c = Some st' \<and> local_server st' me srv' n k \<and>
    findNUser st' (cli_yxx srv' @ user_yxx st' c) = Some c \<and>
    findNUser st (cli_yxx srv' @ user_yxx st' c) = None \<and>
    (\<forall>nn < NN_MAX_CLIENT. findNUser st (cli_yxx srv @ inttobase64 (of_nat nn) 3) \<noteq> None \<longrightarrow>
       findNUser st' (cli_yxx srv @ inttobase64 (of_nat nn) 3) =
       findNUser st (cli_yxx srv @ inttobase64 (of_nat nn) 3))"
  using assms by (rule SetLocalNumNick_lookup)

definition me_example :: server where
  "me_example = \<lparr>cli_name = ''irc.example'', cli_yxx = ''AB'', nn_capacity = ''AAB'', nn_mask = 1,
     client_list = [Some 7, None]\<rparr>"

definition nn_example :: nn_state where
  "nn_example = \<lparr>server_list = (replicate 4096 None)[1 := Some 1], lastNNServer = 2, last_nn = 0,
     servers = [1 \<mapsto> me_example], user_yxx = (\<lambda>_. [])\<rparr>"

text \<open>A server with two slots, one of them taken: the new client gets the other one and the old one keeps its own.\<close>

theorem local_numeric_found_witness:
  "\<exists>st' (srv' :: server). SetLocalNumNick nn_example 1 9 = Some st' \<and>
     findNUser st' (cli_yxx srv' @ user_yxx st' 9) = Some 9 \<and> findNUser st' ''ABAAA'' = Some 7"
proof -
  have aa: "inttobase64 1 2 = ''AB''" "inttobase64 0 3 = ''AAA''" by code_simp+
  have a: "local_server nn_example 1 me_example 1 1"
    by (simp add: local_server_def nn_example_def me_example_def NN_MAX_SERVER_def NN_MAX_CLIENT_def aa)
  have n: "None \<in> set (client_list me_example)" by (simp add: me_example_def)
  have "base64toint ''AB'' = Some 1" "base64toint ''AAA'' = Some 0" by code_simp+
  then have f: "findNUser nn_example ''ABAAA'' = Some 7"
    by (simp add: findNUser_def FindXNServer_def server_at_def client_at_def nn_example_def me_example_def)
  from local_numeric_found [OF a n, of 9] obtain st' and srv' :: server where "SetLocalNumNick nn_example 1 9 = Some st'"
    "findNUser st' (cli_yxx srv' @ user_yxx st' 9) = Some 9"
    "\<forall>nn < NN_MAX_CLIENT. findNUser nn_example (cli_yxx me_example @ inttobase64 (of_nat nn) 3) \<noteq> None \<longrightarrow>
       findNUser st' (cli_yxx me_example @ inttobase64 (of_nat nn) 3) = findNUser nn_example (cli_yxx me_example @ inttobase64 (of_nat nn) 3)" by blast
  with f show ?thesis using aa(2) by (auto simp: me_example_def NN_MAX_CLIENT_def dest: spec [of _ 0])
qed

end
