(* ===== verification/Hash.thy ===== *)
theory Hash
  imports IrcdString "HOL-Library.Multiset"
begin

text \<open>
  The hash tables of \<open>ircd/hash.c\<close>: the string hash and its shuffled CRC table, the three chained
  tables (clients, channels, monitored nicks) with their move-to-front lookup, and the open-addressed
  table of juped nicks.

  A chained table is a head pointer per bucket and a link per entry (\<open>cli_hnext\<close>, \<open>hnext\<close>,
  \<open>mo_next\<close>), over entries that are identities (\<open>nat\<close>); an entry that is in no bucket links to
  itself.  The walks along the links are \<open>partial_function\<close>s: a walk that never ends is \<open>None\<close>.
  The functions of the three tables are the same text over different fields, so each pair is one
  function here over the parts of the table it uses.
\<close>

section \<open>The hash function\<close>

definition HASHSIZE :: nat where "HASHSIZE = 32000"

definition crc_step :: "u32 \<Rightarrow> u32" where
  "crc_step rand = (if rand AND 1 \<noteq> 0 then 0xedb88320 XOR drop_bit 1 rand else drop_bit 1 rand)"

definition crc_table :: "u32 list" where
  "crc_table = map (\<lambda>ii. (crc_step ^^ 8) (of_nat ii)) [0..<256]"

text \<open>
  The shuffling loop of \<open>init_hash\<close>; \<open>rnd\<close> is the sequence of values \<open>ircrandom\<close> returns.
\<close>

function shuffle_loop :: "(nat \<Rightarrow> u32) \<Rightarrow> nat \<Rightarrow> u32 \<Rightarrow> nat \<Rightarrow> u32 list \<Rightarrow> u32 list" where
  "shuffle_loop rnd k rand ii tbl =
    (if ii < 256 then
       (let (rand, k) = (if rand = 0 then (rnd k, k + 1) else (rand, k));
            poly = ii + unat rand mod (256 - ii);
            tbl' = (tbl[ii := tbl ! poly])[poly := tbl ! ii]
        in shuffle_loop rnd k (drop_bit 8 rand) (ii + 1) tbl')
     else tbl)"
  by pat_completeness auto
termination by (relation "measure (\<lambda>(rnd, k, rand, ii, tbl). 256 - ii)") auto

declare shuffle_loop.simps [simp del]

definition init_hash :: "(nat \<Rightarrow> u32) \<Rightarrow> u32 list" where
  "init_hash rnd = shuffle_loop rnd 0 0 0 crc_table"

text \<open>
  \<open>ToLower(*n) & 255\<close> is the code of the folded character.  An empty string is outside the domain:
  the source steps over its terminator and reads on.
\<close>

fun strhash_loop :: "u32 list \<Rightarrow> u32 \<Rightarrow> string \<Rightarrow> u32" where
  "strhash_loop crc hash [] = hash"
| "strhash_loop crc hash (c # n) =
    strhash_loop crc (drop_bit 8 hash XOR crc ! unat ((hash XOR of_char (ToLower c)) AND 255)) n"

definition strhash :: "u32 list \<Rightarrow> string \<Rightarrow> nat" where
  "strhash crc n = unat (strhash_loop crc (crc ! of_char (ToLower (deref n))) (tl n)) mod HASHSIZE"

section \<open>Chained tables\<close>

record htable =
  heads :: "nat \<Rightarrow> nat option"
  hnext :: "nat \<Rightarrow> nat option"

definition table_add :: "nat \<Rightarrow> nat \<Rightarrow> htable \<Rightarrow> htable" where
  "table_add hashv c t = t\<lparr>hnext := (hnext t)(c := heads t hashv), heads := (heads t)(hashv := Some c)\<rparr>"

partial_function (option) rem_loop ::
  "nat \<Rightarrow> (nat \<Rightarrow> nat option) \<Rightarrow> nat option \<Rightarrow> ((nat \<Rightarrow> nat option) \<times> int) option" where
  "rem_loop c nx tmp = (case tmp of
     None \<Rightarrow> Some (nx, -1)
   | Some t \<Rightarrow> if nx t = Some c then Some ((nx(t := nx c))(c := Some c), 0) else rem_loop c nx (nx t))"

definition table_rem :: "nat \<Rightarrow> nat \<Rightarrow> htable \<Rightarrow> (htable \<times> int) option" where
  "table_rem hashv c t =
    (if heads t hashv = Some c
     then Some (t\<lparr>heads := (heads t)(hashv := hnext t c), hnext := (hnext t)(c := Some c)\<rparr>, 0)
     else map_option (\<lambda>(nx, r). (t\<lparr>hnext := nx\<rparr>, r)) (rem_loop c (hnext t) (heads t hashv)))"

text \<open>The walk of a lookup: the entry before the match and the match.\<close>

partial_function (option) seek_loop ::
  "(nat \<Rightarrow> bool) \<Rightarrow> (nat \<Rightarrow> nat option) \<Rightarrow> nat \<Rightarrow> (nat \<times> nat option) option" where
  "seek_loop hit nx prev = (case nx prev of
     None \<Rightarrow> Some (prev, None)
   | Some c \<Rightarrow> if hit c then Some (prev, Some c) else seek_loop hit nx c)"

definition table_seek :: "(nat \<Rightarrow> bool) \<Rightarrow> nat \<Rightarrow> htable \<Rightarrow> (htable \<times> nat option) option" where
  "table_seek hit hashv t = (case heads t hashv of
     None \<Rightarrow> Some (t, None)
   | Some c \<Rightarrow>
       if hit c then Some (t, Some c)
       else map_option (\<lambda>(prev, r). case r of
              None \<Rightarrow> (t, None)
            | Some d \<Rightarrow> (t\<lparr>hnext := ((hnext t)(prev := hnext t d))(d := heads t hashv),
                         heads := (heads t)(hashv := Some d)\<rparr>, Some d))
            (seek_loop hit (hnext t) c))"

text \<open>
  The program's tables and the fields of the entries they are keyed on.
\<close>

record hash_state =
  crc32hash :: "u32 list"
  clientTable :: htable
  channelTable :: htable
  monitorTable :: htable
  cli_name :: "nat \<Rightarrow> string"
  cli_status :: "nat \<Rightarrow> u32"
  chname :: "nat \<Rightarrow> string"
  mo_nick :: "nat \<Rightarrow> string"

definition hAddClient :: "hash_state \<Rightarrow> nat \<Rightarrow> hash_state" where
  "hAddClient st c =
    st\<lparr>clientTable := table_add (strhash (crc32hash st) (cli_name st c)) c (clientTable st)\<rparr>"

definition hAddChannel :: "hash_state \<Rightarrow> nat \<Rightarrow> hash_state" where
  "hAddChannel st c =
    st\<lparr>channelTable := table_add (strhash (crc32hash st) (chname st c)) c (channelTable st)\<rparr>"

definition hAddMonitor :: "hash_state \<Rightarrow> nat \<Rightarrow> hash_state" where
  "hAddMonitor st c =
    st\<lparr>monitorTable := table_add (strhash (crc32hash st) (mo_nick st c)) c (monitorTable st)\<rparr>"

definition hRemClient :: "hash_state \<Rightarrow> nat \<Rightarrow> (hash_state \<times> int) option" where
  "hRemClient st c = map_option (\<lambda>(t, r). (st\<lparr>clientTable := t\<rparr>, r))
     (table_rem (strhash (crc32hash st) (cli_name st c)) c (clientTable st))"

definition hRemChannel :: "hash_state \<Rightarrow> nat \<Rightarrow> (hash_state \<times> int) option" where
  "hRemChannel st c = map_option (\<lambda>(t, r). (st\<lparr>channelTable := t\<rparr>, r))
     (table_rem (strhash (crc32hash st) (chname st c)) c (channelTable st))"

definition hRemMonitor :: "hash_state \<Rightarrow> nat \<Rightarrow> (hash_state \<times> int) option" where
  "hRemMonitor st c = map_option (\<lambda>(t, r). (st\<lparr>monitorTable := t\<rparr>, r))
     (table_rem (strhash (crc32hash st) (mo_nick st c)) c (monitorTable st))"

definition hChangeClient :: "hash_state \<Rightarrow> nat \<Rightarrow> string \<Rightarrow> hash_state option" where
  "hChangeClient st c newname = map_option (\<lambda>(st1, _).
     st1\<lparr>clientTable := table_add (strhash (crc32hash st) newname) c (clientTable st1)\<rparr>) (hRemClient st c)"

definition hSeekClient :: "hash_state \<Rightarrow> string \<Rightarrow> u32 \<Rightarrow> (hash_state \<times> nat option) option" where
  "hSeekClient st name TMask = map_option (\<lambda>(t, r). (st\<lparr>clientTable := t\<rparr>, r))
     (table_seek (\<lambda>c. cli_status st c AND TMask \<noteq> 0 \<and> ircd_strcmp name (cli_name st c) = 0)
       (strhash (crc32hash st) name) (clientTable st))"

definition hSeekChannel :: "hash_state \<Rightarrow> string \<Rightarrow> (hash_state \<times> nat option) option" where
  "hSeekChannel st name = map_option (\<lambda>(t, r). (st\<lparr>channelTable := t\<rparr>, r))
     (table_seek (\<lambda>c. ircd_strcmp name (chname st c) = 0) (strhash (crc32hash st) name) (channelTable st))"

definition hSeekMonitor :: "hash_state \<Rightarrow> string \<Rightarrow> (hash_state \<times> nat option) option" where
  "hSeekMonitor st nick = map_option (\<lambda>(t, r). (st\<lparr>monitorTable := t\<rparr>, r))
     (table_seek (\<lambda>c. ircd_strcmp nick (mo_nick st c) = 0) (strhash (crc32hash st) nick) (monitorTable st))"

section \<open>Nick jupes\<close>

definition JUPEHASHBITS :: nat where "JUPEHASHBITS = 12"
definition JUPEHASHSIZE :: nat where "JUPEHASHSIZE = 2 ^ JUPEHASHBITS"
definition JUPEMAX :: nat where "JUPEMAX = 2 ^ (JUPEHASHBITS - 6)"
definition NICKLEN :: nat where "NICKLEN = 15"
definition BUFSIZE :: nat where "BUFSIZE = 512"

record jupe_state =
  jupeTable :: "string list"
  jupesCount :: nat

partial_function (option) juped_loop :: "string list \<Rightarrow> string \<Rightarrow> nat \<Rightarrow> bool option" where
  "juped_loop tbl nick pos0 =
    (let pos = pos0 mod JUPEHASHSIZE
     in if tbl ! pos = [] then Some False
        else if ircd_strcmp nick (tbl ! pos) = 0 then Some True
        else juped_loop tbl nick (pos + 1))"

definition isNickJuped :: "u32 list \<Rightarrow> jupe_state \<Rightarrow> string \<Rightarrow> bool option" where
  "isNickJuped crc st nick =
    (if nick = [] then Some False else juped_loop (jupeTable st) nick (strhash crc nick))"

text \<open>The body of the loop over the items of the list; \<open>Inl\<close> when the table is full.\<close>

partial_function (option) add_jupe_loop :: "jupe_state \<Rightarrow> string \<Rightarrow> nat \<Rightarrow> (unit + jupe_state) option" where
  "add_jupe_loop st one pos0 =
    (let pos = pos0 mod JUPEHASHSIZE
     in if jupeTable st ! pos = [] then
          (if jupesCount st = JUPEMAX then Some (Inl ())
           else Some (Inr (st\<lparr>jupesCount := jupesCount st + 1,
                  jupeTable := (jupeTable st)[pos := take NICKLEN one]\<rparr>)))
        else if ircd_strcmp one (jupeTable st ! pos) = 0 then Some (Inr st)
        else add_jupe_loop st one (pos + 1))"

function add_jupes :: "u32 list \<Rightarrow> jupe_state \<Rightarrow> string option \<times> string option \<Rightarrow> (int \<times> jupe_state) option" where
  "add_jupes crc st (None, p) = Some (0, st)"
| "add_jupes crc st (Some one, p) =
    (case add_jupe_loop st one (strhash crc one) of
       None \<Rightarrow> None
     | Some (Inl _) \<Rightarrow> Some (1, st)
     | Some (Inr st') \<Rightarrow> add_jupes crc st' (ircd_strtok p None '',''))"
  by pat_completeness auto
termination by (relation "measure (\<lambda>(crc, st, tp). loop_size tp)") (simp_all add: loop_size_less)

definition addNickJupes :: "u32 list \<Rightarrow> jupe_state \<Rightarrow> string \<Rightarrow> (int \<times> jupe_state) option" where
  "addNickJupes crc st nicks =
    (if nicks = [] then Some (0, st)
     else add_jupes crc st (ircd_strtok None (Some (take BUFSIZE nicks)) '',''))"

definition clearNickJupes :: "jupe_state \<Rightarrow> jupe_state" where
  "clearNickJupes st = st\<lparr>jupesCount := 0, jupeTable := map (\<lambda>_. []) (jupeTable st)\<rparr>"

section \<open>Chained tables as lists of entries\<close>

fun chain :: "(nat \<Rightarrow> nat option) \<Rightarrow> nat option \<Rightarrow> nat list \<Rightarrow> bool" where
  "chain nx p [] = (p = None)"
| "chain nx p (c # cs) = (p = Some c \<and> chain nx (nx c) cs)"

lemma chain_upd [simp]: "x \<notin> set cs \<Longrightarrow> chain (nx(x := y)) p cs = chain nx p cs"
  by (induction cs arbitrary: p) auto

lemma chain_unique: "chain nx p cs \<Longrightarrow> chain nx p ds \<Longrightarrow> cs = ds"
proof (induction cs arbitrary: p ds)
  case Nil
  then show ?case by (cases ds) auto
next
  case (Cons c cs)
  then show ?case by (cases ds) auto
qed

lemma chain_append: "chain nx p (us @ d # vs) \<Longrightarrow> chain nx (nx d) vs"
  by (induction us arbitrary: p) auto

lemma chain_skip:
  "chain nx p (us @ d # vs) \<Longrightarrow> distinct (us @ d # vs) \<Longrightarrow> us \<noteq> [] \<Longrightarrow>
   chain (nx(last us := nx d)) p (us @ vs)"
proof (induction us arbitrary: p)
  case (Cons u us)
  show ?case
  proof (cases us)
    case Nil
    with Cons.prems show ?thesis by (auto simp del: fun_upd_apply simp: fun_upd_same)
  next
    case (Cons v ws)
    then have "u \<noteq> last us" using Cons.prems by auto
    with Cons Cons.IH [of "nx u"] Cons.prems show ?thesis
      by (auto simp del: fun_upd_apply simp: fun_upd_other)
  qed
qed simp

lemma rem_loop_found:
  "chain nx (Some t) (t # cs) \<Longrightarrow> distinct (t # cs) \<Longrightarrow> c \<in> set cs \<Longrightarrow>
   \<exists>us vs. t # cs = us @ c # vs \<and> us \<noteq> [] \<and>
     rem_loop c nx (Some t) = Some ((nx(last us := nx c))(c := Some c), 0)"
proof (induction cs arbitrary: t)
  case (Cons d cs)
  have nt: "nx t = Some d" "chain nx (Some d) (d # cs)" using Cons.prems by auto
  show ?case
  proof (cases "d = c")
    case True
    with nt have "rem_loop c nx (Some t) = Some ((nx(last [t] := nx c))(c := Some c), 0)"
      by (simp add: rem_loop.simps [of c nx "Some t"] del: fun_upd_apply)
    moreover have "t # d # cs = [t] @ c # cs" "[t] \<noteq> []" using True by simp_all
    ultimately show ?thesis by blast
  next
    case False
    then have "c \<in> set cs" "distinct (d # cs)" using Cons.prems by auto
    from Cons.IH [OF nt(2) this(2,1)] obtain us vs where u: "d # cs = us @ c # vs" "us \<noteq> []"
      "rem_loop c nx (Some d) = Some ((nx(last us := nx c))(c := Some c), 0)" by blast
    have "rem_loop c nx (Some t) = rem_loop c nx (Some d)"
      using nt False by (simp add: rem_loop.simps [of c nx "Some t"])
    with u have "t # d # cs = (t # us) @ c # vs"
        "rem_loop c nx (Some t) = Some ((nx(last (t # us) := nx c))(c := Some c), 0)"
      by (simp_all del: fun_upd_apply)
    then show ?thesis by blast
  qed
qed simp

lemma rem_loop_missing: "chain nx p cs \<Longrightarrow> c \<notin> set (tl cs) \<Longrightarrow> rem_loop c nx p = Some (nx, -1)"
proof (induction cs arbitrary: p)
  case (Cons d cs)
  have p: "p = Some d" "chain nx (nx d) cs" using Cons.prems by auto
  have "nx d \<noteq> Some c" using p Cons.prems by (cases cs) auto
  moreover have "c \<notin> set (tl cs)" using Cons.prems by (cases cs) auto
  ultimately show ?case using Cons.IH [OF p(2)] p(1) by (simp add: rem_loop.simps [of c nx "Some d"])
qed (simp add: rem_loop.simps)

text \<open>A walk that finds nothing, and one that finds the first entry that hits.\<close>

lemma seek_loop_none:
  "chain nx (Some t) (t # cs) \<Longrightarrow> \<forall>c \<in> set cs. \<not> hit c \<Longrightarrow> \<exists>prev. seek_loop hit nx t = Some (prev, None)"
proof (induction cs arbitrary: t)
  case Nil
  then show ?case by (simp add: seek_loop.simps)
next
  case (Cons d cs)
  then show ?case using Cons.IH [of d] by (simp add: seek_loop.simps [of hit nx t])
qed

lemma seek_loop_found:
  "chain nx (Some t) (t # us @ d # vs) \<Longrightarrow> \<forall>c \<in> set us. \<not> hit c \<Longrightarrow> hit d \<Longrightarrow>
   seek_loop hit nx t = Some (last (t # us), Some d)"
proof (induction us arbitrary: t)
  case Nil
  then show ?case by (simp add: seek_loop.simps)
next
  case (Cons u us)
  then show ?case using Cons.IH [of u] by (simp add: seek_loop.simps [of hit nx t])
qed

text \<open>
  The representation of a table by a list per bucket; \<open>hf\<close> is the bucket of an entry.
\<close>

definition trep :: "(nat \<Rightarrow> nat) \<Rightarrow> htable \<Rightarrow> (nat \<Rightarrow> nat list) \<Rightarrow> bool" where
  "trep hf t L \<longleftrightarrow> (\<forall>h. chain (hnext t) (heads t h) (L h) \<and> distinct (L h) \<and> (\<forall>c \<in> set (L h). hf c = h))"

definition tmem :: "htable \<Rightarrow> nat set" where
  "tmem t = {c. \<exists>h cs. chain (hnext t) (heads t h) cs \<and> c \<in> set cs}"

definition tinv :: "(nat \<Rightarrow> nat) \<Rightarrow> htable \<Rightarrow> bool" where
  "tinv hf t \<longleftrightarrow> (\<exists>L. trep hf t L)"

lemma trep_mem: "trep hf t L \<Longrightarrow> tmem t = (\<Union>h. set (L h))"
  unfolding tmem_def trep_def by (auto dest: chain_unique)

lemma trep_bucket: "trep hf t L \<Longrightarrow> c \<in> tmem t \<longleftrightarrow> c \<in> set (L (hf c))"
  using trep_mem [of hf t L] by (auto simp: trep_def)

lemma trep_other: "trep hf t L \<Longrightarrow> c \<in> set (L h) \<Longrightarrow> k \<noteq> h \<Longrightarrow> c \<notin> set (L k)"
  unfolding trep_def by metis

lemma trep_add:
  assumes "trep hf t L" "c \<notin> tmem t"
  shows "trep hf (table_add (hf c) c t) (L(hf c := c # L (hf c)))"
proof -
  have "c \<notin> set (L h)" for h using assms trep_mem by auto
  with assms(1) show ?thesis by (auto simp: trep_def table_add_def)
qed

lemma trep_rem:
  assumes "trep hf t L" "c \<in> tmem t"
  shows "\<exists>t'. table_rem (hf c) c t = Some (t', 0) \<and> trep hf t' (L(hf c := remove1 c (L (hf c))))"
proof -
  let ?h = "hf c"
  have c: "c \<in> set (L ?h)" using assms trep_bucket by blast
  have nc: "c \<notin> set (L k)" if "k \<noteq> ?h" for k using trep_other [OF assms(1) c that] .
  have ch: "chain (hnext t) (heads t k) (L k)" "distinct (L k)" for k using assms(1) by (auto simp: trep_def)
  obtain d cs where L: "L ?h = d # cs" using c by (cases "L ?h") auto
  have hd: "heads t ?h = Some d" using ch(1) [of ?h] L by simp
  show ?thesis
  proof (cases "d = c")
    case True
    let ?t = "t\<lparr>heads := (heads t)(?h := hnext t c), hnext := (hnext t)(c := Some c)\<rparr>"
    have "trep hf ?t (L(?h := remove1 c (L ?h)))"
      unfolding trep_def
    proof (intro allI)
      fix k
      show "chain (hnext ?t) (heads ?t k) ((L(?h := remove1 c (L ?h))) k) \<and>
          distinct ((L(?h := remove1 c (L ?h))) k) \<and> (\<forall>e \<in> set ((L(?h := remove1 c (L ?h))) k). hf e = k)"
        using assms(1) L True ch(2) [of ?h] ch(1) [of ?h] nc [of k] by (auto simp: trep_def)
    qed
    with True hd show ?thesis by (auto simp: table_rem_def)
  next
    case False
    then have "c \<in> set cs" using c L by auto
    then obtain us vs where u: "L ?h = us @ c # vs" "us \<noteq> []"
      "rem_loop c (hnext t) (Some d) = Some (((hnext t)(last us := hnext t c))(c := Some c), 0)"
      using rem_loop_found [of "hnext t" d cs c] ch [of ?h] L hd by auto
    let ?nx = "((hnext t)(last us := hnext t c))(c := Some c)"
    have lu: "last us \<in> set (L ?h)" using u by auto
    have r: "remove1 c (L ?h) = us @ vs" using u ch(2) [of ?h] by (auto simp: remove1_append)
    have "trep hf (t\<lparr>hnext := ?nx\<rparr>) (L(?h := remove1 c (L ?h)))"
      unfolding trep_def
    proof (intro allI)
      fix k
      show "chain (hnext (t\<lparr>hnext := ?nx\<rparr>)) (heads (t\<lparr>hnext := ?nx\<rparr>) k) ((L(?h := remove1 c (L ?h))) k) \<and>
          distinct ((L(?h := remove1 c (L ?h))) k) \<and> (\<forall>e \<in> set ((L(?h := remove1 c (L ?h))) k). hf e = k)"
      proof (cases "k = ?h")
        case True
        with u r ch [of ?h] assms(1) show ?thesis by (auto simp: trep_def chain_skip)
      next
        case False
        with trep_other [OF assms(1) lu False] nc [of k] assms(1) show ?thesis by (auto simp: trep_def)
      qed
    qed
    with False hd u(3) show ?thesis by (auto simp: table_rem_def)
  qed
qed

lemma find_split:
  "List.find P xs = Some d \<Longrightarrow> \<exists>us vs. xs = us @ d # vs \<and> (\<forall>c \<in> set us. \<not> P c) \<and> P d"
proof (induction xs)
  case (Cons x xs)
  show ?case
  proof (cases "P x")
    case True
    with Cons.prems show ?thesis by (intro exI [of _ "[]"] exI [of _ xs]) auto
  next
    case False
    with Cons obtain us vs where "xs = us @ d # vs" "\<forall>c \<in> set us. \<not> P c" "P d" by auto
    with False show ?thesis by (intro exI [of _ "x # us"] exI [of _ vs]) auto
  qed
qed simp

lemma trep_seek:
  assumes "trep hf t L"
  shows "\<exists>t' L'. table_seek hit h t = Some (t', List.find hit (L h)) \<and> trep hf t' L' \<and>
    (\<forall>k. set (L' k) = set (L k))"
proof (cases "L h")
  case Nil
  then have "heads t h = None" using assms by (metis chain.simps(1) trep_def)
  with assms Nil show ?thesis by (auto simp: table_seek_def)
next
  case (Cons c cs)
  have ch: "chain (hnext t) (heads t k) (L k)" "distinct (L k)" "\<forall>c \<in> set (L k). hf c = k" for k
    using assms by (auto simp: trep_def)
  have hd: "heads t h = Some c" "chain (hnext t) (Some c) (c # cs)" using ch(1) [of h] Cons by auto
  show ?thesis
  proof (cases "hit c")
    case True
    with assms Cons hd show ?thesis by (auto simp: table_seek_def)
  next
    case miss: False
    show ?thesis
    proof (cases "List.find hit cs")
      case None
      then have "\<exists>prev. seek_loop hit (hnext t) c = Some (prev, None)"
        using seek_loop_none [OF hd(2)] by (simp add: find_None_iff)
      with miss None hd(1) Cons assms show ?thesis by (auto simp: table_seek_def)
    next
      case (Some d)
      then obtain us vs where u: "cs = us @ d # vs" "\<forall>c \<in> set us. \<not> hit c" "hit d"
        using find_split by metis
      define l where "l = last (c # us)"
      define nx where "nx = ((hnext t)(l := hnext t d))(d := Some c)"
      let ?t = "t\<lparr>hnext := nx, heads := (heads t)(h := Some d)\<rparr>"
      let ?L = "L(h := d # c # us @ vs)"
      have dist: "distinct ((c # us) @ d # vs)" using ch(2) [of h] Cons u(1) by simp
      have lm: "l \<in> set (L h)" "d \<in> set (L h)" using Cons u(1) by (auto simp: l_def)
      have "seek_loop hit (hnext t) c = Some (l, Some d)"
        unfolding l_def using seek_loop_found u hd(2) by simp
      then have s: "table_seek hit h t = Some (?t, Some d)"
        using miss hd(1) by (simp add: table_seek_def nx_def del: fun_upd_apply)
      have "chain ((hnext t)(l := hnext t d)) (Some c) ((c # us) @ vs)"
        unfolding l_def using chain_skip [of "hnext t" "Some c" "c # us" d vs] hd(2) u(1) dist by simp
      then have "chain nx (Some c) ((c # us) @ vs)" unfolding nx_def using dist by (subst chain_upd) auto
      moreover have "nx d = Some c" by (simp add: nx_def)
      ultimately have "chain nx (Some d) (d # c # us @ vs)" by simp
      moreover have "chain nx (heads t k) (L k)" if "k \<noteq> h" for k
        unfolding nx_def
        using trep_other [OF assms lm(1) that] trep_other [OF assms lm(2) that] ch(1) [of k] by simp
      moreover have "distinct (d # c # us @ vs)" "\<forall>e \<in> set (d # c # us @ vs). hf e = h"
        using dist ch(3) [of h] Cons u(1) by auto
      ultimately have "trep hf ?t ?L" using ch unfolding trep_def by simp
      moreover have "\<forall>k. set (?L k) = set (L k)" using Cons u(1) by auto
      ultimately show ?thesis using s Cons miss Some by (intro exI [of _ ?t] exI [of _ ?L]) simp
    qed
  qed
qed

lemma tmem_set_cong: "trep hf t L \<Longrightarrow> trep hf t' L' \<Longrightarrow> (\<And>k. set (L' k) = set (L k)) \<Longrightarrow> tmem t' = tmem t"
  by (simp add: trep_mem)

lemma tinv_add:
  assumes "tinv hf t" "c \<notin> tmem t"
  shows "tinv hf (table_add (hf c) c t) \<and> tmem (table_add (hf c) c t) = insert c (tmem t)"
proof -
  obtain L where L: "trep hf t L" using assms(1) by (auto simp: tinv_def)
  from trep_add [OF L assms(2)] show ?thesis
    using trep_mem [OF L] by (auto simp: tinv_def trep_mem split: if_splits)
qed

lemma tinv_rem:
  assumes "tinv hf t" "c \<in> tmem t"
  shows "\<exists>t'. table_rem (hf c) c t = Some (t', 0) \<and> tinv hf t' \<and> tmem t' = tmem t - {c}"
proof -
  obtain L where L: "trep hf t L" using assms(1) by (auto simp: tinv_def)
  obtain t' where t': "table_rem (hf c) c t = Some (t', 0)" "trep hf t' (L(hf c := remove1 c (L (hf c))))"
    using trep_rem [OF L assms(2)] by blast
  have d: "distinct (L (hf c))" using L by (simp add: trep_def)
  have o: "c \<notin> set (L k)" if "k \<noteq> hf c" for k
    using L that unfolding trep_def by metis
  have "tmem t' = tmem t - {c}"
    using trep_mem [OF L] trep_mem [OF t'(2)] d o by (auto split: if_splits)
  with t' show ?thesis by (auto simp: tinv_def)
qed

lemma tinv_rem_missing:
  assumes "tinv hf t" "c \<notin> tmem t"
  shows "table_rem h c t = Some (t, -1)"
proof -
  obtain L where L: "trep hf t L" using assms(1) by (auto simp: tinv_def)
  have ch: "chain (hnext t) (heads t h) (L h)" "c \<notin> set (L h)"
    using L assms(2) trep_mem [OF L] by (auto simp: trep_def)
  have "c \<notin> set (tl (L h))" using ch(2) by (cases "L h") auto
  from rem_loop_missing [OF ch(1) this] have "rem_loop c (hnext t) (heads t h) = Some (hnext t, -1)" .
  moreover have "heads t h \<noteq> Some c" using ch by (cases "L h") auto
  ultimately show ?thesis by (simp add: table_rem_def)
qed

lemma tinv_seek:
  assumes "tinv hf t" "\<forall>c \<in> tmem t. hit c \<longrightarrow> hf c = h"
  shows "\<exists>t' r. table_seek hit h t = Some (t', r) \<and> tinv hf t' \<and> tmem t' = tmem t \<and>
    (case r of None \<Rightarrow> \<forall>c \<in> tmem t. \<not> hit c | Some c \<Rightarrow> c \<in> tmem t \<and> hit c)"
proof -
  obtain L where L: "trep hf t L" using assms(1) by (auto simp: tinv_def)
  obtain t' L' where t': "table_seek hit h t = Some (t', List.find hit (L h))" "trep hf t' L'"
      "\<forall>k. set (L' k) = set (L k)"
    using trep_seek [OF L] by blast
  have "tmem t' = tmem t" using tmem_set_cong [OF L t'(2)] t'(3) by blast
  moreover have "case List.find hit (L h) of None \<Rightarrow> \<forall>c \<in> tmem t. \<not> hit c | Some c \<Rightarrow> c \<in> tmem t \<and> hit c"
  proof (cases "List.find hit (L h)")
    case None
    then have "\<forall>c \<in> set (L h). \<not> hit c" by (simp add: find_None_iff)
    then have "\<not> hit c" if "c \<in> tmem t" for c using that assms(2) trep_bucket [OF L] by metis
    with None show ?thesis by simp
  next
    case (Some d)
    from find_split [OF Some] have "d \<in> set (L h)" "hit d" by auto
    then show ?thesis using Some trep_mem [OF L] by auto
  qed
  ultimately show ?thesis using t' by (auto simp: tinv_def)
qed

lemma strhash_loop_fold: "map ToLower a = map ToLower b \<Longrightarrow> strhash_loop crc h a = strhash_loop crc h b"
proof (induction a arbitrary: b h)
  case (Cons x a)
  then obtain y b' where b: "b = y # b'" "ToLower x = ToLower y" "map ToLower a = map ToLower b'"
    by (cases b) auto
  show ?case unfolding b(1) strhash_loop.simps b(2) by (rule Cons.IH [OF b(3)])
qed simp

lemma strhash_fold: "fold_eq a b \<Longrightarrow> strhash crc a = strhash crc b"
proof -
  assume "fold_eq a b"
  then have "map ToLower (tl a) = map ToLower (tl b)" "ToLower (deref a) = ToLower (deref b)"
    by (cases a; cases b; simp add: fold_eq_def)+
  then show ?thesis unfolding strhash_def using strhash_loop_fold by metis
qed

lemma strhash_less: "strhash crc n < HASHSIZE" by (simp add: strhash_def HASHSIZE_def)

locale lookup_table =
  fixes inv :: "'s \<Rightarrow> bool" and mem :: "'s \<Rightarrow> nat set" and key_ok :: "'k \<Rightarrow> bool"
    and entry_ok :: "'s \<Rightarrow> nat \<Rightarrow> bool" and hit :: "'s \<Rightarrow> 'k \<Rightarrow> nat \<Rightarrow> bool"
    and add :: "'s \<Rightarrow> nat \<Rightarrow> 's" and rem :: "'s \<Rightarrow> nat \<Rightarrow> ('s \<times> int) option"
    and seek :: "'s \<Rightarrow> 'k \<Rightarrow> ('s \<times> nat option) option"
  assumes add_ok: "inv s \<Longrightarrow> entry_ok s c \<Longrightarrow> c \<notin> mem s \<Longrightarrow>
      inv (add s c) \<and> mem (add s c) = insert c (mem s) \<and> hit (add s c) = hit s"
    and rem_ok: "inv s \<Longrightarrow> c \<in> mem s \<Longrightarrow>
      \<exists>s'. rem s c = Some (s', 0) \<and> inv s' \<and> mem s' = mem s - {c} \<and> hit s' = hit s"
    and rem_missing: "inv s \<Longrightarrow> c \<notin> mem s \<Longrightarrow> rem s c = Some (s, -1)"
    and seek_ok: "inv s \<Longrightarrow> key_ok k \<Longrightarrow> \<exists>s' r. seek s k = Some (s', r) \<and> inv s' \<and> mem s' = mem s \<and>
      hit s' = hit s \<and> (case r of None \<Rightarrow> \<forall>c \<in> mem s. \<not> hit s k c | Some c \<Rightarrow> c \<in> mem s \<and> hit s k c)"
begin

lemma seek_cases:
  assumes "inv s" "key_ok k"
  shows "\<exists>s' r. seek s k = Some (s', r) \<and> inv s' \<and> mem s' = mem s \<and> hit s' = hit s \<and>
    (r = None \<and> (\<forall>c \<in> mem s. \<not> hit s k c) \<or> (\<exists>c \<in> mem s. r = Some c \<and> hit s k c))"
proof -
  obtain s' r where "seek s k = Some (s', r)" "inv s'" "mem s' = mem s" "hit s' = hit s"
    "case r of None \<Rightarrow> \<forall>c \<in> mem s. \<not> hit s k c | Some c \<Rightarrow> c \<in> mem s \<and> hit s k c"
    using seek_ok [OF assms] by auto
  then show ?thesis by (cases r) auto
qed

lemma seek_unique:
  assumes "inv s" "key_ok k" "c \<in> mem s" "hit s k c" "\<forall>d \<in> mem s. hit s k d \<longrightarrow> d = c"
  shows "\<exists>s'. seek s k = Some (s', Some c) \<and> inv s' \<and> mem s' = mem s \<and> hit s' = hit s"
proof -
  from seek_cases [OF assms(1,2)] obtain s' r where
    s: "seek s k = Some (s', r) \<and> inv s' \<and> mem s' = mem s \<and> hit s' = hit s" and
    r: "r = None \<and> (\<forall>c \<in> mem s. \<not> hit s k c) \<or> (\<exists>c \<in> mem s. r = Some c \<and> hit s k c)"
    by (elim exE conjE) simp
  have "r = Some c" using r assms(3-5) by metis
  with s show ?thesis by (intro exI [of _ s']) simp
qed

lemma seek_none:
  assumes "inv s" "key_ok k" "\<forall>d \<in> mem s. \<not> hit s k d"
  shows "\<exists>s'. seek s k = Some (s', None) \<and> inv s' \<and> mem s' = mem s \<and> hit s' = hit s"
proof -
  from seek_cases [OF assms(1,2)] obtain s' r where
    s: "seek s k = Some (s', r) \<and> inv s' \<and> mem s' = mem s \<and> hit s' = hit s" and
    r: "r = None \<or> (\<exists>c \<in> mem s. r = Some c \<and> hit s k c)"
    by (elim exE conjE) (simp, blast)
  have "r = None" using r assms(3) by metis
  with s show ?thesis by (intro exI [of _ s']) simp
qed

lemma seek_after_add:
  assumes "inv s" "entry_ok s c" "c \<notin> mem s" "key_ok k" "hit s k c" "\<forall>d \<in> mem s. \<not> hit s k d"
  shows "\<exists>s'. seek (add s c) k = Some (s', Some c)"
proof -
  have a: "inv (add s c)" "mem (add s c) = insert c (mem s)" "hit (add s c) = hit s"
    using add_ok [OF assms(1-3)] by auto
  have "\<forall>d \<in> mem (add s c). hit (add s c) k d \<longrightarrow> d = c" using a(2,3) assms(6) by simp
  with seek_unique [OF a(1) assms(4), of c] a(2,3) assms(5) show ?thesis by auto
qed

lemma seek_after_rem:
  assumes "inv s" "c \<in> mem s" "key_ok k" "\<forall>d \<in> mem s. hit s k d \<longrightarrow> d = c"
  shows "\<exists>s' s''. rem s c = Some (s', 0) \<and> seek s' k = Some (s'', None)"
proof -
  obtain s' where s': "rem s c = Some (s', 0)" "inv s'" "mem s' = mem s - {c}" "hit s' = hit s"
    using rem_ok [OF assms(1,2)] by auto
  have "\<forall>d \<in> mem s'. \<not> hit s' k d" using s'(3,4) assms(4) by auto
  from seek_none [OF s'(2) assms(3) this] s'(1) show ?thesis by auto
qed

lemma add_rem:
  assumes "inv s" "entry_ok s c" "c \<notin> mem s"
  shows "\<exists>s'. rem (add s c) c = Some (s', 0) \<and> inv s' \<and> mem s' = mem s"
proof -
  have a: "inv (add s c)" "mem (add s c) = insert c (mem s)" using add_ok [OF assms] by auto
  obtain s' where "rem (add s c) c = Some (s', 0)" "inv s'" "mem s' = mem (add s c) - {c}"
    using rem_ok [OF a(1), of c] a(2) by auto
  with a(2) assms(3) show ?thesis by auto
qed

end

definition client_inv :: "hash_state \<Rightarrow> bool" where
  "client_inv st \<longleftrightarrow> tinv (\<lambda>c. strhash (crc32hash st) (cli_name st c)) (clientTable st) \<and>
    (\<forall>c \<in> tmem (clientTable st). is_cstr (cli_name st c))"

definition client_hit :: "u32 \<Rightarrow> hash_state \<Rightarrow> string \<Rightarrow> nat \<Rightarrow> bool" where
  "client_hit TMask st name c \<longleftrightarrow> cli_status st c AND TMask \<noteq> 0 \<and> fold_eq name (cli_name st c)"

text \<open>The comparison of the program and equality up to case agree on the members of a table.\<close>

lemma tinv_seek_name:
  assumes "tinv (\<lambda>c. strhash crc (nm c)) t" "is_cstr name" "\<And>c. c \<in> tmem t \<Longrightarrow> is_cstr (nm c)"
  shows "\<exists>t' r. table_seek (\<lambda>c. P c \<and> ircd_strcmp name (nm c) = 0) (strhash crc name) t = Some (t', r) \<and>
    tinv (\<lambda>c. strhash crc (nm c)) t' \<and> tmem t' = tmem t \<and>
    (case r of None \<Rightarrow> \<forall>c \<in> tmem t. \<not> (P c \<and> fold_eq name (nm c))
     | Some c \<Rightarrow> c \<in> tmem t \<and> P c \<and> fold_eq name (nm c))"
proof -
  have eq: "ircd_strcmp name (nm c) = 0 \<longleftrightarrow> fold_eq name (nm c)" if "c \<in> tmem t" for c
    using ircd_strcmp_0_iff assms(2,3) that by blast
  have h: "\<forall>c \<in> tmem t. P c \<and> ircd_strcmp name (nm c) = 0 \<longrightarrow> strhash crc (nm c) = strhash crc name"
    using strhash_fold [of name _ crc] eq by metis
  from tinv_seek [where hit = "\<lambda>c. P c \<and> ircd_strcmp name (nm c) = 0", OF assms(1) h] obtain t' r where
    t: "table_seek (\<lambda>c. P c \<and> ircd_strcmp name (nm c) = 0) (strhash crc name) t = Some (t', r) \<and>
    tinv (\<lambda>c. strhash crc (nm c)) t' \<and> tmem t' = tmem t" and
    r: "case r of None \<Rightarrow> \<forall>c \<in> tmem t. \<not> (P c \<and> ircd_strcmp name (nm c) = 0)
       | Some c \<Rightarrow> c \<in> tmem t \<and> P c \<and> ircd_strcmp name (nm c) = 0" by (elim exE conjE) simp
  have "case r of None \<Rightarrow> \<forall>c \<in> tmem t. \<not> (P c \<and> fold_eq name (nm c))
     | Some c \<Rightarrow> c \<in> tmem t \<and> P c \<and> fold_eq name (nm c)"
  proof (cases r)
    case None
    with r eq show ?thesis by simp
  next
    case (Some c)
    with r have c: "c \<in> tmem t" "P c" "ircd_strcmp name (nm c) = 0" by simp_all
    with eq [OF c(1)] Some show ?thesis by simp
  qed
  with t show ?thesis by (intro exI [of _ t'] exI [of _ r]) simp
qed

interpretation cl: lookup_table client_inv "\<lambda>st. tmem (clientTable st)" is_cstr
    "\<lambda>st c. is_cstr (cli_name st c)" "client_hit TMask" hAddClient hRemClient "\<lambda>st n. hSeekClient st n TMask"
  for TMask
proof unfold_locales
  show "client_inv (hAddClient s c) \<and> tmem (clientTable (hAddClient s c)) = insert c (tmem (clientTable s)) \<and>
      client_hit TMask (hAddClient s c) = client_hit TMask s"
    if "client_inv s" "is_cstr (cli_name s c)" "c \<notin> tmem (clientTable s)" for s c TMask
    using that tinv_add [of "\<lambda>c. strhash (crc32hash s) (cli_name s c)" "clientTable s" c]
    by (auto simp: client_inv_def hAddClient_def client_hit_def fun_eq_iff)
  show "\<exists>s'. hRemClient s c = Some (s', 0) \<and> client_inv s' \<and>
      tmem (clientTable s') = tmem (clientTable s) - {c} \<and> client_hit TMask s' = client_hit TMask s"
    if "client_inv s" "c \<in> tmem (clientTable s)" for s c TMask
    using that tinv_rem [of "\<lambda>c. strhash (crc32hash s) (cli_name s c)" "clientTable s" c]
    by (auto simp: client_inv_def hRemClient_def client_hit_def fun_eq_iff)
  show "hRemClient s c = Some (s, -1)" if "client_inv s" "c \<notin> tmem (clientTable s)" for s c
    using that tinv_rem_missing [of "\<lambda>c. strhash (crc32hash s) (cli_name s c)" "clientTable s" c]
    by (simp add: client_inv_def hRemClient_def)
  show "\<exists>s' r. hSeekClient s k TMask = Some (s', r) \<and> client_inv s' \<and> tmem (clientTable s') = tmem (clientTable s) \<and>
      client_hit TMask s' = client_hit TMask s \<and>
      (case r of None \<Rightarrow> \<forall>c \<in> tmem (clientTable s). \<not> client_hit TMask s k c
       | Some c \<Rightarrow> c \<in> tmem (clientTable s) \<and> client_hit TMask s k c)"
    if h: "client_inv s" "is_cstr k" for s k TMask
  proof -
    obtain t' r where
      "table_seek (\<lambda>c. cli_status s c AND TMask \<noteq> 0 \<and> ircd_strcmp k (cli_name s c) = 0)
        (strhash (crc32hash s) k) (clientTable s) = Some (t', r)"
      "tinv (\<lambda>c. strhash (crc32hash s) (cli_name s c)) t'" "tmem t' = tmem (clientTable s)"
      "case r of None \<Rightarrow> \<forall>c \<in> tmem (clientTable s). \<not> (cli_status s c AND TMask \<noteq> 0 \<and> fold_eq k (cli_name s c))
        | Some c \<Rightarrow> c \<in> tmem (clientTable s) \<and> cli_status s c AND TMask \<noteq> 0 \<and> fold_eq k (cli_name s c)"
      using h tinv_seek_name [of "crc32hash s" "cli_name s" "clientTable s" k "\<lambda>c. cli_status s c AND TMask \<noteq> 0"]
      by (auto simp: client_inv_def)
    then show ?thesis using h
      by (intro exI [of _ "s\<lparr>clientTable := t'\<rparr>"] exI [of _ r])
        (cases r; simp add: client_inv_def hSeekClient_def client_hit_def fun_eq_iff)
  qed
qed

definition channel_inv :: "hash_state \<Rightarrow> bool" where
  "channel_inv st \<longleftrightarrow> tinv (\<lambda>c. strhash (crc32hash st) (chname st c)) (channelTable st) \<and>
    (\<forall>c \<in> tmem (channelTable st). is_cstr (chname st c))"

definition channel_hit :: "hash_state \<Rightarrow> string \<Rightarrow> nat \<Rightarrow> bool" where
  "channel_hit st name c \<longleftrightarrow> fold_eq name (chname st c)"

definition monitor_inv :: "hash_state \<Rightarrow> bool" where
  "monitor_inv st \<longleftrightarrow> tinv (\<lambda>c. strhash (crc32hash st) (mo_nick st c)) (monitorTable st) \<and>
    (\<forall>c \<in> tmem (monitorTable st). is_cstr (mo_nick st c))"

definition monitor_hit :: "hash_state \<Rightarrow> string \<Rightarrow> nat \<Rightarrow> bool" where
  "monitor_hit st name c \<longleftrightarrow> fold_eq name (mo_nick st c)"

interpretation ch: lookup_table channel_inv "\<lambda>st. tmem (channelTable st)" is_cstr
    "\<lambda>st c. is_cstr (chname st c)" channel_hit hAddChannel hRemChannel hSeekChannel
proof unfold_locales
  show "channel_inv (hAddChannel s c) \<and> tmem (channelTable (hAddChannel s c)) = insert c (tmem (channelTable s)) \<and>
      channel_hit (hAddChannel s c) = channel_hit s"
    if "channel_inv s" "is_cstr (chname s c)" "c \<notin> tmem (channelTable s)" for s c
    using that tinv_add [of "\<lambda>c. strhash (crc32hash s) (chname s c)" "channelTable s" c]
    by (auto simp: channel_inv_def hAddChannel_def channel_hit_def fun_eq_iff)
  show "\<exists>s'. hRemChannel s c = Some (s', 0) \<and> channel_inv s' \<and>
      tmem (channelTable s') = tmem (channelTable s) - {c} \<and> channel_hit s' = channel_hit s"
    if "channel_inv s" "c \<in> tmem (channelTable s)" for s c
    using that tinv_rem [of "\<lambda>c. strhash (crc32hash s) (chname s c)" "channelTable s" c]
    by (auto simp: channel_inv_def hRemChannel_def channel_hit_def fun_eq_iff)
  show "hRemChannel s c = Some (s, -1)" if "channel_inv s" "c \<notin> tmem (channelTable s)" for s c
    using that tinv_rem_missing [of "\<lambda>c. strhash (crc32hash s) (chname s c)" "channelTable s" c]
    by (simp add: channel_inv_def hRemChannel_def)
  show "\<exists>s' r. hSeekChannel s k = Some (s', r) \<and> channel_inv s' \<and> tmem (channelTable s') = tmem (channelTable s) \<and>
      channel_hit s' = channel_hit s \<and>
      (case r of None \<Rightarrow> \<forall>c \<in> tmem (channelTable s). \<not> channel_hit s k c
       | Some c \<Rightarrow> c \<in> tmem (channelTable s) \<and> channel_hit s k c)"
    if h: "channel_inv s" "is_cstr k" for s k
  proof -
    obtain t' r where
      "table_seek (\<lambda>c. ircd_strcmp k (chname s c) = 0)
        (strhash (crc32hash s) k) (channelTable s) = Some (t', r)"
      "tinv (\<lambda>c. strhash (crc32hash s) (chname s c)) t'" "tmem t' = tmem (channelTable s)"
      "case r of None \<Rightarrow> \<forall>c \<in> tmem (channelTable s). \<not> (fold_eq k (chname s c))
        | Some c \<Rightarrow> c \<in> tmem (channelTable s) \<and> fold_eq k (chname s c)"
      using h tinv_seek_name [of "crc32hash s" "chname s" "channelTable s" k "\<lambda>_. True", unfolded simp_thms]
      by (auto simp: channel_inv_def)
    then show ?thesis using h
      by (intro exI [of _ "s\<lparr>channelTable := t'\<rparr>"] exI [of _ r])
        (cases r; simp add: channel_inv_def hSeekChannel_def channel_hit_def fun_eq_iff)
  qed
qed

interpretation mo: lookup_table monitor_inv "\<lambda>st. tmem (monitorTable st)" is_cstr
    "\<lambda>st c. is_cstr (mo_nick st c)" monitor_hit hAddMonitor hRemMonitor hSeekMonitor
proof unfold_locales
  show "monitor_inv (hAddMonitor s c) \<and> tmem (monitorTable (hAddMonitor s c)) = insert c (tmem (monitorTable s)) \<and>
      monitor_hit (hAddMonitor s c) = monitor_hit s"
    if "monitor_inv s" "is_cstr (mo_nick s c)" "c \<notin> tmem (monitorTable s)" for s c
    using that tinv_add [of "\<lambda>c. strhash (crc32hash s) (mo_nick s c)" "monitorTable s" c]
    by (auto simp: monitor_inv_def hAddMonitor_def monitor_hit_def fun_eq_iff)
  show "\<exists>s'. hRemMonitor s c = Some (s', 0) \<and> monitor_inv s' \<and>
      tmem (monitorTable s') = tmem (monitorTable s) - {c} \<and> monitor_hit s' = monitor_hit s"
    if "monitor_inv s" "c \<in> tmem (monitorTable s)" for s c
    using that tinv_rem [of "\<lambda>c. strhash (crc32hash s) (mo_nick s c)" "monitorTable s" c]
    by (auto simp: monitor_inv_def hRemMonitor_def monitor_hit_def fun_eq_iff)
  show "hRemMonitor s c = Some (s, -1)" if "monitor_inv s" "c \<notin> tmem (monitorTable s)" for s c
    using that tinv_rem_missing [of "\<lambda>c. strhash (crc32hash s) (mo_nick s c)" "monitorTable s" c]
    by (simp add: monitor_inv_def hRemMonitor_def)
  show "\<exists>s' r. hSeekMonitor s k = Some (s', r) \<and> monitor_inv s' \<and> tmem (monitorTable s') = tmem (monitorTable s) \<and>
      monitor_hit s' = monitor_hit s \<and>
      (case r of None \<Rightarrow> \<forall>c \<in> tmem (monitorTable s). \<not> monitor_hit s k c
       | Some c \<Rightarrow> c \<in> tmem (monitorTable s) \<and> monitor_hit s k c)"
    if h: "monitor_inv s" "is_cstr k" for s k
  proof -
    obtain t' r where
      "table_seek (\<lambda>c. ircd_strcmp k (mo_nick s c) = 0)
        (strhash (crc32hash s) k) (monitorTable s) = Some (t', r)"
      "tinv (\<lambda>c. strhash (crc32hash s) (mo_nick s c)) t'" "tmem t' = tmem (monitorTable s)"
      "case r of None \<Rightarrow> \<forall>c \<in> tmem (monitorTable s). \<not> (fold_eq k (mo_nick s c))
        | Some c \<Rightarrow> c \<in> tmem (monitorTable s) \<and> fold_eq k (mo_nick s c)"
      using h tinv_seek_name [of "crc32hash s" "mo_nick s" "monitorTable s" k "\<lambda>_. True", unfolded simp_thms]
      by (auto simp: monitor_inv_def)
    then show ?thesis using h
      by (intro exI [of _ "s\<lparr>monitorTable := t'\<rparr>"] exI [of _ r])
        (cases r; simp add: monitor_inv_def hSeekMonitor_def monitor_hit_def fun_eq_iff)
  qed
qed

section \<open>Renaming a client, the shuffled table and the juped nicks\<close>

lemma tinv_cong:
  assumes "tinv hf t" "\<forall>c \<in> tmem t. hf c = hf' c"
  shows "tinv hf' t"
proof -
  obtain L where L: "trep hf t L" using assms(1) by (auto simp: tinv_def)
  have "trep hf' t L" using L assms(2) trep_mem [OF L] by (auto simp: trep_def)
  then show ?thesis by (auto simp: tinv_def)
qed

lemma hChangeClient_ok:
  assumes "client_inv st" "c \<in> tmem (clientTable st)" "is_cstr new"
  shows "\<exists>st1. hChangeClient st c new = Some st1 \<and>
    client_inv (st1\<lparr>cli_name := (cli_name st)(c := new)\<rparr>) \<and>
    tmem (clientTable st1) = tmem (clientTable st)"
proof -
  let ?hf = "\<lambda>c. strhash (crc32hash st) (cli_name st c)"
  let ?hf' = "\<lambda>d. strhash (crc32hash st) (((cli_name st)(c := new)) d)"
  obtain t where t: "table_rem (?hf c) c (clientTable st) = Some (t, 0)" "tinv ?hf t"
      "tmem t = tmem (clientTable st) - {c}"
    using tinv_rem [of ?hf "clientTable st" c] assms(1,2) by (auto simp: client_inv_def)
  have "tinv ?hf' t" by (rule tinv_cong [OF t(2)]) (use t(3) in auto)
  from tinv_add [OF this, of c] have a: "tinv ?hf' (table_add (strhash (crc32hash st) new) c t)"
      "tmem (table_add (strhash (crc32hash st) new) c t) = insert c (tmem t)"
    using t(3) by auto
  have cs: "\<forall>d \<in> tmem (clientTable st). is_cstr (cli_name st d)" using assms(1) by (simp add: client_inv_def)
  let ?st1 = "st\<lparr>clientTable := table_add (strhash (crc32hash st) new) c t\<rparr>"
  have "hChangeClient st c new = Some ?st1" using t(1) by (simp add: hChangeClient_def hRemClient_def)
  moreover have "tmem (clientTable ?st1) = tmem (clientTable st)" using a(2) t(3) assms(2) by auto
  moreover have "client_inv (?st1\<lparr>cli_name := (cli_name st)(c := new)\<rparr>)"
    using a t(3) cs assms(3) unfolding client_inv_def by (auto simp del: fun_upd_apply simp: fun_upd_def)
  ultimately show ?thesis by blast
qed

lemma shuffle_loop_mset: "length tbl = 256 \<Longrightarrow> mset (shuffle_loop rnd k rand ii tbl) = mset tbl"
proof (induction rnd k rand ii tbl rule: shuffle_loop.induct)
  case (1 rnd k rand ii tbl)
  show ?case
  proof (cases "ii < 256")
    case True
    obtain rand' k' where rk: "(if rand = 0 then (rnd k, k + 1) else (rand, k)) = (rand', k')" by fastforce
    define poly where "poly = ii + unat rand' mod (256 - ii)"
    have p: "poly < 256" 
    proof -
      have "unat rand' mod (256 - ii) < 256 - ii" using True by simp
      then show ?thesis unfolding poly_def by linarith
    qed
    have s: "shuffle_loop rnd k rand ii tbl =
        shuffle_loop rnd k' (drop_bit 8 rand') (ii + 1) ((tbl[ii := tbl ! poly])[poly := tbl ! ii])"
      using True by (subst shuffle_loop.simps) (simp only: rk poly_def Let_def prod.case if_True)
    have "mset (shuffle_loop rnd k' (drop_bit 8 rand') (ii + 1) ((tbl[ii := tbl ! poly])[poly := tbl ! ii])) =
        mset ((tbl[ii := tbl ! poly])[poly := tbl ! ii])"
      using "1.IH" [OF True refl rk [symmetric] poly_def refl] "1.prems" by simp
    also have "\<dots> = mset tbl" using p True "1.prems" by (intro mset_swap) auto
    finally show ?thesis using s by simp
  qed (simp add: shuffle_loop.simps)
qed

lemma init_hash_perm: "mset (init_hash rnd) = mset crc_table" "length (init_hash rnd) = 256"
proof -
  have l: "length crc_table = 256" by (simp add: crc_table_def)
  then show m: "mset (init_hash rnd) = mset crc_table"
    unfolding init_hash_def by (rule shuffle_loop_mset)
  show "length (init_hash rnd) = 256" using mset_eq_length [OF m] l by simp
qed

subsection \<open>Nick jupes\<close>

definition jslot :: "string list \<Rightarrow> nat \<Rightarrow> string" where
  "jslot tbl p = tbl ! (p mod JUPEHASHSIZE)"

definition probe :: "string list \<Rightarrow> string \<Rightarrow> nat \<Rightarrow> bool" where
  "probe tbl nick p \<longleftrightarrow> (\<exists>j. (\<forall>i \<le> j. jslot tbl (p + i) \<noteq> []) \<and> ircd_strcmp nick (jslot tbl (p + j)) = 0)"

lemma jslot_mod: "jslot tbl (p mod JUPEHASHSIZE + i) = jslot tbl (p + i)"
  by (simp add: jslot_def mod_simps)

lemma jslot_mod_Suc: "jslot tbl (Suc (p mod JUPEHASHSIZE + i)) = jslot tbl (Suc (p + i))"
  using jslot_mod [of tbl p "Suc i"] by simp

lemma probe_mod: "probe tbl nick (Suc (p mod JUPEHASHSIZE)) = probe tbl nick (Suc p)"
  by (simp add: probe_def jslot_mod_Suc)

lemma probe_step:
  "probe tbl nick p \<longleftrightarrow> jslot tbl p \<noteq> [] \<and> (ircd_strcmp nick (jslot tbl p) = 0 \<or> probe tbl nick (p + 1))"
proof
  assume "probe tbl nick p"
  then obtain j where j: "\<forall>i \<le> j. jslot tbl (p + i) \<noteq> []" "ircd_strcmp nick (jslot tbl (p + j)) = 0"
    by (auto simp: probe_def)
  show "jslot tbl p \<noteq> [] \<and> (ircd_strcmp nick (jslot tbl p) = 0 \<or> probe tbl nick (p + 1))"
  proof (cases j)
    case 0
    with j show ?thesis by auto
  next
    case (Suc j')
    have "\<forall>i \<le> j'. jslot tbl (p + 1 + i) \<noteq> []" using j(1) Suc by (auto dest: spec [of _ "Suc _"])
    moreover have "ircd_strcmp nick (jslot tbl (p + 1 + j')) = 0" using j(2) Suc by simp
    ultimately have "probe tbl nick (p + 1)" by (auto simp: probe_def)
    with j(1) show ?thesis by auto
  qed
next
  assume a: "jslot tbl p \<noteq> [] \<and> (ircd_strcmp nick (jslot tbl p) = 0 \<or> probe tbl nick (p + 1))"
  then show "probe tbl nick p"
  proof (elim conjE disjE)
    assume "probe tbl nick (p + 1)"
    then obtain j where j: "\<forall>i \<le> j. jslot tbl (p + 1 + i) \<noteq> []" "ircd_strcmp nick (jslot tbl (p + 1 + j)) = 0"
      by (auto simp: probe_def)
    have "jslot tbl (p + i) \<noteq> []" if "i \<le> Suc j" for i
      using that a j(1) by (cases i) auto
    with j(2) show ?thesis by (auto simp: probe_def intro!: exI [of _ "Suc j"])
  qed (auto simp: probe_def intro!: exI [of _ 0])
qed

lemma juped_loop_eq: "jslot tbl (p + k) = [] \<Longrightarrow> juped_loop tbl nick p = Some (probe tbl nick p)"
proof (induction k arbitrary: p)
  case 0
  then show ?case using probe_step [of tbl nick p] by (subst juped_loop.simps) (simp add: jslot_def)
next
  case (Suc k)
  have "jslot tbl (Suc (p mod JUPEHASHSIZE) + k) = []" using Suc.prems by (simp add: jslot_mod_Suc)
  from Suc.IH [OF this] show ?case
    using probe_step [of tbl nick p] by (subst juped_loop.simps) (auto simp: jslot_def probe_mod Let_def)
qed

definition jupe_ok :: "jupe_state \<Rightarrow> bool" where
  "jupe_ok st \<longleftrightarrow> length (jupeTable st) = JUPEHASHSIZE \<and> (\<forall>n \<in> set (jupeTable st). is_cstr n) \<and>
    jupesCount st = length (filter (\<lambda>n. n \<noteq> []) (jupeTable st)) \<and> jupesCount st \<le> JUPEMAX"

lemma jupe_free_slot:
  assumes "jupe_ok st"
  shows "\<exists>k. jslot (jupeTable st) (p + k) = []"
proof -
  have "\<exists>q < JUPEHASHSIZE. jupeTable st ! q = []"
  proof (rule ccontr)
    assume "\<not> (\<exists>q < JUPEHASHSIZE. jupeTable st ! q = [])"
    then have "filter (\<lambda>n. n \<noteq> []) (jupeTable st) = jupeTable st"
      using assms by (auto simp: filter_id_conv in_set_conv_nth jupe_ok_def)
    with assms have "length (jupeTable st) = 4096 \<and> length (jupeTable st) \<le> 64"
      by (auto simp: jupe_ok_def JUPEMAX_def JUPEHASHSIZE_def JUPEHASHBITS_def)
    then show False by linarith
  qed
  then obtain q where q: "q < JUPEHASHSIZE" "jupeTable st ! q = []" by blast
  let ?k = "q + JUPEHASHSIZE - p mod JUPEHASHSIZE"
  have "(p + ?k) mod JUPEHASHSIZE = (p mod JUPEHASHSIZE + ?k) mod JUPEHASHSIZE" by (simp add: mod_simps)
  also have "p mod JUPEHASHSIZE + ?k = q + JUPEHASHSIZE"
    using q(1) by (simp add: less_imp_le_nat trans_le_add2)
  also have "(q + JUPEHASHSIZE) mod JUPEHASHSIZE = q" using q(1) by simp
  finally show ?thesis using q(2) by (intro exI [of _ ?k]) (simp add: jslot_def)
qed

lemma isNickJuped_eq:
  assumes "jupe_ok st"
  shows "isNickJuped crc st nick = Some (nick \<noteq> [] \<and> probe (jupeTable st) nick (strhash crc nick))"
proof -
  obtain k where "jslot (jupeTable st) (strhash crc nick + k) = []" using jupe_free_slot [OF assms] by blast
  then show ?thesis by (simp add: isNickJuped_def juped_loop_eq)
qed

definition jgrows :: "jupe_state \<Rightarrow> jupe_state \<Rightarrow> bool" where
  "jgrows st st' \<longleftrightarrow> (\<forall>q. jslot (jupeTable st) q \<noteq> [] \<longrightarrow> jslot (jupeTable st') q = jslot (jupeTable st) q)"

lemma probe_grows: "jgrows st st' \<Longrightarrow> probe (jupeTable st) nick p \<Longrightarrow> probe (jupeTable st') nick p"
  unfolding probe_def jgrows_def by (metis order_refl)

lemma filter_update_length:
  "q < length xs \<Longrightarrow> xs ! q = [] \<Longrightarrow> y \<noteq> [] \<Longrightarrow>
   length (filter (\<lambda>n. n \<noteq> []) (xs[q := y])) = Suc (length (filter (\<lambda>n. n \<noteq> []) xs))"
  by (induction xs arbitrary: q) (auto split: nat.splits)

text \<open>The outcomes of adding one nick.\<close>

definition jupe_outcome :: "jupe_state \<Rightarrow> string \<Rightarrow> nat \<Rightarrow> unit + jupe_state \<Rightarrow> bool" where
  "jupe_outcome st one p out = (case out of
     Inl _ \<Rightarrow> jupesCount st = JUPEMAX
   | Inr st' \<Rightarrow> jupe_ok st' \<and> jgrows st st' \<and> (length one \<le> NICKLEN \<longrightarrow> probe (jupeTable st') one p))"

lemma add_jupe_empty:
  assumes "jupe_ok st" "is_cstr one" "one \<noteq> []" "jslot (jupeTable st) p = []"
  shows "\<exists>out. add_jupe_loop st one p = Some out \<and> jupe_outcome st one p out"
proof -
  let ?q = "p mod JUPEHASHSIZE"
  let ?st = "st\<lparr>jupesCount := jupesCount st + 1, jupeTable := (jupeTable st)[?q := take NICKLEN one]\<rparr>"
  have e: "jupeTable st ! ?q = []" using assms(4) by (simp add: jslot_def)
  have q: "?q < length (jupeTable st)" using assms(1) by (simp add: jupe_ok_def JUPEHASHSIZE_def)
  have ne: "take NICKLEN one \<noteq> []" using assms(3) by (simp add: NICKLEN_def)
  show ?thesis
  proof (cases "jupesCount st = JUPEMAX")
    case True
    with e show ?thesis by (subst add_jupe_loop.simps) (auto simp: jupe_outcome_def)
  next
    case False
    have "set ((jupeTable st)[?q := take NICKLEN one]) \<subseteq> insert (take NICKLEN one) (set (jupeTable st))"
      by (rule set_update_subset_insert)
    then have "jupe_ok ?st"
      using assms(1,2) False filter_update_length [OF q e ne] is_cstr_take [OF assms(2)] by (auto simp: jupe_ok_def)
    moreover have "jgrows st ?st"
      using e q by (auto simp: jgrows_def jslot_def nth_list_update)
    moreover have "probe (jupeTable ?st) one p" if "length one \<le> NICKLEN"
    proof -
      have "ircd_strcmp one one = 0" using ircd_strcmp_0_iff [OF assms(2,2)] by (simp add: fold_eq_def)
      then show ?thesis using that q assms(3) by (auto simp: probe_def jslot_def intro!: exI [of _ 0])
    qed
    ultimately show ?thesis using e False by (subst add_jupe_loop.simps) (auto simp: jupe_outcome_def)
  qed
qed

lemma add_jupe_loop_ok:
  assumes "jupe_ok st" "is_cstr one" "one \<noteq> []" "jslot (jupeTable st) (p + k) = []"
  shows "\<exists>out. add_jupe_loop st one p = Some out \<and> jupe_outcome st one p out"
  using assms(4)
proof (induction k arbitrary: p)
  case 0
  then show ?case using add_jupe_empty [OF assms(1-3)] by simp
next
  case (Suc k)
  let ?q = "p mod JUPEHASHSIZE"
  consider "jupeTable st ! ?q = []" | "jupeTable st ! ?q \<noteq> []" "ircd_strcmp one (jupeTable st ! ?q) = 0"
    | "jupeTable st ! ?q \<noteq> []" "ircd_strcmp one (jupeTable st ! ?q) \<noteq> 0" by blast
  then show ?case
  proof cases
    case 1
    then show ?thesis using add_jupe_empty [OF assms(1-3)] by (simp add: jslot_def)
  next
    case 2
    then have "probe (jupeTable st) one p" by (auto simp: probe_def jslot_def intro!: exI [of _ 0])
    with 2 assms(1) show ?thesis by (subst add_jupe_loop.simps) (auto simp: jupe_outcome_def jgrows_def)
  next
    case 3
    have "jslot (jupeTable st) (Suc ?q + k) = []" using Suc.prems by (simp add: jslot_mod_Suc)
    then obtain out where out: "add_jupe_loop st one (Suc ?q) = Some out" "jupe_outcome st one (Suc ?q) out"
      using Suc.IH by blast
    have "probe tbl one p" if "jgrows st st'" "tbl = jupeTable st'" "probe tbl one (Suc ?q)" for tbl st'
    proof -
      have "jslot tbl p \<noteq> []" using that(1,2) 3 by (auto simp: jgrows_def jslot_def)
      then show ?thesis using that(3) probe_step [of tbl one p] by (simp add: probe_mod)
    qed
    then have "jupe_outcome st one p out" using out(2) by (auto simp: jupe_outcome_def split: sum.splits)
    with out(1) 3 show ?thesis by (subst add_jupe_loop.simps) (simp add: Let_def)
  qed
qed

lemma jgrows_trans: "jgrows a b \<Longrightarrow> jgrows b c \<Longrightarrow> jgrows a c"
  unfolding jgrows_def by metis

lemma add_jupes_ok:
  "jupe_ok st \<Longrightarrow> \<forall>one \<in> set (strtok_tokens '','' tp). is_cstr one \<and> one \<noteq> [] \<Longrightarrow>
   \<exists>r st'. add_jupes crc st tp = Some (r, st') \<and> jupe_ok st' \<and> jgrows st st' \<and>
     (r = 0 \<and> (\<forall>one \<in> set (strtok_tokens '','' tp). length one \<le> NICKLEN \<longrightarrow> probe (jupeTable st') one (strhash crc one))
      \<or> r = 1 \<and> jupesCount st' = JUPEMAX)"
proof (induction crc st tp rule: add_jupes.induct)
  case (1 crc st p)
  then show ?case by (simp add: jgrows_def)
next
  case (2 crc st one p)
  have one: "is_cstr one" "one \<noteq> []" using "2.prems"(2) by auto
  obtain k where "jslot (jupeTable st) (strhash crc one + k) = []" using jupe_free_slot [OF "2.prems"(1)] by blast
  from add_jupe_loop_ok [OF "2.prems"(1) one this] obtain out where
    out: "add_jupe_loop st one (strhash crc one) = Some out" "jupe_outcome st one (strhash crc one) out" by blast
  show ?case
  proof (cases out)
    case (Inl u)
    with out "2.prems"(1) show ?thesis by (auto simp: jupe_outcome_def jgrows_def)
  next
    case (Inr st1)
    then have st1: "jupe_ok st1" "jgrows st st1" "length one \<le> NICKLEN \<longrightarrow> probe (jupeTable st1) one (strhash crc one)"
      using out(2) by (auto simp: jupe_outcome_def)
    have "\<forall>one \<in> set (strtok_tokens '','' (ircd_strtok p None '','')). is_cstr one \<and> one \<noteq> []"
      using "2.prems"(2) by simp
    from "2.IH" [OF out(1) Inr st1(1) this] obtain r st' where
      r: "add_jupes crc st1 (ircd_strtok p None '','') = Some (r, st')" "jupe_ok st'" "jgrows st1 st'"
        "r = 0 \<and> (\<forall>one \<in> set (strtok_tokens '','' (ircd_strtok p None '','')). length one \<le> NICKLEN \<longrightarrow>
           probe (jupeTable st') one (strhash crc one)) \<or> r = 1 \<and> jupesCount st' = JUPEMAX" by blast
    then show ?thesis
      using out(1) Inr jgrows_trans [OF st1(2) r(3)] probe_grows [OF r(3)] st1(3) by auto
  qed
qed

lemma addNickJupes_ok:
  assumes "jupe_ok st" "is_cstr nicks"
  shows "\<exists>r st'. addNickJupes crc st nicks = Some (r, st') \<and> jupe_ok st' \<and>
    (\<forall>n. isNickJuped crc st n = Some True \<longrightarrow> isNickJuped crc st' n = Some True) \<and>
    (r = 0 \<and> (\<forall>one \<in> set (pieces (\<lambda>c. c = CHR '','') (take BUFSIZE nicks)). length one \<le> NICKLEN \<longrightarrow>
       isNickJuped crc st' one = Some True) \<or> r = 1 \<and> jupesCount st' = JUPEMAX)"
proof (cases "nicks = []")
  case True
  with assms show ?thesis by (simp add: addNickJupes_def)
next
  case False
  have c: "is_cstr (take BUFSIZE nicks)" using assms(2) by (rule is_cstr_take)
  let ?tp = "ircd_strtok None (Some (take BUFSIZE nicks)) '',''"
  have p: "strtok_tokens '','' ?tp = pieces (\<lambda>c. c = CHR '','') (take BUFSIZE nicks)"
    by (simp add: strtok_tokens_pieces comma_sep [OF c])
  have ok: "\<forall>one \<in> set (strtok_tokens '','' ?tp). is_cstr one \<and> one \<noteq> []"
    using items_ok_pieces [OF c] by (auto simp: p items_ok_def)
  from add_jupes_ok [OF assms(1) ok, of crc] obtain r st' where
    r: "add_jupes crc st ?tp = Some (r, st')" "jupe_ok st'" "jgrows st st'"
      "r = 0 \<and> (\<forall>one \<in> set (strtok_tokens '','' ?tp). length one \<le> NICKLEN \<longrightarrow>
         probe (jupeTable st') one (strhash crc one)) \<or> r = 1 \<and> jupesCount st' = JUPEMAX" by blast
  have "isNickJuped crc st' n = Some True" if "isNickJuped crc st n = Some True" for n
    using that probe_grows [OF r(3)] by (simp add: isNickJuped_eq [OF assms(1)] isNickJuped_eq [OF r(2)])
  moreover have "isNickJuped crc st' one = Some True" if "probe (jupeTable st') one (strhash crc one)"
      "one \<in> set (strtok_tokens '','' ?tp)" for one
    using that ok by (auto simp: isNickJuped_eq [OF r(2)])
  ultimately show ?thesis using r False p by (auto simp: addNickJupes_def)
qed

lemma clearNickJupes_ok:
  assumes "jupe_ok st"
  shows "jupe_ok (clearNickJupes st)" "isNickJuped crc (clearNickJupes st) n = Some False"
proof -
  show ok: "jupe_ok (clearNickJupes st)" using assms by (auto simp: jupe_ok_def clearNickJupes_def)
  have "\<not> probe (jupeTable (clearNickJupes st)) n p" for p
    using assms probe_step [of _ n p] by (simp add: clearNickJupes_def jslot_def jupe_ok_def JUPEHASHSIZE_def)
  then show "isNickJuped crc (clearNickJupes st) n = Some False" by (simp add: isNickJuped_eq [OF ok])
qed

section \<open>Properties\<close>

text \<open>
  C14.  A client that is put into the client table under its name (\<open>hAddClient\<close>) is the one that
  \<open>hSeekClient\<close> finds under any spelling of that name in upper or lower case, provided no other client
  of the table answers to it; once \<open>hRemClient\<close> has taken it out, the same lookup finds nothing, and the
  table holds the clients it held before.  None of the walks along the chains runs on forever, although
  every lookup reorders the chain it walks.
\<close>

theorem client_add_seek_rem:
  assumes "client_inv st" "c \<notin> tmem (clientTable st)" "is_cstr (cli_name st c)" "cli_name st c \<noteq> []"
    "cli_status st c AND TMask \<noteq> 0" "is_cstr name" "fold_eq name (cli_name st c)"
    "\<forall>d \<in> tmem (clientTable st). \<not> client_hit TMask st name d"
  shows "\<exists>st1 st2 st3. hSeekClient (hAddClient st c) name TMask = Some (st1, Some c) \<and>
    hRemClient st1 c = Some (st2, 0) \<and> hSeekClient st2 name TMask = Some (st3, None) \<and>
    client_inv st3 \<and> tmem (clientTable st3) = tmem (clientTable st)"
proof -
  have hit: "client_hit TMask st name c" using assms(5,7) by (simp add: client_hit_def)
  have a: "client_inv (hAddClient st c)" "tmem (clientTable (hAddClient st c)) = insert c (tmem (clientTable st))"
      "client_hit TMask (hAddClient st c) = client_hit TMask st"
    using cl.add_ok [OF assms(1,3,2)] by auto
  have u: "\<forall>d \<in> tmem (clientTable (hAddClient st c)). client_hit TMask (hAddClient st c) name d \<longrightarrow> d = c"
    unfolding a using assms(8) by blast
  obtain st1 where st1: "hSeekClient (hAddClient st c) name TMask = Some (st1, Some c)" "client_inv st1"
      "tmem (clientTable st1) = insert c (tmem (clientTable st))" "client_hit TMask st1 = client_hit TMask st"
    using cl.seek_unique [OF a(1) assms(6) _ _ u] a(2,3) hit by auto
  obtain st2 where st2: "hRemClient st1 c = Some (st2, 0)" "client_inv st2"
      "tmem (clientTable st2) = tmem (clientTable st)" "client_hit TMask st2 = client_hit TMask st"
    using cl.rem_ok [OF st1(2), of c TMask] st1(3,4) assms(2) by auto
  have "\<forall>d \<in> tmem (clientTable st2). \<not> client_hit TMask st2 name d" unfolding st2 using assms(8) .
  from cl.seek_none [OF st2(2) assms(6) this] st1(1) st2 show ?thesis by auto
qed

definition hash_example :: hash_state where
  "hash_example = \<lparr>crc32hash = crc_table,
     clientTable = \<lparr>heads = (\<lambda>_. None), hnext = (\<lambda>n. Some n)\<rparr>,
     channelTable = \<lparr>heads = (\<lambda>_. None), hnext = (\<lambda>n. Some n)\<rparr>,
     monitorTable = \<lparr>heads = (\<lambda>_. None), hnext = (\<lambda>n. Some n)\<rparr>,
     cli_name = (\<lambda>n. if n = 7 then ''Alice'' else ''Bob''), cli_status = (\<lambda>_. 32),
     chname = (\<lambda>_. ''#irc''), mo_nick = (\<lambda>_. ''Bob'')\<rparr>"

lemma empty_table: "trep hf \<lparr>heads = (\<lambda>_. None), hnext = nx\<rparr> (\<lambda>_. [])"
  by (simp add: trep_def)

lemma empty_table_inv [simp]: "tinv hf \<lparr>heads = (\<lambda>_. None), hnext = nx\<rparr>" "tmem \<lparr>heads = (\<lambda>_. None), hnext = nx\<rparr> = {}"
  using empty_table trep_mem [OF empty_table] by (auto simp: tinv_def)

theorem client_add_seek_rem_witness:
  "\<exists>st1 st2 st3. hSeekClient (hAddClient hash_example 7) ''aLICE'' 32 = Some (st1, Some 7) \<and>
    hRemClient st1 7 = Some (st2, 0) \<and> hSeekClient st2 ''aLICE'' 32 = Some (st3, None) \<and>
    client_inv st3 \<and> tmem (clientTable st3) = tmem (clientTable hash_example)"
proof (rule client_add_seek_rem)
  show "client_inv hash_example" by (simp add: client_inv_def hash_example_def)
  show "7 \<notin> tmem (clientTable hash_example)" by (simp add: hash_example_def)
  show "is_cstr (cli_name hash_example 7)" by (simp add: hash_example_def is_cstr_def)
  show "cli_name hash_example 7 \<noteq> []" by (simp add: hash_example_def)
  show "cli_status hash_example 7 AND 32 \<noteq> 0" by (simp add: hash_example_def)
  show "is_cstr ''aLICE''" by (simp add: is_cstr_def)
  show "fold_eq ''aLICE'' (cli_name hash_example 7)" by (simp add: hash_example_def) code_simp
  show "\<forall>d \<in> tmem (clientTable hash_example). \<not> client_hit 32 hash_example ''aLICE'' d"
    by (simp add: hash_example_def)
qed

text \<open>
  When a client in the table changes its name (\<open>hChangeClient\<close>, after which the caller stores the
  new name), the table keeps its members, and a lookup of the new name finds that client.
\<close>

lemma nick_change_found:
  assumes "client_inv st" "c \<in> tmem (clientTable st)" "is_cstr new" "new \<noteq> []"
    "cli_status st c AND TMask \<noteq> 0"
    "\<forall>d \<in> tmem (clientTable st). client_hit TMask st new d \<longrightarrow> d = c"
  shows "\<exists>st1 st2. hChangeClient st c new = Some st1 \<and>
    tmem (clientTable st1) = tmem (clientTable st) \<and>
    hSeekClient (st1\<lparr>cli_name := (cli_name st)(c := new)\<rparr>) new TMask = Some (st2, Some c) \<and> client_inv st2"
proof -
  from hChangeClient_ok [OF assms(1-3)] obtain st1 where st1: "hChangeClient st c new = Some st1"
    "client_inv (st1\<lparr>cli_name := (cli_name st)(c := new)\<rparr>)" "tmem (clientTable st1) = tmem (clientTable st)" by blast
  have s: "cli_status st1 = cli_status st" using st1(1) by (auto simp: hChangeClient_def hRemClient_def)
  let ?st = "st1\<lparr>cli_name := (cli_name st)(c := new)\<rparr>"
  have u: "\<forall>d \<in> tmem (clientTable ?st). client_hit TMask ?st new d \<longrightarrow> d = c"
  proof (intro ballI impI)
    fix d assume d: "d \<in> tmem (clientTable ?st)" "client_hit TMask ?st new d"
    show "d = c"
    proof (rule ccontr)
      assume n: "d \<noteq> c"
      then have "client_hit TMask st new d" using d(2) by (simp add: client_hit_def s)
      moreover have "d \<in> tmem (clientTable st)" using d(1) st1(3) by simp
      ultimately show False using assms(6) n by blast
    qed
  qed
  have "c \<in> tmem (clientTable ?st)" "client_hit TMask ?st new c"
    using assms(2,5) st1(3) s by (simp_all add: client_hit_def fold_eq_def)
  from cl.seek_unique [OF st1(2) assms(3) this u] st1(1,3) show ?thesis by blast
qed

text \<open>
  A lookup of a channel name ends and returns a channel of the table whose name is the given one up
  to case, or nothing when the table has no such channel; moving the hit to the front of its chain keeps
  the table's members and its invariant.
\<close>

lemma channel_lookup:
  assumes "channel_inv st" "is_cstr name" "name \<noteq> []"
  shows "\<exists>st' r. hSeekChannel st name = Some (st', r) \<and> channel_inv st' \<and>
    tmem (channelTable st') = tmem (channelTable st) \<and>
    (r = None \<and> (\<forall>c \<in> tmem (channelTable st). \<not> fold_eq name (chname st c)) \<or>
     (\<exists>c \<in> tmem (channelTable st). r = Some c \<and> fold_eq name (chname st c)))"
  using ch.seek_cases [OF assms(1,2)] by (auto simp: channel_hit_def)

text \<open>
  Adding a comma-separated list of juped nicks ends, keeps the table well formed and every nick that
  was juped before; it returns 0, and then each nick of the list that fits into \<open>NICKLEN\<close> characters is
  found by \<open>isNickJuped\<close>, or it returns 1 because the table holds \<open>JUPEMAX\<close> nicks.
\<close>

lemma juped_nicks_found:
  assumes "jupe_ok st" "is_cstr nicks"
  shows "\<exists>r st'. addNickJupes crc st nicks = Some (r, st') \<and> jupe_ok st' \<and>
    (\<forall>n. isNickJuped crc st n = Some True \<longrightarrow> isNickJuped crc st' n = Some True) \<and>
    (r = 0 \<and> (\<forall>one \<in> set (pieces (\<lambda>c. c = CHR '','') (take BUFSIZE nicks)). length one \<le> NICKLEN \<longrightarrow>
       isNickJuped crc st' one = Some True) \<or> r = 1 \<and> jupesCount st' = JUPEMAX)"
  using addNickJupes_ok [OF assms] .

text \<open>
  Whatever the random generator returns, the shuffled table of \<open>init_hash\<close> has 256 entries and is
  a permutation of the CRC table.
\<close>

lemma init_hash_permutes: "length (init_hash rnd) = 256 \<and> mset (init_hash rnd) = mset crc_table"
  using init_hash_perm by blast

end
