(* ===== verification/IPcheck.thy ===== *)
theory IPcheck
  imports InAddr "HOL-Library.Signed_Division"
begin

text \<open>
  The registry of connections per address of \<open>ircd/IPcheck.c\<close>, which counts the clients connected
  from an address, throttles addresses that connect too often and keeps the free message targets of
  clients that left.

  The entries are in a store indexed by their addresses in memory; a hash chain and a free list are
  the lists of the entries that a walk along \<open>next\<close> visits.  \<open>CurrentTime\<close> is an argument, as are the
  features the file reads (\<open>features\<close>) and the start time of the server.  Functions that would
  dereference a null entry or fail an assertion return \<open>None\<close>.  Logging is left out.
\<close>

section \<open>State\<close>

definition STARTTARGETS :: u32 where "STARTTARGETS = 10"
definition MAXTARGETS :: nat where "MAXTARGETS = 20"
definition TARGET_DELAY :: nat where "TARGET_DELAY = 128"
definition IP_REGISTRY_TABLE_SIZE :: nat where "IP_REGISTRY_TABLE_SIZE = 0x10000"

record IPTargetEntry =
  tcount :: u32
  targets :: "u8 list"

record IPRegistryEntry =
  target :: "IPTargetEntry option"
  addr :: irc_in_addr
  last_connect :: int
  connected :: u16
  attempts :: u8

record IPRegistry48 =
  last_connect48 :: int
  addr48 :: "u16 list"
  attempts48 :: u16

record features =
  clone_limit :: int
  clone_period :: int
  clone_limit48 :: int
  clone_period48 :: int
  clone_delay :: int
  me_since :: int

record registry =
  hashTable :: "nat \<Rightarrow> nat list"
  entries :: "nat \<Rightarrow> IPRegistryEntry"
  freeList :: "nat list"
  hashTable48 :: "nat \<Rightarrow> nat list"
  entries48 :: "nat \<Rightarrow> IPRegistry48"
  freeList48 :: "nat list"
  heap_next :: nat

abbreviation upd_entry :: "nat \<Rightarrow> (IPRegistryEntry \<Rightarrow> IPRegistryEntry) \<Rightarrow> registry \<Rightarrow> registry" where
  "upd_entry p f st \<equiv> st\<lparr>entries := (entries st)(p := f (entries st p))\<rparr>"

abbreviation upd_entry48 :: "nat \<Rightarrow> (IPRegistry48 \<Rightarrow> IPRegistry48) \<Rightarrow> registry \<Rightarrow> registry" where
  "upd_entry48 p f st \<equiv> st\<lparr>entries48 := (entries48 st)(p := f (entries48 st p))\<rparr>"

text \<open>
  \<open>NOW\<close> is the low half of the clock; the difference is taken in \<open>int\<close>.
\<close>

definition NOW :: "int \<Rightarrow> int" where
  "NOW t = t mod 65536"

definition CONNECTED_SINCE :: "int \<Rightarrow> int \<Rightarrow> int" where
  "CONNECTED_SINCE t x = NOW t - x"

section \<open>Entries\<close>

definition ip_registry_canonicalize :: "irc_in_addr \<Rightarrow> irc_in_addr" where
  "ip_registry_canonicalize a =
    \<lparr>in6_16 =
      (if irc_in_addr_is_ipv4 a then [htons 0x2002, in6_16 a ! 6, in6_16 a ! 7, 0]
       else [in6_16 a ! 0, in6_16 a ! 1, in6_16 a ! 2, in6_16 a ! 3]) @ [0, 0, 0, 0]\<rparr>"

definition ip_registry_hash :: "irc_in_addr \<Rightarrow> nat" where
  "ip_registry_hash ip =
    unat (in6_16 ip ! 0 XOR in6_16 ip ! 1 XOR in6_16 ip ! 2 XOR in6_16 ip ! 3) mod IP_REGISTRY_TABLE_SIZE"

definition find_bits :: "irc_in_addr \<Rightarrow> u8" where
  "find_bits canon = (if in6_16 canon ! 0 = htons 0x2002 then 48 else 64)"

definition ip_registry_find :: "registry \<Rightarrow> irc_in_addr \<Rightarrow> nat option" where
  "ip_registry_find st ip =
    (let canon = ip_registry_canonicalize ip
     in find (\<lambda>p. ipmask_check canon (addr (entries st p)) (find_bits canon) \<noteq> 0)
          (hashTable st (ip_registry_hash canon)))"

definition ip_registry_add :: "registry \<Rightarrow> nat \<Rightarrow> registry" where
  "ip_registry_add st p =
    (let bucket = ip_registry_hash (addr (entries st p))
     in st\<lparr>hashTable := (hashTable st)(bucket := p # hashTable st bucket)\<rparr>)"

definition ip_registry_remove :: "registry \<Rightarrow> nat \<Rightarrow> registry" where
  "ip_registry_remove st p =
    (let bucket = ip_registry_hash (addr (entries st p))
     in st\<lparr>hashTable := (hashTable st)(bucket := remove1 p (hashTable st bucket))\<rparr>)"

text \<open>\<open>MyMalloc\<close> returns a block that is not in use.\<close>

definition ip_registry_new_entry :: "int \<Rightarrow> registry \<Rightarrow> nat \<times> registry" where
  "ip_registry_new_entry t st =
    (let (p, st') = (case freeList st of
         p # ps \<Rightarrow> (p, st\<lparr>freeList := ps\<rparr>)
       | [] \<Rightarrow> (heap_next st, st\<lparr>heap_next := heap_next st + 1\<rparr>))
     in (p, upd_entry p (\<lambda>_. \<lparr>target = None, addr = ip_zero, last_connect = NOW t, connected = 1, attempts = 1\<rparr>) st'))"

definition ip_registry_delete_entry :: "registry \<Rightarrow> nat \<Rightarrow> registry" where
  "ip_registry_delete_entry st p = st\<lparr>freeList := p # freeList st\<rparr>"

text \<open>The quotient is the truncating one of C; it is converted to \<open>unsigned int\<close> before the sum.\<close>

definition ip_registry_update_free_targets :: "int \<Rightarrow> IPRegistryEntry \<Rightarrow> u32 \<times> IPRegistryEntry" where
  "ip_registry_update_free_targets t e = (case target e of
     None \<Rightarrow> (STARTTARGETS, e)
   | Some tg \<Rightarrow>
       let free_targets = tcount tg + of_int (CONNECTED_SINCE t (last_connect e) sdiv int TARGET_DELAY);
           free_targets' = (if free_targets > STARTTARGETS then STARTTARGETS else free_targets)
       in (free_targets', e\<lparr>target := Some (tg\<lparr>tcount := free_targets'\<rparr>)\<rparr>))"

definition ip_registry_expire_entry :: "int \<Rightarrow> registry \<Rightarrow> nat \<Rightarrow> registry" where
  "ip_registry_expire_entry t st p =
    (let e = entries st p
     in if CONNECTED_SINCE t (last_connect e) > 600
        then ip_registry_delete_entry (ip_registry_remove st p) p
        else if CONNECTED_SINCE t (last_connect e) > 120 \<and> target e \<noteq> None
        then upd_entry p (\<lambda>e. e\<lparr>target := None\<rparr>) st
        else st)"

section \<open>Entries for /48 blocks\<close>

definition ip_48_hash :: "irc_in_addr \<Rightarrow> nat" where
  "ip_48_hash ip = unat (in6_16 ip ! 0 XOR in6_16 ip ! 1 XOR in6_16 ip ! 2) mod IP_REGISTRY_TABLE_SIZE"

definition ip_48_find :: "int \<Rightarrow> registry \<Rightarrow> irc_in_addr \<Rightarrow> nat \<times> registry" where
  "ip_48_find t st ip =
    (let idx = ip_48_hash ip
     in case find (\<lambda>p. in6_16 ip ! 0 = addr48 (entries48 st p) ! 0 \<and> in6_16 ip ! 1 = addr48 (entries48 st p) ! 1 \<and>
                     in6_16 ip ! 2 = addr48 (entries48 st p) ! 2) (hashTable48 st idx) of
          Some p \<Rightarrow> (p, st)
        | None \<Rightarrow>
            let (p, st') = (case freeList48 st of
                p # ps \<Rightarrow> (p, st\<lparr>freeList48 := ps\<rparr>)
              | [] \<Rightarrow> (heap_next st, st\<lparr>heap_next := heap_next st + 1\<rparr>));
                st'' = upd_entry48 p (\<lambda>_. \<lparr>last_connect48 = NOW t,
                  addr48 = [in6_16 ip ! 0, in6_16 ip ! 1, in6_16 ip ! 2], attempts48 = 0\<rparr>) st'
            in (p, st''\<lparr>hashTable48 := (hashTable48 st'')(idx := p # hashTable48 st'' idx)\<rparr>))"

section \<open>Expiry\<close>

definition expire_bucket :: "int \<Rightarrow> nat \<Rightarrow> registry \<Rightarrow> registry" where
  "expire_bucket t i st =
    fold (\<lambda>p st. if connected (entries st p) = 0 then ip_registry_expire_entry t st p else st) (hashTable st i) st"

definition expire_bucket48 :: "int \<Rightarrow> nat \<Rightarrow> registry \<Rightarrow> registry" where
  "expire_bucket48 t i st =
    (let old = (\<lambda>p. CONNECTED_SINCE t (last_connect48 (entries48 st p)) > 600)
     in st\<lparr>hashTable48 := (hashTable48 st)(i := filter (\<lambda>p. \<not> old p) (hashTable48 st i)),
           freeList48 := rev (filter old (hashTable48 st i)) @ freeList48 st\<rparr>)"

definition ip_registry_expire :: "int \<Rightarrow> registry \<Rightarrow> registry" where
  "ip_registry_expire t st =
    fold (expire_bucket48 t) [0..<IP_REGISTRY_TABLE_SIZE]
      (fold (expire_bucket t) [0..<IP_REGISTRY_TABLE_SIZE] st)"

section \<open>Connections\<close>

text \<open>\<open>if (0 == ++x) --x;\<close> and \<open>if (0 == --x) ++x;\<close>\<close>

definition inc_sat :: "'a::len word \<Rightarrow> 'a word" where
  "inc_sat x = (if x + 1 = 0 then x + 1 - 1 else x + 1)"

definition dec_one :: "'a::len word \<Rightarrow> 'a word" where
  "dec_one x = (if x - 1 = 0 then x - 1 + 1 else x - 1)"

text \<open>The /48 accounting at the head of \<open>ip_registry_check_local\<close>, up to the throttle.\<close>

definition count_48 :: "features \<Rightarrow> int \<Rightarrow> registry \<Rightarrow> irc_in_addr \<Rightarrow> nat \<times> registry" where
  "count_48 ft t st a =
    (let (p, st1) = ip_48_find t st a
     in (p, upd_entry48 p (\<lambda>e. e\<lparr>
            attempts48 := inc_sat (if CONNECTED_SINCE t (last_connect48 e) > clone_period48 ft then 0 else attempts48 e),
            last_connect48 := NOW t\<rparr>) st1))"

definition just_booted :: "features \<Rightarrow> int \<Rightarrow> bool" where
  "just_booted ft t \<longleftrightarrow> \<not> (t - me_since ft > clone_delay ft)"

text \<open>
  The rest of \<open>ip_registry_check_local\<close>: the part behind the /48 check.  The result is the answer
  and the time stored through \<open>next_target_out\<close>, whose subtrahend is computed in \<open>unsigned int\<close>.
\<close>

definition check_local_entry :: "features \<Rightarrow> int \<Rightarrow> registry \<Rightarrow> irc_in_addr \<Rightarrow> nat option \<Rightarrow>
    bool \<times> int option \<times> registry" where
  "check_local_entry ft t st a entry = (case entry of
     None \<Rightarrow>
       let (p, st1) = ip_registry_new_entry t st;
           st2 = upd_entry p (\<lambda>e. e\<lparr>addr := ip_registry_canonicalize a\<rparr>) st1
       in (True, None, ip_registry_add st2 p)
   | Some p \<Rightarrow>
       if connected (entries st p) + 1 = 0 then (False, None, st)
       else
         let e1 = (entries st p)\<lparr>connected := connected (entries st p) + 1\<rparr>;
             e2 = (if CONNECTED_SINCE t (last_connect e1) > clone_period ft then e1\<lparr>attempts := 0\<rparr> else e1);
             (free_targets, e3) = ip_registry_update_free_targets t e2;
             e4 = e3\<lparr>last_connect := NOW t, attempts := inc_sat (attempts e3)\<rparr>
         in if uint (attempts e4) < clone_limit ft
            then (True, Some (t - uint (of_nat TARGET_DELAY * free_targets - 1)), upd_entry p (\<lambda>_. e4) st)
            else if \<not> just_booted ft t
            then (False, None, upd_entry p (\<lambda>_. e4\<lparr>connected := connected e4 - 1\<rparr>) st)
            else (True, None, upd_entry p (\<lambda>_. e4) st))"

text \<open>
  The branch to \<open>reject\<close> counts the connection and takes it back.  When the counter wraps, the
  decrement is the one before the jump and \<open>entry\<close> is null behind it; otherwise it is the one behind it.
\<close>

definition reject_48 :: "int \<Rightarrow> registry \<Rightarrow> nat option \<Rightarrow> registry" where
  "reject_48 t st entry = (case entry of
     None \<Rightarrow> st
   | Some p \<Rightarrow> upd_entry p (\<lambda>e. e\<lparr>last_connect := NOW t, connected := connected e + 1 - 1\<rparr>) st)"

definition ip_registry_check_local :: "features \<Rightarrow> int \<Rightarrow> registry \<Rightarrow> irc_in_addr \<Rightarrow>
    bool \<times> int option \<times> registry" where
  "ip_registry_check_local ft t st a =
    (let entry = ip_registry_find st a
     in if \<not> irc_in_addr_is_ipv4 a then
          (let (p48, st1) = count_48 ft t st a
           in if uint (attempts48 (entries48 st1 p48)) \<ge> clone_limit48 ft \<and> \<not> just_booted ft t
              then (False, None, reject_48 t st1 entry)
              else check_local_entry ft t st1 a entry)
        else check_local_entry ft t st a entry)"

definition ip_registry_check_remote :: "features \<Rightarrow> int \<Rightarrow> registry \<Rightarrow> irc_in_addr \<Rightarrow> bool \<Rightarrow> bool \<times> registry" where
  "ip_registry_check_remote ft t st a is_burst =
    (if \<not> irc_in_addr_valid a then (True, st)
     else
       let st1 = (if \<not> irc_in_addr_is_ipv4 a then snd (count_48 ft t st a) else st)
       in case ip_registry_find st1 a of
            None \<Rightarrow>
              let (p, st2) = ip_registry_new_entry t st1;
                  st3 = upd_entry p (\<lambda>e. e\<lparr>addr := ip_registry_canonicalize a,
                          attempts := if is_burst then 0 else attempts e\<rparr>) st2
              in (True, ip_registry_add st3 p)
          | Some p \<Rightarrow>
              let e1 = (entries st1 p)\<lparr>connected := connected (entries st1 p) + 1\<rparr>
              in if connected e1 = 0 then (False, upd_entry p (\<lambda>_. e1) st1)
                 else
                   let e2 = (if CONNECTED_SINCE t (last_connect e1) > clone_period ft then e1\<lparr>attempts := 0\<rparr> else e1);
                       e3 = (if is_burst then e2
                             else (snd (ip_registry_update_free_targets t (e2\<lparr>attempts := inc_sat (attempts e2)\<rparr>)))
                                    \<lparr>last_connect := NOW t\<rparr>)
                   in (True, upd_entry p (\<lambda>_. e3) st1))"

definition ip_registry_connect_fail :: "int \<Rightarrow> registry \<Rightarrow> irc_in_addr \<Rightarrow> bool \<Rightarrow> registry option" where
  "ip_registry_connect_fail t st a disconnect =
    (let entry = ip_registry_find st a;
         st1 = (if \<not> irc_in_addr_is_ipv4 a
                then (let (p48, st') = ip_48_find t st a
                      in upd_entry48 p48 (\<lambda>e. e\<lparr>attempts48 := dec_one (attempts48 e)\<rparr>) st')
                else st)
     in case entry of
          None \<Rightarrow> Some st1
        | Some p \<Rightarrow>
            let st2 = upd_entry p (\<lambda>e. e\<lparr>attempts := dec_one (attempts e)\<rparr>) st1
            in if disconnect
               then (if connected (entries st2 p) = 0 then None
                     else Some (upd_entry p (\<lambda>e. e\<lparr>connected := connected e - 1\<rparr>) st2))
               else Some st2)"

text \<open>The targets and the number of free targets the new client gets; the notice is not modelled.\<close>

definition ip_registry_connect_succeeded :: "registry \<Rightarrow> irc_in_addr \<Rightarrow> u8 list \<Rightarrow> (u8 list \<times> u32) option" where
  "ip_registry_connect_succeeded st a cli_targets = (case ip_registry_find st a of
     None \<Rightarrow> None
   | Some p \<Rightarrow> (case target (entries st p) of
       None \<Rightarrow> Some (cli_targets, STARTTARGETS)
     | Some tg \<Rightarrow> Some (targets tg, tcount tg)))"

text \<open>The client that leaves: what \<open>ip_registry_disconnect\<close> reads of it.\<close>

record leaving =
  cli_ip :: irc_in_addr
  my_connect :: bool
  cli_targets :: "u8 list"
  cli_nexttarget :: int
  cli_firsttime :: int

definition leaving_free_targets :: "int \<Rightarrow> leaving \<Rightarrow> u32" where
  "leaving_free_targets t c =
    (let ft = (if cli_nexttarget c < t then of_int ((t - cli_nexttarget c) sdiv int TARGET_DELAY + 1) else 0)
     in if t - cli_firsttime c > 600
        then of_int (uint ft + (t - cli_firsttime c - 600) sdiv int TARGET_DELAY) else ft)"

definition store_targets :: "int \<Rightarrow> leaving \<Rightarrow> IPRegistryEntry \<Rightarrow> IPRegistryEntry" where
  "store_targets t c e =
    (let tg = (case target e of None \<Rightarrow> \<lparr>tcount = STARTTARGETS, targets = []\<rparr> | Some tg \<Rightarrow> tg);
         free_targets = leaving_free_targets t c
     in e\<lparr>target := Some (tg\<lparr>targets := cli_targets c,
            tcount := if free_targets < tcount tg then free_targets else tcount tg\<rparr>)\<rparr>)"

definition ip_registry_disconnect :: "features \<Rightarrow> int \<Rightarrow> registry \<Rightarrow> leaving \<Rightarrow> registry option" where
  "ip_registry_disconnect ft t st c =
    (if \<not> irc_in_addr_valid (cli_ip c) then Some st
     else case ip_registry_find st (cli_ip c) of
       None \<Rightarrow> None
     | Some p \<Rightarrow>
         if connected (entries st p) = 0 then None
         else
           let e1 = (entries st p)\<lparr>connected := connected (entries st p) - 1\<rparr>;
               e2 = (if connected e1 = 0
                     then (snd (ip_registry_update_free_targets t
                            (if CONNECTED_SINCE t (last_connect e1) > clone_limit ft * clone_period ft
                             then e1\<lparr>attempts := 0\<rparr> else e1)))\<lparr>last_connect := NOW t\<rparr>
                     else e1);
               e3 = (if my_connect c then store_targets t c e2 else e2)
           in Some (upd_entry p (\<lambda>_. e3) st))"

definition ip_registry_count :: "registry \<Rightarrow> irc_in_addr \<Rightarrow> int" where
  "ip_registry_count st a = (case ip_registry_find st a of None \<Rightarrow> 0 | Some p \<Rightarrow> uint (connected (entries st p)))"

section \<open>Lookup by canonical address\<close>

definition canonical :: "irc_in_addr \<Rightarrow> bool" where
  "canonical a \<longleftrightarrow> (\<exists>w0 w1 w2 w3. in6_16 a = [w0, w1, w2, w3, 0, 0, 0, 0])"

lemma canonicalize_canonical [simp]: "canonical (ip_registry_canonicalize a)"
  by (auto simp: canonical_def ip_registry_canonicalize_def)

lemma word_xor_cancel: "x XOR y = x XOR z \<longleftrightarrow> y = z" for x y z :: "'a::len word"
proof
  assume "x XOR y = x XOR z"
  then have "x XOR (x XOR y) = x XOR (x XOR z)" by simp
  then show "y = z" by (simp only: xor.assoc [symmetric] xor_self_eq xor.left_neutral)
qed simp

lemma find_bits_match:
  assumes "canonical a" "canonical b" "ip_registry_hash a = ip_registry_hash b"
  shows "ipmask_check a b (find_bits a) \<noteq> 0 \<longleftrightarrow> a = b"
proof -
  obtain a0 a1 a2 a3 where a: "in6_16 a = [a0, a1, a2, a3, 0, 0, 0, 0]" using assms(1) by (auto simp: canonical_def)
  obtain b0 b1 b2 b3 where b: "in6_16 b = [b0, b1, b2, b3, 0, 0, 0, 0]" using assms(2) by (auto simp: canonical_def)
  have m: "unat (x :: u16) mod IP_REGISTRY_TABLE_SIZE = unat x" for x
    using unsigned_less [of x, where 'a = nat] by (simp add: IP_REGISTRY_TABLE_SIZE_def)
  have h: "a0 XOR a1 XOR a2 XOR a3 = b0 XOR b1 XOR b2 XOR b3"
    using assms(3) unfolding word_unat_eq_iff by (simp add: ip_registry_hash_def a b m)
  have "a3 = b3" if "a0 = b0" "a1 = b1" "a2 = b2"
    using h that by (simp add: word_xor_cancel)
  moreover have "a = b \<longleftrightarrow> a0 = b0 \<and> a1 = b1 \<and> a2 = b2 \<and> a3 = b3"
    using a b by (cases a; cases b) auto
  ultimately show ?thesis
    by (auto simp: ipmask_check_def a b find_bits_def)
qed

text \<open>
  The registry is well formed: every chain holds distinct entries that hash to it, no two entries of
  a chain have the same address, and the free entries are not in use.
\<close>

definition ip_inv :: "registry \<Rightarrow> bool" where
  "ip_inv st \<longleftrightarrow>
    (\<forall>b. distinct (hashTable st b) \<and> inj_on (\<lambda>p. addr (entries st p)) (set (hashTable st b)) \<and>
      (\<forall>p \<in> set (hashTable st b). canonical (addr (entries st p)) \<and> ip_registry_hash (addr (entries st p)) = b \<and>
         p < heap_next st \<and> p \<notin> set (freeList st))) \<and>
    distinct (freeList st) \<and> (\<forall>p \<in> set (freeList st). p < heap_next st)"

definition holds :: "registry \<Rightarrow> nat \<Rightarrow> irc_in_addr \<Rightarrow> bool" where
  "holds st p c \<longleftrightarrow> p \<in> set (hashTable st (ip_registry_hash c)) \<and> addr (entries st p) = c"

lemma ip_registry_find_iff:
  assumes "ip_inv st"
  shows "ip_registry_find st a = Some p \<longleftrightarrow> holds st p (ip_registry_canonicalize a)"
proof -
  let ?c = "ip_registry_canonicalize a"
  let ?ch = "hashTable st (ip_registry_hash ?c)"
  have "ipmask_check ?c (addr (entries st q)) (find_bits ?c) \<noteq> 0 \<longleftrightarrow> addr (entries st q) = ?c" if "q \<in> set ?ch" for q
    using find_bits_match [of ?c "addr (entries st q)"] assms that by (auto simp: ip_inv_def)
  then have e: "ip_registry_find st a = find (\<lambda>q. addr (entries st q) = ?c) ?ch"
    by (simp add: ip_registry_find_def Let_def cong: find_cong)
  have inj: "inj_on (\<lambda>p. addr (entries st p)) (set ?ch)" using assms by (simp add: ip_inv_def)
  show ?thesis
  proof
    assume "ip_registry_find st a = Some p"
    then show "holds st p ?c" by (auto simp: e find_Some_iff holds_def)
  next
    assume h: "holds st p ?c"
    then have "find (\<lambda>q. addr (entries st q) = ?c) ?ch \<noteq> None" by (auto simp: find_None_iff holds_def)
    then obtain q where q: "find (\<lambda>q. addr (entries st q) = ?c) ?ch = Some q" by blast
    then have "q \<in> set ?ch" "addr (entries st q) = ?c" by (auto simp: find_Some_iff)
    with h inj have "q = p" by (auto simp: holds_def inj_on_def)
    with q e show "ip_registry_find st a = Some p" by simp
  qed
qed

lemma holds_unique: "ip_inv st \<Longrightarrow> holds st p c \<Longrightarrow> holds st q c \<Longrightarrow> p = q"
  by (auto simp: ip_inv_def holds_def inj_on_def)

lemma holds_addr: "holds st p c \<Longrightarrow> holds st p d \<Longrightarrow> c = d"
  by (auto simp: holds_def)

text \<open>The number of clients connected from a canonical address.\<close>

definition conns :: "registry \<Rightarrow> irc_in_addr \<Rightarrow> nat" where
  "conns st c = (if \<exists>p. holds st p c then unat (connected (entries st (THE p. holds st p c))) else 0)"

lemma conns_holds: "ip_inv st \<Longrightarrow> holds st p c \<Longrightarrow> conns st c = unat (connected (entries st p))"
proof -
  assume h: "ip_inv st" "holds st p c"
  then have "(THE p. holds st p c) = p" using holds_unique by blast
  with h(2) show ?thesis by (auto simp: conns_def)
qed

lemma conns_none: "\<forall>p. \<not> holds st p c \<Longrightarrow> conns st c = 0"
  by (simp add: conns_def)

lemma ip_registry_count_conns:
  assumes "ip_inv st"
  shows "ip_registry_count st a = int (conns st (ip_registry_canonicalize a))"
proof (cases "ip_registry_find st a")
  case None
  then have "\<forall>p. \<not> holds st p (ip_registry_canonicalize a)" using ip_registry_find_iff [OF assms, of a] by force
  with None show ?thesis by (simp add: ip_registry_count_def conns_none)
next
  case (Some p)
  then have "holds st p (ip_registry_canonicalize a)" using ip_registry_find_iff [OF assms] by simp
  with Some show ?thesis by (simp add: ip_registry_count_def conns_holds [OF assms])
qed

section \<open>Elementary changes\<close>

text \<open>Changing an entry, but not its address.\<close>

lemma upd_entry_addr: "addr e = addr (entries st p) \<Longrightarrow> addr (((entries st)(p := e)) q) = addr (entries st q)"
  by simp

lemma upd_entry_inv [simp]: "addr e = addr (entries st p) \<Longrightarrow> ip_inv (upd_entry p (\<lambda>_. e) st) = ip_inv st"
  by (simp add: ip_inv_def upd_entry_addr del: fun_upd_apply)

lemma upd_entry_holds [simp]: "addr e = addr (entries st p) \<Longrightarrow> holds (upd_entry p (\<lambda>_. e) st) q c = holds st q c"
  by (auto simp: holds_def)

lemma upd_entry_conns:
  assumes "ip_inv st" "holds st p c" "addr e = addr (entries st p)"
  shows "conns (upd_entry p (\<lambda>_. e) st) = (conns st)(c := unat (connected e))"
proof
  fix d
  have inv: "ip_inv (upd_entry p (\<lambda>_. e) st)" using assms by simp
  show "conns (upd_entry p (\<lambda>_. e) st) d = ((conns st)(c := unat (connected e))) d"
  proof (cases "\<exists>q. holds st q d")
    case True
    then obtain q where q: "holds st q d" by blast
    then have "holds (upd_entry p (\<lambda>_. e) st) q d" using assms(3) by simp
    from conns_holds [OF inv this] conns_holds [OF assms(1) q] show ?thesis
      using q assms(1,2) holds_unique holds_addr by (cases "q = p") fastforce+
  next
    case False
    then have "\<forall>q. \<not> holds (upd_entry p (\<lambda>_. e) st) q d" "d \<noteq> c" using assms by auto
    with False show ?thesis by (simp add: conns_none)
  qed
qed

text \<open>What the invariant and the counts depend on.\<close>

lemma ip_inv_cong:
  "ip_inv st \<Longrightarrow> hashTable st' = hashTable st \<Longrightarrow> entries st' = entries st \<Longrightarrow> freeList st' = freeList st \<Longrightarrow>
   heap_next st \<le> heap_next st' \<Longrightarrow> ip_inv st'"
  unfolding ip_inv_def by (metis less_le_trans)

lemma conns_cong: "hashTable st' = hashTable st \<Longrightarrow> entries st' = entries st \<Longrightarrow> conns st' = conns st"
proof -
  assume h: "hashTable st' = hashTable st" "entries st' = entries st"
  then have "holds st' = holds st" by (auto simp: holds_def fun_eq_iff)
  with h(2) show ?thesis by (simp add: conns_def fun_eq_iff)
qed

definition same_entries :: "registry \<Rightarrow> registry \<Rightarrow> bool" where
  "same_entries st st' \<longleftrightarrow> hashTable st' = hashTable st \<and> entries st' = entries st \<and> freeList st' = freeList st \<and>
     heap_next st \<le> heap_next st'"

lemma ip_48_find_same: "same_entries st (snd (ip_48_find t st a))"
  by (auto simp: ip_48_find_def same_entries_def Let_def split: option.splits list.splits)

lemma count_48_same: "same_entries st (snd (count_48 ft t st a))"
  using ip_48_find_same [of st t a] by (auto simp: count_48_def same_entries_def split: prod.splits)

lemma same_entriesD:
  assumes "same_entries st st'"
  shows "ip_inv st \<Longrightarrow> ip_inv st'" "conns st' = conns st" "holds st' = holds st"
    "entries st' = entries st" "hashTable st' = hashTable st"
  using assms ip_inv_cong [of st st'] conns_cong [of st' st]
  by (auto simp: same_entries_def holds_def fun_eq_iff)

text \<open>Linking a new entry.\<close>

lemma new_entry_fresh:
  assumes "ip_inv st" "ip_registry_new_entry t st = (p, st1)"
  shows "p \<notin> set (hashTable st b)" "hashTable st1 = hashTable st" "p < heap_next st1" "heap_next st \<le> heap_next st1"
    "p \<notin> set (freeList st1)" "set (freeList st1) \<subseteq> set (freeList st)" "distinct (freeList st1)"
    "\<forall>q. q \<noteq> p \<longrightarrow> entries st1 q = entries st q"
  using assms by (auto simp: ip_inv_def ip_registry_new_entry_def Let_def split: list.splits prod.splits)

lemma add_entry_ok:
  assumes inv: "ip_inv st" and nh: "\<forall>q. \<not> holds st q c" and c: "canonical c"
    and n: "ip_registry_new_entry t st = (p, st1)" and e: "addr e = c"
  shows "ip_inv (ip_registry_add (upd_entry p (\<lambda>_. e) st1) p)"
    "conns (ip_registry_add (upd_entry p (\<lambda>_. e) st1) p) = (conns st)(c := unat (connected e))"
proof -
  note f = new_entry_fresh [OF inv n]
  define st3 where "st3 = ip_registry_add (upd_entry p (\<lambda>_. e) st1) p"
  have t3: "hashTable st3 = (hashTable st)(ip_registry_hash c := p # hashTable st (ip_registry_hash c))"
    "entries st3 p = e" "\<And>q. q \<noteq> p \<Longrightarrow> entries st3 q = entries st q" "freeList st3 = freeList st1" "heap_next st3 = heap_next st1"
    using f(2,8) e by (auto simp: st3_def ip_registry_add_def Let_def)
  have in_st: "q \<noteq> p \<and> entries st3 q = entries st q" if "q \<in> set (hashTable st b)" for q b
    using f(1) [of b] that t3(3) by metis
  have mem: "q \<in> set (hashTable st3 b) \<longleftrightarrow> q \<in> set (hashTable st b) \<or> q = p \<and> b = ip_registry_hash c" for q b
    by (auto simp: t3(1))
  have holds3: "holds st3 q d \<longleftrightarrow> (if q = p then d = c else holds st q d)" for q d
    using f(1) [of "ip_registry_hash d"] e t3(2,3) by (auto simp: holds_def mem)
  have "canonical (addr (entries st3 q)) \<and> ip_registry_hash (addr (entries st3 q)) = b \<and>
      q < heap_next st3 \<and> q \<notin> set (freeList st3)" if "q \<in> set (hashTable st3 b)" for q b
  proof (cases "q = p")
    case True
    with that f(1) have "b = ip_registry_hash c" by (auto simp: mem)
    with True f(3,5) t3(2,4,5) e c show ?thesis by simp
  next
    case False
    with that have "q \<in> set (hashTable st b)" by (auto simp: mem)
    then show ?thesis using inv f(4,6) in_st t3(4,5) unfolding ip_inv_def by fastforce
  qed
  moreover have "distinct (hashTable st3 b)" for b using inv f(1) by (auto simp: t3(1) ip_inv_def)
  moreover have "inj_on (\<lambda>p. addr (entries st3 p)) (set (hashTable st3 b))" for b
  proof (rule inj_onI)
    fix x y assume h: "x \<in> set (hashTable st3 b)" "y \<in> set (hashTable st3 b)" "addr (entries st3 x) = addr (entries st3 y)"
    then have "holds st3 x (addr (entries st3 x))" "holds st3 y (addr (entries st3 x))"
      using calculation by (auto simp: holds_def)
    with holds3 nh holds_unique [OF inv] show "x = y" by metis
  qed
  moreover have "\<forall>q \<in> set (freeList st3). q < heap_next st3"
    using inv f(4,6) t3(4,5) unfolding ip_inv_def by fastforce
  ultimately have inv3: "ip_inv st3" using f(7) t3(4) by (auto simp: ip_inv_def)
  have "conns st3 d = ((conns st)(c := unat (connected e))) d" for d
  proof (cases "d = c")
    case True
    with holds3 have "holds st3 p d" by simp
    from conns_holds [OF inv3 this] True t3(2) show ?thesis by simp
  next
    case False
    then have h: "holds st3 q d \<longleftrightarrow> holds st q d" for q using holds3 f(1) by (auto simp: holds_def)
    show ?thesis
    proof (cases "\<exists>q. holds st q d")
      case True
      then obtain q where q: "holds st q d" by blast
      with h have q3: "holds st3 q d" by simp
      have "entries st3 q = entries st q" using q in_st by (auto simp: holds_def)
      then show ?thesis using conns_holds [OF inv3 q3] conns_holds [OF inv q] \<open>d \<noteq> c\<close> by simp
    next
      case False
      with h \<open>d \<noteq> c\<close> show ?thesis by (simp add: conns_none)
    qed
  qed
  then show "conns (ip_registry_add (upd_entry p (\<lambda>_. e) st1) p) = (conns st)(c := unat (connected e))"
    unfolding st3_def by blast
  show "ip_inv (ip_registry_add (upd_entry p (\<lambda>_. e) st1) p)" using inv3 by (simp only: st3_def)
qed

section \<open>Counting\<close>

text \<open>What an operation does to the counts: one more, one less or nothing.\<close>

definition plus_one :: "bool \<Rightarrow> irc_in_addr \<Rightarrow> (irc_in_addr \<Rightarrow> nat) \<Rightarrow> irc_in_addr \<Rightarrow> nat" where
  "plus_one b c m = (if b then m(c := m c + 1) else m)"

definition minus_one :: "bool \<Rightarrow> irc_in_addr \<Rightarrow> (irc_in_addr \<Rightarrow> nat) \<Rightarrow> irc_in_addr \<Rightarrow> nat" where
  "minus_one b c m = (if b then m(c := m c - 1) else m)"

lemma update_free_targets_keeps [simp]:
  "addr (snd (ip_registry_update_free_targets t e)) = addr e"
  "connected (snd (ip_registry_update_free_targets t e)) = connected e"
  "last_connect (snd (ip_registry_update_free_targets t e)) = last_connect e"
  "attempts (snd (ip_registry_update_free_targets t e)) = attempts e"
  by (auto simp: ip_registry_update_free_targets_def Let_def split: option.splits)

lemma unat_inc: "x + 1 \<noteq> 0 \<Longrightarrow> unat (x + 1) = unat x + 1" for x :: "'a::len word"
  using unatSuc [of x] by (simp add: add.commute)

lemma unat_dec: "x \<noteq> 0 \<Longrightarrow> unat (x - 1) = unat x - 1" for x :: "'a::len word"
  by (simp add: unat_minus_one)

lemma find_None_holds: "ip_inv st \<Longrightarrow> ip_registry_find st a = None \<longleftrightarrow> (\<forall>p. \<not> holds st p (ip_registry_canonicalize a))"
  using ip_registry_find_iff [of st a] by (cases "ip_registry_find st a") auto

lemma upd_entry_outcome:
  assumes "ip_inv st" "holds st p c" "addr e = addr (entries st p)" "m = (conns st)(c := unat (connected e))"
  shows "ip_inv (upd_entry p (\<lambda>_. e) st) \<and> conns (upd_entry p (\<lambda>_. e) st) = m"
  using upd_entry_conns [OF assms(1-3)] assms by simp


lemma new_entry_connected:
  "ip_registry_new_entry t st = (p, st1) \<Longrightarrow> connected (entries st1 p) = 1"
  by (auto simp: ip_registry_new_entry_def Let_def split: list.splits prod.splits)

lemma upd_const: "upd_entry p f st = upd_entry p (\<lambda>_. f (entries st p)) st"
  by simp

lemma check_local_entry_ok:
  assumes "ip_inv st" "check_local_entry ft t st a (ip_registry_find st a) = (ok, nt, st')"
  shows "ip_inv st' \<and> conns st' = plus_one ok (ip_registry_canonicalize a) (conns st)"
proof (cases "ip_registry_find st a")
  case None
  let ?c = "ip_registry_canonicalize a"
  have nh: "\<forall>p. \<not> holds st p ?c" using None find_None_holds [OF assms(1)] by simp
  obtain p st1 where n: "ip_registry_new_entry t st = (p, st1)" by fastforce
  let ?e = "(entries st1 p)\<lparr>addr := ?c\<rparr>"
  have r: "ok" "st' = ip_registry_add (upd_entry p (\<lambda>_. ?e) st1) p"
    using assms(2) n None by (auto simp: check_local_entry_def Let_def)
  have "addr ?e = ?c" by simp
  from add_entry_ok [OF assms(1) nh _ n this] r conns_none [OF nh] show ?thesis
    by (simp add: plus_one_def new_entry_connected [OF n])
next
  case (Some p)
  let ?c = "ip_registry_canonicalize a"
  have h: "holds st p ?c" using Some ip_registry_find_iff [OF assms(1)] by simp
  have cn: "conns st ?c = unat (connected (entries st p))" by (rule conns_holds [OF assms(1) h])
  show ?thesis
  proof (cases "connected (entries st p) + 1 = 0")
    case True
    with assms Some show ?thesis by (auto simp: check_local_entry_def plus_one_def)
  next
    case False
    define e1 where "e1 = (entries st p)\<lparr>connected := connected (entries st p) + 1\<rparr>"
    define e2 where "e2 = (if CONNECTED_SINCE t (last_connect e1) > clone_period ft then e1\<lparr>attempts := 0\<rparr> else e1)"
    define e3 where "e3 = snd (ip_registry_update_free_targets t e2)"
    define e4 where "e4 = e3\<lparr>last_connect := NOW t, attempts := inc_sat (attempts e3)\<rparr>"
    have e4: "addr e4 = addr (entries st p)" "connected e4 = connected (entries st p) + 1"
      by (simp_all add: e4_def e3_def e2_def e1_def)
    have cases: "ok \<and> st' = upd_entry p (\<lambda>_. e4) st \<or>
        \<not> ok \<and> st' = upd_entry p (\<lambda>_. e4\<lparr>connected := connected e4 - 1\<rparr>) st"
      using assms(2) Some False
      by (auto simp: check_local_entry_def Let_def e1_def [symmetric] e2_def [symmetric] e3_def [symmetric]
        e4_def [symmetric] split_beta split: if_splits)
    then show ?thesis
    proof (elim disjE conjE)
      assume "ok" "st' = upd_entry p (\<lambda>_. e4) st"
      then show ?thesis using upd_entry_outcome [OF assms(1) h e4(1)] e4(2) unat_inc [OF False] cn
        by (simp add: plus_one_def)
    next
      assume k: "\<not> ok" "st' = upd_entry p (\<lambda>_. e4\<lparr>connected := connected e4 - 1\<rparr>) st"
      have "addr (e4\<lparr>connected := connected e4 - 1\<rparr>) = addr (entries st p)" using e4(1) by simp
      from upd_entry_outcome [OF assms(1) h this] k e4(2) cn show ?thesis
        by (auto simp: plus_one_def)
    qed
  qed
qed

lemma reject_48_ok:
  assumes "ip_inv st" "entry = ip_registry_find st a"
  shows "ip_inv (reject_48 t st entry) \<and> conns (reject_48 t st entry) = conns st"
proof (cases entry)
  case None
  then show ?thesis using assms by (simp add: reject_48_def)
next
  case (Some p)
  let ?e = "(entries st p)\<lparr>last_connect := NOW t, connected := connected (entries st p) + 1 - 1\<rparr>"
  have h: "holds st p (ip_registry_canonicalize a)" using Some assms ip_registry_find_iff [OF assms(1)] by simp
  have "addr ?e = addr (entries st p)" by simp
  from upd_entry_outcome [OF assms(1) h this] conns_holds [OF assms(1) h] Some show ?thesis
    by (simp add: reject_48_def fun_upd_idem del: add_diff_cancel_right')
qed

lemma find_same_entries: "same_entries st st' \<Longrightarrow> ip_registry_find st' a = ip_registry_find st a"
  by (simp add: ip_registry_find_def same_entriesD)

lemma check_local_ok:
  assumes "ip_inv st" "ip_registry_check_local ft t st a = (ok, nt, st')"
  shows "ip_inv st' \<and> conns st' = plus_one ok (ip_registry_canonicalize a) (conns st)"
proof (cases "irc_in_addr_is_ipv4 a")
  case True
  with assms show ?thesis by (intro check_local_entry_ok [OF assms(1)]) (simp add: ip_registry_check_local_def)
next
  case False
  obtain p48 st1 where c: "count_48 ft t st a = (p48, st1)" by fastforce
  then have s: "same_entries st st1" using count_48_same [of st ft t a] by simp
  note s1 = same_entriesD [OF s] find_same_entries [OF s, of a]
  show ?thesis
  proof (cases "uint (attempts48 (entries48 st1 p48)) \<ge> clone_limit48 ft \<and> \<not> just_booted ft t")
    case True
    then have "\<not> ok" "st' = reject_48 t st1 (ip_registry_find st1 a)"
      using assms(2) False c s1(6) by (auto simp: ip_registry_check_local_def)
    then show ?thesis using reject_48_ok [OF s1(1) [OF assms(1)] refl, of t a] s1(2) by (simp add: plus_one_def)
  next
    case nb: False
    then have "check_local_entry ft t st1 a (ip_registry_find st1 a) = (ok, nt, st')"
      using assms(2) False c s1(6) by (auto simp: ip_registry_check_local_def)
    from check_local_entry_ok [OF s1(1) [OF assms(1)] this] s1(2) show ?thesis by simp
  qed
qed


lemma check_remote_ok:
  assumes "ip_inv st" "ip_registry_check_remote ft t st a burst = (ok, st')"
    "irc_in_addr_valid a" "conns st (ip_registry_canonicalize a) < 65535"
  shows "ok \<and> ip_inv st' \<and> conns st' = plus_one True (ip_registry_canonicalize a) (conns st)"
proof -
  let ?c = "ip_registry_canonicalize a"
  define st1 where "st1 = (if \<not> irc_in_addr_is_ipv4 a then snd (count_48 ft t st a) else st)"
  have s: "same_entries st st1" using count_48_same [of st ft t a] by (simp add: st1_def same_entries_def)
  note s1 = same_entriesD [OF s]
  have inv: "ip_inv st1" by (rule s1(1) [OF assms(1)])
  show ?thesis
  proof (cases "ip_registry_find st1 a")
    case None
    then have nh: "\<forall>p. \<not> holds st1 p ?c" using find_None_holds [OF inv] by simp
    obtain p st2 where n: "ip_registry_new_entry t st1 = (p, st2)" by fastforce
    let ?e = "(entries st2 p)\<lparr>addr := ?c, attempts := if burst then 0 else attempts (entries st2 p)\<rparr>"
    have r: "ok" "st' = ip_registry_add (upd_entry p (\<lambda>_. ?e) st2) p"
      using assms(2,3) n None by (auto simp: ip_registry_check_remote_def Let_def st1_def [symmetric])
    have "addr ?e = ?c" by simp
    from add_entry_ok [OF inv nh _ n this] r conns_none [OF nh] s1(2) show ?thesis
      by (simp add: plus_one_def new_entry_connected [OF n])
  next
    case (Some p)
    then have h: "holds st1 p ?c" using ip_registry_find_iff [OF inv] by simp
    have cn: "conns st ?c = unat (connected (entries st1 p))" using conns_holds [OF inv h] s1(2) by simp
    have nz: "connected (entries st1 p) + 1 \<noteq> 0"
    proof
      assume "connected (entries st1 p) + 1 = 0"
      then have "connected (entries st1 p) = -1" by (simp add: eq_neg_iff_add_eq_0)
      with cn assms(4) show False by (simp add: unsigned_minus_1_eq_mask mask_eq_exp_minus_1)
    qed
    define e1 where "e1 = (entries st1 p)\<lparr>connected := connected (entries st1 p) + 1\<rparr>"
    define e2 where "e2 = (if CONNECTED_SINCE t (last_connect e1) > clone_period ft then e1\<lparr>attempts := 0\<rparr> else e1)"
    define e3 where "e3 = (if burst then e2
      else (snd (ip_registry_update_free_targets t (e2\<lparr>attempts := inc_sat (attempts e2)\<rparr>)))\<lparr>last_connect := NOW t\<rparr>)"
    have e3: "addr e3 = addr (entries st1 p)" "connected e3 = connected (entries st1 p) + 1"
      by (simp_all add: e3_def e2_def e1_def)
    have "ok" "st' = upd_entry p (\<lambda>_. e3) st1"
      using assms(2,3) Some nz
      by (auto simp: ip_registry_check_remote_def Let_def st1_def [symmetric] e1_def e2_def e3_def split: if_splits)
    with upd_entry_outcome [OF inv h e3(1)] e3(2) unat_inc [OF nz] cn s1(2) show ?thesis
      by (simp add: plus_one_def)
  qed
qed

lemma disconnect_ok:
  assumes "ip_inv st" "irc_in_addr_valid (cli_ip c)" "0 < conns st (ip_registry_canonicalize (cli_ip c))"
  shows "\<exists>st'. ip_registry_disconnect ft t st c = Some st' \<and> ip_inv st' \<and>
    conns st' = minus_one True (ip_registry_canonicalize (cli_ip c)) (conns st)"
proof -
  let ?c = "ip_registry_canonicalize (cli_ip c)"
  obtain p where h: "holds st p ?c" using assms(3) conns_none [of st ?c] by force
  then have f: "ip_registry_find st (cli_ip c) = Some p" using ip_registry_find_iff [OF assms(1)] by simp
  have cn: "conns st ?c = unat (connected (entries st p))" by (rule conns_holds [OF assms(1) h])
  with assms(3) have nz: "connected (entries st p) \<noteq> 0" by (metis less_irrefl unsigned_0)
  define e1 where "e1 = (entries st p)\<lparr>connected := connected (entries st p) - 1\<rparr>"
  define e2 where "e2 = (if connected e1 = 0
    then (snd (ip_registry_update_free_targets t
      (if CONNECTED_SINCE t (last_connect e1) > clone_limit ft * clone_period ft then e1\<lparr>attempts := 0\<rparr> else e1)))
        \<lparr>last_connect := NOW t\<rparr> else e1)"
  define e3 where "e3 = (if my_connect c then store_targets t c e2 else e2)"
  have e3: "addr e3 = addr (entries st p)" "connected e3 = connected (entries st p) - 1"
    by (simp_all add: e3_def e2_def e1_def store_targets_def Let_def)
  have "ip_registry_disconnect ft t st c = Some (upd_entry p (\<lambda>_. e3) st)"
    using assms(2) f nz by (simp add: ip_registry_disconnect_def e1_def e2_def e3_def Let_def)
  with upd_entry_outcome [OF assms(1) h e3(1) refl] e3(2) cn unat_dec [OF nz] show ?thesis
    by (simp add: minus_one_def)
qed

lemma connect_fail_ok:
  assumes "ip_inv st" "dis \<Longrightarrow> 0 < conns st (ip_registry_canonicalize a)"
  shows "\<exists>st'. ip_registry_connect_fail t st a dis = Some st' \<and> ip_inv st' \<and>
    conns st' = minus_one dis (ip_registry_canonicalize a) (conns st)"
proof -
  let ?c = "ip_registry_canonicalize a"
  define st1 where "st1 = (if \<not> irc_in_addr_is_ipv4 a
    then (let (p48, st') = ip_48_find t st a
          in upd_entry48 p48 (\<lambda>e. e\<lparr>attempts48 := dec_one (attempts48 e)\<rparr>) st') else st)"
  have s: "same_entries st st1"
    using ip_48_find_same [of st t a] by (auto simp: st1_def same_entries_def split: prod.splits)
  note s1 = same_entriesD [OF s] find_same_entries [OF s, of a]
  have inv: "ip_inv st1" by (rule s1(1) [OF assms(1)])
  show ?thesis
  proof (cases "ip_registry_find st a")
    case None
    then have "\<not> dis" using assms conns_none find_None_holds by fastforce
    with None inv s1(2) show ?thesis
      by (simp add: ip_registry_connect_fail_def Let_def st1_def [symmetric] minus_one_def)
  next
    case (Some p)
    then have h: "holds st1 p ?c" using ip_registry_find_iff [OF assms(1)] s1(3) by simp
    have cn: "conns st ?c = unat (connected (entries st1 p))" using conns_holds [OF inv h] s1(2) by simp
    let ?n = "if dis then connected (entries st1 p) - 1 else connected (entries st1 p)"
    let ?e = "(entries st1 p)\<lparr>attempts := dec_one (attempts (entries st1 p)), connected := ?n\<rparr>"
    have nz: "dis \<Longrightarrow> connected (entries st1 p) \<noteq> 0" using assms(2) cn by (metis less_irrefl unsigned_0)
    have "ip_registry_connect_fail t st a dis = Some (upd_entry p (\<lambda>_. ?e) st1)"
      using Some nz by (auto simp: ip_registry_connect_fail_def Let_def st1_def [symmetric])
    moreover have "addr ?e = addr (entries st1 p)" by simp
    note upd_entry_outcome [OF inv h this refl]
    ultimately show ?thesis using cn s1(2) unat_dec [OF nz] by (auto simp: minus_one_def fun_upd_idem)
  qed
qed


section \<open>Expiry\<close>

lemma remove_entry_ok:
  assumes inv: "ip_inv st" and p: "p \<in> set (hashTable st b)" and z: "connected (entries st p) = 0"
  defines "st' \<equiv> ip_registry_delete_entry (ip_registry_remove st p) p"
  shows "ip_inv st'" "conns st' = conns st" "set (hashTable st' d) = set (hashTable st d) - {p}"
    "entries st' = entries st"
proof -
  have b: "ip_registry_hash (addr (entries st p)) = b" using inv p by (auto simp: ip_inv_def)
  have d: "distinct (hashTable st c)" for c using inv by (simp add: ip_inv_def)
  have t: "hashTable st' = (hashTable st)(b := remove1 p (hashTable st b))" "entries st' = entries st"
    "freeList st' = p # freeList st" "heap_next st' = heap_next st"
    by (simp_all add: st'_def ip_registry_delete_entry_def ip_registry_remove_def b Let_def)
  have other: "p \<notin> set (hashTable st c)" if "c \<noteq> b" for c using inv b that by (auto simp: ip_inv_def)
  have mem: "set (hashTable st' c) = set (hashTable st c) - {p}" for c using d [of b] other [of c] by (auto simp: t(1))
  have holds': "holds st' q c \<longleftrightarrow> holds st q c \<and> q \<noteq> p" for q c by (auto simp: holds_def mem t(2))
  have pf: "p < heap_next st" "p \<notin> set (freeList st)" using inv p by (auto simp: ip_inv_def)
  have "inj_on (\<lambda>p. addr (entries st p)) (set (hashTable st c) - {p})" for c
    using inv by (auto simp: ip_inv_def intro: inj_on_subset)
  moreover have "distinct (hashTable st' c)" for c using d by (simp add: t(1))
  moreover have "distinct (freeList st')" "\<forall>q \<in> set (freeList st'). q < heap_next st'"
    using inv pf t(3,4) by (auto simp: ip_inv_def)
  moreover have "canonical (addr (entries st q)) \<and> ip_registry_hash (addr (entries st q)) = c \<and> q < heap_next st \<and>
      q \<notin> set (freeList st)" if "q \<in> set (hashTable st c)" for q c using inv that by (auto simp: ip_inv_def)
  ultimately show inv': "ip_inv st'" unfolding ip_inv_def mem t(2,3,4) by auto
  show "conns st' = conns st"
  proof
    fix c
    show "conns st' c = conns st c"
    proof (cases "\<exists>q. holds st q c")
      case True
      then obtain q where q: "holds st q c" by blast
      show ?thesis
      proof (cases "q = p")
        case True
        then have "\<forall>r. \<not> holds st' r c" using holds' holds_unique [OF inv q] by auto
        with True q z show ?thesis by (simp add: conns_none conns_holds [OF inv q])
      next
        case False
        with q holds' have "holds st' q c" by simp
        then show ?thesis using q by (simp add: conns_holds [OF inv'] conns_holds [OF inv] t(2))
      qed
    next
      case False
      with holds' show ?thesis by (simp add: conns_none)
    qed
  qed
  show "set (hashTable st' d) = set (hashTable st d) - {p}" "entries st' = entries st" using mem t(2) by auto
qed

lemma expire_entry_ok:
  assumes inv: "ip_inv st" and p: "p \<in> set (hashTable st b)" and z: "connected (entries st p) = 0"
  shows "ip_inv (ip_registry_expire_entry t st p)" "conns (ip_registry_expire_entry t st p) = conns st"
    "q \<in> set (hashTable st d) \<Longrightarrow> q \<noteq> p \<Longrightarrow> q \<in> set (hashTable (ip_registry_expire_entry t st p) d)"
proof -
  let ?e = "(entries st p)\<lparr>target := None\<rparr>"
  have a: "addr ?e = addr (entries st p)" by simp
  have h: "holds st p (addr (entries st p))" using inv p by (auto simp: ip_inv_def holds_def)
  note r = remove_entry_ok [OF inv p z]
  note u = upd_entry_outcome [OF inv h a refl]
  show "ip_inv (ip_registry_expire_entry t st p)"
    using inv r(1) u by (simp add: ip_registry_expire_entry_def Let_def)
  show "conns (ip_registry_expire_entry t st p) = conns st"
    using r(2) u conns_holds [OF inv h] by (simp add: ip_registry_expire_entry_def Let_def fun_upd_idem)
  show "q \<in> set (hashTable (ip_registry_expire_entry t st p) d)" if "q \<in> set (hashTable st d)" "q \<noteq> p"
    using that r(3) by (simp add: ip_registry_expire_entry_def Let_def)
qed

lemma expire_fold_ok:
  "ip_inv st \<Longrightarrow> distinct ps \<Longrightarrow> set ps \<subseteq> set (hashTable st b) \<Longrightarrow>
   ip_inv (fold (\<lambda>p st. if connected (entries st p) = 0 then ip_registry_expire_entry t st p else st) ps st) \<and>
   conns (fold (\<lambda>p st. if connected (entries st p) = 0 then ip_registry_expire_entry t st p else st) ps st) = conns st"
proof (induction ps arbitrary: st)
  case (Cons p ps)
  show ?case
  proof (cases "connected (entries st p) = 0")
    case True
    have p: "p \<in> set (hashTable st b)" using Cons.prems by simp
    note e = expire_entry_ok [OF Cons.prems(1) p True, where t = t]
    have "set ps \<subseteq> set (hashTable (ip_registry_expire_entry t st p) b)"
      using Cons.prems e(3) by (auto simp: subset_iff)
    with Cons.IH [OF e(1)] Cons.prems e(2) True show ?thesis by simp
  qed (use Cons in simp)
qed simp

lemma expire_bucket_ok: "ip_inv st \<Longrightarrow> ip_inv (expire_bucket t i st) \<and> conns (expire_bucket t i st) = conns st"
  unfolding expire_bucket_def by (rule expire_fold_ok [where b = i]) (simp_all add: ip_inv_def)

lemma fold_keeps: "P st \<Longrightarrow> (\<And>x st. P st \<Longrightarrow> P (f x st)) \<Longrightarrow> P (fold f xs st)"
  by (induction xs arbitrary: st) auto

lemma expire_bucket48_same: "same_entries st (expire_bucket48 t i st)"
  by (simp add: expire_bucket48_def same_entries_def Let_def)

lemma expire_ok:
  assumes "ip_inv st"
  shows "ip_inv (ip_registry_expire t st) \<and> conns (ip_registry_expire t st) = conns st"
proof -
  let ?P = "\<lambda>st'. ip_inv st' \<and> conns st' = conns st"
  have 1: "?P (fold (expire_bucket t) xs st)" for xs
    by (rule fold_keeps) (use assms expire_bucket_ok in auto)
  show ?thesis unfolding ip_registry_expire_def
    by (rule fold_keeps [where P = ?P, OF 1]) (use same_entriesD [OF expire_bucket48_same] in auto)
qed

section \<open>Sequences of events\<close>

text \<open>
  What the server calls the registry for, and the counters an observer of the answers keeps.  A
  remote connection is refused only when the counter is full, so it counts; connections of addresses
  that are not valid (\<open>irc_in_addr_valid\<close>) are never counted.
\<close>

datatype ip_event =
    LocalConnect irc_in_addr
  | RemoteConnect irc_in_addr bool
  | ConnectFail irc_in_addr bool
  | Disconnect leaving
  | Expire

fun ip_step :: "features \<Rightarrow> registry \<Rightarrow> int \<times> ip_event \<Rightarrow> (bool \<times> registry) option" where
  "ip_step ft st (t, LocalConnect a) = (case ip_registry_check_local ft t st a of (ok, _, st') \<Rightarrow> Some (ok, st'))"
| "ip_step ft st (t, RemoteConnect a burst) = Some (ip_registry_check_remote ft t st a burst)"
| "ip_step ft st (t, ConnectFail a dis) = map_option (Pair True) (ip_registry_connect_fail t st a dis)"
| "ip_step ft st (t, Disconnect c) = map_option (Pair True) (ip_registry_disconnect ft t st c)"
| "ip_step ft st (t, Expire) = Some (True, ip_registry_expire t st)"

fun count_step :: "bool \<Rightarrow> ip_event \<Rightarrow> (irc_in_addr \<Rightarrow> nat) \<Rightarrow> irc_in_addr \<Rightarrow> nat" where
  "count_step ok (LocalConnect a) m = plus_one ok (ip_registry_canonicalize a) m"
| "count_step ok (RemoteConnect a burst) m = plus_one (irc_in_addr_valid a) (ip_registry_canonicalize a) m"
| "count_step ok (ConnectFail a dis) m = minus_one dis (ip_registry_canonicalize a) m"
| "count_step ok (Disconnect c) m = minus_one (irc_in_addr_valid (cli_ip c)) (ip_registry_canonicalize (cli_ip c)) m"
| "count_step ok Expire m = m"

text \<open>
  The events the rest of the server may send in a state of the counters: a client leaves only where
  one is connected, and no address has as many clients as the counter can hold.
\<close>

fun event_ok :: "(irc_in_addr \<Rightarrow> nat) \<Rightarrow> ip_event \<Rightarrow> bool" where
  "event_ok m (LocalConnect a) = True"
| "event_ok m (RemoteConnect a burst) = (m (ip_registry_canonicalize a) < 65535)"
| "event_ok m (ConnectFail a dis) = (dis \<longrightarrow> 0 < m (ip_registry_canonicalize a))"
| "event_ok m (Disconnect c) = (irc_in_addr_valid (cli_ip c) \<longrightarrow> 0 < m (ip_registry_canonicalize (cli_ip c)))"
| "event_ok m Expire = True"

lemma ip_step_ok:
  assumes "ip_inv st" "event_ok (conns st) ev"
  shows "\<exists>ok st'. ip_step ft st (t, ev) = Some (ok, st') \<and> ip_inv st' \<and> conns st' = count_step ok ev (conns st)"
proof (cases ev)
  case (LocalConnect a)
  obtain ok nt st' where r: "ip_registry_check_local ft t st a = (ok, nt, st')" by (cases "ip_registry_check_local ft t st a")
  from check_local_ok [OF assms(1) r] r LocalConnect show ?thesis by simp
next
  case (RemoteConnect a burst)
  obtain ok st' where r: "ip_registry_check_remote ft t st a burst = (ok, st')" by fastforce
  show ?thesis
  proof (cases "irc_in_addr_valid a")
    case True
    with check_remote_ok [OF assms(1) r] assms(2) r RemoteConnect show ?thesis by auto
  next
    case False
    with r RemoteConnect assms(1) show ?thesis by (auto simp: ip_registry_check_remote_def plus_one_def)
  qed
next
  case (ConnectFail a dis)
  with connect_fail_ok [OF assms(1), of dis a t] assms(2) show ?thesis by auto
next
  case (Disconnect c)
  show ?thesis
  proof (cases "irc_in_addr_valid (cli_ip c)")
    case True
    with disconnect_ok [OF assms(1) True, of ft t] assms(2) Disconnect show ?thesis by auto
  next
    case False
    with Disconnect assms(1) show ?thesis by (auto simp: ip_registry_disconnect_def minus_one_def)
  qed
next
  case Expire
  with expire_ok [OF assms(1), of t] show ?thesis by auto
qed

text \<open>Runs: the events with the answers, and the counters along the run.\<close>

fun ip_run :: "features \<Rightarrow> registry \<Rightarrow> (int \<times> ip_event) list \<Rightarrow> (bool list \<times> registry) option" where
  "ip_run ft st [] = Some ([], st)"
| "ip_run ft st (te # es) = (case ip_step ft st te of
     None \<Rightarrow> None
   | Some (ok, st') \<Rightarrow> map_option (\<lambda>(oks, st''). (ok # oks, st'')) (ip_run ft st' es))"

fun count_run :: "bool list \<Rightarrow> (int \<times> ip_event) list \<Rightarrow> (irc_in_addr \<Rightarrow> nat) \<Rightarrow> irc_in_addr \<Rightarrow> nat" where
  "count_run (ok # oks) (te # es) m = count_run oks es (count_step ok (snd te) m)"
| "count_run _ _ m = m"

fun events_ok :: "features \<Rightarrow> registry \<Rightarrow> (int \<times> ip_event) list \<Rightarrow> bool" where
  "events_ok ft st [] = True"
| "events_ok ft st (te # es) = (event_ok (conns st) (snd te) \<and>
     (case ip_step ft st te of None \<Rightarrow> True | Some (_, st') \<Rightarrow> events_ok ft st' es))"

lemma ip_run_ok:
  "ip_inv st \<Longrightarrow> events_ok ft st es \<Longrightarrow>
   \<exists>oks st'. ip_run ft st es = Some (oks, st') \<and> length oks = length es \<and> ip_inv st' \<and> conns st' = count_run oks es (conns st)"
proof (induction es arbitrary: st)
  case (Cons te es)
  obtain t ev where te: "te = (t, ev)" by fastforce
  from ip_step_ok [OF Cons.prems(1), of ev ft t] Cons.prems(2) te obtain ok st1 where
    s: "ip_step ft st te = Some (ok, st1)" "ip_inv st1" "conns st1 = count_step ok ev (conns st)" by auto
  have "events_ok ft st1 es" using Cons.prems(2) s(1) by simp
  from Cons.IH [OF s(2) this] obtain oks st' where
    "ip_run ft st1 es = Some (oks, st')" "length oks = length es" "ip_inv st'" "conns st' = count_run oks es (conns st1)" by blast
  with s te show ?case by (intro exI [of _ "ok # oks"] exI [of _ st']) simp
qed simp

section \<open>Throttling and free targets\<close>

text \<open>The /48 count of an IPv6 address may refuse the connection first; the entry of the address is then only touched.\<close>

lemma throttle_refuses:
  assumes "ip_registry_find st a = Some p" "CONNECTED_SINCE t (last_connect (entries st p)) \<le> clone_period ft"
    "uint (inc_sat (attempts (entries st p))) \<ge> clone_limit ft" "\<not> just_booted ft t"
  shows "\<exists>st'. ip_registry_check_local ft t st a = (False, None, st') \<and> connected (entries st' p) = connected (entries st p) \<and>
    (connected (entries st p) + 1 \<noteq> 0 \<longrightarrow> last_connect (entries st' p) = NOW t \<and>
      (irc_in_addr_is_ipv4 a \<longrightarrow> attempts (entries st' p) = inc_sat (attempts (entries st p))))"
proof -
  have l: "\<exists>st'. check_local_entry ft t s a (Some p) = (False, None, st') \<and> connected (entries st' p) = connected (entries st p) \<and>
      (connected (entries st p) + 1 \<noteq> 0 \<longrightarrow> last_connect (entries st' p) = NOW t \<and> attempts (entries st' p) = inc_sat (attempts (entries st p)))"
    if "entries s = entries st" for s
    using assms(2-4) that by (auto simp: check_local_entry_def Let_def split_beta)
  obtain p48 st1 where c: "count_48 ft t st a = (p48, st1)" by fastforce
  then have e: "entries st1 = entries st" using count_48_same [of st ft t a] by (simp add: same_entries_def)
  show ?thesis
  proof (cases "irc_in_addr_is_ipv4 a")
    case True
    with l [OF refl] assms(1) show ?thesis by (simp add: ip_registry_check_local_def)
  next
    case False
    with l [OF e] assms(1) e show ?thesis by (auto simp: ip_registry_check_local_def c reject_48_def Let_def)
  qed
qed

lemma uint_inc_sat: "uint (inc_sat (x :: u8)) = min 255 (uint x + 1)"
proof (cases "x + 1 = 0")
  case True
  then have "x = -1" by (simp add: eq_neg_iff_add_eq_0)
  then show ?thesis by (simp add: inc_sat_def unsigned_minus_1_eq_mask mask_eq_exp_minus_1)
next
  case False
  then have "unat (x + 1) = unat x + 1" by (rule unat_inc)
  then have "uint (x + 1) = uint x + 1" by (metis of_nat_1 of_nat_add uint_nat)
  moreover have "uint (x + 1) < 256" using unsigned_less [of "x + 1", where 'a = int] by simp
  ultimately show ?thesis using False by (simp add: inc_sat_def)
qed

lemma next_target_zero:
  assumes "irc_in_addr_is_ipv4 a" "ip_registry_find st a = Some p" "connected (entries st p) + 1 \<noteq> 0"
    "last_connect (entries st p) = NOW t" "0 \<le> clone_period ft"
    "uint (inc_sat (attempts (entries st p))) < clone_limit ft"
    "target (entries st p) = Some \<lparr>tcount = 0, targets = ts\<rparr>"
  shows "\<exists>st'. ip_registry_check_local ft t st a = (True, Some (t - 4294967295), st')"
  using assms by (auto simp: ip_registry_check_local_def check_local_entry_def Let_def split_beta CONNECTED_SINCE_def
    ip_registry_update_free_targets_def signed_divide_int_def STARTTARGETS_def unsigned_minus_1_eq_mask mask_eq_exp_minus_1)

lemma free_targets_bounded: "fst (ip_registry_update_free_targets t e) \<le> STARTTARGETS"
  by (auto simp: ip_registry_update_free_targets_def Let_def split: option.splits)

text \<open>
  The clock is kept modulo 65536 but the difference is not: an entry that was last used in the last 600
  seconds before the clock wraps never gets old enough to expire.
\<close>

lemma expiry_never_at_wrap: "64935 \<le> x \<Longrightarrow> CONNECTED_SINCE t x \<le> 600"
proof -
  have "NOW t < 65536" by (simp add: NOW_def)
  then show "64935 \<le> x \<Longrightarrow> ?thesis" by (simp add: CONNECTED_SINCE_def)
qed

text \<open>A remote connection that is refused because the counter is full leaves it at 0.\<close>

lemma remote_overflow:
  assumes "irc_in_addr_valid a" "irc_in_addr_is_ipv4 a" "ip_registry_find st a = Some p" "connected (entries st p) = 65535"
  shows "\<exists>st'. ip_registry_check_remote ft t st a burst = (False, st') \<and> connected (entries st' p) = 0"
  using assms by (simp add: ip_registry_check_remote_def Let_def)

text \<open>A failed connection of an address with no recent attempts leaves it with 255 of them.\<close>

lemma connect_fail_wraps:
  assumes "irc_in_addr_is_ipv4 a" "ip_registry_find st a = Some p" "attempts (entries st p) = 0"
  shows "\<exists>st'. ip_registry_connect_fail t st a False = Some st' \<and> attempts (entries st' p) = 255"
  using assms by (simp add: ip_registry_connect_fail_def Let_def dec_one_def)

lemma free_targets_accrue:
  assumes "target e = Some tg" "tcount tg \<le> STARTTARGETS" "0 \<le> last_connect e" "last_connect e \<le> NOW t"
  shows "unat (fst (ip_registry_update_free_targets t e)) =
    min 10 (unat (tcount tg) + nat ((NOW t - last_connect e) div 128))"
proof -
  define d where "d = nat ((NOW t - last_connect e) div 128)"
  have nn: "0 \<le> NOW t - last_connect e" using assms by simp
  have lt: "NOW t - last_connect e < 65536" using assms(3) by (simp add: NOW_def)
  have d: "CONNECTED_SINCE t (last_connect e) sdiv int TARGET_DELAY = int d"
    using nn by (simp add: d_def CONNECTED_SINCE_def TARGET_DELAY_def signed_divide_int_def sgn_if)
  have "(NOW t - last_connect e) div 128 < 512" using lt by linarith
  then have db: "d < 512" by (simp add: d_def)
  have cb: "unat (tcount tg) \<le> 10" using assms(2) by (simp add: STARTTARGETS_def word_le_nat_alt)
  have u: "unat (tcount tg + of_int (int d)) = unat (tcount tg) + d"
    using db cb by (simp add: unat_word_ariths take_bit_eq_mod unat_of_nat)
  show ?thesis
    using assms(1) u by (simp add: ip_registry_update_free_targets_def d Let_def word_less_nat_alt STARTTARGETS_def d_def [symmetric])
qed

section \<open>Properties\<close>

text \<open>
  C3.  For every sequence of local and remote connections, failed connections, disconnections and expiry
  runs in which clients leave only where one is connected and no remote connection comes from an address that has 65535
  clients already (there the 16-bit count wraps to 0 and the registry forgets the clients: \<open>remote_overflow\<close>), no step fails an assertion or dereferences a
  null entry, and the number of clients the registry reports for an address (\<open>ip_registry_count\<close>) is the
  number an observer gets by adding the accepted and subtracting the finished connections of its
  canonical address.  Expiry never forgets a connected client.
\<close>

theorem ip_counts_refine:
  assumes "ip_inv st" "events_ok ft st es"
  shows "\<exists>oks st'. ip_run ft st es = Some (oks, st') \<and> length oks = length es \<and> ip_inv st' \<and>
    (\<forall>b. ip_registry_count st' b = int (count_run oks es (conns st) (ip_registry_canonicalize b)))"
  using ip_run_ok [OF assms] ip_registry_count_conns by fastforce

definition empty_registry :: registry where
  "empty_registry = \<lparr>hashTable = (\<lambda>_. []), entries = (\<lambda>_. \<lparr>target = None, addr = ip_zero, last_connect = 0, connected = 0, attempts = 0\<rparr>),
     freeList = [], hashTable48 = (\<lambda>_. []), entries48 = (\<lambda>_. \<lparr>last_connect48 = 0, addr48 = [0, 0, 0], attempts48 = 0\<rparr>),
     freeList48 = [], heap_next = 0\<rparr>"

definition default_features :: features where
  "default_features = \<lparr>clone_limit = 4, clone_period = 40, clone_limit48 = 50, clone_period48 = 10, clone_delay = 600, me_since = 0\<rparr>"

definition ip_example :: irc_in_addr where
  "ip_example = \<lparr>in6_16 = [0, 0, 0, 0, 0, 65535, 10, 1]\<rparr>"

theorem ip_counts_refine_witness:
  "\<exists>oks st'. ip_run default_features empty_registry [(100, LocalConnect ip_example), (160, Expire), (170, LocalConnect ip_zero)] = Some (oks, st') \<and>
    length oks = 3 \<and> ip_inv st' \<and> (\<forall>b. ip_registry_count st' b =
      int (count_run oks [(100, LocalConnect ip_example), (160, Expire), (170, LocalConnect ip_zero)] (conns empty_registry) (ip_registry_canonicalize b)))"
proof -
  have "ip_inv empty_registry" by (simp add: ip_inv_def empty_registry_def)
  moreover have "events_ok default_features empty_registry [(100, LocalConnect ip_example), (160, Expire), (170, LocalConnect ip_zero)]"
    by (simp split: option.splits prod.splits)
  ultimately show ?thesis using ip_counts_refine by fastforce
qed

text \<open>
  C38.  A local connection from an address, IPv4 or IPv6, whose last attempt is at most \<open>IPCHECK_CLONE_PERIOD\<close> seconds
  ago and which with this one makes \<open>IPCHECK_CLONE_LIMIT\<close> attempts is refused once the start-up delay
  (\<open>IPCHECK_CLONE_DELAY\<close>) is over, and the number of clients of the address stays as it was.  The attempt restarts the period
  and, for an IPv4 address, is counted (at most up to 255), as long as less than 65535 clients of the address are connected.
\<close>

theorem clones_refused:
  assumes "ip_registry_find st a = Some p" "CONNECTED_SINCE t (last_connect (entries st p)) \<le> clone_period ft"
    "min 255 (uint (attempts (entries st p)) + 1) \<ge> clone_limit ft" "t - me_since ft > clone_delay ft"
  shows "\<exists>st'. ip_registry_check_local ft t st a = (False, None, st') \<and> connected (entries st' p) = connected (entries st p) \<and>
    (connected (entries st p) < 65535 \<longrightarrow> last_connect (entries st' p) = NOW t \<and>
      (irc_in_addr_is_ipv4 a \<longrightarrow> uint (attempts (entries st' p)) = min 255 (uint (attempts (entries st p)) + 1)))"
proof -
  have "connected (entries st p) + 1 \<noteq> 0" if "connected (entries st p) < 65535"
  proof
    assume "connected (entries st p) + 1 = 0"
    then have "connected (entries st p) = -1" by (simp add: eq_neg_iff_add_eq_0)
    with that show False by (simp add: word_less_nat_alt unsigned_minus_1_eq_mask mask_eq_exp_minus_1)
  qed
  with throttle_refuses [OF assms(1,2)] assms(3,4) show ?thesis
    by (auto simp: uint_inc_sat just_booted_def)
qed

definition busy_registry :: registry where
  "busy_registry = empty_registry\<lparr>
     hashTable := (\<lambda>_. [])(ip_registry_hash (ip_registry_canonicalize ip_example) := [0]), heap_next := 1,
     entries := (\<lambda>_. \<lparr>target = None, addr = ip_registry_canonicalize ip_example, last_connect = 980, connected = 1, attempts = 3\<rparr>)\<rparr>"

theorem clones_refused_witness:
  "\<exists>st'. ip_registry_check_local default_features 1000 busy_registry ip_example = (False, None, st') \<and>
    last_connect (entries st' 0) = 1000 \<and> uint (attempts (entries st' 0)) = 4"
proof -
  have f: "ip_registry_find busy_registry ip_example = Some 0"
    by (simp add: ip_registry_find_def busy_registry_def find_bits_match)
  have "irc_in_addr_is_ipv4 ip_example" by code_simp
  moreover have "CONNECTED_SINCE 1000 (last_connect (entries busy_registry 0)) \<le> clone_period default_features"
    "min 255 (uint (attempts (entries busy_registry 0)) + 1) = 4" "connected (entries busy_registry 0) < 65535" "NOW 1000 = 1000"
    by (simp_all add: busy_registry_def default_features_def CONNECTED_SINCE_def NOW_def)
  ultimately show ?thesis using clones_refused [OF f, of 1000 default_features] by (auto simp: default_features_def)
qed

text \<open>
  While the clock does not wrap, an address regains one free target per 128 seconds since its last
  connection, up to 10.
\<close>

lemma free_targets_regrow:
  assumes "target e = Some tg" "tcount tg \<le> STARTTARGETS" "0 \<le> last_connect e" "last_connect e \<le> NOW t"
  shows "unat (fst (ip_registry_update_free_targets t e)) =
    min 10 (unat (tcount tg) + nat ((NOW t - last_connect e) div 128))"
  using assms by (rule free_targets_accrue)

end
