(* ===== verification/Dbuf.thy ===== *)
theory Dbuf
  imports Chattr
begin

text \<open>
  The dynamic byte buffers of \<open>ircd/dbuf.c\<close> that hold what a client has sent and the server has not
  yet processed.

  A \<open>DBuf\<close> is the list of the data buffers that a walk from \<open>head\<close> along \<open>next\<close> visits; \<open>tail\<close> is its
  last one.  Positions in a buffer are offsets into \<open>data\<close>.  The buffers come from a pool, whose free
  list and counters are threaded through the operations; \<open>feature_int(FEAT_BUFFERPOOL)\<close> and
  \<open>FEAT_HAS_FERGUSON_FLUSHER\<close> are arguments, and so is what \<open>flush_connections(0)\<close> does to the pool.
  Loops whose progress depends on the buffers being well formed are \<open>partial_function\<close>s.
\<close>

section \<open>Buffers and their pool\<close>

definition DBUF_SIZE :: nat where "DBUF_SIZE = 2048"

record DBufBuffer =
  start :: nat
  bend :: nat
  data :: "char list"

record DBuf =
  dlength :: nat
  bufs :: "DBufBuffer list"

record dbuf_pool =
  DBufAllocCount :: int
  DBufUsedCount :: int
  dbufFreeList :: "DBufBuffer list"

record dbuf_features =
  bufferpool :: int
  ferguson_flusher :: bool
  flush_connections :: "dbuf_pool \<Rightarrow> dbuf_pool"

text \<open>The contents of memory that \<open>MyMalloc\<close> returns are not read before they are written.\<close>

definition dbuf_alloc :: "dbuf_features \<Rightarrow> dbuf_pool \<Rightarrow> DBufBuffer option \<times> dbuf_pool" where
  "dbuf_alloc ft pool = (case dbufFreeList pool of
     db # dbs \<Rightarrow> (Some db, pool\<lparr>dbufFreeList := dbs, DBufUsedCount := DBufUsedCount pool + 1\<rparr>)
   | [] \<Rightarrow>
       if DBufAllocCount pool * int DBUF_SIZE < bufferpool ft
       then (Some \<lparr>start = 0, bend = 0, data = replicate DBUF_SIZE NUL\<rparr>,
             pool\<lparr>DBufAllocCount := DBufAllocCount pool + 1, DBufUsedCount := DBufUsedCount pool + 1\<rparr>)
       else (None, pool))"

definition dbuf_free :: "DBufBuffer \<Rightarrow> dbuf_pool \<Rightarrow> dbuf_pool" where
  "dbuf_free db pool = pool\<lparr>DBufUsedCount := DBufUsedCount pool - 1, dbufFreeList := db # dbufFreeList pool\<rparr>"

definition dbuf_malloc_error :: "dbuf_pool \<Rightarrow> DBufBuffer list \<Rightarrow> dbuf_pool \<times> DBuf" where
  "dbuf_malloc_error pool dbs = (fold dbuf_free dbs pool, \<lparr>dlength = 0, bufs = []\<rparr>)"

section \<open>Appending\<close>

definition alloc_or_flush :: "dbuf_features \<Rightarrow> dbuf_pool \<Rightarrow> DBufBuffer option \<times> dbuf_pool" where
  "alloc_or_flush ft pool = (case dbuf_alloc ft pool of
     (Some db, pool1) \<Rightarrow> (Some db, pool1)
   | (None, pool1) \<Rightarrow>
       if ferguson_flusher ft then dbuf_alloc ft (flush_connections ft pool1) else (None, pool1))"

definition memcpy :: "DBufBuffer \<Rightarrow> string \<Rightarrow> DBufBuffer" where
  "memcpy db s = db\<lparr>data := take (bend db) (data db) @ s @ drop (bend db + length s) (data db), bend := bend db + length s\<rparr>"

text \<open>
  The loop of \<open>dbuf_put\<close>: \<open>before\<close> are the buffers in front of \<open>*h\<close>, \<open>h\<close> the list from \<open>*h\<close> on.  On
  failure (\<open>Inl\<close>) the buffers linked so far are returned.
\<close>

function put_loop :: "dbuf_features \<Rightarrow> dbuf_pool \<Rightarrow> DBufBuffer list \<Rightarrow> DBufBuffer list \<Rightarrow> string \<Rightarrow>
    (dbuf_pool \<times> DBufBuffer list) + (dbuf_pool \<times> DBufBuffer list)" where
  "put_loop ft pool before h buf =
    (if buf = [] then Inr (pool, before @ h)
     else case h of
       db # rest \<Rightarrow>
         let chunk = min (DBUF_SIZE - bend db) (length buf)
         in put_loop ft pool (before @ [memcpy db (take chunk buf)]) rest (drop chunk buf)
     | [] \<Rightarrow> (case alloc_or_flush ft pool of
           (None, pool1) \<Rightarrow> Inl (pool1, before)
         | (Some db, pool1) \<Rightarrow>
             let chunk = min DBUF_SIZE (length buf)
             in put_loop ft pool1 (before @ [memcpy (db\<lparr>start := 0, bend := 0\<rparr>) (take chunk buf)]) [] (drop chunk buf)))"
  by pat_completeness auto
termination
  by (relation "measures [\<lambda>(ft, pool, before, h, buf). length buf, \<lambda>(ft, pool, before, h, buf). length h]")
    (auto simp: DBUF_SIZE_def)

declare put_loop.simps [simp del]

definition dbuf_put :: "dbuf_features \<Rightarrow> dbuf_pool \<Rightarrow> DBuf \<Rightarrow> string \<Rightarrow> bool \<times> dbuf_pool \<times> DBuf" where
  "dbuf_put ft pool dyn buf =
    (let (before, h) = (if dlength dyn = 0 then ([], bufs dyn) else (butlast (bufs dyn), [last (bufs dyn)]))
     in case put_loop ft pool before h buf of
          Inl (pool', dbs) \<Rightarrow> (False, dbuf_malloc_error pool' dbs)
        | Inr (pool', dbs) \<Rightarrow> (True, pool', \<lparr>dlength = dlength dyn + length buf, bufs = dbs\<rparr>))"

section \<open>Reading\<close>

definition chunk_of :: "DBufBuffer \<Rightarrow> string" where
  "chunk_of db = take (bend db - start db) (drop (start db) (data db))"

text \<open>\<open>None\<close> is the null pointer of an empty buffer.\<close>

definition dbuf_map :: "DBuf \<Rightarrow> string option" where
  "dbuf_map dyn = (if dlength dyn = 0 then None else Some (chunk_of (hd (bufs dyn))))"

partial_function (option) delete_loop ::
  "dbuf_pool \<Rightarrow> DBuf \<Rightarrow> nat \<Rightarrow> (dbuf_pool \<times> DBuf) option" where
  "delete_loop pool dyn n =
    (if n = 0 then Some (pool, dyn)
     else case bufs dyn of
       [] \<Rightarrow> Some (pool, dyn)
     | db # rest \<Rightarrow>
         let chunk = min (bend db - start db) n;
             db' = db\<lparr>start := start db + chunk\<rparr>;
             dyn' = dyn\<lparr>dlength := dlength dyn - chunk\<rparr>
         in if start db' = bend db'
            then delete_loop (dbuf_free db' pool) (dyn'\<lparr>bufs := rest\<rparr>) (n - chunk)
            else delete_loop pool (dyn'\<lparr>bufs := db' # rest\<rparr>) (n - chunk))"

definition dbuf_delete :: "dbuf_pool \<Rightarrow> DBuf \<Rightarrow> nat \<Rightarrow> (dbuf_pool \<times> DBuf) option" where
  "dbuf_delete pool dyn n =
    map_option (\<lambda>(pool', dyn'). (pool', if bufs dyn' = [] then dyn'\<lparr>dlength := 0\<rparr> else dyn'))
      (delete_loop pool dyn (min n (dlength dyn)))"

text \<open>The loop of \<open>dbuf_get\<close>; \<open>out\<close> is what has been written to \<open>buf\<close>.\<close>

partial_function (option) get_loop ::
  "dbuf_pool \<Rightarrow> DBuf \<Rightarrow> nat \<Rightarrow> string \<Rightarrow> (string \<times> dbuf_pool \<times> DBuf) option" where
  "get_loop pool dyn n out =
    (if n = 0 then Some (out, pool, dyn)
     else case dbuf_map dyn of
       None \<Rightarrow> Some (out, pool, dyn)
     | Some b \<Rightarrow>
         let chunk = min (length b) n
         in case dbuf_delete pool dyn chunk of
              None \<Rightarrow> None
            | Some (pool', dyn') \<Rightarrow> get_loop pool' dyn' (n - chunk) (out @ take chunk b))"

definition dbuf_get :: "dbuf_pool \<Rightarrow> DBuf \<Rightarrow> nat \<Rightarrow> (string \<times> dbuf_pool \<times> DBuf) option" where
  "dbuf_get pool dyn n = get_loop pool dyn n []"

partial_function (option) flush_loop :: "dbuf_pool \<Rightarrow> DBuf \<Rightarrow> (dbuf_pool \<times> DBuf) option" where
  "flush_loop pool dyn = (case bufs dyn of
     [] \<Rightarrow> Some (pool, dyn\<lparr>dlength := 0\<rparr>)
   | db # rest \<Rightarrow>
       if IsEol (data db ! start db)
       then (let db' = db\<lparr>start := start db + 1\<rparr>
             in if start db' = bend db'
                then flush_loop (dbuf_free db' pool) (dyn\<lparr>dlength := dlength dyn - 1, bufs := rest\<rparr>)
                else flush_loop pool (dyn\<lparr>dlength := dlength dyn - 1, bufs := db' # rest\<rparr>))
       else Some (pool, dyn))"

definition dbuf_flush :: "dbuf_pool \<Rightarrow> DBuf \<Rightarrow> (nat \<times> dbuf_pool \<times> DBuf) option" where
  "dbuf_flush pool dyn =
    (if bufs dyn = [] then Some (0, pool, dyn)
     else map_option (\<lambda>(pool', dyn'). (dlength dyn', pool', dyn')) (flush_loop pool dyn))"

text \<open>The copying loop of \<open>dbuf_getmsg\<close>: the line, when its end is in the first \<open>n\<close> bytes.\<close>

fun getmsg_loop :: "DBufBuffer list \<Rightarrow> nat \<Rightarrow> string option" where
  "getmsg_loop [] n = None"
| "getmsg_loop (db # rest) n =
    (if n = 0 then None
     else let seen = take n (chunk_of db); got = takeWhile (\<lambda>c. \<not> IsEol c) seen
          in if length got < length seen then Some got
             else map_option (\<lambda>s. got @ s) (getmsg_loop rest (n - length got)))"

definition dbuf_getmsg :: "dbuf_pool \<Rightarrow> DBuf \<Rightarrow> nat \<Rightarrow> (string \<times> dbuf_pool \<times> DBuf) option" where
  "dbuf_getmsg pool dyn n = (case dbuf_flush pool dyn of
     None \<Rightarrow> None
   | Some (k, pool1, dyn1) \<Rightarrow>
       if k = 0 then Some ([], pool1, dyn1)
       else case getmsg_loop (bufs dyn1) (min n (dlength dyn1)) of
         None \<Rightarrow> Some ([], pool1, dyn1)
       | Some line \<Rightarrow> (case dbuf_delete pool1 dyn1 (length line) of
             None \<Rightarrow> None
           | Some (pool2, dyn2) \<Rightarrow>
               map_option (\<lambda>(_, pool3, dyn3). (line, pool3, dyn3)) (dbuf_flush pool2 dyn2)))"

definition dbuf_count_memory :: "nat \<Rightarrow> dbuf_pool \<Rightarrow> int \<times> int" where
  "dbuf_count_memory sizeof_buffer pool =
    (DBufAllocCount pool * int sizeof_buffer, DBufUsedCount pool * int sizeof_buffer)"

section \<open>Buffers as byte strings\<close>

definition buf_ok :: "DBufBuffer \<Rightarrow> bool" where
  "buf_ok db \<longleftrightarrow> start db < bend db \<and> bend db \<le> DBUF_SIZE \<and> length (data db) = DBUF_SIZE"

definition dbytes :: "DBufBuffer list \<Rightarrow> string" where
  "dbytes dbs = concat (map chunk_of dbs)"

definition bytes :: "DBuf \<Rightarrow> string" where
  "bytes dyn = dbytes (bufs dyn)"

definition dbuf_ok :: "DBuf \<Rightarrow> bool" where
  "dbuf_ok dyn \<longleftrightarrow> (\<forall>db \<in> set (bufs dyn). buf_ok db) \<and> dlength dyn = length (bytes dyn)"

definition pool_ok :: "dbuf_pool \<Rightarrow> bool" where
  "pool_ok pool \<longleftrightarrow> (\<forall>db \<in> set (dbufFreeList pool). length (data db) = DBUF_SIZE) \<and>
    DBufAllocCount pool = DBufUsedCount pool + int (length (dbufFreeList pool))"

definition flush_ok :: "dbuf_features \<Rightarrow> bool" where
  "flush_ok ft \<longleftrightarrow> (\<forall>pool. pool_ok pool \<longrightarrow> pool_ok (flush_connections ft pool))"

lemma dbytes_simps [simp]:
  "dbytes [] = []" "dbytes (db # dbs) = chunk_of db @ dbytes dbs" "dbytes (xs @ ys) = dbytes xs @ dbytes ys"
  by (simp_all add: dbytes_def)

lemma length_chunk_of: "buf_ok db \<Longrightarrow> length (chunk_of db) = bend db - start db"
  by (auto simp: chunk_of_def buf_ok_def min_def)

lemma chunk_of_nonempty: "buf_ok db \<Longrightarrow> chunk_of db \<noteq> []"
  using length_chunk_of [of db] by (auto simp: buf_ok_def)

lemma dbuf_ok_empty: "dbuf_ok dyn \<Longrightarrow> dlength dyn = 0 \<longleftrightarrow> bufs dyn = []"
  using chunk_of_nonempty by (cases "bufs dyn") (auto simp: dbuf_ok_def bytes_def)

lemma dbuf_free_ok [simp]: "pool_ok pool \<Longrightarrow> length (data db) = DBUF_SIZE \<Longrightarrow> pool_ok (dbuf_free db pool)"
  by (simp add: pool_ok_def dbuf_free_def)

lemma free_all_ok: "pool_ok pool \<Longrightarrow> \<forall>db \<in> set dbs. length (data db) = DBUF_SIZE \<Longrightarrow> pool_ok (fold dbuf_free dbs pool)"
  by (induction dbs arbitrary: pool) auto

subsection \<open>Appending\<close>

lemma dbuf_alloc_ok:
  assumes "pool_ok pool" "dbuf_alloc ft pool = (r, pool1)"
  shows "pool_ok pool1 \<and> (\<forall>db. r = Some db \<longrightarrow> length (data db) = DBUF_SIZE)"
  using assms by (auto simp: dbuf_alloc_def pool_ok_def split: list.splits if_splits)

lemma alloc_or_flush_ok:
  assumes "pool_ok pool" "flush_ok ft" "alloc_or_flush ft pool = (r, pool1)"
  shows "pool_ok pool1 \<and> (\<forall>db. r = Some db \<longrightarrow> length (data db) = DBUF_SIZE)"
proof -
  obtain r0 p0 where a: "dbuf_alloc ft pool = (r0, p0)" by fastforce
  note ok = dbuf_alloc_ok [OF assms(1) a]
  then have "pool_ok (flush_connections ft p0)" using assms(2) by (simp add: flush_ok_def)
  with dbuf_alloc_ok [OF this, of ft r pool1] ok assms(3) a show ?thesis
    by (auto simp: alloc_or_flush_def split: option.splits if_splits)
qed

lemma memcpy_ok:
  assumes "length (data db) = DBUF_SIZE" "start db \<le> bend db" "bend db + length s \<le> DBUF_SIZE"
  shows "chunk_of (memcpy db s) = take (bend db - start db) (drop (start db) (data db)) @ s"
    "start db < bend db \<or> s \<noteq> [] \<Longrightarrow> buf_ok (memcpy db s)"
proof -
  show "chunk_of (memcpy db s) = take (bend db - start db) (drop (start db) (data db)) @ s"
    using assms by (simp add: chunk_of_def memcpy_def drop_take)
  show "buf_ok (memcpy db s)" if "start db < bend db \<or> s \<noteq> []"
    using that assms by (cases s) (auto simp: memcpy_def buf_ok_def)
qed

definition put_outcome :: "DBufBuffer list \<Rightarrow> string \<Rightarrow> (dbuf_pool \<times> DBufBuffer list) + (dbuf_pool \<times> DBufBuffer list) \<Rightarrow> bool" where
  "put_outcome dbs buf out = (case out of
     Inl (pool', dbs') \<Rightarrow> pool_ok pool' \<and> (\<forall>db \<in> set dbs'. buf_ok db)
   | Inr (pool', dbs') \<Rightarrow> pool_ok pool' \<and> (\<forall>db \<in> set dbs'. buf_ok db) \<and> dbytes dbs' = dbytes dbs @ buf)"

lemma put_loop_ok:
  assumes "flush_ok ft"
  shows "pool_ok pool \<Longrightarrow> \<forall>db \<in> set (before @ h). buf_ok db \<Longrightarrow> length h \<le> 1 \<Longrightarrow>
    put_outcome (before @ h) buf (put_loop ft pool before h buf)"
  using assms
proof (induction ft pool before h buf rule: put_loop.induct)
  case (1 ft pool before h buf)
  show ?case
  proof (cases "buf = []")
    case True
    with 1 show ?thesis by (subst put_loop.simps) (auto simp: put_outcome_def)
  next
    case False
    show ?thesis
    proof (cases h)
      case (Cons db rest)
      define chunk where "chunk = min (DBUF_SIZE - bend db) (length buf)"
      have db: "buf_ok db" and r: "rest = []" using "1.prems"(2,3) Cons by auto
      have m: "length (data db) = DBUF_SIZE" "start db \<le> bend db" "bend db + length (take chunk buf) \<le> DBUF_SIZE" "start db < bend db"
        using db by (auto simp: buf_ok_def chunk_def)
      note mm = memcpy_ok [OF m(1-3)]
      have "put_outcome (before @ [memcpy db (take chunk buf)]) (drop chunk buf)
          (put_loop ft pool (before @ [memcpy db (take chunk buf)]) rest (drop chunk buf))"
        using "1.IH"(2) [OF False Cons chunk_def] "1.prems" mm(2) m(4) Cons r by simp
      moreover have "put_loop ft pool before h buf =
          put_loop ft pool (before @ [memcpy db (take chunk buf)]) rest (drop chunk buf)"
        using False Cons by (subst put_loop.simps) (simp add: chunk_def Let_def)
      ultimately show ?thesis using mm(1) Cons r
        by (auto simp: put_outcome_def chunk_of_def split: sum.splits)
    next
      case Nil
      obtain ro pool1 where a: "alloc_or_flush ft pool = (ro, pool1)" by fastforce
      note aok = alloc_or_flush_ok [OF "1.prems"(1,4) a]
      show ?thesis
      proof (cases ro)
        case None
        with a False Nil aok "1.prems" show ?thesis
          by (subst put_loop.simps) (simp add: put_outcome_def)
      next
        case (Some db)
        define chunk where "chunk = min DBUF_SIZE (length buf)"
        let ?db = "memcpy (db\<lparr>start := 0, bend := 0\<rparr>) (take chunk buf)"
        have ne: "take chunk buf \<noteq> []" using False by (simp add: chunk_def DBUF_SIZE_def)
        have m: "length (data (db\<lparr>start := 0, bend := 0\<rparr>)) = DBUF_SIZE" "start (db\<lparr>start := 0, bend := 0\<rparr>) \<le> bend (db\<lparr>start := 0, bend := 0\<rparr>)"
          "bend (db\<lparr>start := 0, bend := 0\<rparr>) + length (take chunk buf) \<le> DBUF_SIZE"
          using aok Some by (auto simp: chunk_def)
        note mm = memcpy_ok [OF m]
        have "put_outcome (before @ [?db]) (drop chunk buf) (put_loop ft pool1 (before @ [?db]) [] (drop chunk buf))"
          using "1.IH"(1) [OF False Nil a [symmetric] Some chunk_def] "1.prems" mm(2) ne aok Nil by simp
        moreover have "put_loop ft pool before h buf = put_loop ft pool1 (before @ [?db]) [] (drop chunk buf)"
          using False Nil a Some by (subst put_loop.simps) (simp add: chunk_def Let_def)
        ultimately show ?thesis using mm(1) Nil by (auto simp: put_outcome_def split: sum.splits)
      qed
    qed
  qed
qed

lemma dbuf_put_ok:
  assumes "dbuf_ok dyn" "pool_ok pool" "flush_ok ft" "dbuf_put ft pool dyn buf = (ok, pool', dyn')"
  shows "dbuf_ok dyn' \<and> pool_ok pool' \<and> bytes dyn' = (if ok then bytes dyn @ buf else [])"
proof -
  obtain before h where bh: "(if dlength dyn = 0 then ([], bufs dyn) else (butlast (bufs dyn), [last (bufs dyn)])) = (before, h)"
    by fastforce
  have b: "before @ h = bufs dyn" "length h \<le> 1"
    using bh dbuf_ok_empty [OF assms(1)] by (auto split: if_splits)
  have "\<forall>db \<in> set (before @ h). buf_ok db" using assms(1) b(1) by (simp add: dbuf_ok_def)
  note o = put_loop_ok [OF assms(3,2) this b(2), of buf]
  show ?thesis
  proof (cases "put_loop ft pool before h buf")
    case (Inl r)
    obtain p dbs where r: "r = (p, dbs)" by fastforce
    with o Inl have d: "pool_ok p" "\<forall>db \<in> set dbs. buf_ok db" by (auto simp: put_outcome_def)
    then have "pool_ok (fold dbuf_free dbs p)" by (intro free_all_ok) (auto simp: buf_ok_def)
    with assms(4) bh Inl r show ?thesis
      by (auto simp: dbuf_put_def dbuf_malloc_error_def dbuf_ok_def bytes_def)
  next
    case (Inr r)
    obtain p dbs where r: "r = (p, dbs)" by fastforce
    with o Inr b(1) have "pool_ok p" "\<forall>db \<in> set dbs. buf_ok db" "dbytes dbs = dbytes (bufs dyn) @ buf"
      by (auto simp: put_outcome_def)
    with assms(1,4) bh Inr r show ?thesis by (auto simp: dbuf_put_def dbuf_ok_def bytes_def)
  qed
qed

subsection \<open>Reading\<close>

definition same_owner :: "dbuf_pool \<Rightarrow> DBuf \<Rightarrow> dbuf_pool \<Rightarrow> DBuf \<Rightarrow> bool" where
  "same_owner pool dyn pool' dyn' \<longleftrightarrow>
    DBufUsedCount pool' - int (length (bufs dyn')) = DBufUsedCount pool - int (length (bufs dyn)) \<and>
    DBufAllocCount pool' = DBufAllocCount pool"

lemma same_owner_refl [simp]: "same_owner pool dyn pool dyn"
  by (simp add: same_owner_def)

lemma same_owner_trans: "same_owner p d p' d' \<Longrightarrow> same_owner p' d' p'' d'' \<Longrightarrow> same_owner p d p'' d''"
  by (simp add: same_owner_def)

lemma advance_start: "k \<le> bend db - start db \<Longrightarrow> chunk_of (db\<lparr>start := start db + k\<rparr>) = drop k (chunk_of db)"
  by (simp add: chunk_of_def drop_take add.commute)

text \<open>Taking the first \<open>k\<close> bytes off the first buffer, which is freed when it is used up.\<close>

definition advance :: "nat \<Rightarrow> dbuf_pool \<Rightarrow> DBuf \<Rightarrow> dbuf_pool \<times> DBuf" where
  "advance k pool dyn = (case bufs dyn of
     [] \<Rightarrow> (pool, dyn)
   | db # rest \<Rightarrow>
       let db' = db\<lparr>start := start db + k\<rparr>; dyn' = dyn\<lparr>dlength := dlength dyn - k\<rparr>
       in if start db' = bend db' then (dbuf_free db' pool, dyn'\<lparr>bufs := rest\<rparr>) else (pool, dyn'\<lparr>bufs := db' # rest\<rparr>))"

lemma advance_ok:
  assumes "dbuf_ok dyn" "pool_ok pool" "bufs dyn = db # rest" "k \<le> bend db - start db"
    "advance k pool dyn = (pool', dyn')"
  shows "dbuf_ok dyn'" "pool_ok pool'" "bytes dyn' = drop k (bytes dyn)" "same_owner pool dyn pool' dyn'"
proof -
  have db: "buf_ok db" using assms(1,3) by (simp add: dbuf_ok_def)
  have len: "length (chunk_of db) = bend db - start db" by (rule length_chunk_of [OF db])
  have c: "chunk_of (db\<lparr>start := start db + k\<rparr>) = drop k (chunk_of db)" by (rule advance_start [OF assms(4)])
  have "dbuf_ok dyn' \<and> pool_ok pool' \<and> bytes dyn' = drop k (bytes dyn) \<and> same_owner pool dyn pool' dyn'"
  proof (cases "start db + k = bend db")
    case True
    then have "pool' = dbuf_free (db\<lparr>start := start db + k\<rparr>) pool"
        "dyn' = dyn\<lparr>dlength := dlength dyn - k, bufs := rest\<rparr>"
      using assms(3,5) by (auto simp: advance_def Let_def)
    moreover have "drop k (chunk_of db) = []" using True len by simp
    ultimately show ?thesis using assms(1-4) len db
      by (auto simp: dbuf_ok_def bytes_def same_owner_def dbuf_free_def pool_ok_def buf_ok_def)
  next
    case False
    then have "pool' = pool" "dyn' = dyn\<lparr>dlength := dlength dyn - k, bufs := db\<lparr>start := start db + k\<rparr> # rest\<rparr>"
      using assms(3,5) by (auto simp: advance_def Let_def)
    moreover have "buf_ok (db\<lparr>start := start db + k\<rparr>)" using db False assms(4) by (auto simp: buf_ok_def)
    ultimately show ?thesis using assms(1-4) len c
      by (auto simp: dbuf_ok_def bytes_def same_owner_def)
  qed
  then show "dbuf_ok dyn'" "pool_ok pool'" "bytes dyn' = drop k (bytes dyn)" "same_owner pool dyn pool' dyn'" by auto
qed

lemma delete_loop_advance:
  assumes "0 < n" "bufs dyn = db # rest" "k = min (bend db - start db) n"
  shows "delete_loop pool dyn n = (case advance k pool dyn of (pool', dyn') \<Rightarrow> delete_loop pool' dyn' (n - k))"
  using assms by (subst delete_loop.simps) (simp add: advance_def Let_def)

lemma delete_loop_ok:
  "dbuf_ok dyn \<Longrightarrow> pool_ok pool \<Longrightarrow> n \<le> dlength dyn \<Longrightarrow>
   \<exists>pool' dyn'. delete_loop pool dyn n = Some (pool', dyn') \<and> dbuf_ok dyn' \<and> pool_ok pool' \<and>
     bytes dyn' = drop n (bytes dyn) \<and> same_owner pool dyn pool' dyn'"
proof (induction n arbitrary: pool dyn rule: less_induct)
  case (less n)
  show ?case
  proof (cases "n = 0")
    case True
    with less.prems show ?thesis by (subst delete_loop.simps) simp
  next
    case False
    then obtain db rest where dr: "bufs dyn = db # rest"
      using less.prems dbuf_ok_empty [OF less.prems(1)] by (cases "bufs dyn") auto
    have db: "buf_ok db" using less.prems(1) dr by (simp add: dbuf_ok_def)
    define k where "k = min (bend db - start db) n"
    have k: "0 < k" "k \<le> n" "k \<le> bend db - start db" using db False by (auto simp: k_def buf_ok_def)
    obtain p1 d1 where a: "advance k pool dyn = (p1, d1)" by fastforce
    note ok = advance_ok [OF less.prems(1,2) dr k(3) a]
    have dl: "dlength d1 = dlength dyn - k" using a dr by (auto simp: advance_def Let_def split: if_splits)
    have "n - k < n" "n - k \<le> dlength d1" using k dl less.prems(3) by (auto simp: diff_le_mono)
    from less.IH [OF this(1) ok(1,2) this(2)] obtain p2 d2 where
      r: "delete_loop p1 d1 (n - k) = Some (p2, d2)" "dbuf_ok d2" "pool_ok p2" "bytes d2 = drop (n - k) (bytes d1)"
        "same_owner p1 d1 p2 d2" by auto
    have "delete_loop pool dyn n = Some (p2, d2)"
      using delete_loop_advance [OF _ dr k_def, of pool] a r(1) False by simp
    moreover have "bytes d2 = drop n (bytes dyn)" using r(4) ok(3) k(2) by simp
    ultimately show ?thesis using r same_owner_trans [OF ok(4)] by blast
  qed
qed

lemma dbuf_delete_ok:
  assumes "dbuf_ok dyn" "pool_ok pool"
  shows "\<exists>pool' dyn'. dbuf_delete pool dyn n = Some (pool', dyn') \<and> dbuf_ok dyn' \<and> pool_ok pool' \<and>
     bytes dyn' = drop n (bytes dyn) \<and> same_owner pool dyn pool' dyn'"
proof -
  from delete_loop_ok [OF assms, of "min n (dlength dyn)"] obtain p d where
    r: "delete_loop pool dyn (min n (dlength dyn)) = Some (p, d)" "dbuf_ok d" "pool_ok p"
      "bytes d = drop (min n (dlength dyn)) (bytes dyn)" "same_owner pool dyn p d" by auto
  have d: "(if bufs d = [] then d\<lparr>dlength := 0\<rparr> else d) = d"
    using dbuf_ok_empty [OF r(2)] by (cases d) auto
  have "bytes d = drop n (bytes dyn)" using r(4) assms(1) by (simp add: dbuf_ok_def min_def)
  with r d show ?thesis by (simp add: dbuf_delete_def)
qed

lemma dbuf_map_ok:
  assumes "dbuf_ok dyn"
  shows "(case dbuf_map dyn of None \<Rightarrow> bytes dyn = [] | Some b \<Rightarrow> b \<noteq> [] \<and> (\<exists>t. bytes dyn = b @ t))"
  using assms dbuf_ok_empty [OF assms] chunk_of_nonempty
  by (cases "bufs dyn") (auto simp: dbuf_map_def dbuf_ok_def bytes_def)

lemma get_loop_ok:
  "dbuf_ok dyn \<Longrightarrow> pool_ok pool \<Longrightarrow>
   \<exists>pool' dyn'. get_loop pool dyn n out = Some (out @ take n (bytes dyn), pool', dyn') \<and> dbuf_ok dyn' \<and> pool_ok pool' \<and>
     bytes dyn' = drop n (bytes dyn) \<and> same_owner pool dyn pool' dyn'"
proof (induction n arbitrary: pool dyn out rule: less_induct)
  case (less n)
  note m = dbuf_map_ok [OF less.prems(1)]
  show ?case
  proof (cases "n = 0 \<or> dbuf_map dyn = None")
    case True
    with less.prems m show ?thesis by (subst get_loop.simps) (auto split: option.splits)
  next
    case False
    then obtain b t where b: "dbuf_map dyn = Some b" "b \<noteq> []" "bytes dyn = b @ t" "0 < n" using m by auto
    define k where "k = min (length b) n"
    have k: "0 < k" "k \<le> n" "k \<le> length b" using b by (auto simp: k_def)
    from dbuf_delete_ok [OF less.prems, of k] obtain p1 d1 where
      d: "dbuf_delete pool dyn k = Some (p1, d1)" "dbuf_ok d1" "pool_ok p1" "bytes d1 = drop k (bytes dyn)"
        "same_owner pool dyn p1 d1" by auto
    from less.IH [OF _ d(2,3), of "n - k" "out @ take k b"] k obtain p2 d2 where
      r: "get_loop p1 d1 (n - k) (out @ take k b) = Some ((out @ take k b) @ take (n - k) (bytes d1), p2, d2)"
        "dbuf_ok d2" "pool_ok p2" "bytes d2 = drop (n - k) (bytes d1)" "same_owner p1 d1 p2 d2" by auto
    have "take n (bytes dyn) = take k b @ take (n - k) (bytes d1)"
      using d(4) b(3) k by (cases "length b \<le> n") (auto simp: k_def)
    moreover have "get_loop pool dyn n out = get_loop p1 d1 (n - k) (out @ take k b)"
      using b d(1) by (subst get_loop.simps) (simp add: k_def Let_def)
    moreover have "bytes d2 = drop n (bytes dyn)" using r(4) d(4) k by simp
    ultimately show ?thesis using r same_owner_trans [OF d(5)] by auto
  qed
qed

lemma dbuf_get_ok:
  "dbuf_ok dyn \<Longrightarrow> pool_ok pool \<Longrightarrow>
   \<exists>pool' dyn'. dbuf_get pool dyn n = Some (take n (bytes dyn), pool', dyn') \<and> dbuf_ok dyn' \<and> pool_ok pool' \<and>
     bytes dyn' = drop n (bytes dyn) \<and> same_owner pool dyn pool' dyn'"
  using get_loop_ok [of dyn pool n "[]"] by (simp add: dbuf_get_def)

subsection \<open>Lines\<close>

lemma first_byte: "buf_ok db \<Longrightarrow> chunk_of db = data db ! start db # drop 1 (chunk_of db)"
proof -
  assume db: "buf_ok db"
  then obtain c cs where c: "chunk_of db = c # cs" using chunk_of_nonempty [OF db] by (cases "chunk_of db") auto
  have "c = chunk_of db ! 0" using c by simp
  also have "\<dots> = data db ! start db" using db by (simp add: chunk_of_def buf_ok_def)
  finally show ?thesis using c by simp
qed

lemma flush_loop_advance:
  assumes "bufs dyn = db # rest" "IsEol (data db ! start db)"
  shows "flush_loop pool dyn = (case advance 1 pool dyn of (pool', dyn') \<Rightarrow> flush_loop pool' dyn')"
  using assms by (subst flush_loop.simps) (simp add: advance_def Let_def)

lemma flush_loop_ok:
  "dbuf_ok dyn \<Longrightarrow> pool_ok pool \<Longrightarrow>
   \<exists>pool' dyn'. flush_loop pool dyn = Some (pool', dyn') \<and> dbuf_ok dyn' \<and> pool_ok pool' \<and>
     bytes dyn' = dropWhile IsEol (bytes dyn) \<and> same_owner pool dyn pool' dyn'"
proof (induction "length (bytes dyn)" arbitrary: pool dyn)
  case 0
  then have "bufs dyn = []" using dbuf_ok_empty [OF "0.prems"(1)] by (simp add: dbuf_ok_def)
  with 0 show ?case
    by (subst flush_loop.simps) (auto simp: dbuf_ok_def bytes_def same_owner_def)
next
  case (Suc m)
  then obtain db rest where dr: "bufs dyn = db # rest" by (cases "bufs dyn") (auto simp: bytes_def)
  have db: "buf_ok db" using Suc.prems(1) dr by (simp add: dbuf_ok_def)
  have b: "bytes dyn = data db ! start db # drop 1 (bytes dyn)"
    using first_byte [OF db] dr by (cases "chunk_of db") (auto simp: bytes_def)
  show ?case
  proof (cases "IsEol (data db ! start db)")
    case True
    obtain p1 d1 where a: "advance 1 pool dyn = (p1, d1)" by fastforce
    have "1 \<le> bend db - start db" using db by (auto simp: buf_ok_def)
    note ok = advance_ok [OF Suc.prems dr this a]
    have "m = length (bytes d1)" using ok(3) Suc.hyps(2) by simp
    from Suc.hyps(1) [OF this ok(1,2)] obtain p2 d2 where
      r: "flush_loop p1 d1 = Some (p2, d2)" "dbuf_ok d2" "pool_ok p2" "bytes d2 = dropWhile IsEol (bytes d1)"
        "same_owner p1 d1 p2 d2" by blast
    have "dropWhile IsEol (bytes d1) = dropWhile IsEol (bytes dyn)" by (subst b) (simp add: ok(3) True)
    with r flush_loop_advance [OF dr True, of pool] a same_owner_trans [OF ok(4)] show ?thesis by auto
  next
    case False
    have "dropWhile IsEol (bytes dyn) = bytes dyn" using b False by (metis dropWhile.simps(2))
    with False Suc.prems dr show ?thesis by (subst flush_loop.simps) simp
  qed
qed

lemma dbuf_flush_ok:
  assumes "dbuf_ok dyn" "pool_ok pool"
  shows "\<exists>pool' dyn'. dbuf_flush pool dyn = Some (length (dropWhile IsEol (bytes dyn)), pool', dyn') \<and> dbuf_ok dyn' \<and>
     pool_ok pool' \<and> bytes dyn' = dropWhile IsEol (bytes dyn) \<and> same_owner pool dyn pool' dyn'"
proof (cases "bufs dyn = []")
  case True
  with assms show ?thesis by (auto simp: dbuf_flush_def bytes_def)
next
  case False
  from flush_loop_ok [OF assms] obtain p d where "flush_loop pool dyn = Some (p, d)" "dbuf_ok d" "pool_ok p"
    "bytes d = dropWhile IsEol (bytes dyn)" "same_owner pool dyn p d" by auto
  with False show ?thesis by (auto simp: dbuf_flush_def dbuf_ok_def)
qed

text \<open>The line at the head of a byte string, when one of at most \<open>n - 1\<close> bytes is complete.\<close>

definition first_line :: "nat \<Rightarrow> string \<Rightarrow> string option" where
  "first_line n s = (let line = takeWhile (\<lambda>c. \<not> IsEol c) (take n s)
     in if length line < length (take n s) then Some line else None)"

lemma getmsg_loop_line: "getmsg_loop dbs n = first_line n (dbytes dbs)"
proof (induction dbs n rule: getmsg_loop.induct)
  case (1 n)
  then show ?case by (simp add: first_line_def)
next
  case (2 db rest n)
  let ?nl = "\<lambda>c. \<not> IsEol c"
  let ?seen = "take n (chunk_of db)"
  let ?got = "takeWhile ?nl ?seen"
  show ?case
  proof (cases "n = 0")
    case True
    then show ?thesis by (simp add: first_line_def)
  next
    case False
    show ?thesis
    proof (cases "length ?got < length ?seen")
      case True
      then have "takeWhile ?nl (?seen @ t) = ?got" for t
        by (metis less_irrefl takeWhile_append1 takeWhile_eq_all_conv)
      with True False show ?thesis by (auto simp: first_line_def Let_def)
    next
      case all: False
      then have eq: "?got = ?seen"
        by (metis le_neq_implies_less length_takeWhile_le takeWhile_eq_take take_all_iff order_refl)
      then have "\<forall>c \<in> set ?seen. \<not> IsEol c" by (metis takeWhile_eq_all_conv)
      then have tw: "takeWhile ?nl (?seen @ t) = ?seen @ takeWhile ?nl t" for t by (simp add: takeWhile_append2)
      have "getmsg_loop (db # rest) n = map_option ((@) ?seen) (getmsg_loop rest (n - length ?seen))"
        using False by (simp only: getmsg_loop.simps eq Let_def if_False less_irrefl)
      also have "\<dots> = map_option ((@) ?seen) (first_line (n - length ?seen) (dbytes rest))"
        using "2.IH" [OF False refl refl] all eq by simp
      also have "\<dots> = first_line n (dbytes (db # rest))"
        using tw by (auto simp: first_line_def Let_def take_append min_def)
      finally show ?thesis .
    qed
  qed
qed

lemma dbuf_getmsg_ok:
  assumes "dbuf_ok dyn" "pool_ok pool"
  defines "s \<equiv> dropWhile IsEol (bytes dyn)"
  shows "\<exists>line pool' dyn'. dbuf_getmsg pool dyn n = Some (line, pool', dyn') \<and> dbuf_ok dyn' \<and> pool_ok pool' \<and>
     same_owner pool dyn pool' dyn' \<and>
     (case first_line n s of None \<Rightarrow> line = [] \<and> bytes dyn' = s
      | Some l \<Rightarrow> line = l \<and> bytes dyn' = dropWhile IsEol (drop (length l) s))"
proof -
  from dbuf_flush_ok [OF assms(1,2)] obtain p1 d1 where
    f: "dbuf_flush pool dyn = Some (length s, p1, d1)" "dbuf_ok d1" "pool_ok p1" "bytes d1 = s" "same_owner pool dyn p1 d1"
    by (auto simp: s_def)
  have g: "getmsg_loop (bufs d1) (min n (dlength d1)) = first_line n s"
    using f(2,4) by (simp add: getmsg_loop_line bytes_def dbuf_ok_def first_line_def min_def)
  show ?thesis
  proof (cases "first_line n s")
    case None
    with f g show ?thesis by (auto simp: dbuf_getmsg_def)
  next
    case (Some l)
    then have ne: "s \<noteq> []" by (auto simp: first_line_def Let_def)
    from dbuf_delete_ok [OF f(2,3), of "length l"] obtain p2 d2 where
      d: "dbuf_delete p1 d1 (length l) = Some (p2, d2)" "dbuf_ok d2" "pool_ok p2" "bytes d2 = drop (length l) (bytes d1)"
        "same_owner p1 d1 p2 d2" by auto
    from dbuf_flush_ok [OF d(2,3)] obtain p3 d3 where
      e: "dbuf_flush p2 d2 = Some (length (dropWhile IsEol (bytes d2)), p3, d3)" "dbuf_ok d3" "pool_ok p3"
        "bytes d3 = dropWhile IsEol (bytes d2)" "same_owner p2 d2 p3 d3" by auto
    from f g d e Some ne show ?thesis
      using same_owner_trans [OF same_owner_trans [OF f(5) d(5)] e(5)] by (simp add: dbuf_getmsg_def)
  qed
qed

section \<open>Byte queues\<close>

text \<open>A sequence of appends, up to the first that fails.\<close>

fun puts :: "('s \<Rightarrow> string \<Rightarrow> bool \<times> 's) \<Rightarrow> 's \<Rightarrow> string list \<Rightarrow> bool \<times> 's" where
  "puts put s [] = (True, s)"
| "puts put s (x # xs) = (case put s x of (ok, s') \<Rightarrow> if ok then puts put s' xs else (False, s'))"

text \<open>What the readers and writers of a buffer rely on.\<close>

locale byte_queue =
  fixes inv :: "'s \<Rightarrow> bool" and content :: "'s \<Rightarrow> string"
    and put :: "'s \<Rightarrow> string \<Rightarrow> bool \<times> 's" and get :: "'s \<Rightarrow> nat \<Rightarrow> (string \<times> 's) option"
  assumes put_law: "inv s \<Longrightarrow> put s x = (ok, s') \<Longrightarrow> inv s' \<and> content s' = (if ok then content s @ x else [])"
    and get_law: "inv s \<Longrightarrow> \<exists>s'. get s n = Some (take n (content s), s') \<and> inv s' \<and> content s' = drop n (content s)"
begin

lemma puts_content: "inv s \<Longrightarrow> puts put s xs = (True, s') \<Longrightarrow> inv s' \<and> content s' = content s @ concat xs"
proof (induction xs arbitrary: s)
  case (Cons x xs)
  obtain ok s1 where p: "put s x = (ok, s1)" by fastforce
  then have ok: "ok" using Cons.prems(2) by (cases ok) auto
  then have "inv s1" "content s1 = content s @ x" using put_law [OF Cons.prems(1) p] by auto
  with Cons.IH [of s1] Cons.prems(2) p ok show ?case by auto
qed simp

lemma puts_get:
  assumes "inv s" "puts put s xs = (True, s')"
  shows "\<exists>s''. get s' n = Some (take n (content s @ concat xs), s'') \<and> content s'' = drop n (content s @ concat xs)"
  using puts_content [OF assms] get_law [of s' n] by auto

end

type_synonym dbuf_state = "dbuf_features \<times> dbuf_pool \<times> DBuf"

definition dstate_ok :: "dbuf_state \<Rightarrow> bool" where
  "dstate_ok = (\<lambda>(ft, pool, dyn). flush_ok ft \<and> pool_ok pool \<and> dbuf_ok dyn)"

definition dstate_bytes :: "dbuf_state \<Rightarrow> string" where
  "dstate_bytes = (\<lambda>(ft, pool, dyn). bytes dyn)"

definition dstate_put :: "dbuf_state \<Rightarrow> string \<Rightarrow> bool \<times> dbuf_state" where
  "dstate_put = (\<lambda>(ft, pool, dyn) x. case dbuf_put ft pool dyn x of (ok, r) \<Rightarrow> (ok, ft, r))"

definition dstate_get :: "dbuf_state \<Rightarrow> nat \<Rightarrow> (string \<times> dbuf_state) option" where
  "dstate_get = (\<lambda>(ft, pool, dyn) n. map_option (\<lambda>(s, r). (s, ft, r)) (dbuf_get pool dyn n))"

lemmas dstate_defs = dstate_ok_def dstate_bytes_def dstate_put_def dstate_get_def

interpretation dq: byte_queue dstate_ok dstate_bytes dstate_put dstate_get
proof unfold_locales
  show "dstate_ok s' \<and> dstate_bytes s' = (if ok then dstate_bytes s @ x else [])"
    if h: "dstate_ok s" "dstate_put s x = (ok, s')" for s x ok s'
  proof -
    obtain ft pool dyn where s: "s = (ft, pool, dyn)" by (cases s)
    obtain ok' pool' dyn' where r: "dbuf_put ft pool dyn x = (ok', pool', dyn')" by (cases "dbuf_put ft pool dyn x")
    from h s r have "ok' = ok" "s' = (ft, pool', dyn')" by (auto simp: dstate_put_def)
    with h(1) s dbuf_put_ok [OF _ _ _ r] show ?thesis by (simp add: dstate_defs)
  qed
  show "\<exists>s'. dstate_get s n = Some (take n (dstate_bytes s), s') \<and> dstate_ok s' \<and>
      dstate_bytes s' = drop n (dstate_bytes s)" if "dstate_ok s" for s n
  proof -
    obtain ft pool dyn where s: "s = (ft, pool, dyn)" by (cases s)
    with that dbuf_get_ok [of dyn pool n] show ?thesis by (auto simp: dstate_defs)
  qed
qed

section \<open>Properties\<close>

text \<open>
  C6.  After any sequence of successful \<open>dbuf_put\<close>s, \<open>dbuf_get\<close> ends and returns the first bytes of what the
  buffer held followed by what was put, in order and across the borders of the data buffers, and leaves
  the rest.
\<close>

theorem dbuf_fifo:
  assumes "flush_ok ft" "pool_ok pool" "dbuf_ok dyn" "puts dstate_put (ft, pool, dyn) xs = (True, ft', pool', dyn')"
  shows "\<exists>pool'' dyn''. dbuf_get pool' dyn' n = Some (take n (bytes dyn @ concat xs), pool'', dyn'') \<and>
    bytes dyn'' = drop n (bytes dyn @ concat xs)"
proof -
  have "dstate_ok (ft, pool, dyn)" using assms(1-3) by (simp add: dstate_ok_def)
  from dq.puts_get [OF this assms(4), of n] show ?thesis by (auto simp: dstate_get_def dstate_bytes_def)
qed

definition pool_example :: dbuf_pool where
  "pool_example = \<lparr>DBufAllocCount = 0, DBufUsedCount = 0, dbufFreeList = []\<rparr>"

definition dbuf_ft_example :: dbuf_features where
  "dbuf_ft_example = \<lparr>bufferpool = 27000000, ferguson_flusher = True, flush_connections = (\<lambda>p. p)\<rparr>"

lemma dbuf_examples_ok:
  "flush_ok dbuf_ft_example" "pool_ok pool_example" "dbuf_ok \<lparr>dlength = 0, bufs = []\<rparr>" "bytes \<lparr>dlength = 0, bufs = []\<rparr> = []"
  by (simp_all add: flush_ok_def dbuf_ft_example_def pool_ok_def pool_example_def dbuf_ok_def bytes_def)

theorem dbuf_fifo_witness:
  "\<exists>ft' pool' dyn' pool'' dyn''.
     puts dstate_put (dbuf_ft_example, pool_example, \<lparr>dlength = 0, bufs = []\<rparr>) [''PING'', '' :x''] = (True, ft', pool', dyn') \<and>
     dbuf_get pool' dyn' 6 = Some (''PING :'', pool'', dyn'') \<and> bytes dyn'' = ''x''"
proof -
  have "fst (puts dstate_put (dbuf_ft_example, pool_example, \<lparr>dlength = 0, bufs = []\<rparr>) [''PING'', '' :x''])"
    by code_simp
  then obtain ft' pool' dyn' where p: "puts dstate_put (dbuf_ft_example, pool_example, \<lparr>dlength = 0, bufs = []\<rparr>) [''PING'', '' :x''] =
    (True, ft', pool', dyn')" by (metis (full_types) prod.collapse)
  from dbuf_fifo [OF dbuf_examples_ok(1-3) p, of 6] p show ?thesis by (auto simp: dbuf_examples_ok(4))
qed

text \<open>
  \<open>dbuf_put\<close> appends the bytes and keeps the buffer and the pool well formed; when the pool is used up it
  reports failure and the buffer is empty, with its data buffers back in the pool.
\<close>

lemma dbuf_put_appends:
  assumes "dbuf_ok dyn" "pool_ok pool" "flush_ok ft" "dbuf_put ft pool dyn buf = (ok, pool', dyn')"
  shows "dbuf_ok dyn' \<and> pool_ok pool' \<and> bytes dyn' = (if ok then bytes dyn @ buf else [])"
  using assms by (rule dbuf_put_ok)

text \<open>
  C36.  \<open>dbuf_getmsg\<close> ends; it skips the line ends at the head of the buffer and then returns the line up to the
  next line end, if there is one among the first \<open>n\<close> bytes, and removes it with the line ends behind it;
  otherwise it returns nothing and removes nothing more.  Every data buffer it gives up goes back to the
  pool.
\<close>

theorem dbuf_getmsg_line:
  assumes "dbuf_ok dyn" "pool_ok pool"
  shows "\<exists>line pool' dyn'. dbuf_getmsg pool dyn n = Some (line, pool', dyn') \<and> dbuf_ok dyn' \<and> pool_ok pool' \<and>
     same_owner pool dyn pool' dyn' \<and>
     (case first_line n (dropWhile IsEol (bytes dyn)) of
        None \<Rightarrow> line = [] \<and> bytes dyn' = dropWhile IsEol (bytes dyn)
      | Some l \<Rightarrow> line = l \<and> bytes dyn' = dropWhile IsEol (drop (length l) (dropWhile IsEol (bytes dyn))))"
  using assms by (rule dbuf_getmsg_ok)

definition dbuf_example :: DBuf where
  "dbuf_example = \<lparr>dlength = 8, bufs = [\<lparr>start = 0, bend = 8, data = ''PING'' @ [CHR 0x0D, CHR 0x0A] @ ''QU'' @ replicate 2040 NUL\<rparr>]\<rparr>"

lemma dbuf_example_ok: "dbuf_ok dbuf_example" "bytes dbuf_example = ''PING'' @ [CHR 0x0D, CHR 0x0A] @ ''QU''"
  by (simp_all add: dbuf_example_def dbuf_ok_def bytes_def buf_ok_def chunk_of_def DBUF_SIZE_def)

theorem dbuf_getmsg_line_witness:
  "\<exists>pool' dyn'. dbuf_getmsg pool_example dbuf_example 512 = Some (''PING'', pool', dyn') \<and> bytes dyn' = ''QU''"
proof -
  have d: "dropWhile IsEol (bytes dbuf_example) = ''PING'' @ [CHR 0x0D, CHR 0x0A] @ ''QU''"
    unfolding dbuf_example_ok by code_simp
  have l: "first_line 512 (''PING'' @ [CHR 0x0D, CHR 0x0A] @ ''QU'') = Some ''PING''" by code_simp
  have e: "dropWhile IsEol (drop (length ''PING'') (''PING'' @ [CHR 0x0D, CHR 0x0A] @ ''QU'')) = ''QU''" by code_simp
  from dbuf_getmsg_line [OF dbuf_example_ok(1) dbuf_examples_ok(2), of 512] show ?thesis
    unfolding d l option.case e by blast
qed

text \<open>
  \<open>dbuf_delete\<close> ends and removes exactly the first bytes (all of them when fewer are there), and the
  number of data buffers in use falls by the number the buffer gave up.
\<close>

lemma dbuf_delete_drops:
  assumes "dbuf_ok dyn" "pool_ok pool"
  shows "\<exists>pool' dyn'. dbuf_delete pool dyn n = Some (pool', dyn') \<and> dbuf_ok dyn' \<and> pool_ok pool' \<and>
     bytes dyn' = drop n (bytes dyn) \<and>
     DBufUsedCount pool' - int (length (bufs dyn')) = DBufUsedCount pool - int (length (bufs dyn))"
  using dbuf_delete_ok [OF assms, of n] by (auto simp: same_owner_def)

end
