(* ===== verification/MsgQ.thy ===== *)
theory MsgQ
  imports Prelude "HOL-Library.Multiset"
begin

text \<open>
  The queues of messages to be sent of \<open>ircd/msgq.c\<close>: reference-counted message buffers that several
  queues share, their pools of buffers by size, and the two-priority queue of a connection.

  Message buffers are in a store indexed by their addresses; the field \<open>msg\<close> holds the \<open>length\<close> bytes of
  the message.  The list of active buffers, the free lists and the two lists of a queue are the lists
  that a walk along \<open>next\<close> visits; free \<open>Msg\<close> structures are only counted.  The formatted text of a
  message is an argument (\<open>ircd_vsnprintf\<close> stores as much of it as fits and returns its whole length).
  A failed assertion or \<open>server_panic\<close> is \<open>None\<close>.
\<close>

section \<open>State\<close>

definition MB_BASE_SHIFT :: nat where "MB_BASE_SHIFT = 5"
definition MB_MAX_SHIFT :: nat where "MB_MAX_SHIFT = 9"
definition MSG_BUFSIZE :: nat where "MSG_BUFSIZE = 512"

record MsgBuf =
  real :: "nat option"
  ref :: nat
  power :: nat
  msg :: string

record Msg =
  sent :: nat
  mbuf :: nat

record MsgQ =
  qlength :: nat
  qcount :: nat
  queue :: "Msg list"
  prio :: "Msg list"

record MQData =
  mbs :: "nat \<Rightarrow> MsgBuf"
  msglist :: "nat list"
  msgs_alloc :: int
  msgs_used :: int
  msgs_free :: nat
  tot_bufsize :: int
  mb_alloc :: "nat \<Rightarrow> int"
  mb_used :: "nat \<Rightarrow> int"
  mb_free :: "nat \<Rightarrow> nat list"
  sizes_msgs :: nat
  sizes :: "nat \<Rightarrow> nat"
  mb_next :: nat

abbreviation bufsize :: "MsgBuf \<Rightarrow> nat" where
  "bufsize mb \<equiv> 2 ^ power mb"

abbreviation upd_mb :: "nat \<Rightarrow> (MsgBuf \<Rightarrow> MsgBuf) \<Rightarrow> MQData \<Rightarrow> MQData" where
  "upd_mb b f d \<equiv> d\<lparr>mbs := (mbs d)(b := f (mbs d b))\<rparr>"

section \<open>Buffers\<close>

text \<open>The loop for the size: \<open>length - 1 >> power\<close> of a length of at least 1.\<close>

fun find_power :: "nat list \<Rightarrow> nat \<Rightarrow> nat option" where
  "find_power [] len = None"
| "find_power (p # ps) len = (if 0 < len \<and> (len - 1) div 2 ^ p = 0 then Some p else find_power ps len)"

definition size_power :: "nat \<Rightarrow> nat option" where
  "size_power len = find_power [MB_BASE_SHIFT..<MB_MAX_SHIFT + 1] len"

definition msgq_alloc :: "int \<Rightarrow> MQData \<Rightarrow> nat option \<Rightarrow> nat \<Rightarrow> (nat option \<times> MQData) option" where
  "msgq_alloc bufferpool d in_mb len = (case size_power len of
     None \<Rightarrow> None
   | Some pw \<Rightarrow>
       if (case in_mb of Some b \<Rightarrow> power (mbs d b) = pw | None \<Rightarrow> False)
       then Some (in_mb, upd_mb (the in_mb) (\<lambda>mb. mb\<lparr>real := in_mb\<rparr>) d)
       else
         let (mb, d1) = (case mb_free d pw of
               b # bs \<Rightarrow> (Some b, d\<lparr>mb_free := (mb_free d)(pw := bs)\<rparr>)
             | [] \<Rightarrow>
                 if tot_bufsize d < bufferpool
                 then (Some (mb_next d),
                       upd_mb (mb_next d) (\<lambda>mb. mb\<lparr>power := pw\<rparr>)
                         (d\<lparr>mb_alloc := (mb_alloc d)(pw := mb_alloc d pw + 1),
                            tot_bufsize := tot_bufsize d + 2 ^ pw, mb_next := mb_next d + 1\<rparr>))
                 else (None, d))
         in case mb of
              Some b \<Rightarrow>
                let d2 = upd_mb b (\<lambda>mb. mb\<lparr>real := None, ref := 1\<rparr>) (d1\<lparr>mb_used := (mb_used d1)(pw := mb_used d1 pw + 1)\<rparr>)
                in Some (mb, (case in_mb of None \<Rightarrow> d2 | Some ib \<Rightarrow> upd_mb ib (\<lambda>x. x\<lparr>real := mb\<rparr>) d2))
            | None \<Rightarrow> (case in_mb of
                None \<Rightarrow> Some (None, d1)
              | Some ib \<Rightarrow> Some (in_mb, upd_mb ib (\<lambda>x. x\<lparr>real := in_mb\<rparr>) d1)))"

definition clear_class :: "nat \<Rightarrow> MQData \<Rightarrow> MQData" where
  "clear_class i d = d\<lparr>mb_free := (mb_free d)(i := []),
     mb_alloc := (mb_alloc d)(i := mb_alloc d i - int (length (mb_free d i))),
     tot_bufsize := tot_bufsize d - int (length (mb_free d i)) * 2 ^ i\<rparr>"

definition msgq_clear_freembs :: "MQData \<Rightarrow> MQData" where
  "msgq_clear_freembs d = fold clear_class [MB_BASE_SHIFT..<MB_MAX_SHIFT + 1] d"

text \<open>
  The attempts of \<open>msgq_vmake\<close> to get a buffer.  \<open>flush\<close> and \<open>kill\<close> are what \<open>flush_connections(0)\<close>
  and \<open>kill_highest_sendq\<close> do to the buffers; \<open>flush\<close> is \<open>None\<close> without \<open>FEAT_HAS_FERGUSON_FLUSHER\<close>.
\<close>

record mq_features =
  mq_bufferpool :: int
  mq_flush :: "(MQData \<Rightarrow> MQData) option"
  mq_kill :: "bool \<Rightarrow> MQData \<Rightarrow> MQData"

fun alloc_attempts :: "int \<Rightarrow> (MQData \<Rightarrow> MQData) list \<Rightarrow> MQData \<Rightarrow> (nat \<times> MQData) option" where
  "alloc_attempts pool [] d = None"
| "alloc_attempts pool (f # fs) d = (case msgq_alloc pool (f d) None MSG_BUFSIZE of
     None \<Rightarrow> None
   | Some (Some b, d') \<Rightarrow> Some (b, d')
   | Some (None, d') \<Rightarrow> alloc_attempts pool fs d')"

definition CRLF :: string where
  "CRLF = [CHR 0x0D, CHR 0x0A]"

definition msgq_vmake :: "mq_features \<Rightarrow> MQData \<Rightarrow> string \<Rightarrow> (nat \<times> MQData) option" where
  "msgq_vmake ft d text =
    (case alloc_attempts (mq_bufferpool ft)
        ([id] @ (case mq_flush ft of None \<Rightarrow> [] | Some f \<Rightarrow> [f]) @
         [msgq_clear_freembs, msgq_clear_freembs \<circ> mq_kill ft False, msgq_clear_freembs \<circ> mq_kill ft True]) d of
       None \<Rightarrow> None
     | Some (b, d1) \<Rightarrow>
         Some (b, (upd_mb b (\<lambda>mb. mb\<lparr>msg := take (bufsize mb - 2) text @ CRLF\<rparr>) d1)\<lparr>msglist := b # msglist d1\<rparr>))"

definition msgq_append :: "MQData \<Rightarrow> nat \<Rightarrow> string \<Rightarrow> MQData option" where
  "msgq_append d b text =
    (if real (mbs d b) = None \<and> 2 < length (msg (mbs d b)) \<and> length (msg (mbs d b)) \<le> bufsize (mbs d b)
     then Some (upd_mb b (\<lambda>mb. mb\<lparr>msg := take (bufsize mb - 2) (take (length (msg mb) - 2) (msg mb) @ text) @ CRLF\<rparr>) d)
     else None)"

partial_function (option) msgq_clean :: "MQData \<Rightarrow> nat \<Rightarrow> MQData option" where
  "msgq_clean d b =
    (if ref (mbs d b) = 0 then None
     else
       let d1 = upd_mb b (\<lambda>mb. mb\<lparr>ref := ref mb - 1\<rparr>) d
       in if ref (mbs d1 b) \<noteq> 0 then Some d1
          else
            let d2 = d1\<lparr>msglist := remove1 b (msglist d1)\<rparr>
            in Option.bind (case real (mbs d2 b) of
                   Some r \<Rightarrow> if r \<noteq> b then msgq_clean d2 r else Some d2
                 | None \<Rightarrow> Some d2)
                 (\<lambda>d3. let pw = power (mbs d3 b)
                    in Some (d3\<lparr>mb_free := (mb_free d3)(pw := b # mb_free d3 pw),
                                mb_used := (mb_used d3)(pw := mb_used d3 pw - 1)\<rparr>)))"

definition msgq_bufleft :: "MQData \<Rightarrow> nat \<Rightarrow> nat" where
  "msgq_bufleft d b = bufsize (mbs d b) - length (msg (mbs d b))"

section \<open>Queues\<close>

definition msgq_init :: MsgQ where
  "msgq_init = \<lparr>qlength = 0, qcount = 0, queue = [], prio = []\<rparr>"

text \<open>
  The common part of \<open>msgq_delmsg\<close> on a nonempty list of the queue: the state of the buffers, the new
  list, the bytes and messages taken off, and the length left to delete.
\<close>

definition delmsg_list :: "MQData \<Rightarrow> Msg list \<Rightarrow> nat \<Rightarrow> (MQData \<times> Msg list \<times> nat \<times> nat \<times> nat) option" where
  "delmsg_list d ms n = (case ms of
     [] \<Rightarrow> None
   | m # rest \<Rightarrow>
       let msglen = length (msg (mbs d (mbuf m))) - sent m
       in if n \<ge> msglen
          then (case msgq_clean d (mbuf m) of
              None \<Rightarrow> None
            | Some d1 \<Rightarrow> Some (d1\<lparr>msgs_used := msgs_used d1 - 1, msgs_free := msgs_free d1 + 1\<rparr>, rest, msglen, 1, n - msglen))
          else Some (d, m\<lparr>sent := sent m + n\<rparr> # rest, n, 0, 0))"

definition msgq_delmsg :: "MQData \<Rightarrow> MsgQ \<Rightarrow> bool \<Rightarrow> nat \<Rightarrow> (MQData \<times> MsgQ \<times> nat) option" where
  "msgq_delmsg d mq is_prio n =
    map_option (\<lambda>(d', ms, bytes, cnt, n').
        (d', (let mq' = mq\<lparr>qlength := qlength mq - bytes, qcount := qcount mq - cnt\<rparr>
              in if is_prio then mq'\<lparr>prio := ms\<rparr> else mq'\<lparr>queue := ms\<rparr>), n'))
      (delmsg_list d (if is_prio then prio mq else queue mq) n)"

text \<open>Which list the next byte to be sent is in.\<close>

definition next_list :: "MsgQ \<Rightarrow> bool option" where
  "next_list mq =
    (if queue mq \<noteq> [] \<and> sent (hd (queue mq)) > 0 then Some False
     else if prio mq \<noteq> [] then Some True
     else if queue mq \<noteq> [] then Some False
     else None)"

partial_function (option) msgq_delete :: "MQData \<Rightarrow> MsgQ \<Rightarrow> nat \<Rightarrow> (MQData \<times> MsgQ) option" where
  "msgq_delete d mq n =
    (if n = 0 then Some (d, mq)
     else case next_list mq of
       None \<Rightarrow> Some (d, mq)
     | Some is_prio \<Rightarrow> (case msgq_delmsg d mq is_prio n of
           None \<Rightarrow> None
         | Some (d', mq', n') \<Rightarrow> msgq_delete d' mq' n'))"

text \<open>Filling vector elements until the space is used up.\<close>

fun iov_fill :: "string list \<Rightarrow> nat \<Rightarrow> string list \<times> nat" where
  "iov_fill [] cnt = ([], cnt)"
| "iov_fill (s # ss) cnt =
    (if cnt - 1 = 0 then ([s], 0) else (case iov_fill ss (cnt - 1) of (r, cnt') \<Rightarrow> (s # r, cnt')))"

definition rest_of :: "MQData \<Rightarrow> Msg \<Rightarrow> string" where
  "rest_of d m = drop (sent m) (msg (mbs d (mbuf m)))"

definition whole :: "MQData \<Rightarrow> Msg \<Rightarrow> string" where
  "whole d m = msg (mbs d (mbuf m))"

definition partial_head :: "Msg list \<Rightarrow> bool" where
  "partial_head ms \<longleftrightarrow> ms \<noteq> [] \<and> sent (hd ms) > 0"

definition iov_stage :: "string list \<Rightarrow> string list \<times> nat \<Rightarrow> string list \<times> nat" where
  "iov_stage segs st = (case st of (iov, cnt) \<Rightarrow>
     if cnt = 0 then st else (case iov_fill segs cnt of (r, cnt') \<Rightarrow> (iov @ r, cnt')))"

definition msgq_mapiov :: "MQData \<Rightarrow> MsgQ \<Rightarrow> nat \<Rightarrow> string list" where
  "msgq_mapiov d mq cnt =
    (if qlength mq \<le> 0 then []
     else
       let (q_segs, q_rest) = (if partial_head (queue mq) then ([rest_of d (hd (queue mq))], tl (queue mq)) else ([], queue mq));
           (p_segs, p_rest) = (if partial_head (prio mq) then ([rest_of d (hd (prio mq))], tl (prio mq)) else ([], prio mq))
       in fst (iov_stage (map (whole d) q_rest) (iov_stage (map (whole d) p_rest)
            (iov_stage p_segs (iov_stage q_segs ([], cnt))))))"

text \<open>The parts of \<open>msgq_add\<close>: a \<open>Msg\<close> structure, the real buffer, and the link into the list.\<close>

definition take_msg :: "MQData \<Rightarrow> MQData" where
  "take_msg d =
    (let d1 = (if msgs_free d = 0 then d\<lparr>msgs_alloc := msgs_alloc d + 1\<rparr> else d\<lparr>msgs_free := msgs_free d - 1\<rparr>)
     in d1\<lparr>msgs_used := msgs_used d1 + 1\<rparr>)"

definition count_size :: "nat \<Rightarrow> MQData \<Rightarrow> MQData" where
  "count_size len d = d\<lparr>sizes_msgs := sizes_msgs d + 1, sizes := (sizes d)(len - 1 := sizes d (len - 1) + 1)\<rparr>"

definition real_buffer :: "int \<Rightarrow> MQData \<Rightarrow> nat \<Rightarrow> MQData option" where
  "real_buffer bufferpool d b =
    (if real (mbs d b) \<noteq> None then Some d
     else let len = length (msg (mbs d b))
          in case msgq_alloc bufferpool (count_size len d) (Some b) len of
               Some (Some tmp, d3) \<Rightarrow>
                 Some (if tmp = b then d3
                       else (upd_mb tmp (\<lambda>mb. mb\<lparr>msg := msg (mbs d3 b)\<rparr>) d3)
                              \<lparr>msglist := map (\<lambda>x. if x = b then tmp else x) (msglist d3)\<rparr>)
             | _ \<Rightarrow> None)"

definition link_msg :: "MQData \<Rightarrow> MsgQ \<Rightarrow> nat \<Rightarrow> bool \<Rightarrow> MQData \<times> MsgQ" where
  "link_msg d mq r is_prio =
    (let d' = upd_mb r (\<lambda>mb. mb\<lparr>ref := ref mb + 1\<rparr>) d;
         m = \<lparr>sent = 0, mbuf = r\<rparr>;
         mq' = mq\<lparr>qlength := qlength mq + length (msg (mbs d' r)), qcount := qcount mq + 1\<rparr>
     in (d', if is_prio then mq'\<lparr>prio := prio mq @ [m]\<rparr> else mq'\<lparr>queue := queue mq @ [m]\<rparr>))"

definition msgq_add :: "int \<Rightarrow> MQData \<Rightarrow> MsgQ \<Rightarrow> nat \<Rightarrow> bool \<Rightarrow> (MQData \<times> MsgQ) option" where
  "msgq_add bufferpool d mq b is_prio =
    (if ref (mbs d b) = 0 \<or> msg (mbs d b) = [] then None
     else map_option (\<lambda>d'. link_msg d' mq (the (real (mbs d' b))) is_prio) (real_buffer bufferpool (take_msg d) b))"

section \<open>The bytes of a queue in the order they are sent\<close>

definition segs :: "MQData \<Rightarrow> MsgQ \<Rightarrow> string list" where
  "segs d mq =
    (if partial_head (queue mq) then [rest_of d (hd (queue mq))] else []) @
    map (rest_of d) (prio mq) @
    map (rest_of d) (if partial_head (queue mq) then tl (queue mq) else queue mq)"

definition wire :: "MQData \<Rightarrow> MsgQ \<Rightarrow> string" where
  "wire d mq = concat (segs d mq)"

text \<open>Only one message is partly sent, and it is at the head of its list.\<close>

definition list_ok :: "MQData \<Rightarrow> Msg list \<Rightarrow> bool" where
  "list_ok d ms \<longleftrightarrow> (\<forall>m \<in> set ms. sent m < length (msg (mbs d (mbuf m)))) \<and> (\<forall>m \<in> set (tl ms). sent m = 0)"

definition mq_ok :: "MQData \<Rightarrow> MsgQ \<Rightarrow> bool" where
  "mq_ok d mq \<longleftrightarrow> list_ok d (queue mq) \<and> list_ok d (prio mq) \<and>
    \<not> (partial_head (queue mq) \<and> partial_head (prio mq)) \<and>
    qlength mq = length (wire d mq) \<and> qcount mq = length (queue mq) + length (prio mq)"

lemma partial_head_simps [simp]: "\<not> partial_head []" "partial_head (m # ms) \<longleftrightarrow> 0 < sent m"
  by (simp_all add: partial_head_def)

lemma list_ok_simps [simp]:
  "list_ok d []"
  "list_ok d (m # ms) \<longleftrightarrow> sent m < length (msg (mbs d (mbuf m))) \<and> (\<forall>m \<in> set ms. sent m = 0 \<and> msg (mbs d (mbuf m)) \<noteq> [])"
  by (auto simp: list_ok_def)

lemma list_ok_tl: "list_ok d (m # ms) \<Longrightarrow> list_ok d ms \<and> \<not> partial_head ms"
  by (cases ms) auto

lemma whole_rest: "sent m = 0 \<Longrightarrow> whole d m = rest_of d m"
  by (simp add: whole_def rest_of_def)

lemma iov_fill_take: "0 < cnt \<Longrightarrow> iov_fill ss cnt = (take cnt ss, cnt - length ss)"
proof (induction ss cnt rule: iov_fill.induct)
  case (2 s ss cnt)
  show ?case
  proof (cases "cnt - 1 = 0")
    case True
    with "2.prems" have "cnt = 1" by simp
    then show ?thesis by simp
  next
    case False
    with 2 show ?thesis by (cases cnt) auto
  qed
qed simp

lemma iov_stage_take: "iov_stage ss (iov, cnt) = (iov @ take cnt ss, cnt - length ss)"
  by (cases "cnt = 0") (simp_all add: iov_stage_def iov_fill_take)

lemma map_whole: "\<forall>m \<in> set ms. sent m = 0 \<Longrightarrow> map (whole d) ms = map (rest_of d) ms"
  by (simp add: whole_rest)

lemma mapiov_segs:
  assumes "mq_ok d mq"
  shows "msgq_mapiov d mq cnt = take cnt (segs d mq)"
proof (cases "qlength mq = 0")
  case True
  then have w: "wire d mq = []" using assms by (simp add: mq_ok_def)
  have "rest_of d m \<noteq> []" if "m \<in> set (queue mq) \<union> set (prio mq)" for m
    using assms that by (auto simp: mq_ok_def list_ok_def rest_of_def)
  then have "segs d mq = []" using w
    by (cases "queue mq"; cases "prio mq") (auto simp: wire_def segs_def split: if_splits)
  with True show ?thesis by (simp add: msgq_mapiov_def)
next
  case False
  have z: "\<forall>m \<in> set (if partial_head ms then tl ms else ms). sent m = 0" if "list_ok d ms" for ms
    using that by (cases ms) (auto simp: list_ok_def)
  have q: "map (whole d) (if partial_head (queue mq) then tl (queue mq) else queue mq) =
      map (rest_of d) (if partial_head (queue mq) then tl (queue mq) else queue mq)"
    by (rule map_whole, rule z) (use assms in \<open>simp add: mq_ok_def\<close>)
  have p: "map (whole d) (if partial_head (prio mq) then tl (prio mq) else prio mq) =
      map (rest_of d) (if partial_head (prio mq) then tl (prio mq) else prio mq)"
    by (rule map_whole, rule z) (use assms in \<open>simp add: mq_ok_def\<close>)
  have ph: "(if partial_head (prio mq) then [rest_of d (hd (prio mq))] else []) @
      map (rest_of d) (if partial_head (prio mq) then tl (prio mq) else prio mq) = map (rest_of d) (prio mq)"
    by (cases "prio mq") auto
  have "msgq_mapiov d mq cnt = take cnt ((if partial_head (queue mq) then [rest_of d (hd (queue mq))] else []) @
      (if partial_head (prio mq) then [rest_of d (hd (prio mq))] else []) @
      map (rest_of d) (if partial_head (prio mq) then tl (prio mq) else prio mq) @
      map (rest_of d) (if partial_head (queue mq) then tl (queue mq) else queue mq))"
  proof -
    have "msgq_mapiov d mq cnt = fst (iov_stage (map (whole d) (if partial_head (queue mq) then tl (queue mq) else queue mq))
      (iov_stage (map (whole d) (if partial_head (prio mq) then tl (prio mq) else prio mq))
        (iov_stage (if partial_head (prio mq) then [rest_of d (hd (prio mq))] else [])
          (iov_stage (if partial_head (queue mq) then [rest_of d (hd (queue mq))] else []) ([], cnt)))))"
      using False by (simp add: msgq_mapiov_def)
    then show ?thesis unfolding q p by (simp add: iov_stage_take)
  qed
  also have "\<dots> = take cnt (segs d mq)" using ph unfolding segs_def by (metis append.assoc)
  finally show ?thesis .
qed

section \<open>Taking bytes off a queue\<close>

definition get_list :: "bool \<Rightarrow> MsgQ \<Rightarrow> Msg list" where
  "get_list ip mq = (if ip then prio mq else queue mq)"

definition set_list :: "bool \<Rightarrow> Msg list \<Rightarrow> MsgQ \<Rightarrow> MsgQ" where
  "set_list ip ms mq = (if ip then mq\<lparr>prio := ms\<rparr> else mq\<lparr>queue := ms\<rparr>)"

definition lists_ok :: "MQData \<Rightarrow> MsgQ \<Rightarrow> bool" where
  "lists_ok d mq \<longleftrightarrow> list_ok d (queue mq) \<and> list_ok d (prio mq) \<and> \<not> (partial_head (queue mq) \<and> partial_head (prio mq))"

lemma wire_upd [simp]:
  "wire d (mq\<lparr>qlength := x\<rparr>) = wire d mq" "wire d (mq\<lparr>qcount := y\<rparr>) = wire d mq"
  "lists_ok d (mq\<lparr>qlength := x\<rparr>) = lists_ok d mq" "lists_ok d (mq\<lparr>qcount := y\<rparr>) = lists_ok d mq"
  by (simp_all add: wire_def segs_def lists_ok_def)

lemma next_list_head:
  assumes "lists_ok d mq" "next_list mq = Some ip" "get_list ip mq = m # rest"
  shows "wire d mq = rest_of d m @ wire d (set_list ip rest mq)" "lists_ok d (set_list ip rest mq)"
    "\<lbrakk>mbuf m' = mbuf m; 0 < sent m'; sent m' < length (msg (mbs d (mbuf m)))\<rbrakk> \<Longrightarrow>
       wire d (set_list ip (m' # rest) mq) = rest_of d m' @ wire d (set_list ip rest mq) \<and> lists_ok d (set_list ip (m' # rest) mq)"
proof -
  have l: "list_ok d (m # rest)" using assms(1,3) by (auto simp: lists_ok_def get_list_def split: if_splits)
  note t = list_ok_tl [OF l]
  show "wire d mq = rest_of d m @ wire d (set_list ip rest mq)"
    using assms t by (auto simp: wire_def segs_def next_list_def get_list_def set_list_def lists_ok_def partial_head_def split: if_splits)
  show "lists_ok d (set_list ip rest mq)"
    using assms t by (auto simp: lists_ok_def next_list_def get_list_def set_list_def split: if_splits)
  show "wire d (set_list ip (m' # rest) mq) = rest_of d m' @ wire d (set_list ip rest mq) \<and> lists_ok d (set_list ip (m' # rest) mq)"
    if "mbuf m' = mbuf m" "0 < sent m'" "sent m' < length (msg (mbs d (mbuf m)))"
  proof -
    have "list_ok d (m' # rest)" using l that by auto
    then show ?thesis using assms t that
      by (auto simp: wire_def segs_def lists_ok_def next_list_def get_list_def set_list_def partial_head_def split: if_splits)
  qed
qed

section \<open>References\<close>

text \<open>
  \<open>H b\<close> is the number of references to a buffer other than those of this queue: those of other queues,
  of whoever made the message, and of message buffers whose \<open>real\<close> buffer it is.
\<close>

definition uses :: "MsgQ \<Rightarrow> nat \<Rightarrow> nat" where
  "uses mq b = count (mset (map mbuf (queue mq)) + mset (map mbuf (prio mq))) b"

definition real_ok :: "MQData \<Rightarrow> nat \<Rightarrow> bool" where
  "real_ok d b \<longleftrightarrow> real (mbs d b) = None \<or> real (mbs d b) = Some b"

definition refs_ok :: "MQData \<Rightarrow> (nat \<Rightarrow> nat) \<Rightarrow> MsgQ \<Rightarrow> bool" where
  "refs_ok d H mq \<longleftrightarrow>
    (\<forall>b. ref (mbs d b) = H b + uses mq b) \<and>
    (\<forall>m \<in> set (queue mq) \<union> set (prio mq). real_ok d (mbuf m)) \<and>
    (\<forall>pw. distinct (mb_free d pw) \<and> (\<forall>b \<in> set (mb_free d pw). ref (mbs d b) = 0 \<and> power (mbs d b) = pw)) \<and>
    (\<forall>b \<ge> mb_next d. ref (mbs d b) = 0 \<and> (\<forall>pw. b \<notin> set (mb_free d pw))) \<and>
    (\<forall>b r. 0 < ref (mbs d b) \<longrightarrow> real (mbs d b) = Some r \<longrightarrow> r \<noteq> b \<longrightarrow>
       msg (mbs d r) = msg (mbs d b) \<and> 0 < H r \<and> real_ok d r)"

lemma clean_queued:
  assumes "real_ok d b" "0 < ref (mbs d b)"
  shows "\<exists>d'. msgq_clean d b = Some d' \<and> mbs d' = (mbs d)(b := (mbs d b)\<lparr>ref := ref (mbs d b) - 1\<rparr>) \<and>
    mb_next d' = mb_next d \<and>
    mb_free d' = (if ref (mbs d b) = 1 then (mb_free d)(power (mbs d b) := b # mb_free d (power (mbs d b))) else mb_free d)"
  using assms by (subst msgq_clean.simps) (auto simp: real_ok_def Let_def)

lemma uses_set_list: "uses (set_list ip (m # rest) mq) b = uses (set_list ip rest mq) b + (if b = mbuf m then 1 else 0)"
  by (simp add: uses_def set_list_def)

lemma set_list_get: "set_list ip (get_list ip mq) mq = mq"
  by (simp add: set_list_def get_list_def)

lemma refs_ok_clean:
  assumes r: "refs_ok d H mq" and g: "get_list ip mq = m # rest"
  shows "\<exists>d'. msgq_clean d (mbuf m) = Some d' \<and> refs_ok d' H (set_list ip rest mq) \<and> (\<forall>b. msg (mbs d' b) = msg (mbs d b))"
proof -
  let ?b = "mbuf m"
  have u: "uses mq b = uses (set_list ip rest mq) b + (if b = ?b then 1 else 0)" for b
    using uses_set_list [of ip m rest mq b] set_list_get [of ip mq] g by simp
  have rf: "ref (mbs d b) = H b + uses mq b" for b using r by (simp add: refs_ok_def)
  have mem: "m \<in> set (queue mq) \<union> set (prio mq)" using g by (auto simp: get_list_def split: if_splits)
  then have ro: "real_ok d ?b" using r by (auto simp: refs_ok_def)
  have pos: "0 < ref (mbs d ?b)" using rf [of ?b] u [of ?b] by simp
  obtain d' where d': "msgq_clean d ?b = Some d'" "mbs d' = (mbs d)(?b := (mbs d ?b)\<lparr>ref := ref (mbs d ?b) - 1\<rparr>)"
    "mb_next d' = mb_next d"
    "mb_free d' = (if ref (mbs d ?b) = 1 then (mb_free d)(power (mbs d ?b) := ?b # mb_free d (power (mbs d ?b))) else mb_free d)"
    using clean_queued [OF ro pos] by blast
  have same: "msg (mbs d' b) = msg (mbs d b)" "real (mbs d' b) = real (mbs d b)" "power (mbs d' b) = power (mbs d b)" for b
    by (simp_all add: d'(2))
  have rf': "ref (mbs d' b) = H b + uses (set_list ip rest mq) b" for b
    using rf [of b] u [of b] by (cases "b = ?b") (simp_all add: d'(2))
  have ro': "real_ok d' b = real_ok d b" for b by (simp add: real_ok_def same)
  have fr: "ref (mbs d b) = 0 \<Longrightarrow> ref (mbs d' b) = 0" for b by (cases "b = ?b") (simp_all add: d'(2))
  have nf: "?b \<notin> set (mb_free d pw)" for pw using r pos by (auto simp: refs_ok_def)
  have free_ok: "distinct (mb_free d' pw) \<and> (\<forall>b \<in> set (mb_free d' pw). ref (mbs d' b) = 0 \<and> power (mbs d' b) = pw)" for pw
    using r nf by (auto simp: refs_ok_def d'(4) d'(2))
  have next_ok: "ref (mbs d' b) = 0 \<and> (\<forall>pw. b \<notin> set (mb_free d' pw))" if "b \<ge> mb_next d'" for b
  proof -
    have "ref (mbs d b) = 0" "\<forall>pw. b \<notin> set (mb_free d pw)" using r that d'(3) by (auto simp: refs_ok_def)
    then show ?thesis using pos fr by (auto simp: d'(4))
  qed
  have "refs_ok d' H (set_list ip rest mq)"
    unfolding refs_ok_def
  proof (intro conjI allI impI ballI)
    fix m' assume "m' \<in> set (queue (set_list ip rest mq)) \<union> set (prio (set_list ip rest mq))"
    then have "m' \<in> set (queue mq) \<union> set (prio mq)" using g by (auto simp: set_list_def get_list_def split: if_splits)
    then show "real_ok d' (mbuf m')" using r by (auto simp: refs_ok_def ro')
  next
    fix b q assume h: "0 < ref (mbs d' b)" "real (mbs d' b) = Some q" "q \<noteq> b"
    then have "0 < ref (mbs d b)" using fr by (metis not_gr_zero)
    with h r have k: "msg (mbs d q) = msg (mbs d b) \<and> 0 < H q \<and> real_ok d q" by (simp add: refs_ok_def same)
    then show "msg (mbs d' q) = msg (mbs d' b)" "0 < H q" "real_ok d' q" by (simp_all add: same ro')
  qed (use rf' free_ok next_ok in auto)
  with d'(1) same(1) show ?thesis by blast
qed

lemma same_msgs:
  assumes "\<forall>b. msg (mbs d' b) = msg (mbs d b)"
  shows "wire d' mq = wire d mq" "lists_ok d' mq = lists_ok d mq" "rest_of d' m = rest_of d m"
proof -
  have r: "rest_of d' = rest_of d" using assms by (simp add: rest_of_def fun_eq_iff)
  then show "rest_of d' m = rest_of d m" by simp
  show "wire d' mq = wire d mq" using r by (simp add: wire_def segs_def)
  show "lists_ok d' mq = lists_ok d mq" using assms by (simp add: lists_ok_def list_ok_def)
qed

lemma refs_ok_cong:
  assumes r: "refs_ok d H mq" and u: "\<And>b. uses mq' b = uses mq b"
    and l: "\<forall>x \<in> set (queue mq') \<union> set (prio mq'). real_ok d (mbuf x)"
    and d: "mbs d' = mbs d" "mb_free d' = mb_free d" "mb_next d' = mb_next d"
  shows "refs_ok d' H mq'"
proof -
  have ro: "real_ok d' = real_ok d" using d(1) by (simp add: real_ok_def fun_eq_iff)
  have u': "uses mq' = uses mq" using u by blast
  show ?thesis using r l unfolding refs_ok_def d ro u' by blast
qed

lemma refs_ok_lists:
  assumes "refs_ok d H mq" "queue mq' = queue mq" "prio mq' = prio mq" "mbs d' = mbs d" "mb_free d' = mb_free d" "mb_next d' = mb_next d"
  shows "refs_ok d' H mq'"
  by (rule refs_ok_cong [OF assms(1)]) (use assms in \<open>simp_all add: uses_def refs_ok_def\<close>)

lemma refs_ok_sent:
  assumes "refs_ok d H mq" "get_list ip mq = m # rest" "mbuf m' = mbuf m"
  shows "refs_ok d H (set_list ip (m' # rest) mq)"
proof -
  have "uses (set_list ip (m' # rest) mq) b = uses mq b" for b
    using uses_set_list [of ip m' rest mq b] uses_set_list [of ip m rest mq b] assms(2,3) set_list_get [of ip mq] by simp
  moreover have "\<forall>x \<in> set (queue (set_list ip (m' # rest) mq)) \<union> set (prio (set_list ip (m' # rest) mq)). real_ok d (mbuf x)"
    using assms by (auto simp: refs_ok_def set_list_def get_list_def split: if_splits)
  ultimately show ?thesis using refs_ok_cong [OF assms(1)] by blast
qed

lemma wire_lists:
  "queue mq' = queue mq \<Longrightarrow> prio mq' = prio mq \<Longrightarrow> wire d mq' = wire d mq"
  "queue mq' = queue mq \<Longrightarrow> prio mq' = prio mq \<Longrightarrow> lists_ok d mq' = lists_ok d mq"
  by (simp_all add: wire_def segs_def lists_ok_def)

definition queue_ok :: "MQData \<Rightarrow> (nat \<Rightarrow> nat) \<Rightarrow> MsgQ \<Rightarrow> bool" where
  "queue_ok d H mq \<longleftrightarrow> mq_ok d mq \<and> refs_ok d H mq"

lemma mq_ok_lists: "mq_ok d mq \<longleftrightarrow> lists_ok d mq \<and> qlength mq = length (wire d mq) \<and> qcount mq = length (queue mq) + length (prio mq)"
  by (auto simp: mq_ok_def lists_ok_def)

text \<open>One call of \<open>msgq_delmsg\<close> on the list that is sent next.\<close>

lemma delmsg_ok:
  assumes ok: "queue_ok d H mq" and nl: "next_list mq = Some ip" and n: "0 < n"
  shows "\<exists>d' mq' n'. msgq_delmsg d mq ip n = Some (d', mq', n') \<and> queue_ok d' H mq' \<and>
    (\<forall>b. msg (mbs d' b) = msg (mbs d b)) \<and> n' \<le> n \<and> wire d' mq' = drop (n - n') (wire d mq) \<and>
    n - n' \<le> length (wire d mq) \<and> (n' = 0 \<or> qcount mq' < qcount mq)"
proof -
  have mq: "mq_ok d mq" "lists_ok d mq" "refs_ok d H mq" using ok by (auto simp: queue_ok_def mq_ok_lists)
  obtain m rest where g: "get_list ip mq = m # rest"
    using nl by (cases "get_list ip mq") (auto simp: next_list_def get_list_def split: if_splits)
  note h = next_list_head [OF mq(2) nl g]
  have lo: "list_ok d (m # rest)" using mq(2) g by (auto simp: lists_ok_def get_list_def split: if_splits)
  define k where "k = length (msg (mbs d (mbuf m))) - sent m"
  have k: "0 < k" "length (rest_of d m) = k" using lo by (auto simp: k_def rest_of_def)
  have cnt: "qcount mq = Suc (length (queue (set_list ip rest mq)) + length (prio (set_list ip rest mq)))"
    using mq(1) g by (auto simp: mq_ok_def set_list_def get_list_def split: if_splits)
  have wl: "length (wire d mq) = k + length (wire d (set_list ip rest mq))" using h(1) k(2) by simp
  show ?thesis
  proof (cases "n \<ge> k")
    case True
    obtain d1 where c: "msgq_clean d (mbuf m) = Some d1" "refs_ok d1 H (set_list ip rest mq)" "\<forall>b. msg (mbs d1 b) = msg (mbs d b)"
      using refs_ok_clean [OF mq(3) g] by blast
    let ?d = "d1\<lparr>msgs_used := msgs_used d1 - 1, msgs_free := msgs_free d1 + 1\<rparr>"
    let ?mq = "set_list ip rest (mq\<lparr>qlength := qlength mq - k, qcount := qcount mq - 1\<rparr>)"
    have msgs: "\<forall>b. msg (mbs ?d b) = msg (mbs d b)" using c(3) by simp
    have e: "msgq_delmsg d mq ip n = Some (?d, ?mq, n - k)"
      using g True c(1) by (simp add: msgq_delmsg_def delmsg_list_def get_list_def set_list_def k_def Let_def)
    have l: "queue ?mq = queue (set_list ip rest mq)" "prio ?mq = prio (set_list ip rest mq)" by (simp_all add: set_list_def)
    have w: "wire ?d ?mq = wire d (set_list ip rest mq)" "lists_ok ?d ?mq"
      using same_msgs(1,2) [OF msgs, of ?mq] h(2) wire_lists [OF l, of d] by simp_all
    have f: "qlength ?mq = qlength mq - k" "qcount ?mq = qcount mq - 1" by (simp_all add: set_list_def)
    have "qlength mq = length (wire d mq)" using mq(1) by (simp add: mq_ok_def)
    then have "mq_ok ?d ?mq" unfolding mq_ok_lists w(1) f l using w(2) wl cnt by simp
    moreover have "refs_ok ?d H ?mq" by (rule refs_ok_lists [OF c(2) l]) simp_all
    ultimately have "queue_ok ?d H ?mq" by (simp add: queue_ok_def)
    moreover have "wire ?d ?mq = drop (n - (n - k)) (wire d mq)" using w(1) h(1) k(2) True by simp
    moreover have "qcount ?mq < qcount mq" using cnt by (simp add: set_list_def)
    ultimately show ?thesis using e msgs wl True by auto
  next
    case False
    let ?m = "m\<lparr>sent := sent m + n\<rparr>"
    let ?mq = "set_list ip (?m # rest) (mq\<lparr>qlength := qlength mq - n\<rparr>)"
    have e: "msgq_delmsg d mq ip n = Some (d, ?mq, 0)"
      using g False by (simp add: msgq_delmsg_def delmsg_list_def get_list_def set_list_def k_def Let_def)
    have l: "queue ?mq = queue (set_list ip (?m # rest) mq)" "prio ?mq = prio (set_list ip (?m # rest) mq)" by (simp_all add: set_list_def)
    have hm: "wire d (set_list ip (?m # rest) mq) = rest_of d ?m @ wire d (set_list ip rest mq)" "lists_ok d (set_list ip (?m # rest) mq)"
      using h(3) [of ?m] n False by (auto simp: k_def)
    have r: "rest_of d ?m = drop n (rest_of d m)" by (simp add: rest_of_def add.commute)
    have w: "wire d ?mq = drop n (wire d mq)" using hm(1) h(1) r k(2) False wire_lists(1) [OF l, of d] by simp
    have "lists_ok d ?mq" using hm(2) wire_lists(2) [OF l, of d] by simp
    moreover have "qlength ?mq = qlength mq - n" by (simp add: set_list_def)
    then have "qlength ?mq = length (wire d ?mq)" unfolding w using mq(1) by (simp add: mq_ok_def)
    moreover have "qcount ?mq = length (queue ?mq) + length (prio ?mq)"
      using cnt l by (simp add: set_list_def)
    ultimately have "mq_ok d ?mq" by (simp add: mq_ok_lists)
    moreover have "refs_ok d H ?mq" by (rule refs_ok_lists [OF refs_ok_sent [OF mq(3) g, of ?m] l]) simp_all
    ultimately show ?thesis using e w False wl by (auto simp: queue_ok_def)
  qed
qed

lemma next_list_None: "next_list mq = None \<longleftrightarrow> queue mq = [] \<and> prio mq = []"
  by (auto simp: next_list_def)

lemma msgq_delete_ok:
  "queue_ok d H mq \<Longrightarrow>
   \<exists>d' mq'. msgq_delete d mq n = Some (d', mq') \<and> queue_ok d' H mq' \<and> wire d' mq' = drop n (wire d mq) \<and>
     (\<forall>b. msg (mbs d' b) = msg (mbs d b))"
proof (induction "qcount mq" arbitrary: d mq n rule: less_induct)
  case less
  show ?case
  proof (cases "n = 0")
    case True
    with less.prems show ?thesis by (subst msgq_delete.simps) simp
  next
    case False
    show ?thesis
    proof (cases "next_list mq")
      case None
      then have "wire d mq = []" by (simp add: next_list_None wire_def segs_def)
      with None False less.prems show ?thesis by (subst msgq_delete.simps) simp
    next
      case (Some ip)
      from delmsg_ok [OF less.prems Some, of n] False obtain d1 mq1 n1 where
        r: "msgq_delmsg d mq ip n = Some (d1, mq1, n1)" "queue_ok d1 H mq1" "\<forall>b. msg (mbs d1 b) = msg (mbs d b)"
          "n1 \<le> n" "wire d1 mq1 = drop (n - n1) (wire d mq)" "n1 = 0 \<or> qcount mq1 < qcount mq" by auto
      have s: "msgq_delete d mq n = msgq_delete d1 mq1 n1" using False Some r(1) by (subst msgq_delete.simps) simp
      show ?thesis
      proof (cases "n1 = 0")
        case True
        with s r show ?thesis by (simp add: msgq_delete.simps [of d1 mq1 0])
      next
        case nz: False
        with r(6) have "qcount mq1 < qcount mq" by simp
        from less.hyps [OF this r(2), of n1] obtain d2 mq2 where
          "msgq_delete d1 mq1 n1 = Some (d2, mq2)" "queue_ok d2 H mq2" "wire d2 mq2 = drop n1 (wire d1 mq1)"
          "\<forall>b. msg (mbs d2 b) = msg (mbs d1 b)" by blast
        with s r(3-5) show ?thesis by simp
      qed
    qed
  qed
qed

section \<open>Adding a message\<close>

lemma find_power_Some: "0 < len \<Longrightarrow> len \<le> 512 \<Longrightarrow> \<exists>pw. size_power len = Some pw"
proof -
  assume h: "0 < len" "len \<le> 512"
  have e: "[MB_BASE_SHIFT..<MB_MAX_SHIFT + 1] = [5, 6, 7, 8, 9]" by (simp add: MB_BASE_SHIFT_def MB_MAX_SHIFT_def upt_rec)
  have "(len - 1) div 2 ^ 9 = 0" using h by simp
  then show ?thesis using h unfolding size_power_def e by auto
qed

text \<open>A buffer for the bytes of \<open>b\<close>: \<open>b\<close> itself, or one that nobody refers to.\<close>

definition alloc_fits :: "MQData \<Rightarrow> nat \<Rightarrow> nat \<Rightarrow> MQData \<Rightarrow> bool" where
  "alloc_fits d b tmp d' \<longleftrightarrow>
    (tmp = b \<and> mbs d' = (mbs d)(b := (mbs d b)\<lparr>real := Some b\<rparr>) \<and> mb_free d' = mb_free d \<and> mb_next d' = mb_next d \<or>
     tmp \<noteq> b \<and> ref (mbs d tmp) = 0 \<and> real (mbs d' tmp) = None \<and> ref (mbs d' tmp) = 1 \<and>
     mbs d' b = (mbs d b)\<lparr>real := Some tmp\<rparr> \<and> (\<forall>c. c \<noteq> b \<longrightarrow> c \<noteq> tmp \<longrightarrow> mbs d' c = mbs d c) \<and>
     (\<forall>pw. distinct (mb_free d' pw) \<and> set (mb_free d' pw) \<subseteq> set (mb_free d pw) - {tmp}) \<and>
     mb_next d \<le> mb_next d' \<and> tmp < mb_next d')"

lemma msgq_alloc_fits:
  assumes r: "refs_ok d H mq" and b: "0 < ref (mbs d b)" and len: "0 < len" "len \<le> 512"
  shows "\<exists>tmp d'. msgq_alloc pool d (Some b) len = Some (Some tmp, d') \<and> alloc_fits d b tmp d'"
proof -
  obtain pw where pw: "size_power len = Some pw" using find_power_Some [OF len] by blast
  have fr: "distinct (mb_free d q)" "\<forall>x \<in> set (mb_free d q). ref (mbs d x) = 0 \<and> power (mbs d x) = q" for q
    using r by (auto simp: refs_ok_def)
  have nx: "ref (mbs d x) = 0" "x \<notin> set (mb_free d q)" if "x \<ge> mb_next d" for x q using r that by (auto simp: refs_ok_def)
  have other: "x \<notin> set (mb_free d q)" if "x \<in> set (mb_free d p)" "p \<noteq> q" for x p q
    using fr(2) [of p] fr(2) [of q] that by auto
  consider (same) "power (mbs d b) = pw" | (pop) x xs where "power (mbs d b) \<noteq> pw" "mb_free d pw = x # xs"
    | (fresh) "power (mbs d b) \<noteq> pw" "mb_free d pw = []" "tot_bufsize d < pool"
    | (full) "power (mbs d b) \<noteq> pw" "mb_free d pw = []" "\<not> tot_bufsize d < pool"
    by (cases "mb_free d pw") auto
  then show ?thesis
  proof cases
    case same
    then show ?thesis by (simp add: msgq_alloc_def pw alloc_fits_def)
  next
    case pop
    let ?d1 = "d\<lparr>mb_free := (mb_free d)(pw := xs), mb_used := (mb_used d)(pw := mb_used d pw + 1)\<rparr>"
    let ?d' = "upd_mb b (\<lambda>y. y\<lparr>real := Some x\<rparr>) (upd_mb x (\<lambda>mb. mb\<lparr>real := None, ref := 1\<rparr>) ?d1)"
    have x0: "ref (mbs d x) = 0" using fr(2) [of pw] pop by simp
    have x1: "x < mb_next d" using nx(2) [of x pw] pop by (cases "mb_next d \<le> x") auto
    have x2: "x \<notin> set xs" using fr(1) [of pw] pop by simp
    have x3: "x \<noteq> b" using x0 b by auto
    note x = x0 x3 x1 x2
    have "msgq_alloc pool d (Some b) len = Some (Some x, ?d')" using pop by (simp add: msgq_alloc_def pw Let_def)
    moreover have "distinct (mb_free ?d' q) \<and> set (mb_free ?d' q) \<subseteq> set (mb_free d q) - {x}" for q
      using fr(1) [of q] fr(1) [of pw] pop x(4) other [of x pw q] by auto
    ultimately show ?thesis using x by (auto simp: alloc_fits_def intro!: exI [of _ x] exI [of _ ?d'])
  next
    case fresh
    let ?n = "mb_next d"
    let ?d1 = "upd_mb ?n (\<lambda>mb. mb\<lparr>power := pw\<rparr>) (d\<lparr>mb_alloc := (mb_alloc d)(pw := mb_alloc d pw + 1),
       tot_bufsize := tot_bufsize d + 2 ^ pw, mb_next := mb_next d + 1\<rparr>)"
    let ?d' = "upd_mb b (\<lambda>y. y\<lparr>real := Some ?n\<rparr>) (upd_mb ?n (\<lambda>mb. mb\<lparr>real := None, ref := 1\<rparr>)
       (?d1\<lparr>mb_used := (mb_used d)(pw := mb_used d pw + 1)\<rparr>))"
    have x: "ref (mbs d ?n) = 0" "?n \<noteq> b" using nx(1) [of ?n] b by auto
    have "msgq_alloc pool d (Some b) len = Some (Some ?n, ?d')" using fresh by (simp add: msgq_alloc_def pw Let_def)
    moreover have "distinct (mb_free ?d' q) \<and> set (mb_free ?d' q) \<subseteq> set (mb_free d q) - {?n}" for q
      using fr(1) [of q] nx(2) [of ?n q] by auto
    ultimately show ?thesis using x by (auto simp: alloc_fits_def intro!: exI [of _ ?n] exI [of _ ?d'])
  next
    case full
    then show ?thesis by (simp add: msgq_alloc_def pw alloc_fits_def)
  qed
qed

lemma alloc_fits_msgs: "alloc_fits d b tmp d' \<Longrightarrow> 0 < ref (mbs d c) \<Longrightarrow> msg (mbs d' c) = msg (mbs d c)"
  by (cases "c = b") (auto simp: alloc_fits_def)

text \<open>The state after the message has been given its real buffer and the reference of the queue.\<close>

definition with_real :: "MQData \<Rightarrow> nat \<Rightarrow> nat \<Rightarrow> MQData \<Rightarrow> (nat \<Rightarrow> nat) \<Rightarrow> (nat \<Rightarrow> nat) \<Rightarrow> MsgQ \<Rightarrow> bool" where
  "with_real d b r d' H H' mq \<longleftrightarrow> refs_ok d' H' mq \<and> real (mbs d' b) = Some r \<and> real_ok d' r \<and>
     0 < ref (mbs d' r) \<and> msg (mbs d' r) = msg (mbs d b) \<and> (\<forall>c. 0 < ref (mbs d c) \<longrightarrow> msg (mbs d' c) = msg (mbs d c) \<and> H c \<le> H' c)"

text \<open>A message that has been made but not been put into a queue: its maker alone refers to it.\<close>

definition unqueued :: "MQData \<Rightarrow> MsgQ \<Rightarrow> nat \<Rightarrow> bool" where
  "unqueued d mq b \<longleftrightarrow> real (mbs d b) = None \<and> uses mq b = 0 \<and> (\<forall>c. 0 < ref (mbs d c) \<longrightarrow> real (mbs d c) \<noteq> Some b)"

lemma refs_ok_copy:
  assumes r: "refs_ok d H mq" and b: "0 < ref (mbs d b)" "unqueued d mq b" and a: "alloc_fits d b tmp d1"
    and d': "tmp \<noteq> b \<Longrightarrow> mbs d' = (mbs d1)(tmp := (mbs d1 tmp)\<lparr>msg := msg (mbs d1 b)\<rparr>)" "tmp = b \<Longrightarrow> mbs d' = mbs d1"
      "mb_free d' = mb_free d1" "mb_next d' = mb_next d1"
  shows "with_real d b tmp d' H (if tmp = b then H else H(tmp := 1)) mq"
proof (cases "tmp = b")
  case True
  then have m: "mbs d' = (mbs d)(b := (mbs d b)\<lparr>real := Some b\<rparr>)" "mb_free d' = mb_free d" "mb_next d' = mb_next d"
    using a d' by (auto simp: alloc_fits_def)
  have same: "msg (mbs d' c) = msg (mbs d c)" "ref (mbs d' c) = ref (mbs d c)" "power (mbs d' c) = power (mbs d c)"
    "c \<noteq> b \<Longrightarrow> real (mbs d' c) = real (mbs d c)" "real (mbs d' b) = Some b" for c by (auto simp: m(1))
  have ro: "real_ok d c \<Longrightarrow> real_ok d' c" "real_ok d' b" for c using same(4) [of c] same(5) by (cases "c = b"; auto simp: real_ok_def)+
  have "refs_ok d' H mq" unfolding refs_ok_def m(2,3) same(2,3)
  proof (intro conjI)
    show "\<forall>c q. 0 < ref (mbs d c) \<longrightarrow> real (mbs d' c) = Some q \<longrightarrow> q \<noteq> c \<longrightarrow>
        msg (mbs d' q) = msg (mbs d' c) \<and> 0 < H q \<and> real_ok d' q"
    proof (intro allI impI)
      fix c q assume h: "0 < ref (mbs d c)" "real (mbs d' c) = Some q" "q \<noteq> c"
      then have "c \<noteq> b" using same(5) by auto
      then have "real (mbs d c) = Some q" using h(2) same(4) by simp
      then have "msg (mbs d q) = msg (mbs d c) \<and> 0 < H q \<and> real_ok d q" using r h by (simp add: refs_ok_def)
      then show "msg (mbs d' q) = msg (mbs d' c) \<and> 0 < H q \<and> real_ok d' q" using same(1) ro(1) by simp
    qed
  qed (use r ro in \<open>auto simp: refs_ok_def\<close>)
  with True same ro b(1) show ?thesis by (simp add: with_real_def)
next
  case False
  note d1 = a [unfolded alloc_fits_def]
  have d1': "ref (mbs d tmp) = 0" "real (mbs d1 tmp) = None" "ref (mbs d1 tmp) = 1" "mbs d1 b = (mbs d b)\<lparr>real := Some tmp\<rparr>"
    "\<And>c. c \<noteq> b \<Longrightarrow> c \<noteq> tmp \<Longrightarrow> mbs d1 c = mbs d c" "\<And>pw. distinct (mb_free d1 pw)"
    "\<And>pw. set (mb_free d1 pw) \<subseteq> set (mb_free d pw) - {tmp}" "mb_next d \<le> mb_next d1" "tmp < mb_next d1"
    using d1 False by auto
  have t: "real (mbs d' tmp) = None" "ref (mbs d' tmp) = 1" "msg (mbs d' tmp) = msg (mbs d b)"
    and bb: "mbs d' b = (mbs d b)\<lparr>real := Some tmp\<rparr>" and oth: "\<And>c. c \<noteq> b \<Longrightarrow> c \<noteq> tmp \<Longrightarrow> mbs d' c = mbs d c"
    using d'(1) [OF False] d1' False by auto
  have z: "H tmp = 0" "uses mq tmp = 0" using r d1'(1) by (auto simp: refs_ok_def)
  let ?H = "H(tmp := 1)"
  have same: "c \<noteq> tmp \<Longrightarrow> msg (mbs d' c) = msg (mbs d c) \<and> ref (mbs d' c) = ref (mbs d c) \<and> power (mbs d' c) = power (mbs d c)" for c
    using bb oth [of c] by (cases "c = b") auto
  have nb: "c \<noteq> b \<Longrightarrow> c \<noteq> tmp \<Longrightarrow> real (mbs d' c) = real (mbs d c)" for c using oth by simp
  have rf: "ref (mbs d' c) = ?H c + uses mq c" for c
    using r same [of c] t(2) z by (cases "c = tmp") (auto simp: refs_ok_def)
  have ro: "real_ok d' c" if "real_ok d c" "c \<noteq> b" for c
    using that nb [of c] t(1) by (cases "c = tmp") (auto simp: real_ok_def)
  have bq: "m \<in> set (queue mq) \<union> set (prio mq) \<Longrightarrow> mbuf m \<noteq> tmp" for m
    using z(2) by (auto simp: uses_def count_eq_zero_iff)
  have free_ok: "distinct (mb_free d' pw) \<and> (\<forall>c \<in> set (mb_free d' pw). ref (mbs d' c) = 0 \<and> power (mbs d' c) = pw)" for pw
  proof -
    have "\<forall>c \<in> set (mb_free d1 pw). c \<noteq> tmp \<and> ref (mbs d c) = 0 \<and> power (mbs d c) = pw"
      using d1'(7) [of pw] r by (auto simp: refs_ok_def)
    then show ?thesis using d1'(6) d'(3) same by auto
  qed
  have next_ok: "ref (mbs d' c) = 0 \<and> (\<forall>pw. c \<notin> set (mb_free d' pw))" if "mb_next d' \<le> c" for c
  proof -
    have c: "c \<noteq> tmp" "mb_next d \<le> c" using that d1'(8,9) d'(4) by auto
    then have "ref (mbs d c) = 0" "\<forall>pw. c \<notin> set (mb_free d pw)" using r by (auto simp: refs_ok_def)
    then show ?thesis using same [OF c(1)] d1'(7) d'(3) by fastforce
  qed
  have qr: "\<forall>m \<in> set (queue mq) \<union> set (prio mq). real_ok d' (mbuf m)"
  proof
    fix m assume m: "m \<in> set (queue mq) \<union> set (prio mq)"
    then have "mbuf m \<noteq> b" using b(2) by (auto simp: unqueued_def uses_def count_eq_zero_iff)
    with m ro r show "real_ok d' (mbuf m)" by (auto simp: refs_ok_def)
  qed
  have link: "msg (mbs d' q) = msg (mbs d' c) \<and> 0 < ?H q \<and> real_ok d' q"
    if h: "0 < ref (mbs d' c)" "real (mbs d' c) = Some q" "q \<noteq> c" for c q
  proof (cases "c = b")
    case True
    then have "q = tmp" using h(2) bb by simp
    then show ?thesis using True t bb by (simp add: real_ok_def)
  next
    case nb': False
    have ct: "c \<noteq> tmp" using h(2) t(1) by auto
    have c: "0 < ref (mbs d c)" "real (mbs d c) = Some q" using h same [OF ct] nb [OF nb' ct] by auto
    then have k: "msg (mbs d q) = msg (mbs d c)" "0 < H q" "real_ok d q" using r h(3) unfolding refs_ok_def by blast+
    have qn: "q \<noteq> tmp" "q \<noteq> b" using k(2) z(1) c b(2) by (auto simp: unqueued_def)
    show ?thesis using k ro [OF k(3) qn(2)] same [OF qn(1)] same [OF ct] by simp
  qed
  have "refs_ok d' ?H mq" unfolding refs_ok_def using rf qr free_ok next_ok link by blast
  moreover have "H c \<le> ?H c" "0 < ref (mbs d c) \<Longrightarrow> msg (mbs d' c) = msg (mbs d c)" for c
    using z(1) same [of c] d1'(1) by (cases "c = tmp"; simp)+
  ultimately show ?thesis using False t bb by (simp add: with_real_def real_ok_def)
qed

lemma with_real_existing:
  assumes r: "refs_ok d H mq" and b: "0 < ref (mbs d b)" "real (mbs d b) = Some r"
  shows "with_real d b r d H H mq"
proof (cases "r = b")
  case True
  then show ?thesis using assms by (simp add: with_real_def real_ok_def)
next
  case False
  then have k: "msg (mbs d r) = msg (mbs d b)" "0 < H r" "real_ok d r" using assms unfolding refs_ok_def by blast+
  have "ref (mbs d r) = H r + uses mq r" using assms(1) unfolding refs_ok_def by blast
  with k show ?thesis using assms by (simp add: with_real_def)
qed

lemma refs_ok_append:
  assumes r: "refs_ok d H mq" and b: "real_ok d r" "0 < ref (mbs d r)" and m: "mbuf m = r"
    and mq': "get_list ip mq' = get_list ip mq @ [m]" "get_list (\<not> ip) mq' = get_list (\<not> ip) mq"
  shows "refs_ok (upd_mb r (\<lambda>mb. mb\<lparr>ref := ref mb + 1\<rparr>) d) H mq'"
proof -
  let ?d = "upd_mb r (\<lambda>mb. mb\<lparr>ref := ref mb + 1\<rparr>) d"
  have u: "uses mq' c = uses mq c + (if c = r then 1 else 0)" for c
    using mq' m by (cases ip) (auto simp: uses_def get_list_def)
  have same: "msg (mbs ?d c) = msg (mbs d c)" "real (mbs ?d c) = real (mbs d c)" "power (mbs ?d c) = power (mbs d c)"
    "ref (mbs ?d c) = ref (mbs d c) + (if c = r then 1 else 0)" for c by simp_all
  have ro: "real_ok ?d = real_ok d" by (simp add: real_ok_def fun_eq_iff)
  have rf: "ref (mbs d c) = H c + uses mq c" for c using r unfolding refs_ok_def by blast
  have q: "\<forall>x \<in> set (queue mq') \<union> set (prio mq'). real_ok d (mbuf x)"
    using r mq' m b(1) by (cases ip) (auto simp: refs_ok_def get_list_def)
  have pos: "0 < ref (mbs ?d c) \<Longrightarrow> 0 < ref (mbs d c)" for c using b(2) by (cases "c = r") auto
  show ?thesis
    unfolding refs_ok_def same(1,2,3) ro
  proof (intro conjI)
    show "\<forall>c. ref (mbs ?d c) = H c + uses mq' c" using rf u same(4) by simp
    show "\<forall>pw. distinct (mb_free ?d pw) \<and> (\<forall>c \<in> set (mb_free ?d pw). ref (mbs ?d c) = 0 \<and> power (mbs d c) = pw)"
      using r b(2) unfolding refs_ok_def same(4) by fastforce
    show "\<forall>c \<ge> mb_next ?d. ref (mbs ?d c) = 0 \<and> (\<forall>pw. c \<notin> set (mb_free ?d pw))"
      using r b(2) unfolding refs_ok_def same(4) by fastforce
    show "\<forall>c q. 0 < ref (mbs ?d c) \<longrightarrow> real (mbs d c) = Some q \<longrightarrow> q \<noteq> c \<longrightarrow>
        msg (mbs d q) = msg (mbs d c) \<and> 0 < H q \<and> real_ok d q"
      using r pos unfolding refs_ok_def by blast
  qed (use q in blast)
qed

definition ins_pos :: "bool \<Rightarrow> MsgQ \<Rightarrow> nat" where
  "ins_pos ip mq = (if partial_head (queue mq) then 1 else 0) + length (prio mq) +
     (if ip then 0 else length (if partial_head (queue mq) then tl (queue mq) else queue mq))"

lemma segs_append:
  assumes "lists_ok d mq" "sent m = 0" "get_list ip mq' = get_list ip mq @ [m]" "get_list (\<not> ip) mq' = get_list (\<not> ip) mq"
    "msg (mbs d (mbuf m)) \<noteq> []"
  shows "segs d mq' = take (ins_pos ip mq) (segs d mq) @ [whole d m] @ drop (ins_pos ip mq) (segs d mq)" "lists_ok d mq'"
proof -
  have w: "whole d m = rest_of d m" using assms(2) by (rule whole_rest)
  have p: "partial_head (xs @ [m]) = partial_head xs" for xs using assms(2) by (cases xs) auto
  have l: "list_ok d (xs @ [m]) \<longleftrightarrow> list_ok d xs" for xs using assms(2,5) by (cases xs) auto
  have h: "hd (xs @ [m]) = hd xs" "tl (xs @ [m]) = tl xs @ [m]" if "partial_head xs" for xs using that by (cases xs; simp)+
  show "segs d mq' = take (ins_pos ip mq) (segs d mq) @ [whole d m] @ drop (ins_pos ip mq) (segs d mq)"
    using assms(3,4) w p h [of "queue mq"]
    by (cases ip; cases "partial_head (queue mq)") (simp_all add: segs_def ins_pos_def get_list_def)
  show "lists_ok d mq'" using assms(1,3,4) p l by (cases ip) (simp_all add: lists_ok_def get_list_def)
qed

lemma segs_msgs:
  assumes "\<And>m. m \<in> set (queue mq) \<union> set (prio mq) \<Longrightarrow> msg (mbs d' (mbuf m)) = msg (mbs d (mbuf m))"
  shows "segs d' mq = segs d mq" "lists_ok d' mq = lists_ok d mq"
proof -
  have r: "rest_of d' m = rest_of d m" if "m \<in> set (queue mq) \<union> set (prio mq)" for m using assms [OF that] by (simp add: rest_of_def)
  then show "segs d' mq = segs d mq"
    by (cases "queue mq") (auto simp: segs_def)
  show "lists_ok d' mq = lists_ok d mq" using assms unfolding lists_ok_def list_ok_def by simp
qed

lemma queued_live: "refs_ok d H mq \<Longrightarrow> m \<in> set (queue mq) \<union> set (prio mq) \<Longrightarrow> 0 < ref (mbs d (mbuf m))"
proof -
  assume h: "refs_ok d H mq" "m \<in> set (queue mq) \<union> set (prio mq)"
  then have "0 < uses mq (mbuf m)" unfolding uses_def count_greater_zero_iff by auto
  moreover have "ref (mbs d (mbuf m)) = H (mbuf m) + uses mq (mbuf m)" using h(1) unfolding refs_ok_def by blast
  ultimately show ?thesis by simp
qed

definition keeps_live :: "MQData \<Rightarrow> MQData \<Rightarrow> bool" where
  "keeps_live d d' \<longleftrightarrow> (\<forall>c. 0 < ref (mbs d c) \<longrightarrow> msg (mbs d' c) = msg (mbs d c))"

lemma msgq_add_ok:
  assumes ok: "queue_ok d H mq" and b: "0 < ref (mbs d b)" "msg (mbs d b) \<noteq> []" "length (msg (mbs d b)) \<le> 512"
    and rl: "real (mbs d b) \<noteq> None \<or> unqueued d mq b"
  shows "\<exists>d' mq' H'. msgq_add pool d mq b ip = Some (d', mq') \<and> queue_ok d' H' mq' \<and> keeps_live d d' \<and>
    segs d' mq' = take (ins_pos ip mq) (segs d mq) @ [msg (mbs d b)] @ drop (ins_pos ip mq) (segs d mq)"
proof -
  define d2 where "d2 = take_msg d"
  have m2: "mbs d2 = mbs d" "mb_free d2 = mb_free d" "mb_next d2 = mb_next d" by (simp_all add: d2_def take_msg_def Let_def)
  define len where "len = length (msg (mbs d b))"
  define d2' where "d2' = count_size len d2"
  have m2': "mbs d2' = mbs d" "mb_free d2' = mb_free d" "mb_next d2' = mb_next d" by (simp_all add: d2'_def m2 count_size_def)
  have mq: "mq_ok d mq" "refs_ok d H mq" using ok by (auto simp: queue_ok_def)
  have r2: "refs_ok d2 H mq" "refs_ok d2' H mq" by (rule refs_ok_lists [OF mq(2)]; simp add: m2 m2')+
  have "\<exists>d4 r H'. real_buffer pool d2 b = Some d4 \<and> with_real d b r d4 H H' mq"
  proof (cases "real (mbs d b)")
    case (Some r)
    have "with_real d2 b r d2 H H mq" using with_real_existing [OF r2(1)] b(1) Some m2 by simp
    then have "with_real d b r d2 H H mq" by (simp add: with_real_def m2)
    with Some m2 show ?thesis by (auto simp: real_buffer_def)
  next
    case None
    then have uq: "unqueued d2' mq b" using rl m2' by (simp add: unqueued_def)
    have l: "0 < len" "len \<le> 512" using b by (auto simp: len_def)
    have b2: "0 < ref (mbs d2' b)" using b(1) m2' by simp
    from msgq_alloc_fits [OF r2(2) b2 l] obtain tmp d3 where
      a: "msgq_alloc pool d2' (Some b) len = Some (Some tmp, d3)" "alloc_fits d2' b tmp d3" by blast
    define d4 where "d4 = (if tmp = b then d3
      else (upd_mb tmp (\<lambda>mb. mb\<lparr>msg := msg (mbs d3 b)\<rparr>) d3)\<lparr>msglist := map (\<lambda>x. if x = b then tmp else x) (msglist d3)\<rparr>)"
    have "with_real d2' b tmp d4 H (if tmp = b then H else H(tmp := 1)) mq"
      by (rule refs_ok_copy [OF r2(2) b2 uq a(2)]) (simp_all add: d4_def)
    then have "with_real d b tmp d4 H (if tmp = b then H else H(tmp := 1)) mq" by (simp add: with_real_def m2')
    moreover have "real_buffer pool d2 b = Some d4"
      using None a(1) by (simp add: real_buffer_def d4_def m2 len_def d2'_def Let_def)
    ultimately show ?thesis by blast
  qed
  then obtain d4 r H' where p: "real_buffer pool d2 b = Some d4" and w: "with_real d b r d4 H H' mq" by blast
  let ?d5 = "upd_mb r (\<lambda>mb. mb\<lparr>ref := ref mb + 1\<rparr>) d4"
  let ?m = "\<lparr>sent = 0, mbuf = r\<rparr>"
  define mq' where "mq' = snd (link_msg d4 mq r ip)"
  have l: "get_list ip mq' = get_list ip mq @ [?m]" "get_list (\<not> ip) mq' = get_list (\<not> ip) mq"
    by (simp_all add: mq'_def link_msg_def get_list_def Let_def)
  have rd: "the (real (mbs d4 b)) = r" using w by (simp add: with_real_def)
  have e: "msgq_add pool d mq b ip = Some (?d5, mq')"
    using b(1,2) p by (simp add: msgq_add_def d2_def [symmetric] rd mq'_def link_msg_def Let_def)
  have w': "refs_ok d4 H' mq" "real_ok d4 r" "0 < ref (mbs d4 r)" "msg (mbs d4 r) = msg (mbs d b)"
    "\<And>c. 0 < ref (mbs d c) \<Longrightarrow> msg (mbs d4 c) = msg (mbs d c)" using w by (auto simp: with_real_def)
  have r5: "refs_ok ?d5 H' mq'" by (rule refs_ok_append [OF w'(1-3) _ l]) simp
  have live: "keeps_live d ?d5" using w'(5) by (simp add: keeps_live_def)
  have msgs: "msg (mbs ?d5 (mbuf m)) = msg (mbs d (mbuf m))" if "m \<in> set (queue mq) \<union> set (prio mq)" for m
    using live queued_live [OF mq(2) that] by (simp add: keeps_live_def)
  note sm = segs_msgs [of mq ?d5 d, OF msgs]
  have lo: "lists_ok ?d5 mq" using mq(1) sm(2) by (simp add: mq_ok_lists)
  have mr: "msg (mbs ?d5 (mbuf ?m)) = msg (mbs d b)" using w'(4) by simp
  have s5: "segs ?d5 mq' = take (ins_pos ip mq) (segs d mq) @ [msg (mbs d b)] @ drop (ins_pos ip mq) (segs d mq)"
    using segs_append(1) [OF lo _ l] b(2) mr sm(1) by (simp add: whole_def)
  have lo': "lists_ok ?d5 mq'" using segs_append(2) [OF lo _ l] b(2) mr by simp
  have "length (wire ?d5 mq') = length (wire d mq) + length (msg (mbs d b))"
    unfolding wire_def s5 by (simp add: length_concat sum_list_append [symmetric] map_append [symmetric] del: map_append)
  then have "mq_ok ?d5 mq'"
    using mq(1) lo' mr by (auto simp: mq_ok_lists mq'_def link_msg_def Let_def)
  with e r5 live s5 show ?thesis by (auto simp: queue_ok_def)
qed

section \<open>Making a message\<close>

lemma size_power_512: "size_power MSG_BUFSIZE = Some 9"
  by code_simp

lemma msgq_alloc_new:
  assumes r: "refs_ok d H mq" and av: "mb_free d 9 \<noteq> [] \<or> tot_bufsize d < pool"
  shows "\<exists>b d'. msgq_alloc pool d None MSG_BUFSIZE = Some (Some b, d') \<and> ref (mbs d b) = 0 \<and>
    real (mbs d' b) = None \<and> ref (mbs d' b) = 1 \<and> power (mbs d' b) = 9 \<and> (\<forall>c. c \<noteq> b \<longrightarrow> mbs d' c = mbs d c) \<and>
    (\<forall>pw. distinct (mb_free d' pw) \<and> set (mb_free d' pw) \<subseteq> set (mb_free d pw) - {b}) \<and>
    mb_next d \<le> mb_next d' \<and> b < mb_next d'"
proof (cases "mb_free d 9")
  case Nil
  with av have t: "tot_bufsize d < pool" by simp
  have n: "ref (mbs d (mb_next d)) = 0" "\<And>pw. mb_next d \<notin> set (mb_free d pw)" "\<And>pw. distinct (mb_free d pw)"
    using r by (auto simp: refs_ok_def)
  with Nil t show ?thesis by (auto simp: msgq_alloc_def size_power_512 Let_def)
next
  case (Cons x xs)
  have fr: "\<And>q. distinct (mb_free d q)" "\<And>q c. c \<in> set (mb_free d q) \<Longrightarrow> ref (mbs d c) = 0 \<and> power (mbs d c) = q"
    "\<And>c q. c \<ge> mb_next d \<Longrightarrow> c \<notin> set (mb_free d q)"
    using r by (auto simp: refs_ok_def)
  have x: "ref (mbs d x) = 0" "power (mbs d x) = 9" "x \<notin> set xs" "distinct xs"
    using fr(1) [of 9] fr(2) [of x 9] Cons by auto
  have xn: "x < mb_next d" using fr(3) [of x 9] Cons by (cases "mb_next d \<le> x") auto
  have xo: "q \<noteq> 9 \<Longrightarrow> x \<notin> set (mb_free d q)" for q using fr(2) [of x q] x(2) by auto
  show ?thesis using Cons x xn xo fr(1) by (auto simp: msgq_alloc_def size_power_512 Let_def)
qed

lemma msgq_vmake_ok:
  assumes r: "refs_ok d H mq" and av: "mb_free d 9 \<noteq> [] \<or> tot_bufsize d < mq_bufferpool ft"
  shows "\<exists>b d'. msgq_vmake ft d text = Some (b, d') \<and> ref (mbs d b) = 0 \<and> refs_ok d' (H(b := 1)) mq \<and>
    unqueued d' mq b \<and> msg (mbs d' b) = take 510 text @ CRLF \<and> ref (mbs d' b) = 1 \<and> keeps_live d d'"
proof -
  from msgq_alloc_new [OF r av] obtain b d1 where
    a: "msgq_alloc (mq_bufferpool ft) d None MSG_BUFSIZE = Some (Some b, d1)" and
    b: "ref (mbs d b) = 0" "real (mbs d1 b) = None" "ref (mbs d1 b) = 1" "power (mbs d1 b) = 9" and
    o: "\<And>c. c \<noteq> b \<Longrightarrow> mbs d1 c = mbs d c" and
    f: "\<And>pw. distinct (mb_free d1 pw)" "\<And>pw. set (mb_free d1 pw) \<subseteq> set (mb_free d pw) - {b}" and
    n: "mb_next d \<le> mb_next d1" "b < mb_next d1" by auto
  let ?d = "(upd_mb b (\<lambda>mb. mb\<lparr>msg := take (bufsize mb - 2) text @ CRLF\<rparr>) d1)\<lparr>msglist := b # msglist d1\<rparr>"
  have v: "msgq_vmake ft d text = Some (b, ?d)" using a by (simp add: msgq_vmake_def)
  have z: "H b = 0" "uses mq b = 0" using r b(1) by (auto simp: refs_ok_def)
  have o': "c \<noteq> b \<Longrightarrow> mbs ?d c = mbs d c" for c using o by simp
  have bb: "real (mbs ?d b) = None" "ref (mbs ?d b) = 1" "msg (mbs ?d b) = take 510 text @ CRLF" using b(2-4) by simp_all
  have nr: "real (mbs d c) \<noteq> Some b" if "0 < ref (mbs d c)" for c
    using r that z(1) b(1) unfolding refs_ok_def by (metis less_irrefl)
  have ro: "real_ok ?d c" if "real_ok d c" for c using that o' [of c] bb(1) by (cases "c = b") (auto simp: real_ok_def)
  have rf: "ref (mbs ?d c) = (H(b := 1)) c + uses mq c" for c
  proof (cases "c = b")
    case False
    have "ref (mbs d c) = H c + uses mq c" using r unfolding refs_ok_def by blast
    with False o' [OF False] show ?thesis by simp
  qed (use bb z in simp)
  have q: "\<forall>m \<in> set (queue mq) \<union> set (prio mq). real_ok ?d (mbuf m)"
    using r ro unfolding refs_ok_def by blast
  have free_ok: "distinct (mb_free ?d pw) \<and> (\<forall>c \<in> set (mb_free ?d pw). ref (mbs ?d c) = 0 \<and> power (mbs ?d c) = pw)" for pw
  proof -
    have "\<forall>c \<in> set (mb_free d1 pw). c \<noteq> b \<and> ref (mbs d c) = 0 \<and> power (mbs d c) = pw"
      using f(2) [of pw] r by (auto simp: refs_ok_def)
    then show ?thesis using f(1) o by auto
  qed
  have next_ok: "ref (mbs ?d c) = 0 \<and> (\<forall>pw. c \<notin> set (mb_free ?d pw))" if "mb_next ?d \<le> c" for c
  proof -
    have c: "c \<noteq> b" "mb_next d \<le> c" using that n by auto
    then have "ref (mbs d c) = 0" "\<forall>pw. c \<notin> set (mb_free d pw)" using r by (auto simp: refs_ok_def)
    then show ?thesis using o' [OF c(1)] f(2) by auto
  qed
  have link: "msg (mbs ?d t) = msg (mbs ?d c) \<and> 0 < (H(b := 1)) t \<and> real_ok ?d t"
    if h: "0 < ref (mbs ?d c)" "real (mbs ?d c) = Some t" "t \<noteq> c" for c t
  proof -
    have cb: "c \<noteq> b" using h(2) bb(1) by auto
    with h o' have c: "0 < ref (mbs d c)" "real (mbs d c) = Some t" by auto
    then have "t \<noteq> b" using nr by auto
    moreover have "msg (mbs d t) = msg (mbs d c)" "0 < H t" "real_ok d t" using r c h(3) unfolding refs_ok_def by blast+
    ultimately show ?thesis using o' [of t] o' [OF cb] ro by simp
  qed
  have "refs_ok ?d (H(b := 1)) mq" unfolding refs_ok_def using rf q free_ok next_ok link by blast
  moreover have "unqueued ?d mq b"
    using bb(1) z(2) nr o' unfolding unqueued_def by (metis option.distinct(1))
  moreover have "keeps_live d ?d" using o' b(1) unfolding keeps_live_def by (metis less_irrefl)
  ultimately show ?thesis using v b(1) bb by blast
qed

section \<open>Properties\<close>

text \<open>
  C5.  What \<open>msgq_mapiov\<close> offers to be written is the beginning of the bytes of the queue in sending order
  (\<open>wire\<close>: the rest of a partly sent message, the priority messages, the other messages); after a write
  of any part of it, \<open>msgq_delete\<close> ends and leaves exactly the bytes that were not written, with the
  lengths and counts of the queue and the reference counts of the buffers right.  So every byte is sent
  once, in order, and no message is broken by another.
\<close>

theorem msgq_sends_in_order:
  assumes "queue_ok d H mq" "k \<le> length (concat (msgq_mapiov d mq cnt))"
  shows "\<exists>d' mq'. msgq_delete d mq k = Some (d', mq') \<and> queue_ok d' H mq' \<and>
    wire d mq = take k (concat (msgq_mapiov d mq cnt)) @ wire d' mq'"
proof -
  have mq: "mq_ok d mq" using assms(1) by (simp add: queue_ok_def)
  have w: "wire d mq = concat (msgq_mapiov d mq cnt) @ concat (drop cnt (segs d mq))"
    unfolding mapiov_segs [OF mq] wire_def by (metis append_take_drop_id concat_append)
  obtain d' mq' where r: "msgq_delete d mq k = Some (d', mq')" "queue_ok d' H mq'" "wire d' mq' = drop k (wire d mq)"
    using msgq_delete_ok [OF assms(1), of k] by blast
  have "take k (wire d mq) = take k (concat (msgq_mapiov d mq cnt))" using w assms(2) by simp
  with r(3) have "wire d mq = take k (concat (msgq_mapiov d mq cnt)) @ wire d' mq'" by (metis append_take_drop_id)
  with r(1,2) show ?thesis by blast
qed

definition mqdata_example :: MQData where
  "mqdata_example = \<lparr>mbs = (\<lambda>b. \<lparr>real = None, ref = (if b = 0 then 1 else 0), power = 9, msg = ''PING''\<rparr>), msglist = [0],
     msgs_alloc = 0, msgs_used = 0, msgs_free = 0, tot_bufsize = 512, mb_alloc = (\<lambda>_. 0), mb_used = (\<lambda>_. 0),
     mb_free = (\<lambda>_. []), sizes_msgs = 0, sizes = (\<lambda>_. 0), mb_next = 1\<rparr>"

definition mq_example :: MsgQ where
  "mq_example = \<lparr>qlength = 4, qcount = 1, queue = [\<lparr>sent = 0, mbuf = 0\<rparr>], prio = []\<rparr>"

lemma mq_examples_ok:
  "queue_ok mqdata_example (\<lambda>_. 0) mq_example" "queue_ok mqdata_example (\<lambda>b. if b = 0 then 1 else 0) msgq_init"
  "unqueued mqdata_example msgq_init 0"
  by (auto simp: queue_ok_def mq_ok_def refs_ok_def real_ok_def uses_def mqdata_example_def mq_example_def msgq_init_def
    wire_def segs_def rest_of_def unqueued_def)

theorem msgq_sends_in_order_witness:
  "\<exists>d' mq'. msgq_delete mqdata_example mq_example 3 = Some (d', mq') \<and> wire mqdata_example mq_example = ''PIN'' @ wire d' mq'"
proof -
  have m: "msgq_mapiov mqdata_example mq_example 8 = [''PING'']"
    unfolding mapiov_segs [OF mq_examples_ok(1) [unfolded queue_ok_def, THEN conjunct1]]
    by (simp add: segs_def mq_example_def rest_of_def mqdata_example_def)
  from msgq_sends_in_order [OF mq_examples_ok(1), of 3 8] show ?thesis unfolding m by auto
qed

text \<open>
  C35.  \<open>msgq_add\<close> puts a message behind the messages of its priority, never in front of a message that is
  partly sent, with the bytes it has when it is added; the queue and its references stay well formed, and
  no buffer that anybody refers to is overwritten, whichever buffer the message is copied into.
\<close>

theorem msgq_add_in_order:
  assumes "queue_ok d H mq" "0 < ref (mbs d b)" "msg (mbs d b) \<noteq> []" "length (msg (mbs d b)) \<le> 512"
    "real (mbs d b) \<noteq> None \<or> unqueued d mq b"
  shows "\<exists>d' mq' H'. msgq_add pool d mq b is_prio = Some (d', mq') \<and> queue_ok d' H' mq' \<and> keeps_live d d' \<and>
    segs d' mq' = take (ins_pos is_prio mq) (segs d mq) @ [msg (mbs d b)] @ drop (ins_pos is_prio mq) (segs d mq)"
  using assms by (rule msgq_add_ok)

theorem msgq_add_in_order_witness:
  "\<exists>d' mq' H'. msgq_add 100000 mqdata_example msgq_init 0 True = Some (d', mq') \<and> queue_ok d' H' mq' \<and>
    segs d' mq' = [''PING'']"
proof -
  have "0 < ref (mbs mqdata_example 0)" "msg (mbs mqdata_example 0) = ''PING''" by (simp_all add: mqdata_example_def)
  moreover have "segs mqdata_example msgq_init = []" by (simp add: segs_def msgq_init_def)
  ultimately show ?thesis
    using msgq_add_in_order [OF mq_examples_ok(2), of 0 100000 True] mq_examples_ok(3) by auto
qed

text \<open>
  \<open>msgq_vmake\<close> makes a message of at most 510 bytes of the text and a line end in a buffer nobody refers
  to, when a buffer is free or the pool allows a new one.
\<close>

lemma msgq_make_line:
  assumes "refs_ok d H mq" "mb_free d 9 \<noteq> [] \<or> tot_bufsize d < mq_bufferpool ft"
  shows "\<exists>b d'. msgq_vmake ft d text = Some (b, d') \<and> ref (mbs d b) = 0 \<and> refs_ok d' (H(b := 1)) mq \<and>
    unqueued d' mq b \<and> msg (mbs d' b) = take 510 text @ CRLF \<and> keeps_live d d'"
  using msgq_vmake_ok [OF assms] by blast

end
