(* ===== verification/Crule.thy ===== *)
theory Crule
  imports Match
begin

text \<open>
  The connection rules of \<open>ircd/crule.c\<close>: the scanner, the recursive-descent parser with its error
  codes, the evaluation of a rule and the release of a tree.

  A tree is a \<open>crule\<close>; the slots for operands may be null or not initialised (\<open>slot\<close>), and a function
  node whose \<open>funcptr\<close> is still null is \<open>CAborted\<close>.  Every parsing function returns the error code, the
  tree stored through its first argument (\<open>None\<close> is the null pointer), the next token and the rest of
  the input.  The mutually recursive functions have a bound on the depth of calls and iterations
  (\<open>fuel\<close>).  The failures \<open>OutOfFuel\<close> and \<open>ArgOverflow\<close> are an exhausted bound and a write behind the
  end of \<open>arg\<close>.
\<close>

section \<open>Data\<close>

definition CR_MAXARGLEN :: nat where "CR_MAXARGLEN = 80"
definition CR_MAXARGS :: nat where "CR_MAXARGS = 3"

datatype crule_token =
    CR_UNKNOWN | CR_END | CR_AND | CR_OR | CR_NOT | CR_OPENPAREN | CR_CLOSEPAREN | CR_COMMA | CR_WORD

datatype crule_errcode =
    CR_NOERR | CR_UNEXPCTTOK | CR_UNKNWTOK | CR_EXPCTAND | CR_EXPCTOR | CR_EXPCTPRIM
  | CR_EXPCTOPEN | CR_EXPCTCLOSE | CR_UNKNWFUNC | CR_ARGMISMAT

datatype crule_func = crule_connected | crule_directcon | crule_via | crule_directop

datatype crule =
    CFunc crule_func "string list"
  | CAborted "string list"
  | CNot slot
  | CAndOr bool slot slot
and slot = Uninit | Null | Child crule

definition crule_funclist :: "(string \<times> nat \<times> crule_func) list" where
  "crule_funclist = [(''connected'', 1, crule_connected), (''directcon'', 1, crule_directcon),
     (''via'', 2, crule_via), (''directop'', 0, crule_directop)]"

section \<open>Evaluation\<close>

record cr_client =
  is_server :: bool
  is_me :: bool
  is_oper :: bool
  cr_name :: string
  cr_from :: string

record cr_env =
  GlobalClientList :: "cr_client list"
  LocalClientArray :: "cr_client option list"

fun eval_func :: "cr_env \<Rightarrow> crule_func \<Rightarrow> string list \<Rightarrow> bool" where
  "eval_func env crule_connected args =
    list_ex (\<lambda>c. is_server c \<and> \<not> is_me c \<and> match (args ! 0) (cr_name c) = Some 0) (GlobalClientList env)"
| "eval_func env crule_directcon args =
    list_ex (\<lambda>lc. case lc of None \<Rightarrow> False | Some c \<Rightarrow> is_server c \<and> match (args ! 0) (cr_name c) = Some 0)
      (LocalClientArray env)"
| "eval_func env crule_via args =
    list_ex (\<lambda>c. is_server c \<and> \<not> is_me c \<and> match (args ! 1) (cr_name c) = Some 0 \<and> match (args ! 0) (cr_from c) = Some 0)
      (GlobalClientList env)"
| "eval_func env crule_directop args =
    list_ex (\<lambda>lc. case lc of None \<Rightarrow> False | Some c \<Rightarrow> is_oper c) (LocalClientArray env)"

text \<open>\<open>None\<close>: a null or uninitialised pointer is followed or called.\<close>

fun crule_eval :: "cr_env \<Rightarrow> crule \<Rightarrow> bool option" and eval_slot :: "cr_env \<Rightarrow> slot \<Rightarrow> bool option" where
  "crule_eval env (CFunc f args) = Some (eval_func env f args)"
| "crule_eval env (CAborted args) = None"
| "crule_eval env (CNot a) = map_option Not (eval_slot env a)"
| "crule_eval env (CAndOr is_or a b) = (case eval_slot env a of
     None \<Rightarrow> None
   | Some r \<Rightarrow> if is_or then (if r then Some True else eval_slot env b) else (if r then eval_slot env b else Some False))"
| "eval_slot env (Child r) = crule_eval env r"
| "eval_slot env Null = None"
| "eval_slot env Uninit = None"

text \<open>
  Releasing a tree: \<open>False\<close> when it follows a null or uninitialised pointer.  A function node frees its
  \<open>numargs\<close> arguments, which are all strings it owns.
\<close>

fun crule_free :: "crule \<Rightarrow> bool" and free_slot :: "bool \<Rightarrow> slot \<Rightarrow> bool" where
  "crule_free (CFunc f args) = True"
| "crule_free (CAborted args) = True"
| "crule_free (CNot a) = free_slot True a"
| "crule_free (CAndOr is_or a b) = (free_slot False a \<and> free_slot True b)"
| "free_slot null_ok (Child r) = crule_free r"
| "free_slot null_ok Null = null_ok"
| "free_slot null_ok Uninit = False"

section \<open>Scanner\<close>

definition word_start :: "char \<Rightarrow> bool" where
  "word_start c \<longleftrightarrow> IsAlpha c \<or> c = CHR ''*'' \<or> c = CHR ''?'' \<or> c = CHR ''.'' \<or> c = CHR ''-''"

definition word_char :: "char \<Rightarrow> bool" where
  "word_char c \<longleftrightarrow> IsAlnum c \<or> c = CHR ''*'' \<or> c = CHR ''?'' \<or> c = CHR ''.'' \<or> c = CHR ''-''"

text \<open>\<open>None\<close> is \<open>CR_UNKNWTOK\<close>.\<close>

fun gettoken_loop :: "char \<Rightarrow> string \<Rightarrow> (crule_token \<times> string) option" where
  "gettoken_loop pending [] = Some (CR_END, [])"
| "gettoken_loop pending (c # s) =
    (if c = CHR '' '' \<or> c = CHR 0x09 then gettoken_loop pending s
     else if c = CHR ''&'' then
       (if pending = NUL then gettoken_loop (CHR ''&'') s
        else if pending = CHR ''&'' then Some (CR_AND, s) else None)
     else if c = CHR ''|'' then
       (if pending = NUL then gettoken_loop (CHR ''|'') s
        else if pending = CHR ''|'' then Some (CR_OR, s) else None)
     else if c = CHR ''!'' then Some (CR_NOT, s)
     else if c = CHR ''('' then Some (CR_OPENPAREN, s)
     else if c = CHR '')'' then Some (CR_CLOSEPAREN, s)
     else if c = CHR '','' then Some (CR_COMMA, s)
     else if c = CHR '':'' then Some (CR_END, s)
     else if word_start c then Some (CR_WORD, c # s)
     else None)"

definition crule_gettoken :: "string \<Rightarrow> (crule_token \<times> string) option" where
  "crule_gettoken s = gettoken_loop NUL s"

fun crule_getword :: "nat \<Rightarrow> string \<Rightarrow> string \<times> string" where
  "crule_getword 0 s = ([], s)"
| "crule_getword (Suc n) [] = ([], [])"
| "crule_getword (Suc n) (c # s) =
    (if word_char c then (case crule_getword n s of (w, r) \<Rightarrow> (c # w, r)) else ([], c # s))"

section \<open>Parser\<close>

datatype failure = OutOfFuel | ArgOverflow

type_synonym 'a presult = "failure + crule_errcode \<times> 'a \<times> crule_token \<times> string"

text \<open>The argument list; \<open>args\<close> are the arguments stored so far, \<open>currarg\<close> the one being read.\<close>

fun crule_parsearglist :: "nat \<Rightarrow> string list \<Rightarrow> string \<Rightarrow> crule_token \<Rightarrow> string \<Rightarrow> string list presult" where
  "crule_parsearglist 0 args currarg tok s = Inl OutOfFuel"
| "crule_parsearglist (Suc n) args currarg tok s =
    (if tok = CR_WORD then
       (let (word, s1) = crule_getword (CR_MAXARGLEN - 1) s;
            currarg' = (if currarg \<noteq> [] then
                          (if length currarg + length word < CR_MAXARGLEN - 1 then currarg @ '' '' @ word else currarg)
                        else word)
        in case crule_gettoken s1 of
             None \<Rightarrow> Inr (CR_UNKNWTOK, args, CR_UNKNOWN, s1)
           | Some (tok', s2) \<Rightarrow> crule_parsearglist n args currarg' tok' s2)
     else
       (let arg = collapse currarg
        in if arg \<noteq> [] \<and> length args = CR_MAXARGS then Inl ArgOverflow
           else
             let args' = (if arg \<noteq> [] then args @ [arg] else args)
             in if tok \<noteq> CR_COMMA then Inr (CR_NOERR, args', tok, s)
                else case crule_gettoken s of
                  None \<Rightarrow> Inr (CR_UNKNWTOK, args', CR_UNKNOWN, s)
                | Some (tok', s1) \<Rightarrow> crule_parsearglist n args' [] tok' s1))"

definition find_func :: "string \<Rightarrow> (nat \<times> crule_func) option" where
  "find_func name = map_option snd (find (\<lambda>e. ircd_strcmp (fst e) name = 0) crule_funclist)"

definition crule_parsefunction :: "nat \<Rightarrow> crule_token \<Rightarrow> string \<Rightarrow> crule option presult" where
  "crule_parsefunction n tok s =
    (let (funcname, s1) = crule_getword (CR_MAXARGLEN - 1) s
     in case crule_gettoken s1 of
          None \<Rightarrow> Inr (CR_UNKNWTOK, None, CR_UNKNOWN, s1)
        | Some (tok1, s2) \<Rightarrow>
            if tok1 \<noteq> CR_OPENPAREN then Inr (CR_EXPCTOPEN, None, tok1, s2)
            else case find_func funcname of
              None \<Rightarrow> Inr (CR_UNKNWFUNC, None, tok1, s2)
            | Some (reqnumargs, f) \<Rightarrow> (case crule_gettoken s2 of
                None \<Rightarrow> Inr (CR_UNKNWTOK, None, CR_UNKNOWN, s2)
              | Some (tok2, s3) \<Rightarrow> (case crule_parsearglist n [] [] tok2 s3 of
                  Inl e \<Rightarrow> Inl e
                | Inr (err, args, tok3, s4) \<Rightarrow>
                    if err \<noteq> CR_NOERR then Inr (err, Some (CAborted args), tok3, s4)
                    else if tok3 \<noteq> CR_CLOSEPAREN then Inr (CR_EXPCTCLOSE, Some (CAborted args), tok3, s4)
                    else if reqnumargs \<noteq> length args then Inr (CR_ARGMISMAT, Some (CAborted args), tok3, s4)
                    else case crule_gettoken s4 of
                      None \<Rightarrow> Inr (CR_UNKNWTOK, Some (CAborted args), CR_UNKNOWN, s4)
                    | Some (tok4, s5) \<Rightarrow> Inr (CR_NOERR, Some (CFunc f args), tok4, s5))))"

definition as_slot :: "crule option \<Rightarrow> slot" where
  "as_slot r = (case r of None \<Rightarrow> Null | Some x \<Rightarrow> Child x)"

fun set_arg1 :: "crule \<Rightarrow> crule option \<Rightarrow> crule" where
  "set_arg1 (CAndOr is_or a b) r = CAndOr is_or a (as_slot r)"
| "set_arg1 x r = x"

text \<open>
  The loops of \<open>crule_parseorexpr\<close> and \<open>crule_parseandexpr\<close> carry the root built so far.  In
  \<open>crule_parseprimary\<close> the flag tells whether a \<open>!\<close> has been read, that is, whether \<open>*primrootp\<close> is not
  null; the tree is the one stored at the insertion point.
\<close>

fun crule_parseorexpr :: "nat \<Rightarrow> crule option \<Rightarrow> crule_token \<Rightarrow> string \<Rightarrow> crule option presult"
  and crule_parseandexpr :: "nat \<Rightarrow> crule option \<Rightarrow> crule_token \<Rightarrow> string \<Rightarrow> crule option presult"
  and crule_parseprimary :: "nat \<Rightarrow> bool \<Rightarrow> crule_token \<Rightarrow> string \<Rightarrow> crule option presult" where
  "crule_parseorexpr 0 root tok s = Inl OutOfFuel"
| "crule_parseorexpr (Suc n) root tok s = (case crule_parseandexpr n None tok s of
     Inl e \<Rightarrow> Inl e
   | Inr (err, andexpr, tok1, s1) \<Rightarrow>
       if err = CR_NOERR \<and> tok1 = CR_OR then
         (let orptr = CAndOr True (case root of Some r \<Rightarrow> Child (set_arg1 r andexpr) | None \<Rightarrow> as_slot andexpr) Uninit
          in case crule_gettoken s1 of
               None \<Rightarrow> Inr (CR_UNKNWTOK, Some orptr, CR_UNKNOWN, s1)
             | Some (tok2, s2) \<Rightarrow> crule_parseorexpr n (Some orptr) tok2 s2)
       else case root of
         Some r \<Rightarrow> Inr (if andexpr \<noteq> None then err else CR_EXPCTAND, Some (set_arg1 r andexpr), tok1, s1)
       | None \<Rightarrow> Inr (err, andexpr, tok1, s1))"
| "crule_parseandexpr 0 root tok s = Inl OutOfFuel"
| "crule_parseandexpr (Suc n) root tok s = (case crule_parseprimary n False tok s of
     Inl e \<Rightarrow> Inl e
   | Inr (err, primary, tok1, s1) \<Rightarrow>
       if err = CR_NOERR \<and> tok1 = CR_AND then
         (let andptr = CAndOr False (case root of Some r \<Rightarrow> Child (set_arg1 r primary) | None \<Rightarrow> as_slot primary) Uninit
          in case crule_gettoken s1 of
               None \<Rightarrow> Inr (CR_UNKNWTOK, Some andptr, CR_UNKNOWN, s1)
             | Some (tok2, s2) \<Rightarrow> crule_parseandexpr n (Some andptr) tok2 s2)
       else case root of
         Some r \<Rightarrow> Inr (if primary \<noteq> None then err else CR_EXPCTPRIM, Some (set_arg1 r primary), tok1, s1)
       | None \<Rightarrow> Inr (err, primary, tok1, s1))"
| "crule_parseprimary 0 seen_not tok s = Inl OutOfFuel"
| "crule_parseprimary (Suc n) seen_not tok s =
    (if tok = CR_OPENPAREN then
       (case crule_gettoken s of
          None \<Rightarrow> Inr (CR_UNKNWTOK, None, CR_UNKNOWN, s)
        | Some (tok1, s1) \<Rightarrow> (case crule_parseorexpr n None tok1 s1 of
            Inl e \<Rightarrow> Inl e
          | Inr (err, r, tok2, s2) \<Rightarrow>
              if err \<noteq> CR_NOERR then Inr (err, r, tok2, s2)
              else if r = None then Inr (CR_EXPCTAND, r, tok2, s2)
              else if tok2 \<noteq> CR_CLOSEPAREN then Inr (CR_EXPCTCLOSE, r, tok2, s2)
              else case crule_gettoken s2 of
                None \<Rightarrow> Inr (CR_UNKNWTOK, r, CR_UNKNOWN, s2)
              | Some (tok3, s3) \<Rightarrow> Inr (CR_NOERR, r, tok3, s3)))
     else if tok = CR_NOT then
       (case crule_gettoken s of
          None \<Rightarrow> Inr (CR_UNKNWTOK, Some (CNot Null), CR_UNKNOWN, s)
        | Some (tok1, s1) \<Rightarrow>
            map_sum id (\<lambda>(err, r, tok2, s2). (err, Some (CNot (as_slot r)), tok2, s2)) (crule_parseprimary n True tok1 s1))
     else if tok = CR_WORD then crule_parsefunction n tok s
     else Inr (if seen_not then CR_EXPCTPRIM else CR_NOERR, None, tok, s))"

text \<open>
  The whole rule: the tree or the error code, and whether a tree that is given up is released without
  following a bad pointer.
\<close>

definition crule_parse :: "nat \<Rightarrow> string \<Rightarrow> failure + crule_errcode \<times> crule option \<times> bool" where
  "crule_parse fuel rule = (case crule_gettoken rule of
     None \<Rightarrow> Inr (CR_UNKNWTOK, None, True)
   | Some (tok, s) \<Rightarrow> (case crule_parseorexpr fuel None tok s of
       Inl e \<Rightarrow> Inl e
     | Inr (err, root, tok1, s1) \<Rightarrow>
         let err' = (if err \<noteq> CR_NOERR then err else if root = None then CR_EXPCTOR
                     else if tok1 \<noteq> CR_END then CR_UNEXPCTTOK else CR_NOERR)
         in if err' = CR_NOERR then Inr (CR_NOERR, root, True)
            else Inr (err', None, (case root of None \<Rightarrow> True | Some r \<Rightarrow> crule_free r))))"

section \<open>The parser ends\<close>

definition tok_ok :: "crule_token \<Rightarrow> string \<Rightarrow> bool" where
  "tok_ok tok s \<longleftrightarrow> (tok = CR_WORD \<longrightarrow> s \<noteq> [] \<and> word_start (hd s))"

text \<open>What is left to be read: a word has not been read when its token has been seen.\<close>

definition left :: "crule_token \<Rightarrow> string \<Rightarrow> nat" where
  "left tok s = (if tok = CR_WORD then 2 * length s else if tok = CR_END \<or> tok = CR_UNKNOWN then 0 else 2 * length s + 1)"

lemma IsAlpha_IsAlnum: "IsAlpha c \<Longrightarrow> IsAlnum c"
  by (simp add: chattr_simps)

lemma word_start_char: "word_start c \<Longrightarrow> word_char c"
  using IsAlpha_IsAlnum by (auto simp: word_start_def word_char_def)

definition token_read :: "string \<Rightarrow> crule_token \<times> string \<Rightarrow> bool" where
  "token_read s r = (case r of (tok, s') \<Rightarrow> tok_ok tok s' \<and> length s' \<le> length s \<and> left tok s' \<le> 2 * length s \<and>
    tok \<noteq> CR_UNKNOWN \<and> (tok \<noteq> CR_WORD \<and> tok \<noteq> CR_END \<longrightarrow> length s' < length s))"

lemma token_read_Cons: "token_read s r \<Longrightarrow> token_read (c # s) r"
  by (cases r) (auto simp: token_read_def)

lemma gettoken_loop_left: "gettoken_loop p s = Some r \<Longrightarrow> token_read s r"
proof (induction p s rule: gettoken_loop.induct)
  case (1 p)
  then show ?case by (auto simp: token_read_def tok_ok_def left_def)
next
  case (2 p c s)
  show ?case
  proof (cases "c = CHR '' '' \<or> c = CHR 0x09")
    case True
    with "2.prems" have "gettoken_loop p s = Some r" by (simp only: gettoken_loop.simps if_True)
    from token_read_Cons [OF "2.IH"(1) [OF True this]] show ?thesis .
  next
    case nb: False
    consider (amp) "c = CHR ''&''" "p = NUL" | (bar) "c = CHR ''|''" "p = NUL"
      | (other) "\<not> (c = CHR ''&'' \<and> p = NUL)" "\<not> (c = CHR ''|'' \<and> p = NUL)" by blast
    then show ?thesis
    proof cases
      case amp
      then have "gettoken_loop (CHR ''&'') s = Some r" using "2.prems" by simp
      from token_read_Cons [OF "2.IH"(2) [OF nb amp this]] show ?thesis .
    next
      case bar
      then have "gettoken_loop (CHR ''|'') s = Some r" using "2.prems" by simp
      from token_read_Cons [OF "2.IH"(3) [OF nb _ bar this]] bar show ?thesis by simp
    next
      case other
      with "2.prems" nb show ?thesis by (auto simp: token_read_def tok_ok_def left_def split: if_split_asm)
    qed
  qed
qed

lemma gettoken_left:
  assumes "crule_gettoken s = Some (tok, s')"
  shows "tok_ok tok s' \<and> length s' \<le> length s \<and> left tok s' \<le> 2 * length s \<and>
    tok \<noteq> CR_UNKNOWN \<and> (tok \<noteq> CR_WORD \<and> tok \<noteq> CR_END \<longrightarrow> length s' < length s)"
  using gettoken_loop_left [OF assms [unfolded crule_gettoken_def]] by (simp add: token_read_def)

lemma getword_left: "crule_getword n s = (w, r) \<Longrightarrow> s = w @ r \<and> (0 < n \<longrightarrow> s \<noteq> [] \<longrightarrow> word_char (hd s) \<longrightarrow> w \<noteq> [])"
  by (induction n s arbitrary: w r rule: crule_getword.induct) (auto split: if_splits prod.splits)

lemma getword_79:
  assumes "tok_ok CR_WORD s" "crule_getword (CR_MAXARGLEN - 1) s = (w, r)"
  shows "length r < length s"
proof -
  have "s \<noteq> []" "word_char (hd s)" using assms(1) word_start_char by (simp_all add: tok_ok_def)
  with getword_left [OF assms(2)] show ?thesis by (simp add: CR_MAXARGLEN_def)
qed

definition progress :: "nat \<Rightarrow> 'a presult \<Rightarrow> bool" where
  "progress k res = (case res of Inl e \<Rightarrow> e \<noteq> OutOfFuel | Inr (err, r, tok, s) \<Rightarrow> tok_ok tok s \<and> left tok s \<le> k)"

lemma progress_mono: "progress k res \<Longrightarrow> k \<le> k' \<Longrightarrow> progress k' res"
  by (auto simp: progress_def split: sum.splits)

lemma progress_unknown [simp]: "progress k (Inr (err, r, CR_UNKNOWN, s))"
  by (simp add: progress_def tok_ok_def left_def)

lemma unknown_simps [simp]: "tok_ok CR_UNKNOWN s" "left CR_UNKNOWN s = 0"
  by (simp_all add: tok_ok_def left_def)

lemma left_not_word: "tok \<noteq> CR_WORD \<Longrightarrow> tok \<noteq> CR_END \<Longrightarrow> tok \<noteq> CR_UNKNOWN \<Longrightarrow> left tok s = 2 * length s + 1"
  by (simp add: left_def)

lemma arglist_progress:
  "left tok s < n \<Longrightarrow> tok_ok tok s \<Longrightarrow> progress (left tok s) (crule_parsearglist n args currarg tok s)"
proof (induction n args currarg tok s rule: crule_parsearglist.induct)
  case (2 n args currarg tok s)
  show ?case
  proof (cases "tok = CR_WORD")
    case True
    obtain w s1 where w: "crule_getword (CR_MAXARGLEN - 1) s = (w, s1)" by fastforce
    have l: "length s1 < length s" using getword_79 [OF _ w] "2.prems"(2) True by simp
    show ?thesis
    proof (cases "crule_gettoken s1")
      case None
      with True w show ?thesis by simp
    next
      case (Some a)
      obtain tok' s2 where a: "a = (tok', s2)" by fastforce
      note g = gettoken_left [OF Some [unfolded a]]
      have less: "left tok' s2 < left tok s" using g l True by (auto simp: left_def split: if_splits)
      have "progress (left tok' s2) (crule_parsearglist n args (if currarg \<noteq> [] then
          (if length currarg + length w < CR_MAXARGLEN - 1 then currarg @ '' '' @ w else currarg) else w) tok' s2)"
        using "2.IH"(1) [OF True refl w [symmetric] refl Some a [symmetric]] less "2.prems"(1) g by simp
      then have "progress (left tok s) (crule_parsearglist n args (if currarg \<noteq> [] then
          (if length currarg + length w < CR_MAXARGLEN - 1 then currarg @ '' '' @ w else currarg) else w) tok' s2)"
        by (rule progress_mono) (use less in simp)
      then show ?thesis using True w Some a by simp
    qed
  next
    case False
    show ?thesis
    proof (cases "collapse currarg \<noteq> [] \<and> length args = CR_MAXARGS")
      case True
      with False show ?thesis by (simp add: progress_def Let_def)
    next
      case no: False
      show ?thesis
      proof (cases "tok = CR_COMMA \<and> crule_gettoken s \<noteq> None")
        case True
        then obtain tok' s1 where g: "crule_gettoken s = Some (tok', s1)" by auto
        note gl = gettoken_left [OF g]
        have less: "left tok' s1 < left tok s" using gl True by (simp add: left_def)
        define args' where "args' = (if collapse currarg \<noteq> [] then args @ [collapse currarg] else args)"
        have "progress (left tok' s1) (crule_parsearglist n args' [] tok' s1)"
          using "2.IH"(2) [OF False refl no args'_def _ g] True less "2.prems"(1) gl by simp
        then have "progress (left tok s) (crule_parsearglist n args' [] tok' s1)"
          by (rule progress_mono) (use less in simp)
        moreover have "crule_parsearglist (Suc n) args currarg tok s = crule_parsearglist n args' [] tok' s1"
          using False no True g by (auto simp: args'_def Let_def)
        ultimately show ?thesis by simp
      next
        case nc: False
        with False no "2.prems"(2) show ?thesis
          by (cases "crule_gettoken s") (auto simp: Let_def progress_def tok_ok_def left_def)
      qed
    qed
  qed
qed simp

lemma progressI: "tok_ok tok s \<Longrightarrow> left tok s \<le> k \<Longrightarrow> progress k (Inr (err, r, tok, s))"
  by (simp add: progress_def)

lemma parsefunction_progress:
  assumes "tok_ok CR_WORD s" "2 * length s \<le> n"
  shows "progress (2 * length s) (crule_parsefunction n tok s)"
proof -
  obtain w s1 where w: "crule_getword (CR_MAXARGLEN - 1) s = (w, s1)" by fastforce
  have l1: "length s1 < length s" by (rule getword_79 [OF assms(1) w])
  show ?thesis
  proof (cases "crule_gettoken s1")
    case None
    with w show ?thesis by (simp add: crule_parsefunction_def)
  next
    case (Some a)
    obtain tok1 s2 where a: "a = (tok1, s2)" by fastforce
    note g1 = gettoken_left [OF Some [unfolded a]]
    show ?thesis
    proof (cases "tok1 = CR_OPENPAREN \<and> find_func w \<noteq> None \<and> crule_gettoken s2 \<noteq> None")
      case False
      with w Some a g1 l1 show ?thesis
        by (cases "crule_gettoken s2"; cases "find_func w") (auto simp: crule_parsefunction_def progress_def tok_ok_def left_def)
    next
      case True
      then obtain req f tok2 s3 where f: "find_func w = Some (req, f)" and g: "crule_gettoken s2 = Some (tok2, s3)" by auto
      note g2 = gettoken_left [OF g]
      have less: "left tok2 s3 < 2 * length s" using g1 g2 l1 True by simp
      have p: "progress (left tok2 s3) (crule_parsearglist n [] [] tok2 s3)"
        by (rule arglist_progress) (use less assms(2) g2 in auto)
      show ?thesis
      proof (cases "crule_parsearglist n [] [] tok2 s3")
        case (Inl e)
        with p w Some a True f g show ?thesis by (simp add: crule_parsefunction_def progress_def)
      next
        case (Inr res)
        obtain err args tok3 s4 where r: "res = (err, args, tok3, s4)" by (cases res)
        have q: "tok_ok tok3 s4" "left tok3 s4 \<le> left tok2 s3" using p Inr r by (auto simp: progress_def)
        show ?thesis
        proof (cases "err = CR_NOERR \<and> tok3 = CR_CLOSEPAREN \<and> req = length args \<and> crule_gettoken s4 \<noteq> None")
          case True': True
          then obtain tok4 s5 where h: "crule_gettoken s4 = Some (tok4, s5)" by auto
          note g4 = gettoken_left [OF h]
          have "2 * length s4 < left tok2 s3" using q(2) True' by (simp add: left_def)
          then show ?thesis using w Some a True f g Inr r True' h g4 less
            by (auto simp: crule_parsefunction_def progress_def)
        next
          case False': False
          with w Some a True f g Inr r q less show ?thesis
            by (cases "crule_gettoken s4") (auto simp: crule_parsefunction_def progress_def)
        qed
      qed
    qed
  qed
qed

lemma parser_progress:
  "3 * left tok s + 3 \<le> n \<Longrightarrow> tok_ok tok s \<Longrightarrow> progress (left tok s) (crule_parseorexpr n root tok s)"
  "3 * left tok s + 2 \<le> n \<Longrightarrow> tok_ok tok s \<Longrightarrow> progress (left tok s) (crule_parseandexpr n root tok s)"
  "3 * left tok s + 1 \<le> n \<Longrightarrow> tok_ok tok s \<Longrightarrow> progress (left tok s) (crule_parseprimary n seen tok s)"
proof (induction n arbitrary: tok s root seen)
  case 0
  { case 1 then show ?case by simp next case 2 then show ?case by simp next case 3 then show ?case by simp }
next
  case (Suc n)
  {
    case 1
    have p: "progress (left tok s) (crule_parseandexpr n None tok s)" by (rule Suc.IH(2)) (use 1 in auto)
    show ?case
    proof (cases "crule_parseandexpr n None tok s")
      case (Inl e)
      with p show ?thesis by (simp add: progress_def)
    next
      case (Inr res)
      obtain err a tok1 s1 where r: "res = (err, a, tok1, s1)" by (cases res)
      have q: "tok_ok tok1 s1" "left tok1 s1 \<le> left tok s" using p Inr r by (auto simp: progress_def)
      show ?thesis
      proof (cases "err = CR_NOERR \<and> tok1 = CR_OR \<and> crule_gettoken s1 \<noteq> None")
        case False
        with Inr r q show ?thesis by (cases root; cases "crule_gettoken s1") (auto simp: progress_def Let_def tok_ok_def left_def)
      next
        case True
        then obtain tok2 s2 where g: "crule_gettoken s1 = Some (tok2, s2)" by auto
        note gl = gettoken_left [OF g]
        have less: "left tok2 s2 < left tok s" using gl q(2) True by (simp add: left_def)
        have "progress (left tok2 s2) (crule_parseorexpr n root' tok2 s2)" for root'
          by (rule Suc.IH(1)) (use less 1 gl in auto)
        then have "progress (left tok s) (crule_parseorexpr n root' tok2 s2)" for root'
          using less progress_mono by (metis less_imp_le)
        with Inr r True g show ?thesis by (simp add: Let_def)
      qed
    qed
  next
    case 2
    have p: "progress (left tok s) (crule_parseprimary n False tok s)" using Suc.IH(3) 2 by simp
    show ?case
    proof (cases "crule_parseprimary n False tok s")
      case (Inl e)
      with p show ?thesis by (simp add: progress_def)
    next
      case (Inr res)
      obtain err a tok1 s1 where r: "res = (err, a, tok1, s1)" by (cases res)
      have q: "tok_ok tok1 s1" "left tok1 s1 \<le> left tok s" using p Inr r by (auto simp: progress_def)
      show ?thesis
      proof (cases "err = CR_NOERR \<and> tok1 = CR_AND \<and> crule_gettoken s1 \<noteq> None")
        case False
        with Inr r q show ?thesis by (cases root; cases "crule_gettoken s1") (auto simp: progress_def Let_def tok_ok_def left_def)
      next
        case True
        then obtain tok2 s2 where g: "crule_gettoken s1 = Some (tok2, s2)" by auto
        note gl = gettoken_left [OF g]
        have less: "left tok2 s2 < left tok s" using gl q(2) True by (simp add: left_def)
        have "progress (left tok2 s2) (crule_parseandexpr n root' tok2 s2)" for root'
          by (rule Suc.IH(2)) (use less 2 gl in auto)
        then have "progress (left tok s) (crule_parseandexpr n root' tok2 s2)" for root'
          using less progress_mono by (metis less_imp_le)
        with Inr r True g show ?thesis by (simp add: Let_def)
      qed
    qed
  next
    case 3
    show ?case
    proof (cases "tok = CR_OPENPAREN \<or> tok = CR_NOT")
      case False
      show ?thesis
      proof (cases "tok = CR_WORD")
        case True
        then have "progress (2 * length s) (crule_parsefunction n tok s)"
          using 3 by (intro parsefunction_progress) (auto simp: left_def)
        with True show ?thesis by (simp add: left_def)
      next
        case nw: False
        with False 3 show ?thesis by (auto simp: progress_def)
      qed
    next
      case True
      show ?thesis
      proof (cases "crule_gettoken s")
        case None
        with True show ?thesis by auto
      next
        case (Some a)
        obtain tok1 s1 where a: "a = (tok1, s1)" by fastforce
        note gl = gettoken_left [OF Some [unfolded a]]
        have less: "left tok1 s1 < left tok s" using gl True by (auto simp: left_def)
        show ?thesis
        proof (cases "tok = CR_NOT")
          case nt: True
          have p: "progress (left tok1 s1) (crule_parseprimary n True tok1 s1)" by (rule Suc.IH(3)) (use less 3 gl in auto)
          then have "progress (left tok s) (crule_parseprimary n True tok1 s1)" by (rule progress_mono) (use less in simp)
          with nt Some a show ?thesis by (auto simp: progress_def split: sum.splits)
        next
          case False
          with True have op: "tok = CR_OPENPAREN" by simp
          have p: "progress (left tok1 s1) (crule_parseorexpr n None tok1 s1)" by (rule Suc.IH(1)) (use less 3 gl in auto)
          show ?thesis
          proof (cases "crule_parseorexpr n None tok1 s1")
            case (Inl e)
            with p op Some a show ?thesis by (simp add: progress_def)
          next
            case (Inr res)
            obtain err r tok2 s2 where r: "res = (err, r, tok2, s2)" by (cases res)
            have q: "tok_ok tok2 s2" "left tok2 s2 \<le> left tok1 s1" using p Inr r by (auto simp: progress_def)
            show ?thesis
            proof (cases "err = CR_NOERR \<and> r \<noteq> None \<and> tok2 = CR_CLOSEPAREN \<and> crule_gettoken s2 \<noteq> None")
              case True': True
              then obtain tok3 s3 where g: "crule_gettoken s2 = Some (tok3, s3)" by auto
              note g3 = gettoken_left [OF g]
              have "left tok3 s3 < left tok s" using g3 q(2) less True' by (simp add: left_not_word)
              with op Some a Inr r True' g g3 show ?thesis by (auto simp: progress_def)
            next
              case False': False
              with op Some a Inr r q less show ?thesis by (cases "crule_gettoken s2") (auto simp: progress_def)
            qed
          qed
        qed
      qed
    qed
  }
qed

lemma crule_parse_total:
  assumes "6 * length rule + 3 \<le> fuel"
  shows "crule_parse fuel rule \<noteq> Inl OutOfFuel"
proof (cases "crule_gettoken rule")
  case None
  then show ?thesis by (simp add: crule_parse_def)
next
  case (Some a)
  obtain tok s where a: "a = (tok, s)" by fastforce
  note g = gettoken_left [OF Some [unfolded a]]
  have "progress (left tok s) (crule_parseorexpr fuel None tok s)"
    by (rule parser_progress(1)) (use g assms in auto)
  with Some a show ?thesis by (auto simp: crule_parse_def progress_def Let_def split: sum.splits prod.splits if_splits)
qed

section \<open>Rules as expressions\<close>

text \<open>The grammar in the comment at the head of the file.\<close>

datatype orexpr = OrOne andexpr | OrMore andexpr orexpr
and andexpr = AndOne primary | AndMore primary andexpr
and primary = Function crule_func "string list" | Negated primary | Grouped orexpr

fun func_name :: "crule_func \<Rightarrow> string" where
  "func_name crule_connected = ''connected''"
| "func_name crule_directcon = ''directcon''"
| "func_name crule_via = ''via''"
| "func_name crule_directop = ''directop''"

fun func_args :: "crule_func \<Rightarrow> nat" where
  "func_args crule_connected = 1"
| "func_args crule_directcon = 1"
| "func_args crule_via = 2"
| "func_args crule_directop = 0"

definition arg_ok :: "string \<Rightarrow> bool" where
  "arg_ok a \<longleftrightarrow> a \<noteq> [] \<and> (\<forall>c \<in> set a. word_char c) \<and> word_start (hd a) \<and> hd a \<noteq> CHR ''|'' \<and> length a < CR_MAXARGLEN"

fun or_ok :: "orexpr \<Rightarrow> bool" and and_ok :: "andexpr \<Rightarrow> bool" and primary_ok :: "primary \<Rightarrow> bool" where
  "or_ok (OrOne a) = and_ok a"
| "or_ok (OrMore a b) = (and_ok a \<and> or_ok b)"
| "and_ok (AndOne p) = primary_ok p"
| "and_ok (AndMore p b) = (primary_ok p \<and> and_ok b)"
| "primary_ok (Function f args) = (length args = func_args f \<and> list_all arg_ok args)"
| "primary_ok (Negated p) = primary_ok p"
| "primary_ok (Grouped e) = or_ok e"

text \<open>How a rule is written, with the blanks \<open>sp\<close> around every operator.\<close>

fun show_or :: "string \<Rightarrow> orexpr \<Rightarrow> string" and show_and :: "string \<Rightarrow> andexpr \<Rightarrow> string" and show_primary :: "string \<Rightarrow> primary \<Rightarrow> string" where
  "show_or sp (OrOne a) = show_and sp a"
| "show_or sp (OrMore a b) = show_and sp a @ sp @ ''||'' @ sp @ show_or sp b"
| "show_and sp (AndOne p) = show_primary sp p"
| "show_and sp (AndMore p b) = show_primary sp p @ sp @ ''&&'' @ sp @ show_and sp b"
| "show_primary sp (Function f args) = func_name f @ ''('' @ join (CHR '','') args @ '')''"
| "show_primary sp (Negated p) = ''!'' @ show_primary sp p"
| "show_primary sp (Grouped e) = ''('' @ show_or sp e @ '')''"

text \<open>What a rule says; the arguments are masks, which the parser collapses.\<close>

fun or_means :: "cr_env \<Rightarrow> orexpr \<Rightarrow> bool" and and_means :: "cr_env \<Rightarrow> andexpr \<Rightarrow> bool" and primary_means :: "cr_env \<Rightarrow> primary \<Rightarrow> bool" where
  "or_means env (OrOne a) = and_means env a"
| "or_means env (OrMore a b) = (and_means env a \<or> or_means env b)"
| "and_means env (AndOne p) = primary_means env p"
| "and_means env (AndMore p b) = (primary_means env p \<and> and_means env b)"
| "primary_means env (Function f args) = eval_func env f (map collapse args)"
| "primary_means env (Negated p) = (\<not> primary_means env p)"
| "primary_means env (Grouped e) = or_means env e"

text \<open>
  The trees of the parser: an operator chain is a tree to the left, whose root has a free right slot until the next
  operand has been read.
\<close>

definition fill :: "crule option \<Rightarrow> crule \<Rightarrow> crule" where
  "fill root x = (case root of None \<Rightarrow> x | Some r \<Rightarrow> set_arg1 r (Some x))"

fun or_tree :: "crule option \<Rightarrow> orexpr \<Rightarrow> crule" and and_tree :: "crule option \<Rightarrow> andexpr \<Rightarrow> crule" and primary_tree :: "primary \<Rightarrow> crule" where
  "or_tree root (OrOne a) = fill root (and_tree None a)"
| "or_tree root (OrMore a b) = or_tree (Some (CAndOr True (Child (fill root (and_tree None a))) Uninit)) b"
| "and_tree root (AndOne p) = fill root (primary_tree p)"
| "and_tree root (AndMore p b) = and_tree (Some (CAndOr False (Child (fill root (primary_tree p))) Uninit)) b"
| "primary_tree (Function f args) = CFunc f (map collapse args)"
| "primary_tree (Negated p) = CNot (Child (primary_tree p))"
| "primary_tree (Grouped e) = or_tree None e"

lemma as_slot_Some [simp]: "as_slot (Some x) = Child x"
  by (simp add: as_slot_def)

text \<open>The root of a chain is null or an operator whose left operand has the value \<open>v\<close>.\<close>

definition chain_root :: "cr_env \<Rightarrow> bool \<Rightarrow> crule option \<Rightarrow> bool \<Rightarrow> bool" where
  "chain_root env is_or root v = (case root of None \<Rightarrow> v = (\<not> is_or)
     | Some r \<Rightarrow> (\<exists>l. r = CAndOr is_or (Child l) Uninit \<and> crule_eval env l = Some v \<and> crule_free l))"

lemma fill_chain:
  assumes "chain_root env is_or root v" "crule_eval env x = Some w" "crule_free x"
  shows "crule_eval env (fill root x) = Some (if is_or then v \<or> w else v \<and> w)" "crule_free (fill root x)"
  using assms by (auto simp: chain_root_def fill_def split: option.splits)

lemma trees_mean:
  "chain_root env True root v \<Longrightarrow> crule_eval env (or_tree root e) = Some (v \<or> or_means env e) \<and> crule_free (or_tree root e)"
  "chain_root env False root v \<Longrightarrow> crule_eval env (and_tree root a) = Some (v \<and> and_means env a) \<and> crule_free (and_tree root a)"
  "crule_eval env (primary_tree p) = Some (primary_means env p) \<and> crule_free (primary_tree p)"
proof (induction e and a and p arbitrary: root v and root v)
  case (OrOne a)
  from OrOne.IH [of None True] fill_chain [OF OrOne.prems] show ?case by (simp add: chain_root_def)
next
  case (OrMore a b)
  from OrMore.IH(1) [of None True] fill_chain [OF OrMore.prems] have
    "chain_root env True (Some (CAndOr True (Child (fill root (and_tree None a))) Uninit)) (v \<or> and_means env a)" by (simp add: chain_root_def)
  from OrMore.IH(2) [OF this] show ?case by (simp add: disj_assoc)
next
  case (AndOne p)
  from AndOne.IH fill_chain [OF AndOne.prems] show ?case by simp
next
  case (AndMore p b)
  from AndMore.IH(1) fill_chain [OF AndMore.prems] have
    "chain_root env False (Some (CAndOr False (Child (fill root (primary_tree p))) Uninit)) (v \<and> primary_means env p)" by (simp add: chain_root_def)
  from AndMore.IH(2) [OF this] show ?case by (simp add: conj_assoc)
next
  case (Grouped e)
  from Grouped.IH [of None False] show ?case by (simp add: chain_root_def)
qed simp_all

lemma tokens [simp]:
  "crule_gettoken (CHR ''('' # s) = Some (CR_OPENPAREN, s)"
  "crule_gettoken (CHR '')'' # s) = Some (CR_CLOSEPAREN, s)"
  "crule_gettoken (CHR '','' # s) = Some (CR_COMMA, s)"
  "crule_gettoken (CHR ''!'' # s) = Some (CR_NOT, s)"
  "crule_gettoken (CHR '' '' # s) = crule_gettoken s"
  "crule_gettoken (CHR ''&'' # CHR ''&'' # s) = Some (CR_AND, s)"
  "crule_gettoken (CHR ''|'' # CHR ''|'' # s) = Some (CR_OR, s)"
  "crule_gettoken (CHR '':'' # s) = Some (CR_END, s)"
  "crule_gettoken [] = Some (CR_END, [])"
  by (simp_all add: crule_gettoken_def)

lemma not_words: "\<not> word_start c \<and> \<not> word_char c" if "c \<in> set [CHR '' '', CHR 0x09, CHR ''&'', CHR ''!'', CHR ''('', CHR '')'', CHR '','', CHR '':'']"
proof -
  have "list_all (\<lambda>c. \<not> word_start c \<and> \<not> word_char c) [CHR '' '', CHR 0x09, CHR ''&'', CHR ''!'', CHR ''('', CHR '')'', CHR '','', CHR '':'']"
    by code_simp
  with that show ?thesis by (auto simp: list_all_iff)
qed

lemma gettoken_word: "word_start c \<Longrightarrow> c \<noteq> CHR ''|'' \<Longrightarrow> crule_gettoken (c # s) = Some (CR_WORD, c # s)"
proof -
  assume h: "word_start c" "c \<noteq> CHR ''|''"
  have "\<forall>d \<in> set [CHR '' '', CHR 0x09, CHR ''&'', CHR ''!'', CHR ''('', CHR '')'', CHR '','', CHR '':'']. c \<noteq> d"
    using h(1) not_words by blast
  then show ?thesis using h by (simp add: crule_gettoken_def)
qed

lemma getword_whole:
  "\<forall>c \<in> set w. word_char c \<Longrightarrow> length w \<le> n \<Longrightarrow> r = [] \<or> \<not> word_char (hd r) \<Longrightarrow> crule_getword n (w @ r) = (w, r)"
proof (induction n "w @ r" arbitrary: w rule: crule_getword.induct)
  case (2 n)
  then show ?case by auto
next
  case (3 n c s)
  then show ?case by (cases w) auto
qed simp

lemma gettoken_blanks: "set sp \<subseteq> {CHR '' '', CHR 0x09} \<Longrightarrow> crule_gettoken (sp @ s) = crule_gettoken s"
  by (induction sp) (auto simp: crule_gettoken_def)

lemma collapse_rest_star: "collapse_rest m True \<noteq> []"
  by (induction m) auto

lemma collapse_nonempty: "a \<noteq> [] \<Longrightarrow> collapse a \<noteq> []"
  by (cases a) (auto simp: collapse_rest_star)

lemma parsearglist_ok:
  "list_all arg_ok (a # as) \<Longrightarrow> 2 * length (a # as) < n \<Longrightarrow> length acc + length (a # as) \<le> CR_MAXARGS \<Longrightarrow>
   crule_gettoken (join (CHR '','') (a # as) @ CHR '')'' # rest) = Some (CR_WORD, join (CHR '','') (a # as) @ CHR '')'' # rest) \<and>
   crule_parsearglist n acc [] CR_WORD (join (CHR '','') (a # as) @ CHR '')'' # rest) = Inr (CR_NOERR, acc @ map collapse (a # as), CR_CLOSEPAREN, rest)"
proof (induction as arbitrary: a n acc)
  case Nil
  then have n: "n = Suc (Suc (n - 2))" by simp
  have a: "arg_ok a" using Nil.prems(1) by simp
  then obtain c cs where c: "a = c # cs" by (cases a) (auto simp: arg_ok_def)
  have w: "crule_getword (CR_MAXARGLEN - 1) (a @ CHR '')'' # rest) = (a, CHR '')'' # rest)"
    by (rule getword_whole) (use a not_words in \<open>simp_all add: arg_ok_def CR_MAXARGLEN_def\<close>)
  have g: "crule_gettoken (a @ CHR '')'' # rest) = Some (CR_WORD, a @ CHR '')'' # rest)"
    using a gettoken_word [of c] c by (simp add: arg_ok_def)
  have e: "crule_parsearglist (Suc (Suc (n - 2))) acc [] CR_WORD (a @ CHR '')'' # rest) = Inr (CR_NOERR, acc @ [collapse a], CR_CLOSEPAREN, rest)"
    using a w Nil.prems(3) collapse_nonempty [of a] by (simp add: arg_ok_def)
  with n g show ?case by simp
next
  case (Cons b bs)
  have n: "n = Suc (Suc (n - 2))" using Cons.prems(2) by simp
  have a: "arg_ok a" using Cons.prems(1) by simp
  then obtain c cs where c: "a = c # cs" by (cases a) (auto simp: arg_ok_def)
  let ?r = "CHR '','' # join (CHR '','') (b # bs) @ CHR '')'' # rest"
  have w: "crule_getword (CR_MAXARGLEN - 1) (a @ ?r) = (a, ?r)"
    by (rule getword_whole) (use a not_words in \<open>simp_all add: arg_ok_def CR_MAXARGLEN_def\<close>)
  have g: "crule_gettoken (a @ ?r) = Some (CR_WORD, a @ ?r)"
    using a gettoken_word [of c] c by (simp add: arg_ok_def)
  have ih: "crule_gettoken (join (CHR '','') (b # bs) @ CHR '')'' # rest) = Some (CR_WORD, join (CHR '','') (b # bs) @ CHR '')'' # rest)"
    "crule_parsearglist (n - 2) (acc @ [collapse a]) [] CR_WORD (join (CHR '','') (b # bs) @ CHR '')'' # rest) =
      Inr (CR_NOERR, (acc @ [collapse a]) @ map collapse (b # bs), CR_CLOSEPAREN, rest)"
    using Cons.IH [of b "n - 2" "acc @ [collapse a]"] Cons.prems by auto
  have e: "crule_parsearglist (Suc (Suc (n - 2))) acc [] CR_WORD (a @ ?r) = Inr (CR_NOERR, acc @ map collapse (a # b # bs), CR_CLOSEPAREN, rest)"
    using a w ih Cons.prems(3) collapse_nonempty [of a] by (simp add: arg_ok_def)
  with n g show ?case by simp
qed

lemma func_name_ok:
  "find_func (func_name f) = Some (func_args f, f)" "\<forall>c \<in> set (func_name f). word_char c"
  "word_start (hd (func_name f))" "hd (func_name f) \<noteq> CHR ''|''" "func_name f \<noteq> []" "length (func_name f) \<le> CR_MAXARGLEN - 1"
proof -
  show "find_func (func_name f) = Some (func_args f, f)" by (cases f; simp only: func_name.simps func_args.simps; code_simp)
  have "list_all word_char (func_name f)" by (cases f; simp only: func_name.simps; code_simp)
  then show "\<forall>c \<in> set (func_name f). word_char c" by (simp add: list_all_iff)
  show "word_start (hd (func_name f))" by (cases f; simp only: func_name.simps; code_simp)
  show "hd (func_name f) \<noteq> CHR ''|''" "func_name f \<noteq> []" by (cases f; simp)+
  show "length (func_name f) \<le> CR_MAXARGLEN - 1" by (cases f; simp add: CR_MAXARGLEN_def)
qed

lemma parsefunction_ok:
  assumes "primary_ok (Function f args)" "6 < n" "crule_gettoken rest = Some (t, s')"
  shows "crule_gettoken (show_primary sp (Function f args) @ rest) = Some (CR_WORD, show_primary sp (Function f args) @ rest) \<and>
    crule_parsefunction n tok (show_primary sp (Function f args) @ rest) = Inr (CR_NOERR, Some (CFunc f (map collapse args)), t, s')"
proof -
  note fn = func_name_ok [of f]
  let ?r = "CHR ''('' # join (CHR '','') args @ CHR '')'' # rest"
  obtain c cs where c: "func_name f = c # cs" using fn(5) by (cases "func_name f") auto
  have g: "crule_gettoken (func_name f @ ?r) = Some (CR_WORD, func_name f @ ?r)" using gettoken_word [of c] fn(3,4) c by simp
  have w: "crule_getword (CR_MAXARGLEN - 1) (func_name f @ ?r) = (func_name f, ?r)"
    by (rule getword_whole) (use fn not_words in simp_all)
  have la: "length args = func_args f" "list_all arg_ok args" using assms(1) by auto
  have "func_args f \<le> 2" by (cases f) auto
  then have lm: "length args \<le> 2" using la(1) by simp
  have "\<exists>tok2 s3. crule_gettoken (join (CHR '','') args @ CHR '')'' # rest) = Some (tok2, s3) \<and>
      crule_parsearglist n [] [] tok2 s3 = Inr (CR_NOERR, map collapse args, CR_CLOSEPAREN, rest)"
  proof (cases args)
    case Nil
    then show ?thesis using assms(2) by (cases n) auto
  next
    case (Cons a as)
    then show ?thesis using parsearglist_ok [of a as n "[]" rest] la(2) lm assms(2) by (auto simp: CR_MAXARGS_def)
  qed
  then obtain tok2 s3 where "crule_gettoken (join (CHR '','') args @ CHR '')'' # rest) = Some (tok2, s3)"
      "crule_parsearglist n [] [] tok2 s3 = Inr (CR_NOERR, map collapse args, CR_CLOSEPAREN, rest)" by blast
  with g w fn(1) la(1) assms(3) show ?thesis by (simp add: crule_parsefunction_def)
qed

fun need_or :: "orexpr \<Rightarrow> nat" and need_and :: "andexpr \<Rightarrow> nat" and need_primary :: "primary \<Rightarrow> nat" where
  "need_or (OrOne a) = need_and a + 1"
| "need_or (OrMore a b) = need_and a + need_or b + 1"
| "need_and (AndOne p) = need_primary p + 1"
| "need_and (AndMore p b) = need_primary p + need_and b + 1"
| "need_primary (Function f args) = 8"
| "need_primary (Negated p) = need_primary p + 1"
| "need_primary (Grouped e) = need_or e + 1"

lemma need_length:
  "need_or e + 2 \<le> 6 * length (show_or sp e)" "need_and a + 3 \<le> 6 * length (show_and sp a)" "need_primary p + 4 \<le> 6 * length (show_primary sp p)"
proof (induction e and a and p)
  case (Function f args)
  have "3 \<le> length (func_name f)" by (cases f) auto
  then show ?case by simp
qed simp_all

lemma parse_shown:
  assumes "set sp \<subseteq> {CHR '' '', CHR 0x09}"
  shows "or_ok e \<Longrightarrow> need_or e \<le> n \<Longrightarrow> crule_gettoken rest = Some (t, s') \<Longrightarrow> t \<noteq> CR_AND \<Longrightarrow> t \<noteq> CR_OR \<Longrightarrow>
     \<exists>tok s. crule_gettoken (show_or sp e @ rest) = Some (tok, s) \<and> crule_parseorexpr n root tok s = Inr (CR_NOERR, Some (or_tree root e), t, s')"
    "and_ok a \<Longrightarrow> need_and a \<le> n \<Longrightarrow> crule_gettoken rest = Some (t, s') \<Longrightarrow> t \<noteq> CR_AND \<Longrightarrow>
     \<exists>tok s. crule_gettoken (show_and sp a @ rest) = Some (tok, s) \<and> crule_parseandexpr n root tok s = Inr (CR_NOERR, Some (and_tree root a), t, s')"
    "primary_ok p \<Longrightarrow> need_primary p \<le> n \<Longrightarrow> crule_gettoken rest = Some (t, s') \<Longrightarrow>
     \<exists>tok s. crule_gettoken (show_primary sp p @ rest) = Some (tok, s) \<and> crule_parseprimary n seen tok s = Inr (CR_NOERR, Some (primary_tree p), t, s')"
proof (induction e and a and p arbitrary: n root rest t s' and n root rest t s' and n rest t s' seen)
  case (OrOne a)
  obtain m where n: "n = Suc m" using OrOne.prems(2) by (cases n) auto
  from OrOne.IH [of m rest t s' None] OrOne.prems n show ?case by (auto simp: fill_def split: option.splits)
next
  case (OrMore a b)
  obtain m where n: "n = Suc m" using OrMore.prems(2) by (cases n) auto
  let ?r = "sp @ show_or sp b @ rest"
  have g: "crule_gettoken (sp @ ''||'' @ ?r) = Some (CR_OR, ?r)" by (simp add: gettoken_blanks [OF assms])
  from OrMore.IH(1) [OF _ _ g, of m None] OrMore.prems n obtain ta sa where
    a: "crule_gettoken (show_and sp a @ sp @ ''||'' @ ?r) = Some (ta, sa)"
      "crule_parseandexpr m None ta sa = Inr (CR_NOERR, Some (and_tree None a), CR_OR, ?r)" by auto
  let ?root = "CAndOr True (Child (fill root (and_tree None a))) Uninit"
  from OrMore.IH(2) [of m rest t s' "Some ?root"] OrMore.prems n obtain tb sb where
    b: "crule_gettoken (show_or sp b @ rest) = Some (tb, sb)"
      "crule_parseorexpr m (Some ?root) tb sb = Inr (CR_NOERR, Some (or_tree (Some ?root) b), t, s')" by auto
  show ?case using a b by (cases root) (auto simp: n Let_def gettoken_blanks [OF assms] fill_def)
next
  case (AndOne p)
  obtain m where n: "n = Suc m" using AndOne.prems(2) by (cases n) auto
  from AndOne.IH [of m rest t s' False] AndOne.prems n show ?case by (auto simp: fill_def split: option.splits)
next
  case (AndMore p b)
  obtain m where n: "n = Suc m" using AndMore.prems(2) by (cases n) auto
  let ?r = "sp @ show_and sp b @ rest"
  have g: "crule_gettoken (sp @ ''&&'' @ ?r) = Some (CR_AND, ?r)" by (simp add: gettoken_blanks [OF assms])
  from AndMore.IH(1) [OF _ _ g, of m False] AndMore.prems n obtain ta sa where
    a: "crule_gettoken (show_primary sp p @ sp @ ''&&'' @ ?r) = Some (ta, sa)"
      "crule_parseprimary m False ta sa = Inr (CR_NOERR, Some (primary_tree p), CR_AND, ?r)" by auto
  let ?root = "CAndOr False (Child (fill root (primary_tree p))) Uninit"
  from AndMore.IH(2) [of m rest t s' "Some ?root"] AndMore.prems n obtain tb sb where
    b: "crule_gettoken (show_and sp b @ rest) = Some (tb, sb)"
      "crule_parseandexpr m (Some ?root) tb sb = Inr (CR_NOERR, Some (and_tree (Some ?root) b), t, s')" by auto
  show ?case using a b by (cases root) (auto simp: n Let_def gettoken_blanks [OF assms] fill_def)
next
  case (Function f args)
  then have n: "n = Suc (n - 1)" "6 < n - 1" by auto
  let ?s = "show_primary sp (Function f args) @ rest"
  note pf = parsefunction_ok [OF Function.prems(1) n(2) Function.prems(3), of sp CR_WORD]
  have "crule_parseprimary (Suc (n - 1)) seen CR_WORD ?s = crule_parsefunction (n - 1) CR_WORD ?s"
    by (simp only: crule_parseprimary.simps crule_token.case crule_token.distinct simp_thms if_False if_True)
  with pf n(1) have "crule_parseprimary n seen CR_WORD ?s = Inr (CR_NOERR, Some (CFunc f (map collapse args)), t, s')" by (simp only:)
  with pf show ?case by (simp only: primary_tree.simps) blast
next
  case (Negated p)
  obtain m where n: "n = Suc m" using Negated.prems(2) by (cases n) auto
  from Negated.IH [of m rest t s' True] Negated.prems n show ?case by auto
next
  case (Grouped e)
  obtain m where n: "n = Suc m" using Grouped.prems(2) by (cases n) auto
  from Grouped.IH [of m "'')'' @ rest" CR_CLOSEPAREN rest None] Grouped.prems n obtain tok s where
    "crule_gettoken (show_or sp e @ '')'' @ rest) = Some (tok, s)"
    "crule_parseorexpr m None tok s = Inr (CR_NOERR, Some (or_tree None e), CR_CLOSEPAREN, rest)" by auto
  then show ?case using Grouped.prems(3) by (auto simp: n)
qed

lemma crule_parse_show:
  assumes "or_ok e" "set sp \<subseteq> {CHR '' '', CHR 0x09}" "tail = [] \<or> hd tail = CHR '':''" "6 * length (show_or sp e @ tail) + 3 \<le> fuel"
  shows "crule_parse fuel (show_or sp e @ tail) = Inr (CR_NOERR, Some (or_tree None e), True)"
proof -
  obtain s' where g: "crule_gettoken tail = Some (CR_END, s')" using assms(3) by (cases tail) auto
  have "need_or e \<le> fuel" using assms(4) need_length(1) [of e sp] by simp
  from parse_shown(1) [OF assms(2,1) this g, of None] obtain tok s where
    "crule_gettoken (show_or sp e @ tail) = Some (tok, s)" "crule_parseorexpr fuel None tok s = Inr (CR_NOERR, Some (or_tree None e), CR_END, s')" by auto
  then show ?thesis by (simp add: crule_parse_def)
qed

section \<open>Rules the parser does not handle\<close>

lemma missing_operand_accepted:
  "crule_parse 100 ''|| directop()'' = Inr (CR_NOERR, Some (CAndOr True Null (Child (CFunc crule_directop []))), True) \<and>
   crule_eval env (CAndOr True Null (Child (CFunc crule_directop []))) = None"
proof
  show "crule_parse 100 ''|| directop()'' = Inr (CR_NOERR, Some (CAndOr True Null (Child (CFunc crule_directop []))), True)"
    by code_simp
qed simp

lemma bad_token_frees_uninitialised:
  "crule_parse 100 ''directop() || %'' = Inr (CR_UNKNWTOK, None, False)"
  by code_simp

lemma too_many_arguments:
  "crule_parse 100 ''via(a,b,c,d)'' = Inl ArgOverflow"
  by code_simp

section \<open>Properties\<close>

text \<open>
  C39.  The recursive-descent parser ends on every text: with six units of fuel for each character of the
  rule and three more \<open>crule_parse\<close> never runs out of fuel.
\<close>

theorem crule_parse_ends: "crule_parse (6 * length rule + 3 + n) rule \<noteq> Inl OutOfFuel"
  by (rule crule_parse_total) simp

text \<open>
  C19.  A rule of the grammar in the file's head comment (chains of \<open>||\<close> and \<open>&&\<close> of any length, with \<open>&&\<close> binding tighter, negations
  and groups), with any blanks around the operators, arguments that are words of at most 79 characters, and an end of input or a colon behind it, is parsed
  without error into a tree that \<open>crule_eval\<close> evaluates to the meaning of the rule in every state of the network and that \<open>crule_free\<close> releases.
\<close>

theorem crule_parse_meaning:
  assumes "or_ok e" "set sp \<subseteq> {CHR '' '', CHR 0x09}" "tail = [] \<or> hd tail = CHR '':''"
  shows "\<exists>t. crule_parse (6 * length (show_or sp e @ tail) + 3) (show_or sp e @ tail) = Inr (CR_NOERR, Some t, True) \<and>
    (\<forall>env. crule_eval env t = Some (or_means env e)) \<and> crule_free t"
proof -
  have "crule_eval env (or_tree None e) = Some (or_means env e) \<and> crule_free (or_tree None e)" for env
    using trees_mean(1) [of env None False e] by (simp add: chain_root_def)
  with crule_parse_show [OF assms order_refl] show ?thesis by blast
qed

theorem crule_parse_meaning_witness:
  "let e = OrMore (AndMore (Function crule_via [''hub*'', ''*.es'']) (AndMore (Negated (Function crule_directop [])) (AndOne (Function crule_connected [''a'']))))
             (OrOne (AndOne (Function crule_directop [])));
       rule = ''via(hub*,*.es) && !directop() && connected(a) || directop()''
   in show_or '' '' e = rule \<and>
      (\<exists>t. crule_parse (6 * length rule + 3) rule = Inr (CR_NOERR, Some t, True) \<and> (\<forall>env. crule_eval env t = Some (or_means env e)) \<and> crule_free t)"
proof -
  let ?e = "OrMore (AndMore (Function crule_via [''hub*'', ''*.es'']) (AndMore (Negated (Function crule_directop [])) (AndOne (Function crule_connected [''a'']))))
             (OrOne (AndOne (Function crule_directop [])))"
  have ok: "or_ok ?e" by code_simp
  have s: "show_or '' '' ?e = ''via(hub*,*.es) && !directop() && connected(a) || directop()''" by simp
  from crule_parse_meaning [OF ok, of "'' ''" "[]"] show ?thesis unfolding Let_def s append_Nil2 by simp
qed

end
