(* ===== verification/Dlink.thy ===== *)
theory Dlink
  imports Prelude
begin

text \<open>
  Doubly linked lists through pointers in the nodes, as the server keeps the members of a channel, the
  channels of a user and the list of all channels: the predicate \<open>dll\<close> relates the head pointer and the
  two link fields to the list of nodes, \<open>dll_push\<close> and \<open>dll_unlink\<close> say what the insertion at the head
  and the removal of a node do to it, and \<open>walk\<close> is the search along the forward links.
\<close>

section \<open>The lists\<close>

type_synonym links = "nat \<Rightarrow> nat option"

fun dseg :: "links \<Rightarrow> links \<Rightarrow> nat option \<Rightarrow> nat option \<Rightarrow> nat list \<Rightarrow> bool" where
  "dseg nx pv p h [] = (h = None)"
| "dseg nx pv p h (x # xs) = (h = Some x \<and> pv x = p \<and> dseg nx pv (Some x) (nx x) xs)"

definition dll :: "links \<Rightarrow> links \<Rightarrow> nat option \<Rightarrow> nat list \<Rightarrow> bool" where
  "dll nx pv h xs \<longleftrightarrow> dseg nx pv None h xs \<and> distinct xs"

lemma dseg_cong:
  "(\<And>x. x \<in> set xs \<Longrightarrow> nx' x = nx x \<and> pv' x = pv x) \<Longrightarrow> dseg nx' pv' p h xs = dseg nx pv p h xs"
  by (induction xs arbitrary: p h) auto

lemma dll_cong:
  "(\<And>x. x \<in> set xs \<Longrightarrow> nx' x = nx x \<and> pv' x = pv x) \<Longrightarrow> dll nx' pv' h xs = dll nx pv h xs"
  unfolding dll_def using dseg_cong [of xs nx' nx pv' pv None h] by blast

lemma dseg_unique: "dseg nx pv p h xs \<Longrightarrow> dseg nx pv q h ys \<Longrightarrow> xs = ys"
proof (induction xs arbitrary: p q h ys)
  case Nil
  then show ?case by (cases ys) auto
next
  case (Cons x xs)
  then show ?case by (cases ys) auto
qed

lemma dll_unique: "dll nx pv h xs \<Longrightarrow> dll nx pv h ys \<Longrightarrow> xs = ys"
  unfolding dll_def using dseg_unique by blast

lemma dll_Nil [simp]: "dll nx pv h [] \<longleftrightarrow> h = None"
  by (simp add: dll_def)

lemma dll_None: "dll nx pv None xs \<longleftrightarrow> xs = []"
  by (cases xs) (auto simp: dll_def)

lemma dll_Some: "dll nx pv (Some x) xs \<Longrightarrow> \<exists>ys. xs = x # ys"
  by (cases xs) (auto simp: dll_def)

lemma dll_distinct: "dll nx pv h xs \<Longrightarrow> distinct xs"
  by (simp add: dll_def)

section \<open>Insertion and removal\<close>

definition link_prev :: "links \<Rightarrow> nat option \<Rightarrow> nat option \<Rightarrow> links" where
  "link_prev f p v = (case p of None \<Rightarrow> f | Some x \<Rightarrow> f(x := v))"

lemma link_prev_apply [simp]: "link_prev f p v y = (if p = Some y then v else f y)"
  by (simp add: link_prev_def split: option.split)

lemma dll_push:
  assumes "dll nx pv h xs" "x \<notin> set xs"
  shows "dll (nx(x := h)) ((link_prev pv h (Some x))(x := None)) (Some x) (x # xs)"
proof (cases xs)
  case Nil
  with assms show ?thesis by (simp add: dll_def)
next
  case (Cons y ys)
  then have h: "h = Some y" "dseg nx pv (Some y) (nx y) ys" "y \<noteq> x" "y \<notin> set ys" "x \<notin> set ys"
    using assms by (auto simp: dll_def)
  have "dseg (nx(x := h)) ((link_prev pv h (Some x))(x := None)) (Some y) (nx y) ys"
    using h by (subst dseg_cong [of ys _ nx _ pv]) auto
  then show ?thesis using assms Cons h by (simp add: dll_def)
qed

text \<open>
  The removal of a node: the successor's back link and the predecessor's forward link, or the head, go
  around it.
\<close>

definition unlink_next :: "links \<Rightarrow> links \<Rightarrow> nat \<Rightarrow> links" where
  "unlink_next nx pv x = link_prev nx (pv x) (nx x)"

definition unlink_prev :: "links \<Rightarrow> links \<Rightarrow> nat \<Rightarrow> links" where
  "unlink_prev nx pv x = link_prev pv (nx x) (pv x)"

definition unlink_head :: "links \<Rightarrow> links \<Rightarrow> nat option \<Rightarrow> nat \<Rightarrow> nat option" where
  "unlink_head nx pv h x = (if pv x = None then nx x else h)"

lemma dseg_prev: "dseg nx pv p h xs \<Longrightarrow> x \<in> set xs \<Longrightarrow> pv x = p \<or> (\<exists>y \<in> set xs. pv x = Some y)"
  by (induction xs arbitrary: p h) auto

lemma dseg_next: "dseg nx pv p h xs \<Longrightarrow> x \<in> set xs \<Longrightarrow> nx x = None \<or> (\<exists>y \<in> set xs. nx x = Some y)"
proof (induction xs arbitrary: p h)
  case (Cons y ys)
  then show ?case by (cases ys) auto
qed simp

lemma dseg_unlink:
  assumes "dseg nx pv p h xs" "distinct xs" "x \<in> set xs" "\<And>y. p = Some y \<Longrightarrow> y \<notin> set xs"
  shows "dseg (unlink_next nx pv x) (unlink_prev nx pv x) p (if pv x = p then nx x else h) (remove1 x xs)"
  using assms
proof (induction xs arbitrary: p h)
  case (Cons y ys)
  have y: "h = Some y" "pv y = p" "dseg nx pv (Some y) (nx y) ys" using Cons.prems(1) by auto
  show ?case
  proof (cases "y = x")
    case True
    have "dseg (unlink_next nx pv x) (unlink_prev nx pv x) p (nx x) ys"
    proof (cases ys)
      case Nil
      with y True show ?thesis by simp
    next
      case (Cons z zs)
      have z: "nx x = Some z" "dseg nx pv (Some z) (nx z) zs" "pv z = Some x" using y Cons True by auto
      have ne: "p \<noteq> Some w" if "w \<in> set ys" for w using Cons.prems(4) [of w] that by auto
      have "dseg (unlink_next nx pv x) (unlink_prev nx pv x) (Some z) (nx z) zs"
        by (subst dseg_cong [of zs _ nx _ pv])
          (use z True y(2) Cons ne \<open>distinct (y # ys)\<close> in \<open>auto simp: unlink_next_def unlink_prev_def\<close>)
      moreover have "unlink_next nx pv x z = nx z" using ne [of z] Cons y(2) True by (auto simp: unlink_next_def)
      moreover have "unlink_prev nx pv x z = p" using z y(2) True by (auto simp: unlink_prev_def)
      ultimately show ?thesis using z Cons by simp
    qed
    then show ?thesis using True y by simp
  next
    case False
    then have x: "x \<in> set ys" using Cons.prems(3) by auto
    have IH: "dseg (unlink_next nx pv x) (unlink_prev nx pv x) (Some y) (if pv x = Some y then nx x else nx y) (remove1 x ys)"
      by (rule Cons.IH) (use y x Cons.prems in auto)
    have pvx: "pv x \<noteq> p" using dseg_prev [OF y(3) x] Cons.prems(4) by auto
    have ux: "unlink_next nx pv x y = (if pv x = Some y then nx x else nx y)" by (simp add: unlink_next_def)
    have "nx x \<noteq> Some y" using dseg_next [OF y(3) x] Cons.prems(2) by auto
    then have uy: "unlink_prev nx pv x y = pv y" by (simp add: unlink_prev_def)
    show ?thesis using IH pvx False y ux uy by simp
  qed
qed simp

lemma dll_unlink:
  assumes "dll nx pv h xs" "x \<in> set xs"
  shows "dll (unlink_next nx pv x) (unlink_prev nx pv x) (unlink_head nx pv h x) (remove1 x xs)"
  using dseg_unlink [of nx pv None h xs x] assms by (auto simp: dll_def unlink_head_def)

text \<open>A node of another list is not touched.\<close>

lemma dll_unlink_other:
  assumes "dll nx pv h xs" "x \<in> set xs" "y \<notin> set xs"
  shows "unlink_next nx pv x y = nx y" "unlink_prev nx pv x y = pv y"
  using dseg_prev [of nx pv None h xs x] dseg_next [of nx pv None h xs x] assms
  by (auto simp: dll_def unlink_next_def unlink_prev_def)

lemma dll_unlink_head:
  assumes "dll nx pv h xs" "x \<in> set xs"
  shows "pv x = None \<longleftrightarrow> h = Some x"
proof -
  obtain y ys where xs: "xs = y # ys" using assms(2) by (cases xs) auto
  then have y: "h = Some y" "pv y = None" "dseg nx pv (Some y) (nx y) ys" using assms(1) by (auto simp: dll_def)
  show ?thesis
  proof (cases "x = y")
    case False
    then show ?thesis using dseg_prev [OF y(3), of x] assms(2) xs y(1) by auto
  qed (use y in simp)
qed

section \<open>Search\<close>

text \<open>
  The first node at which the test holds; \<open>None\<close> is a test that fails an assertion or a walk that does
  not end.
\<close>

partial_function (option) walk :: "(nat \<Rightarrow> bool option) \<Rightarrow> links \<Rightarrow> nat option \<Rightarrow> nat option option" where
  "walk P nx p = (case p of
     None \<Rightarrow> Some None
   | Some x \<Rightarrow> Option.bind (P x) (\<lambda>b. if b then Some (Some x) else walk P nx (nx x)))"

definition asserting :: "bool \<Rightarrow> bool \<Rightarrow> bool option" where
  "asserting ok b = (if ok then Some b else None)"

lemma asserting_True [simp]: "asserting True b = Some b"
  by (simp add: asserting_def)

lemma walk_simps [simp]:
  "walk P nx None = Some None"
  "walk P nx (Some x) = Option.bind (P x) (\<lambda>b. if b then Some (Some x) else walk P nx (nx x))"
  by (simp_all add: walk.simps)

lemma walk_dll:
  assumes "dll nx pv h xs" "\<forall>x \<in> set xs. P x = Some (Q x)"
  shows "walk P nx h = Some (find Q xs)"
proof -
  have "dseg nx pv p h xs \<Longrightarrow> \<forall>x \<in> set xs. P x = Some (Q x) \<Longrightarrow> walk P nx h = Some (find Q xs)" for p
    by (induction xs arbitrary: p h) auto
  with assms show ?thesis by (auto simp: dll_def)
qed

lemma find_iff: "distinct (map f xs) \<Longrightarrow> find (\<lambda>x. f x = v) xs = Some m \<longleftrightarrow> m \<in> set xs \<and> f m = v"
  by (induction xs) (auto simp: rev_image_eqI)

end
