(* ===== verification/Channel.thy ===== *)
theory Channel
  imports Hash InAddr Dlink
begin

text \<open>
  Channels and their members, from \<open>ircd/channel.c\<close>: the matrix of memberships, doubly linked along the
  members of a channel and along the channels of a user, the lifetime of a channel from \<open>get_channel\<close> to
  \<open>destruct_channel\<close> with the delayed destruction of \<open>ircd/destruct_event.c\<close>, invitations, zombies and
  delayed joins.

  Memberships, clients and channels are in stores indexed by their addresses.  The two chains of a
  membership and the list of all channels are pointers in the nodes; the free lists, the lists of
  invitations and bans and the two lists of destruction events are the lists that a walk along them
  visits (the destruction events from the bottom to the top).  The address of a new membership is the
  number of those allocated before.  \<open>None\<close> is a failed assertion, a null pointer followed or a loop
  that does not end.  The counters of a user's channels and invitations and of the channels are integers:
  the invariant of \<open>ChannelInv\<close> keeps the first two at the lengths of the lists they count.  Messages
  sent to clients and servers are not part of the state.
\<close>

section \<open>Data\<close>

definition CHFL_CHANOP :: u32 where "CHFL_CHANOP = 0x0001"
definition CHFL_VOICE :: u32 where "CHFL_VOICE = 0x0002"
definition CHFL_ZOMBIE :: u32 where "CHFL_ZOMBIE = 0x0010"
definition CHFL_BANVALID :: u32 where "CHFL_BANVALID = 0x0800"
definition CHFL_BANNED :: u32 where "CHFL_BANNED = 0x1000"
definition CHFL_CHANNEL_MANAGER :: u32 where "CHFL_CHANNEL_MANAGER = 0x10000"
definition CHFL_DELAYED :: u32 where "CHFL_DELAYED = 0x40000"

definition MODE_MODERATED :: u32 where "MODE_MODERATED = 0x0010"
definition MODE_INVITEONLY :: u32 where "MODE_INVITEONLY = 0x0040"
definition MODE_NOPRIVMSGS :: u32 where "MODE_NOPRIVMSGS = 0x0080"
definition MODE_REGONLY :: u32 where "MODE_REGONLY = 0x0800"
definition MODE_WASDELJOINS :: u32 where "MODE_WASDELJOINS = 0x400000"
definition MODE_SSLONLY :: u32 where "MODE_SSLONLY = 0x800000"
definition MODE_OPERONLY :: u32 where "MODE_OPERONLY = 0x1000000"
definition MODE_MODERATENOREG :: u32 where "MODE_MODERATENOREG = 0x2000000"
definition MODE_MSGNONWEB :: u32 where "MODE_MSGNONWEB = 0x10000000"

definition STAT_ME :: u32 where "STAT_ME = 0x004"
definition STAT_SERVER :: u32 where "STAT_SERVER = 0x040"
definition STAT_USER :: u32 where "STAT_USER = 0x080"
definition STAT_WEBIRC :: u32 where "STAT_WEBIRC = 0x100"

definition CHANNELLEN :: nat where "CHANNELLEN = 200"

record Membership =
  m_user :: nat
  m_channel :: nat
  next_member :: "nat option"
  prev_member :: "nat option"
  next_channel :: "nat option"
  prev_channel :: "nat option"
  status :: u32
  oplevel :: u16

record Mode =
  mode :: u32
  limit :: u32
  key :: string
  upass :: string
  apass :: string

record Ban =
  address :: irc_in_addr
  bwhen :: int
  bflags :: u16
  nu_len :: u8
  addrbits :: u8
  who :: string
  banstr :: string

record DestructEvent =
  expires :: int
  chptr :: nat

record Channel =
  ch_next :: "nat option"
  ch_prev :: "nat option"
  destruct_event :: "DestructEvent option"
  creationtime :: int
  users :: nat
  members :: "nat option"
  invites :: "nat list"
  banlist :: "Ban list"
  chmode :: Mode

record User =
  u_server :: nat
  u_channel :: "nat option"
  invited :: "nat list"
  joined :: int
  ninvites :: int
  username :: string
  host :: string
  realhost :: string
  account :: string

datatype cflag = FLAG_LOCOP | FLAG_OPER | FLAG_CHSERV | FLAG_ACCOUNT | FLAG_HIDDENHOST | FLAG_SSL

record Client =
  cli_from :: nat
  cli_flags :: "cflag set"
  cli_ip :: irc_in_addr
  cli_user :: "User option"
  cli_up :: nat

record net =
  hashes :: hash_state
  memb :: "nat \<Rightarrow> Membership"
  membershipAllocCount :: nat
  membershipFreeList :: "nat list"
  clients :: "nat \<Rightarrow> Client"
  channels :: "nat \<Rightarrow> Channel"
  GlobalChannelList :: "nat option"
  UserStats_channels :: int
  chan_next :: nat
  bans_inuse :: int
  free_bans :: nat
  minute_list :: "DestructEvent list"
  days_list :: "DestructEvent list"

text \<open>The settings the code reads: \<open>FEAT_OPLEVELS\<close> and \<open>FEAT_MAXCHANNELSPERUSER\<close>.\<close>

record chan_features =
  feat_oplevels :: bool
  feat_maxchannels :: int

definition set_memb :: "nat \<Rightarrow> (Membership \<Rightarrow> Membership) \<Rightarrow> net \<Rightarrow> net" where
  "set_memb m f st = st\<lparr>memb := (memb st)(m := f (memb st m))\<rparr>"

definition set_chan :: "nat \<Rightarrow> (Channel \<Rightarrow> Channel) \<Rightarrow> net \<Rightarrow> net" where
  "set_chan c f st = st\<lparr>channels := (channels st)(c := f (channels st c))\<rparr>"

definition set_user :: "nat \<Rightarrow> (User \<Rightarrow> User) \<Rightarrow> net \<Rightarrow> net" where
  "set_user u f st = st\<lparr>clients := (clients st)(u := (clients st u)\<lparr>cli_user := map_option f (cli_user (clients st u))\<rparr>)\<rparr>"

section \<open>Tests\<close>

definition HasFlag :: "net \<Rightarrow> nat \<Rightarrow> cflag \<Rightarrow> bool" where
  "HasFlag st c f \<longleftrightarrow> f \<in> cli_flags (clients st c)"

definition IsMe :: "net \<Rightarrow> nat \<Rightarrow> bool" where "IsMe st c \<longleftrightarrow> cli_status (hashes st) c = STAT_ME"
definition IsServer :: "net \<Rightarrow> nat \<Rightarrow> bool" where "IsServer st c \<longleftrightarrow> cli_status (hashes st) c = STAT_SERVER"
definition IsUser :: "net \<Rightarrow> nat \<Rightarrow> bool" where "IsUser st c \<longleftrightarrow> cli_status (hashes st) c = STAT_USER"
definition IsWebircPort :: "net \<Rightarrow> nat \<Rightarrow> bool" where "IsWebircPort st c \<longleftrightarrow> cli_status (hashes st) c = STAT_WEBIRC"
definition MyUser :: "net \<Rightarrow> nat \<Rightarrow> bool" where "MyUser st c \<longleftrightarrow> cli_from (clients st c) = c \<and> IsUser st c"
definition IsChannelService :: "net \<Rightarrow> nat \<Rightarrow> bool" where "IsChannelService st c \<longleftrightarrow> HasFlag st c FLAG_CHSERV"
definition IsAccount :: "net \<Rightarrow> nat \<Rightarrow> bool" where "IsAccount st c \<longleftrightarrow> HasFlag st c FLAG_ACCOUNT"
definition IsSSL :: "net \<Rightarrow> nat \<Rightarrow> bool" where "IsSSL st c \<longleftrightarrow> HasFlag st c FLAG_SSL"
definition IsLocOp :: "net \<Rightarrow> nat \<Rightarrow> bool" where "IsLocOp st c \<longleftrightarrow> cli_from (clients st c) = c \<and> HasFlag st c FLAG_LOCOP"
definition IsAnOper :: "net \<Rightarrow> nat \<Rightarrow> bool" where "IsAnOper st c \<longleftrightarrow> HasFlag st c FLAG_OPER \<or> IsLocOp st c"

definition has_status :: "net \<Rightarrow> nat \<Rightarrow> u32 \<Rightarrow> bool" where
  "has_status st m f \<longleftrightarrow> status (memb st m) AND f \<noteq> 0"

abbreviation IsZombie :: "net \<Rightarrow> nat \<Rightarrow> bool" where "IsZombie st m \<equiv> has_status st m CHFL_ZOMBIE"
abbreviation IsDelayedJoin :: "net \<Rightarrow> nat \<Rightarrow> bool" where "IsDelayedJoin st m \<equiv> has_status st m CHFL_DELAYED"

definition has_mode :: "net \<Rightarrow> nat \<Rightarrow> u32 \<Rightarrow> bool" where
  "has_mode st c f \<longleftrightarrow> mode (chmode (channels st c)) AND f \<noteq> 0"

section \<open>Finding a membership\<close>

definition find_member_link :: "net \<Rightarrow> nat \<Rightarrow> nat \<Rightarrow> nat option option" where
  "find_member_link st c u =
    (if IsServer st u \<or> IsMe st u then Some None
     else if IsChannelService st u
     then walk (\<lambda>m. asserting (m_channel (memb st m) = c) (m_user (memb st m) = u))
            (\<lambda>m. next_member (memb st m)) (members (channels st c))
     else case cli_user (clients st u) of
       None \<Rightarrow> None
     | Some usr \<Rightarrow> walk (\<lambda>m. asserting (m_user (memb st m) = u) (m_channel (memb st m) = c))
            (\<lambda>m. next_channel (memb st m)) (u_channel usr))"

definition find_channel_member :: "net \<Rightarrow> nat \<Rightarrow> nat \<Rightarrow> nat option option" where
  "find_channel_member st u c =
    map_option (\<lambda>r. case r of None \<Rightarrow> None | Some m \<Rightarrow> if IsZombie st m then None else Some m) (find_member_link st c u)"

definition member_test :: "net \<Rightarrow> nat \<Rightarrow> nat \<Rightarrow> (nat \<Rightarrow> bool) \<Rightarrow> bool option" where
  "member_test st u c P = map_option (\<lambda>r. case r of None \<Rightarrow> False | Some m \<Rightarrow> P m) (find_member_link st c u)"

definition is_chan_op :: "net \<Rightarrow> nat \<Rightarrow> nat \<Rightarrow> bool option" where
  "is_chan_op st u c = member_test st u c (\<lambda>m. \<not> IsZombie st m \<and> has_status st m CHFL_CHANOP)"

definition is_zombie :: "net \<Rightarrow> nat \<Rightarrow> nat \<Rightarrow> bool option" where
  "is_zombie st u c = member_test st u c (IsZombie st)"

definition has_voice :: "net \<Rightarrow> nat \<Rightarrow> nat \<Rightarrow> bool option" where
  "has_voice st u c = member_test st u c (\<lambda>m. \<not> IsZombie st m \<and> has_status st m CHFL_VOICE)"

text \<open>The loops over the members of a channel.\<close>

definition find_delayed_joins :: "net \<Rightarrow> nat \<Rightarrow> bool option" where
  "find_delayed_joins st c = map_option (\<lambda>r. r \<noteq> None)
     (walk (\<lambda>m. Some (IsDelayedJoin st m)) (\<lambda>m. next_member (memb st m)) (members (channels st c)))"

definition channel_all_zombies :: "net \<Rightarrow> nat \<Rightarrow> bool option" where
  "channel_all_zombies st c = map_option (\<lambda>r. r = None)
     (walk (\<lambda>m. Some (\<not> IsZombie st m)) (\<lambda>m. next_member (memb st m)) (members (channels st c)))"

partial_function (option) count_zombies :: "net \<Rightarrow> nat option \<Rightarrow> nat \<Rightarrow> nat option" where
  "count_zombies st p n = (case p of
     None \<Rightarrow> Some n
   | Some m \<Rightarrow> count_zombies st (next_member (memb st m)) (if IsZombie st m then n + 1 else n))"

definition number_of_zombies :: "net \<Rightarrow> nat \<Rightarrow> nat option" where
  "number_of_zombies st c = count_zombies st (members (channels st c)) 0"

section \<open>Destruction events\<close>

text \<open>\<open>now\<close> is \<open>TStime()\<close>.\<close>

definition schedule_destruct_event_1m :: "int \<Rightarrow> nat \<Rightarrow> net \<Rightarrow> net" where
  "schedule_destruct_event_1m now c st =
    (if destruct_event (channels st c) \<noteq> None then st
     else let e = \<lparr>expires = now + 60, chptr = c\<rparr>
          in set_chan c (\<lambda>ch. ch\<lparr>destruct_event := Some e\<rparr>) (st\<lparr>minute_list := minute_list st @ [e]\<rparr>))"

definition schedule_destruct_event_48h :: "int \<Rightarrow> nat \<Rightarrow> net \<Rightarrow> net" where
  "schedule_destruct_event_48h now c st =
    (if destruct_event (channels st c) \<noteq> None then st
     else let e = \<lparr>expires = now + 172800, chptr = c\<rparr>
          in set_chan c (\<lambda>ch. ch\<lparr>destruct_event := Some e\<rparr>) (st\<lparr>days_list := days_list st @ [e]\<rparr>))"

definition remove_destruct_event :: "nat \<Rightarrow> net \<Rightarrow> net option" where
  "remove_destruct_event c st = (case destruct_event (channels st c) of
     None \<Rightarrow> None
   | Some e \<Rightarrow> Some (set_chan c (\<lambda>ch. ch\<lparr>destruct_event := None\<rparr>)
       (st\<lparr>minute_list := remove1 e (minute_list st), days_list := remove1 e (days_list st)\<rparr>)))"

section \<open>Invitations\<close>

definition del_invite :: "nat \<Rightarrow> nat \<Rightarrow> net \<Rightarrow> net option" where
  "del_invite u c st =
    (if cli_user (clients st u) = None then None
     else
       let st1 = (if u \<in> set (invites (channels st c))
                  then set_user u (\<lambda>usr. usr\<lparr>ninvites := ninvites usr - 1\<rparr>)
                         (set_chan c (\<lambda>ch. ch\<lparr>invites := remove1 u (invites ch)\<rparr>) st)
                  else st)
       in Some (set_user u (\<lambda>usr. usr\<lparr>invited := remove1 c (invited usr)\<rparr>) st1))"

definition add_invite :: "chan_features \<Rightarrow> nat \<Rightarrow> nat \<Rightarrow> net \<Rightarrow> net option" where
  "add_invite ft u c st = Option.bind (del_invite u c st) (\<lambda>st1.
     case cli_user (clients st1 u) of
       None \<Rightarrow> None
     | Some usr \<Rightarrow>
         if int (length (invited usr)) \<noteq> ninvites usr then None
         else
           Option.bind
             (if ninvites usr \<ge> feat_maxchannels ft
              then (case invited usr of [] \<Rightarrow> None | d # _ \<Rightarrow> del_invite u d st1)
              else Some st1)
             (\<lambda>st2. Some (set_user u (\<lambda>usr. usr\<lparr>invited := invited usr @ [c], ninvites := ninvites usr + 1\<rparr>)
                (set_chan c (\<lambda>ch. ch\<lparr>invites := u # invites ch\<rparr>) st2))))"

definition IsInvited :: "net \<Rightarrow> nat \<Rightarrow> nat \<Rightarrow> bool" where
  "IsInvited st u c = (case cli_user (clients st u) of None \<Rightarrow> False | Some usr \<Rightarrow> c \<in> set (invited usr))"

partial_function (option) del_invites :: "nat \<Rightarrow> net \<Rightarrow> net option" where
  "del_invites c st = (case invites (channels st c) of
     [] \<Rightarrow> Some st
   | u # _ \<Rightarrow> Option.bind (del_invite u c st) (del_invites c))"

section \<open>The end of a channel\<close>

definition free_ban_list :: "nat \<Rightarrow> net \<Rightarrow> net" where
  "free_ban_list c st = st\<lparr>bans_inuse := bans_inuse st - int (length (banlist (channels st c))),
     free_bans := free_bans st + length (banlist (channels st c))\<rparr>"

definition unlink_channel :: "nat \<Rightarrow> net \<Rightarrow> net" where
  "unlink_channel c st =
    (let ch = channels st c;
         st1 = (case ch_prev ch of
                  Some p \<Rightarrow> set_chan p (\<lambda>x. x\<lparr>ch_next := ch_next ch\<rparr>) st
                | None \<Rightarrow> st\<lparr>GlobalChannelList := ch_next ch\<rparr>)
     in case ch_next ch of
          Some n \<Rightarrow> set_chan n (\<lambda>x. x\<lparr>ch_prev := ch_prev ch\<rparr>) st1
        | None \<Rightarrow> st1)"

definition destruct_channel :: "nat \<Rightarrow> net \<Rightarrow> net option" where
  "destruct_channel c st =
    (if members (channels st c) \<noteq> None then None
     else case del_invites c st of
       None \<Rightarrow> None
     | Some st1 \<Rightarrow>
         (let st2 = unlink_channel c (free_ban_list c st1)
          in case hRemChannel (hashes st2) c of
               None \<Rightarrow> None
             | Some (hs, _) \<Rightarrow>
                 if hnext (channelTable hs) c \<noteq> Some c then None
                 else Some (st2\<lparr>hashes := hs, UserStats_channels := UserStats_channels st2 - 1\<rparr>)))"

definition sub1_from_channel :: "chan_features \<Rightarrow> int \<Rightarrow> nat \<Rightarrow> net \<Rightarrow> (bool \<times> net) option" where
  "sub1_from_channel ft now c st =
    (if users (channels st c) > 1 then
       (if members (channels st c) = None then None
        else Some (True, set_chan c (\<lambda>ch. ch\<lparr>users := users ch - 1\<rparr>) st))
     else
       let st1 = set_chan c (\<lambda>ch. ch\<lparr>users := 0, chmode := (chmode ch)\<lparr>mode := mode (chmode ch) AND NOT MODE_INVITEONLY, limit := 0\<rparr>\<rparr>) st;
           no_apass = apass (chmode (channels st1 c)) = []
       in case (if no_apass
                then map_option (\<lambda>s. set_chan c (\<lambda>ch. ch\<lparr>banlist := []\<rparr>) (free_ban_list c s))
                       (del_invites c (set_chan c (\<lambda>ch. ch\<lparr>chmode := (chmode ch)\<lparr>mode := 0, key := []\<rparr>\<rparr>) st1))
                else Some st1) of
            None \<Rightarrow> None
          | Some st2 \<Rightarrow>
              if no_apass \<and> \<not> feat_oplevels ft
              then map_option (\<lambda>s. (False, s)) (destruct_channel c st2)
              else if now - creationtime (channels st2 c) < 172800
              then Some (False, schedule_destruct_event_1m now c st2)
              else Some (False, schedule_destruct_event_48h now c st2))"

text \<open>The loop of \<open>exec_expired_destruct_events\<close> over one of the two lists.\<close>

partial_function (option) exec_expired :: "int \<Rightarrow> bool \<Rightarrow> net \<Rightarrow> net option" where
  "exec_expired now days st = (case (if days then days_list st else minute_list st) of
     [] \<Rightarrow> Some st
   | e # _ \<Rightarrow>
       if now \<ge> expires e
       then Option.bind (remove_destruct_event (chptr e) st) (\<lambda>st1. Option.bind (destruct_channel (chptr e) st1) (exec_expired now days))
       else Some st)"

definition exec_expired_destruct_events :: "int \<Rightarrow> net \<Rightarrow> net option" where
  "exec_expired_destruct_events now st = Option.bind (exec_expired now False st) (exec_expired now True)"

section \<open>Delayed joins\<close>

definition CheckDelayedJoins :: "nat \<Rightarrow> net \<Rightarrow> net option" where
  "CheckDelayedJoins c st =
    (if has_mode st c MODE_WASDELJOINS
     then map_option (\<lambda>d. if d then st
                          else set_chan c (\<lambda>ch. ch\<lparr>chmode := (chmode ch)\<lparr>mode := mode (chmode ch) AND NOT MODE_WASDELJOINS\<rparr>\<rparr>) st)
            (find_delayed_joins st c)
     else Some st)"

definition RevealDelayedJoin :: "nat \<Rightarrow> net \<Rightarrow> net option" where
  "RevealDelayedJoin m st = CheckDelayedJoins (m_channel (memb st m))
     (set_memb m (\<lambda>mb. mb\<lparr>status := status mb AND NOT CHFL_DELAYED\<rparr>) st)"

definition RevealDelayedJoinIfNeeded :: "nat \<Rightarrow> nat \<Rightarrow> net \<Rightarrow> net option" where
  "RevealDelayedJoinIfNeeded u c st = (case find_member_link st c u of
     None \<Rightarrow> None
   | Some None \<Rightarrow> Some st
   | Some (Some m) \<Rightarrow> if IsDelayedJoin st m then RevealDelayedJoin m st else Some st)"

section \<open>Joining and leaving\<close>

definition alloc_membership :: "net \<Rightarrow> nat \<times> net" where
  "alloc_membership st = (case membershipFreeList st of
     m # ms \<Rightarrow> (m, st\<lparr>membershipFreeList := ms\<rparr>)
   | [] \<Rightarrow> (membershipAllocCount st, st\<lparr>membershipAllocCount := membershipAllocCount st + 1\<rparr>))"

definition link_member :: "nat \<Rightarrow> nat \<Rightarrow> net \<Rightarrow> net" where
  "link_member m c st =
    (let h = members (channels st c);
         st1 = set_memb m (\<lambda>mb. mb\<lparr>next_member := h\<rparr>) st;
         st2 = (case h of Some n \<Rightarrow> set_memb n (\<lambda>mb. mb\<lparr>prev_member := Some m\<rparr>) st1 | None \<Rightarrow> st1)
     in set_chan c (\<lambda>ch. ch\<lparr>members := Some m\<rparr>) (set_memb m (\<lambda>mb. mb\<lparr>prev_member := None\<rparr>) st2))"

definition link_channel :: "nat \<Rightarrow> nat \<Rightarrow> net \<Rightarrow> net" where
  "link_channel m u st =
    (let h = Option.bind (cli_user (clients st u)) u_channel;
         st1 = set_memb m (\<lambda>mb. mb\<lparr>next_channel := h\<rparr>) st;
         st2 = (case h of Some n \<Rightarrow> set_memb n (\<lambda>mb. mb\<lparr>prev_channel := Some m\<rparr>) st1 | None \<Rightarrow> st1)
     in set_user u (\<lambda>usr. usr\<lparr>u_channel := Some m\<rparr>) (set_memb m (\<lambda>mb. mb\<lparr>prev_channel := None\<rparr>) st2))"

definition add_user_to_channel :: "nat \<Rightarrow> nat \<Rightarrow> u32 \<Rightarrow> u16 \<Rightarrow> net \<Rightarrow> net option" where
  "add_user_to_channel c u flags opl st =
    (if cli_user (clients st u) = None then Some st
     else
       let (m, st1) = alloc_membership st;
           st2 = set_memb m (\<lambda>mb. mb\<lparr>m_user := u, m_channel := c, status := flags, oplevel := opl\<rparr>) st1;
           st3 = link_channel m u (link_member m c st2)
       in map_option (\<lambda>st4. set_user u (\<lambda>usr. usr\<lparr>joined := joined usr + 1\<rparr>)
                              (set_chan c (\<lambda>ch. ch\<lparr>users := users ch + 1\<rparr>) st4))
            (if destruct_event (channels st3 c) \<noteq> None then remove_destruct_event c st3 else Some st3))"

definition unlink_member :: "nat \<Rightarrow> net \<Rightarrow> net" where
  "unlink_member m st =
    (let mb = memb st m;
         st1 = (case next_member mb of Some n \<Rightarrow> set_memb n (\<lambda>x. x\<lparr>prev_member := prev_member mb\<rparr>) st | None \<Rightarrow> st)
     in case prev_member mb of
          Some p \<Rightarrow> set_memb p (\<lambda>x. x\<lparr>next_member := next_member mb\<rparr>) st1
        | None \<Rightarrow> set_chan (m_channel mb) (\<lambda>ch. ch\<lparr>members := next_member mb\<rparr>) st1)"

definition unlink_channel_of :: "nat \<Rightarrow> net \<Rightarrow> net" where
  "unlink_channel_of m st =
    (let mb = memb st m;
         st1 = (case next_channel mb of Some n \<Rightarrow> set_memb n (\<lambda>x. x\<lparr>prev_channel := prev_channel mb\<rparr>) st | None \<Rightarrow> st)
     in case prev_channel mb of
          Some p \<Rightarrow> set_memb p (\<lambda>x. x\<lparr>next_channel := next_channel mb\<rparr>) st1
        | None \<Rightarrow> set_user (m_user mb) (\<lambda>usr. usr\<lparr>u_channel := next_channel mb\<rparr>) st1)"

definition remove_member_from_channel :: "chan_features \<Rightarrow> int \<Rightarrow> nat \<Rightarrow> net \<Rightarrow> (bool \<times> net) option" where
  "remove_member_from_channel ft now m st =
    (let c = m_channel (memb st m);
         u = m_user (memb st m);
         st1 = unlink_member m st
     in case (if IsDelayedJoin st1 m then CheckDelayedJoins c st1 else Some st1) of
          None \<Rightarrow> None
        | Some st2 \<Rightarrow>
            let st3 = unlink_channel_of m st2;
                st4 = set_user u (\<lambda>usr. usr\<lparr>joined := joined usr - 1\<rparr>) st3
            in sub1_from_channel ft now c (st4\<lparr>membershipFreeList := m # membershipFreeList st4\<rparr>))"

partial_function (option) remove_zombies :: "chan_features \<Rightarrow> int \<Rightarrow> nat \<Rightarrow> net \<Rightarrow> net option" where
  "remove_zombies ft now c st = (case members (channels st c) of
     None \<Rightarrow> None
   | Some m \<Rightarrow> (case remove_member_from_channel ft now m st of
       None \<Rightarrow> None
     | Some (again, st') \<Rightarrow> if again then remove_zombies ft now c st' else Some st'))"

definition remove_user_from_channel :: "chan_features \<Rightarrow> int \<Rightarrow> nat \<Rightarrow> nat \<Rightarrow> net \<Rightarrow> net option" where
  "remove_user_from_channel ft now u c st = (case find_member_link st c u of
     None \<Rightarrow> None
   | Some None \<Rightarrow> Some st
   | Some (Some m) \<Rightarrow> (case remove_member_from_channel ft now m st of
       None \<Rightarrow> None
     | Some (False, st1) \<Rightarrow> Some st1
     | Some (True, st1) \<Rightarrow> (case channel_all_zombies st1 c of
         None \<Rightarrow> None
       | Some z \<Rightarrow> if z then remove_zombies ft now c st1 else Some st1)))"

partial_function (option) remove_user_from_all_channels :: "chan_features \<Rightarrow> int \<Rightarrow> nat \<Rightarrow> net \<Rightarrow> net option" where
  "remove_user_from_all_channels ft now u st = (case cli_user (clients st u) of
     None \<Rightarrow> None
   | Some usr \<Rightarrow> (case u_channel usr of
       None \<Rightarrow> Some st
     | Some m \<Rightarrow> Option.bind (remove_user_from_channel ft now u (m_channel (memb st m)) st)
         (remove_user_from_all_channels ft now u)))"

text \<open>
  The walk of \<open>make_zombie\<close> along the uplinks from the kicker's server to this one: whether it passes
  the kicked user's server.
\<close>

partial_function (option) up_passes :: "net \<Rightarrow> nat \<Rightarrow> nat \<Rightarrow> nat \<Rightarrow> bool option" where
  "up_passes st me srv a =
    (if a = me then Some False else if a = srv then Some True else up_passes st me srv (cli_up (clients st a)))"

definition make_zombie :: "chan_features \<Rightarrow> int \<Rightarrow> nat \<Rightarrow> nat \<Rightarrow> nat \<Rightarrow> nat \<Rightarrow> nat \<Rightarrow> nat \<Rightarrow> net \<Rightarrow> net option" where
  "make_zombie ft now me m u cptr sptr c st =
    (let st1 = set_memb m (\<lambda>mb. mb\<lparr>status := status mb OR CHFL_ZOMBIE\<rparr>) st
     in if MyUser st1 u then remove_user_from_channel ft now u c st1
        else
          case (if cli_from (clients st1 u) = cptr
                then (case cli_user (clients st1 u) of
                    None \<Rightarrow> None
                  | Some usr \<Rightarrow>
                      if IsServer st1 sptr then up_passes st1 me (u_server usr) sptr
                      else (case cli_user (clients st1 sptr) of
                          None \<Rightarrow> None
                        | Some susr \<Rightarrow> up_passes st1 me (u_server usr) (u_server susr)))
                else Some False) of
            None \<Rightarrow> None
          | Some True \<Rightarrow> remove_user_from_channel ft now u c st1
          | Some False \<Rightarrow> (case channel_all_zombies st1 c of
              None \<Rightarrow> None
            | Some z \<Rightarrow> if z then remove_user_from_channel ft now u c st1 else Some st1))"

section \<open>Creation\<close>

definition get_channel :: "int \<Rightarrow> bool \<Rightarrow> nat \<Rightarrow> string \<Rightarrow> net \<Rightarrow> (nat option \<times> net) option" where
  "get_channel now create u name st =
    (if name = [] then Some (None, st)
     else
       let name' = (if MyUser st u \<and> length name > CHANNELLEN then take CHANNELLEN name else name)
       in case hSeekChannel (hashes st) name' of
            None \<Rightarrow> None
          | Some (hs, Some c) \<Rightarrow> Some (Some c, st\<lparr>hashes := hs\<rparr>)
          | Some (hs, None) \<Rightarrow>
              if \<not> create then Some (None, st\<lparr>hashes := hs\<rparr>)
              else
                let c = chan_next st;
                    st1 = (case GlobalChannelList st of
                             Some g \<Rightarrow> set_chan g (\<lambda>ch. ch\<lparr>ch_prev := Some c\<rparr>) st
                           | None \<Rightarrow> st);
                    ch = \<lparr>ch_next = GlobalChannelList st, ch_prev = None, destruct_event = None,
                          creationtime = (if MyUser st u then now else 0), users = 0, members = None,
                          invites = [], banlist = [], chmode = \<lparr>mode = 0, limit = 0, key = [], upass = [], apass = []\<rparr>\<rparr>
                in Some (Some c, (set_chan c (\<lambda>_. ch) st1)\<lparr>GlobalChannelList := Some c, chan_next := c + 1,
                     UserStats_channels := UserStats_channels st + 1,
                     hashes := hAddChannel (hs\<lparr>chname := (chname hs)(c := name')\<rparr>) c\<rparr>))"

section \<open>Common channels\<close>

text \<open>The loop over the channels of \<open>a\<close>; \<open>most = 0\<close> is no bound.\<close>

partial_function (option) common_loop :: "net \<Rightarrow> nat \<Rightarrow> nat \<Rightarrow> nat option \<Rightarrow> nat \<Rightarrow> nat option" where
  "common_loop st b most p n = (case p of
     None \<Rightarrow> Some n
   | Some m \<Rightarrow>
       Option.bind (walk (\<lambda>k. Some (m_user (memb st k) = b)) (\<lambda>k. next_member (memb st k)) (members (channels st (m_channel (memb st m)))))
         (\<lambda>r. if r = None then common_loop st b most (next_channel (memb st m)) n
              else if most \<noteq> 0 \<and> n + 1 \<ge> most then Some (n + 1)
              else common_loop st b most (next_channel (memb st m)) (n + 1)))"

definition common_chan_count :: "net \<Rightarrow> nat \<Rightarrow> nat \<Rightarrow> nat \<Rightarrow> nat option" where
  "common_chan_count st a b most = (case cli_user (clients st a) of
     None \<Rightarrow> None
   | Some usr \<Rightarrow> common_loop st b most (u_channel usr) 0)"

end
