(* ===== verification/Mmatch.thy ===== *)
theory Mmatch
  imports Match
begin

text \<open>
  The comparison of two wildcard masks, \<open>mmatch\<close> of \<open>ircd/match.c\<close>, and the proof that it answers 0
  only when the language of the old mask includes that of the new one.  As in \<open>Match\<close> a pointer is the
  suffix it points to, and \<open>None\<close> is a read outside of a string.
\<close>

section \<open>The comparison of two masks\<close>

text \<open>
  The state of \<open>mmatch\<close> between two rounds of its loop: \<open>m\<close>, \<open>n\<close>, \<open>ma\<close>, \<open>na\<close>, \<open>wild\<close>.
\<close>

type_synonym mmstate = "string \<times> string \<times> string \<times> string \<times> bool"

text \<open>Back to the last star: \<open>m = ma\<close>, \<open>n = ++na\<close>, where an escaped wildcard is one character.\<close>

definition mm_back :: "string \<Rightarrow> string \<Rightarrow> bool \<Rightarrow> int option + mmstate" where
  "mm_back ma na wild =
    (if \<not> wild then Inl (Some 1)
     else if na = [] then Inl None
     else let na' = (if escape na then tl (tl na) else tl na) in Inr (ma, na', ma, na', True))"

text \<open>The last part of a round, from the tests for escapes on.\<close>

definition mm_compare :: "mmstate \<Rightarrow> int option + mmstate" where
  "mm_compare st = (case st of (m, n, ma, na, wild) \<Rightarrow>
    (let mq = escape m; m' = (if mq then tl m else m);
         nq = escape n; n' = (if nq then tl n else n)
     in if (deref m' = CHR ''*'' \<and> \<not> mq) \<or>
           ((\<not> mq \<or> nq) \<and> ToLower (deref m') = ToLower (deref n')) \<or>
           (deref m' = CHR ''?'' \<and> \<not> mq \<and> (deref n' \<noteq> CHR ''*'' \<or> nq))
        then Inr (tl m', tl n', ma, na, wild)
        else mm_back ma na wild))"

text \<open>The walk back from the end of the old mask over question marks; the argument is reversed.\<close>

fun back_marks :: "string \<Rightarrow> string" where
  "back_marks (c # d # r) = (if c = CHR ''?'' then back_marks (d # r) else c # d # r)"
| "back_marks r = r"

definition star_tail :: "string \<Rightarrow> bool" where
  "star_tail old_mask = (case back_marks (rev old_mask) of
     c # d # _ \<Rightarrow> c = CHR ''*'' \<and> d \<noteq> CHR 0x5C
   | _ \<Rightarrow> False)"

text \<open>
  One round.  With an empty old mask the walk back starts in front of the string, which is \<open>None\<close>.
\<close>

definition mm_step :: "string \<Rightarrow> mmstate \<Rightarrow> int option + mmstate" where
  "mm_step old_mask st = (case st of (m0, n, ma0, na0, wild0) \<Rightarrow>
    (let (m, ma, na, wild) =
           (if deref m0 = CHR ''*''
            then let m1 = dropWhile (\<lambda>c. c = CHR ''*'') m0 in (m1, m1, n, True)
            else (m0, ma0, na0, wild0))
     in if m = [] then
          (if n = [] then Inl (Some 0)
           else if old_mask = [] then Inl None
           else if star_tail old_mask then Inl (Some 0)
           else case mm_back ma na wild of Inl r \<Rightarrow> Inl r | Inr st' \<Rightarrow> mm_compare st')
        else if n = [] then Inl (Some (if dropWhile (\<lambda>c. c = CHR ''*'') m \<noteq> [] then 1 else 0))
        else mm_compare (m, n, ma, na, wild)))"

partial_function (option) mm_loop :: "string \<Rightarrow> mmstate \<Rightarrow> int option" where
  "mm_loop old_mask st = (case mm_step old_mask st of Inl r \<Rightarrow> r | Inr st' \<Rightarrow> mm_loop old_mask st')"

definition mmatch :: "string \<Rightarrow> string \<Rightarrow> int option" where
  "mmatch old_mask new_mask = mm_loop old_mask (old_mask, new_mask, old_mask, new_mask, False)"

section \<open>Languages of masks\<close>

definition covers :: "tok list \<Rightarrow> tok list \<Rightarrow> bool" where
  "covers p ts \<longleftrightarrow> (\<forall>s. tmatch ts s \<longrightarrow> tmatch p s)"

lemma covers_refl [simp]: "covers p p" by (simp add: covers_def)

lemma covers_Any: "t \<noteq> Star \<Longrightarrow> covers p ts \<Longrightarrow> covers (Any # p) (t # ts)"
  by (cases t) (auto simp: covers_def)

lemma covers_Lit: "ToLower c = ToLower d \<Longrightarrow> covers p ts \<Longrightarrow> covers (Lit c # p) (Lit d # ts)"
  by (auto simp: covers_def)

lemma covers_Star: "covers p ts \<Longrightarrow> covers (Star # p) ts"
  unfolding covers_def tmatch_Star by (metis drop0 le0)

lemma covers_skip: "covers (Star # p) ts \<Longrightarrow> covers (Star # p) (t # ts)"
proof (cases t)
  case Star
  assume c: "covers (Star # p) ts"
  show ?thesis unfolding covers_def
  proof (intro allI impI)
    fix s assume "tmatch (t # ts) s"
    then obtain q where "tmatch ts (drop q s)" using Star tmatch_Star by blast
    with c have "tmatch (Star # p) (drop q s)" by (simp add: covers_def)
    then show "tmatch (Star # p) s" by (rule tmatch_Star_drop)
  qed
next
  case Any
  assume c: "covers (Star # p) ts"
  show ?thesis unfolding covers_def Any
  proof (intro allI impI)
    fix s assume "tmatch (Any # ts) s"
    with c show "tmatch (Star # p) s" by (cases s) (auto simp: covers_def)
  qed
next
  case (Lit d)
  assume c: "covers (Star # p) ts"
  show ?thesis unfolding covers_def Lit
  proof (intro allI impI)
    fix s assume "tmatch (Lit d # ts) s"
    with c show "tmatch (Star # p) s" by (cases s) (auto simp: covers_def)
  qed
qed

lemma tmatch_Anys: "tmatch (replicate k Any) s \<longleftrightarrow> length s = k"
proof (induction k arbitrary: s)
  case (Suc k)
  then show ?case by (cases s) auto
qed simp

lemma covers_marks: "starless q \<Longrightarrow> length q = k \<Longrightarrow> covers (Star # replicate k Any) (q @ ts)"
  unfolding covers_def tmatch_Star tmatch_Anys
proof (intro allI impI)
  fix s assume q: "starless q" "length q = k" and t: "tmatch (q @ ts) s"
  have "k \<le> length s" using tmatch_minlen [OF t] minlen_append [OF q(1)] q(2) by simp
  then show "\<exists>j \<le> length s. length (drop j s) = k" by (intro exI [of _ "length s - k"]) simp
qed

text \<open>The tokens of a mask without its first character.\<close>

definition head_tok :: "string \<Rightarrow> tok" where
  "head_tok m = (if escape m then Lit (deref (tl m)) else if hd m = CHR ''*'' then Star else if hd m = CHR ''?'' then Any else Lit (hd m))"

definition rest_of_tok :: "string \<Rightarrow> string" where
  "rest_of_tok m = (if escape m then tl (tl m) else tl m)"

lemma toks_head: "m \<noteq> [] \<Longrightarrow> toks m = head_tok m # toks (rest_of_tok m)"
  by (cases m; cases "tl m") (auto simp: head_tok_def rest_of_tok_def escape_def)

lemma toks_Nil_iff: "toks m = [] \<longleftrightarrow> m = []"
  by (cases m) auto

lemma rest_less: "m \<noteq> [] \<Longrightarrow> length (rest_of_tok m) < length m"
  by (cases m) (auto simp: rest_of_tok_def)

lemma back_eq: "mm_back ma na wild = (if \<not> wild then Inl (Some 1) else if na = [] then Inl None
    else Inr (ma, rest_of_tok na, ma, rest_of_tok na, True))"
  by (simp add: mm_back_def rest_of_tok_def Let_def)

lemma toks_stars: "toks (dropWhile (\<lambda>c. c = CHR ''*'') m) = dropWhile (\<lambda>t. t = Star) (toks m)"
proof (induction m)
  case (Cons c m)
  show ?case
  proof (cases "c = CHR ''*''")
    case False
    then have "head_tok (c # m) \<noteq> Star" by (simp add: head_tok_def)
    with False toks_head [of "c # m"] show ?thesis by simp
  qed (use Cons in simp)
qed simp

section \<open>Correctness\<close>

definition mm_inv :: "string \<Rightarrow> string \<Rightarrow> mmstate \<Rightarrow> bool" where
  "mm_inv old new st = (case st of (m, n, ma, na, wild) \<Rightarrow>
     (covers (toks m) (toks n) \<longrightarrow> covers (toks old) (toks new)) \<and>
     length m \<le> length ma \<and> is_cstr n \<and> is_cstr na \<and>
     (if wild
      then (covers (Star # toks ma) (toks na) \<longrightarrow> covers (toks old) (toks new)) \<and>
        (\<exists>p q. toks ma = p @ toks m \<and> toks na = q @ toks n \<and> starless p \<and> starless q \<and> length p = length q) \<and>
        (\<exists>y. toks old = y @ Star # toks ma) \<and> deref ma \<noteq> CHR ''*''
      else \<exists>p. toks old = p @ toks m \<and> starless p))"

lemma mm_compare_accepts:
  assumes "m \<noteq> []" "n \<noteq> []" "deref m \<noteq> CHR ''*''" "mm_compare (m, n, ma, na, wild) = Inr st'" "st' \<noteq> (ma, rest_of_tok na, ma, rest_of_tok na, True) \<or> \<not> wild"
  shows "st' = (rest_of_tok m, rest_of_tok n, ma, na, wild)"
    "head_tok m = Any \<and> head_tok n \<noteq> Star \<or> (\<exists>c d. head_tok m = Lit c \<and> head_tok n = Lit d \<and> ToLower c = ToLower d)"
proof -
  obtain c m1 d n1 where m: "m = c # m1" and n: "n = d # n1" using assms(1,2) by (meson neq_Nil_conv)
  let ?m' = "if escape m then tl m else m" and ?n' = "if escape n then tl n else n"
  let ?ok = "(deref ?m' = CHR ''*'' \<and> \<not> escape m) \<or> ((\<not> escape m \<or> escape n) \<and> ToLower (deref ?m') = ToLower (deref ?n')) \<or>
      (deref ?m' = CHR ''?'' \<and> \<not> escape m \<and> (deref ?n' \<noteq> CHR ''*'' \<or> escape n))"
  have ok: ?ok
  proof (rule ccontr)
    assume "\<not> ?ok"
    then have "mm_compare (m, n, ma, na, wild) = mm_back ma na wild" unfolding mm_compare_def Let_def prod.case by (rule if_not_P)
    with assms(4,5) show False by (auto simp: back_eq split: if_splits)
  qed
  then have "mm_compare (m, n, ma, na, wild) = Inr (tl ?m', tl ?n', ma, na, wild)" unfolding mm_compare_def Let_def prod.case by (rule if_P)
  with assms(4) show "st' = (rest_of_tok m, rest_of_tok n, ma, na, wild)" by (simp add: rest_of_tok_def split: if_splits)
  show "head_tok m = Any \<and> head_tok n \<noteq> Star \<or> (\<exists>c d. head_tok m = Lit c \<and> head_tok n = Lit d \<and> ToLower c = ToLower d)"
    using ok assms(3) m n
    by (cases "escape m"; cases "escape n") (auto simp: head_tok_def escape_def is_wild_def ToLower_wild split: if_splits)
qed

lemma mm_inv_na:
  assumes "mm_inv old new (m, n, ma, na, wild)" wild "n \<noteq> []"
  shows "na \<noteq> []"
proof -
  from assms(1,2) obtain q where "toks na = q @ toks n" by (auto simp: mm_inv_def)
  then show ?thesis using assms(3) toks_Nil_iff [of n] by auto
qed

lemma mm_back_ok:
  assumes i: "mm_inv old new (m, n, ma, na, wild)" and n: "n \<noteq> []"
  shows "case mm_back ma na wild of Inl r \<Rightarrow> r = Some 1
    | Inr st' \<Rightarrow> wild \<and> na \<noteq> [] \<and> st' = (ma, rest_of_tok na, ma, rest_of_tok na, True) \<and> mm_inv old new st'"
proof (cases wild)
  case True
  from i True obtain p q where w: "covers (Star # toks ma) (toks na) \<longrightarrow> covers (toks old) (toks new)"
    "toks ma = p @ toks m" "toks na = q @ toks n" "\<exists>y. toks old = y @ Star # toks ma" "deref ma \<noteq> CHR ''*''" "is_cstr na"
    by (auto simp: mm_inv_def)
  have na: "na \<noteq> []" by (rule mm_inv_na [OF i True n])
  have h: "toks na = head_tok na # toks (rest_of_tok na)" by (rule toks_head [OF na])
  have g: "covers (toks old) (toks new)" if "covers (Star # toks ma) (toks (rest_of_tok na))"
    using w(1) covers_skip [OF that] unfolding h by blast
  have "is_cstr (rest_of_tok na)" using w(6) is_cstr_tl by (simp add: rest_of_tok_def)
  then have "mm_inv old new (ma, rest_of_tok na, ma, rest_of_tok na, True)"
    using g covers_Star w(4,5) by (auto simp: mm_inv_def starless_def)
  then show ?thesis using True na by (simp add: back_eq)
qed (simp add: back_eq)

lemma mm_compare_ok:
  assumes i: "mm_inv old new (m, n, ma, na, wild)" and mn: "m \<noteq> [] \<and> n \<noteq> [] \<and> deref m \<noteq> CHR ''*'' \<or> m = []" "m = [] \<longrightarrow> wild"
  shows "case mm_compare (m, n, ma, na, wild) of Inl r \<Rightarrow> r = Some 1
    | Inr st' \<Rightarrow> mm_inv old new st' \<and>
        (st' = (rest_of_tok m, rest_of_tok n, ma, na, wild) \<or> wild \<and> na \<noteq> [] \<and> st' = (ma, rest_of_tok na, ma, rest_of_tok na, True))"
proof (cases "m = []")
  case True
  show ?thesis
  proof (cases "n = []")
    case True
    have "mm_compare (m, n, ma, na, wild) = Inr (m, n, ma, na, wild)"
      using \<open>m = []\<close> True by (simp add: mm_compare_def escape_def)
    then show ?thesis using i \<open>m = []\<close> True by (simp add: rest_of_tok_def escape_def)
  next
    case False
    have nz: "deref (if escape n then tl n else n) \<noteq> NUL"
      using i False by (cases n) (auto simp: mm_inv_def escape_def is_wild_def)
    have "mm_compare (m, n, ma, na, wild) = mm_back ma na wild"
      unfolding mm_compare_def Let_def prod.case using \<open>m = []\<close> nz by (auto simp: escape_def)
    then show ?thesis using mm_back_ok [OF i False] by (auto split: sum.splits)
  qed
next
  case False
  then have mn': "m \<noteq> []" "n \<noteq> []" "deref m \<noteq> CHR ''*''" using mn by auto
  show ?thesis
  proof (cases "mm_compare (m, n, ma, na, wild)")
    case (Inl r)
    then have "mm_back ma na wild = Inl r" by (auto simp: mm_compare_def Let_def split: if_splits)
    with mm_back_ok [OF i mn'(2)] Inl show ?thesis by simp
  next
    case (Inr st')
    show ?thesis
    proof (cases "st' \<noteq> (ma, rest_of_tok na, ma, rest_of_tok na, True) \<or> \<not> wild")
      case False
      then have st': "st' = (ma, rest_of_tok na, ma, rest_of_tok na, True)" wild by auto
      have na: "na \<noteq> []" by (rule mm_inv_na [OF i st'(2) mn'(2)])
      have "mm_back ma na wild = Inr st'" using st' na by (simp add: back_eq)
      with mm_back_ok [OF i mn'(2)] Inr st' na show ?thesis by simp
    next
      case True
      note a = mm_compare_accepts [OF mn' Inr True]
      have tm: "toks m = head_tok m # toks (rest_of_tok m)" and tn: "toks n = head_tok n # toks (rest_of_tok n)"
        using toks_head mn' by blast+
      have cv: "covers (toks m) (toks n)" if "covers (toks (rest_of_tok m)) (toks (rest_of_tok n))"
        using a(2) covers_Any covers_Lit that unfolding tm tn by auto
      have sl: "starless [head_tok m]" "starless [head_tok n]" using a(2) by (auto simp: starless_def)
      have ls: "length (rest_of_tok m) \<le> length ma" using i rest_less [OF mn'(1)] by (simp add: mm_inv_def)
      have cs: "is_cstr (rest_of_tok n)" using i is_cstr_tl by (simp add: mm_inv_def rest_of_tok_def)
      have "mm_inv old new st'"
      proof (cases wild)
        case wild: True
        from i wild obtain p q where pq: "toks ma = p @ toks m" "toks na = q @ toks n" "starless p" "starless q" "length p = length q"
          by (auto simp: mm_inv_def)
        have "toks ma = (p @ [head_tok m]) @ toks (rest_of_tok m)" "toks na = (q @ [head_tok n]) @ toks (rest_of_tok n)"
          "starless (p @ [head_tok m])" "starless (q @ [head_tok n])" "length (p @ [head_tok m]) = length (q @ [head_tok n])"
          using pq tm tn sl by (simp_all add: starless_def)
        then have "\<exists>p q. toks ma = p @ toks (rest_of_tok m) \<and> toks na = q @ toks (rest_of_tok n) \<and> starless p \<and> starless q \<and> length p = length q"
          by blast
        with i wild a(1) cv ls cs show ?thesis by (simp add: mm_inv_def)
      next
        case wild: False
        from i wild obtain p where p: "toks old = p @ toks m" "starless p" by (auto simp: mm_inv_def)
        have "toks old = (p @ [head_tok m]) @ toks (rest_of_tok m)" "starless (p @ [head_tok m])" using p tm sl by (simp_all add: starless_def)
        then have "\<exists>p. toks old = p @ toks (rest_of_tok m) \<and> starless p" by blast
        with i wild a(1) cv ls cs show ?thesis by (simp add: mm_inv_def)
      qed
      with Inr a(1) show ?thesis by simp
    qed
  qed
qed

lemma toks_append: "d \<noteq> CHR 0x5C \<Longrightarrow> toks (x @ d # rest) = toks (x @ [d]) @ toks rest"
proof (induction x rule: length_induct)
  case (1 x)
  have IH: "toks (z @ d # rest) = toks (z @ [d]) @ toks rest" if "length z < length x" for z using 1 that by blast
  show ?case
  proof (cases x)
    case Nil
    with 1(2) show ?thesis by simp
  next
    case (Cons c x')
    show ?thesis
    proof (cases x')
      case Nil
      with Cons IH [of "[]"] show ?thesis by simp
    next
      case (Cons e x'')
      with \<open>x = c # x'\<close> IH [of x'] IH [of x''] show ?thesis by simp
    qed
  qed
qed

lemma toks_marks: "toks (replicate k (CHR ''?'')) = replicate k Any"
  by (induction k) auto

lemma back_marks_eq: "\<exists>k. r = replicate k (CHR ''?'') @ back_marks r"
proof (induction r rule: back_marks.induct)
  case (1 c d r)
  show ?case
  proof (cases "c = CHR ''?''")
    case True
    with 1 obtain k where "d # r = replicate k (CHR ''?'') @ back_marks (d # r)" by blast
    then have "c # d # r = replicate (Suc k) (CHR ''?'') @ back_marks (c # d # r)" using True by simp
    then show ?thesis by blast
  next
    case False
    then show ?thesis by (intro exI [of _ 0]) simp
  qed
qed (auto intro: exI [of _ 0])

lemma star_tail_toks:
  assumes "star_tail old"
  shows "\<exists>y k. toks old = y @ Star # replicate k Any"
proof -
  obtain d r where b: "back_marks (rev old) = CHR ''*'' # d # r" "d \<noteq> CHR 0x5C"
    using assms by (auto simp: star_tail_def split: list.splits)
  obtain k where "rev old = replicate k (CHR ''?'') @ CHR ''*'' # d # r" using back_marks_eq [of "rev old"] b(1) by auto
  then have "old = rev (replicate k (CHR ''?'') @ CHR ''*'' # d # r)" by (simp add: rev_swap)
  then have "old = rev r @ d # CHR ''*'' # replicate k (CHR ''?'')" by simp
  then have "toks old = toks (rev r @ [d]) @ Star # replicate k Any"
    using toks_append [OF b(2), of "rev r" "CHR ''*'' # replicate k (CHR ''?'')"] by (simp add: toks_marks)
  then show ?thesis by blast
qed

lemma last_star:
  assumes "xs @ Star # ps = ys @ Star # qs" "starless ps" "starless qs"
  shows "ps = qs"
proof -
  have tw: "takeWhile (\<lambda>t. t \<noteq> Star) (rev (zs @ Star # ts)) = rev ts" if "starless ts" for zs ts :: "tok list"
    using that by (auto simp: starless_def takeWhile_tail)
  have "rev ps = rev qs" using tw [OF assms(2), of xs] tw [OF assms(3), of ys] assms(1) by simp
  then show ?thesis by simp
qed

lemma covers_stars: "covers (dropWhile (\<lambda>t. t = Star) p) ts \<Longrightarrow> covers p ts"
  by (induction p) (auto intro: covers_Star split: if_splits)

lemma covers_star_stars: "covers (Star # dropWhile (\<lambda>t. t = Star) p) ts \<Longrightarrow> covers (Star # p) ts"
proof (induction p)
  case (Cons t p)
  show ?case
  proof (cases "t = Star")
    case True
    with Cons have "covers (Star # p) ts" by simp
    with True show ?thesis by (simp add: covers_def tmatch_Star_Star)
  qed (use Cons in simp)
qed simp

lemma mm_strip_ok:
  assumes i: "mm_inv old new (m0, n, ma0, na0, wild0)" and s: "deref m0 = CHR ''*''" and m1: "m1 = dropWhile (\<lambda>c. c = CHR ''*'') m0"
  shows "mm_inv old new (m1, n, m1, n, True)" "length m1 < length ma0"
proof -
  obtain m where m0: "m0 = CHR ''*'' # m" using s by (cases m0) auto
  have m1': "m1 = dropWhile (\<lambda>c. c = CHR ''*'') m" using m1 m0 by simp
  have t0: "toks m0 = Star # toks m" "toks m1 = dropWhile (\<lambda>t. t = Star) (toks m)" using m0 m1' toks_stars by auto
  have "covers (toks m0) (toks n)" if "covers (Star # toks m1) (toks n)" using that covers_star_stars unfolding t0 by blast
  then have c: "covers (toks old) (toks new)" if "covers (Star # toks m1) (toks n)" using that i by (simp add: mm_inv_def)
  have d: "deref m1 \<noteq> CHR ''*''" using m1' by (induction m arbitrary: m1) auto
  have "\<exists>x. toks old = x @ toks m0"
  proof (cases wild0)
    case True
    with i obtain y p where "toks old = y @ Star # toks ma0" "toks ma0 = p @ toks m0" by (auto simp: mm_inv_def)
    then have "toks old = (y @ Star # p) @ toks m0" by simp
    then show ?thesis by blast
  qed (use i in \<open>auto simp: mm_inv_def\<close>)
  then obtain x where x: "toks old = x @ Star # toks m" using t0 by auto
  let ?tw = "takeWhile (\<lambda>t. t = Star) (toks m)"
  have "replicate (length ?tw) Star = ?tw" by (rule replicate_length_same) (auto dest: set_takeWhileD)
  then obtain j where "toks m = replicate j Star @ toks m1"
    using t0(2) takeWhile_dropWhile_id [of "\<lambda>t. t = Star" "toks m"] by metis
  then have "\<exists>y. toks old = y @ Star # toks m1"
  proof -
    have "toks old = (x @ replicate j Star) @ Star # toks m1" using x \<open>toks m = _\<close> by (simp add: replicate_app_Cons_same)
    then show ?thesis by blast
  qed
  with c d i show "mm_inv old new (m1, n, m1, n, True)" using covers_Star by (auto simp: mm_inv_def starless_def)
  show "length m1 < length ma0" using i m0 m1' length_dropWhile_le [of "\<lambda>c. c = CHR ''*''" m] by (simp add: mm_inv_def)
qed

definition mm_measure :: "mmstate \<Rightarrow> nat \<times> nat \<times> nat" where
  "mm_measure st = (case st of (m, n, ma, na, wild) \<Rightarrow> (length ma, length na, length m))"

definition mm_less :: "(mmstate \<times> mmstate) set" where
  "mm_less = inv_image (less_than <*lex*> less_than <*lex*> less_than) mm_measure"

lemma mm_less_wf: "wf mm_less"
  unfolding mm_less_def by (intro wf_inv_image wf_lex_prod wf_less_than)

text \<open>A round that went through the stars in front of \<open>m\<close>.\<close>

lemma mm_round_ok:
  assumes i: "mm_inv old new (m, n, ma, na, wild)" and old: "old \<noteq> []" and d: "deref m \<noteq> CHR ''*''"
  shows "case (if m = [] then
          (if n = [] then Inl (Some 0)
           else if old = [] then Inl None
           else if star_tail old then Inl (Some 0)
           else case mm_back ma na wild of Inl r \<Rightarrow> Inl r | Inr st' \<Rightarrow> mm_compare st')
        else if n = [] then Inl (Some (if dropWhile (\<lambda>c. c = CHR ''*'') m \<noteq> [] then 1 else 0))
        else mm_compare (m, n, ma, na, wild)) of
     Inl r \<Rightarrow> r = Some 1 \<or> r = Some 0 \<and> covers (toks old) (toks new)
   | Inr st' \<Rightarrow> mm_inv old new st' \<and> (st', (m, n, ma, na, wild)) \<in> mm_less"
proof -
  have sub: "(x, (m, n, ma, na, wild)) \<in> mm_less"
    if "na \<noteq> []" "x = (a, b, ma, na', w)" "length na' \<le> length (rest_of_tok na)" for x a b na' w
    using that rest_less [OF that(1)] by (simp add: mm_less_def mm_measure_def)
  consider (both) "m = []" "n = []" | (tail) "m = []" "n \<noteq> []" "star_tail old" | (retry) "m = []" "n \<noteq> []" "\<not> star_tail old"
    | (new) "m \<noteq> []" "n = []" | (compare) "m \<noteq> []" "n \<noteq> []" by blast
  then show ?thesis
  proof cases
    case both
    then show ?thesis using i by (simp add: mm_inv_def)
  next
    case tail
    obtain y k where yk: "toks old = y @ Star # replicate k Any" using star_tail_toks [OF tail(3)] by blast
    have wild
    proof (rule ccontr)
      assume "\<not> wild"
      with i tail(1) have "starless (toks old)" by (auto simp: mm_inv_def)
      with yk show False by (simp add: starless_def)
    qed
    with i tail(1) obtain p q x where pq: "toks ma = p" "toks na = q @ toks n" "starless p" "starless q" "length p = length q"
        "toks old = x @ Star # toks ma" "covers (Star # toks ma) (toks na) \<longrightarrow> covers (toks old) (toks new)"
      by (auto simp: mm_inv_def)
    have "toks ma = replicate k Any"
      by (rule last_star [of x _ y]) (use pq yk in \<open>auto simp: starless_def\<close>)
    moreover have "length q = k" using pq(1,5) \<open>toks ma = replicate k Any\<close> by (metis length_replicate)
    ultimately have "covers (Star # toks ma) (toks na)" using covers_marks [OF pq(4), of k "toks n"] pq(2) by simp
    with pq(7) tail old show ?thesis by simp
  next
    case retry
    note b = mm_back_ok [OF i retry(2)]
    show ?thesis
    proof (cases "mm_back ma na wild")
      case (Inl r)
      with b retry old show ?thesis by simp
    next
      case (Inr st1)
      with b have st1: "wild" "na \<noteq> []" "st1 = (ma, rest_of_tok na, ma, rest_of_tok na, True)" "mm_inv old new st1" by auto
      let ?na = "rest_of_tok na"
      have "?na \<noteq> []" "deref ma \<noteq> CHR ''*''" if "ma \<noteq> []"
      proof -
        from i st1(1) retry(1) obtain p q where pq: "toks ma = p" "toks na = q @ toks n" "length p = length q" "deref ma \<noteq> CHR ''*''"
          by (auto simp: mm_inv_def)
        then show "deref ma \<noteq> CHR ''*''" by simp
        obtain t q' where "q = t # q'" using pq(1,3) \<open>ma \<noteq> []\<close> toks_Nil_iff [of ma] by (cases q) auto
        then have "toks ?na = q' @ toks n" using pq(2) toks_head [OF st1(2)] by simp
        then show "?na \<noteq> []" using retry(2) toks_Nil_iff [of n] by auto
      qed
      then have pre: "ma \<noteq> [] \<and> ?na \<noteq> [] \<and> deref ma \<noteq> CHR ''*'' \<or> ma = []" by blast
      from mm_compare_ok [OF st1(4) [unfolded st1(3)] pre] have c: "case mm_compare st1 of Inl r \<Rightarrow> r = Some 1
        | Inr st' \<Rightarrow> mm_inv old new st' \<and>
            (st' = (rest_of_tok ma, rest_of_tok ?na, ma, ?na, True) \<or> ?na \<noteq> [] \<and> st' = (ma, rest_of_tok ?na, ma, rest_of_tok ?na, True))"
        unfolding st1(3) by (auto split: sum.splits)
      have "length (rest_of_tok ?na) \<le> length ?na" if "?na \<noteq> []" using rest_less [OF that] by simp
      with c retry old Inr sub [OF st1(2)] show ?thesis by (auto split: sum.splits)
    qed
  next
    case new
    have "dropWhile (\<lambda>c. c = CHR ''*'') m = m" using d by (cases m) auto
    with new show ?thesis by simp
  next
    case compare
    have c: "case mm_compare (m, n, ma, na, wild) of Inl r \<Rightarrow> r = Some 1
      | Inr st' \<Rightarrow> mm_inv old new st' \<and>
        (st' = (rest_of_tok m, rest_of_tok n, ma, na, wild) \<or> wild \<and> na \<noteq> [] \<and> st' = (ma, rest_of_tok na, ma, rest_of_tok na, True))"
      by (rule mm_compare_ok [OF i]) (use compare d in auto)
    have "((rest_of_tok m, rest_of_tok n, ma, na, wild), (m, n, ma, na, wild)) \<in> mm_less"
      using rest_less [OF compare(1)] by (simp add: mm_less_def mm_measure_def)
    with c compare sub show ?thesis by (auto split: sum.splits)
  qed
qed

lemma mm_step_ok:
  assumes i: "mm_inv old new st" and old: "old \<noteq> []"
  shows "case mm_step old st of Inl r \<Rightarrow> r = Some 1 \<or> r = Some 0 \<and> covers (toks old) (toks new)
   | Inr st' \<Rightarrow> mm_inv old new st' \<and> (st', st) \<in> mm_less"
proof -
  obtain m0 n ma0 na0 w0 where st: "st = (m0, n, ma0, na0, w0)" by (cases st)
  show ?thesis
  proof (cases "deref m0 = CHR ''*''")
    case False
    with mm_round_ok [OF i [unfolded st] old False] show ?thesis unfolding mm_step_def st by (simp add: Let_def)
  next
    case True
    define m1 where "m1 = dropWhile (\<lambda>c. c = CHR ''*'') m0"
    note s = mm_strip_ok [OF i [unfolded st] True m1_def]
    have d: "deref m1 \<noteq> CHR ''*''" using s(1) by (simp add: mm_inv_def)
    have less: "(st', st) \<in> mm_less" if "(st', (m1, n, m1, n, True)) \<in> mm_less" for st'
      using that s(2) by (auto simp: mm_less_def mm_measure_def st split: prod.splits)
    note r = mm_round_ok [OF s(1) old d]
    show ?thesis
    proof (cases "mm_step old st")
      case (Inl x)
      then show ?thesis using r True unfolding mm_step_def st Let_def prod.case m1_def [symmetric] by (simp only: if_True prod.case sum.case simp_thms)
    next
      case (Inr st')
      then have "mm_inv old new st' \<and> (st', (m1, n, m1, n, True)) \<in> mm_less"
        using r True unfolding mm_step_def st Let_def prod.case m1_def [symmetric] by (simp only: if_True prod.case sum.case simp_thms)
      with Inr less show ?thesis by simp
    qed
  qed
qed

lemma mm_loop_ok:
  assumes "old \<noteq> []"
  shows "mm_inv old new st \<Longrightarrow> mm_loop old st = Some 1 \<or> mm_loop old st = Some 0 \<and> covers (toks old) (toks new)"
proof (induction st rule: wf_induct_rule [OF mm_less_wf])
  case (1 st)
  note s = mm_step_ok [OF 1(2) assms]
  show ?case
  proof (cases "mm_step old st")
    case (Inl r)
    with s show ?thesis by (simp add: mm_loop.simps [of old st])
  next
    case (Inr st')
    with s 1(1) [of st'] show ?thesis by (simp add: mm_loop.simps [of old st])
  qed
qed

lemma mmatch_ok:
  assumes "old \<noteq> []" "is_cstr new"
  shows "mmatch old new = Some 1 \<or> mmatch old new = Some 0 \<and> covers (toks old) (toks new)"
  unfolding mmatch_def by (rule mm_loop_ok [OF assms(1)]) (use assms in \<open>auto simp: mm_inv_def starless_def\<close>)

lemma mmatch_reads_before_start: "mmatch [] (c # n) = None"
  by (simp add: mmatch_def mm_loop.simps mm_step_def)

declare mm_loop.simps [code]

text \<open>Escaped wildcards directly behind a wildcard: \<open>mmatch\<close> reads them as the comment says, \<open>match\<close> does not.\<close>

lemma mmatch_escape_after_star:
  "mmatch [CHR ''*'', CHR 0x5C, CHR ''*''] [CHR ''*'', CHR ''a'', CHR 0x5C, CHR ''*''] = Some 0"
  "match [CHR ''*'', CHR ''a'', CHR 0x5C, CHR ''*''] ''xa*'' = Some 0" "match [CHR ''*'', CHR 0x5C, CHR ''*''] ''xa*'' = Some 1"
  by code_simp+

section \<open>Properties\<close>

text \<open>
  C28.  For masks in which no escaped wildcard directly follows a wildcard (\<open>esc_ok\<close>), the old one not empty, \<open>mmatch\<close> ends with
  0 or 1, and when it answers 0 every string that the new mask matches is matched by the old one.  (Without the condition
  this fails: \<open>mmatch_escape_after_star\<close>.)
\<close>

theorem mmatch_superset:
  assumes "is_cstr old" "old \<noteq> []" "esc_ok old" "is_cstr new" "esc_ok new"
  shows "(mmatch old new = Some 0 \<or> mmatch old new = Some 1) \<and>
    (mmatch old new = Some 0 \<longrightarrow> (\<forall>s. is_cstr s \<longrightarrow> match new s = Some 0 \<longrightarrow> match old s = Some 0))"
proof -
  have "match old s = Some 0" if "covers (toks old) (toks new)" "is_cstr s" "match new s = Some 0" for s
    using that match_eq_tmatch [OF assms(4) that(2) assms(5)] match_eq_tmatch [OF assms(1) that(2) assms(3)]
    by (auto simp: covers_def split: if_splits)
  with mmatch_ok [OF assms(2,4)] show ?thesis by auto
qed

theorem mmatch_superset_witness: "mmatch ''*!*@*.net'' ''a?c!*@host*.net'' = Some 0 \<and> match ''*!*@*.net'' ''aBc!u@host1.net'' = Some 0"
proof -
  have h: "is_cstr ''*!*@*.net''" "''*!*@*.net'' \<noteq> []" "esc_ok ''*!*@*.net''" "is_cstr ''a?c!*@host*.net''" "esc_ok ''a?c!*@host*.net''" "is_cstr ''aBc!u@host1.net''"
    by code_simp+
  have "mmatch ''*!*@*.net'' ''a?c!*@host*.net'' = Some 0" by code_simp
  moreover have "match ''a?c!*@host*.net'' ''aBc!u@host1.net'' = Some 0" by code_simp
  ultimately show ?thesis using mmatch_superset [OF h(1-5)] h(6) by blast
qed

end
