(* ===== verification/ChannelBans.thy ===== *)
theory ChannelBans
  imports Channel Mmatch
begin

text \<open>
  Bans and the right to speak, from \<open>ircd/channel.c\<close>: the masks of bans (\<open>pretty_mask\<close>,
  \<open>set_ban_mask\<close>), the search of a ban list (\<open>find_ban\<close>) with the cache in the memberships
  (\<open>is_banned\<close>, \<open>mode_ban_invalidate\<close>), the list itself (\<open>bmatch\<close>, \<open>apply_ban\<close>) and the tests
  \<open>member_can_send_to_channel\<close>, \<open>client_can_send_to_channel\<close> and \<open>find_no_nickchange_channel\<close>.

  \<open>hh\<close> is the setting \<open>FEAT_HIDDEN_HOST\<close>.  A text that \<open>ircd_snprintf\<close> writes into a buffer of \<open>n\<close> bytes
  is its first \<open>n - 1\<close> characters, and \<open>ircd_strncpy\<close> copies as in \<open>IrcdString.ircd_strncpy_spec\<close>.
\<close>

section \<open>Masks\<close>

definition USERLEN :: nat where "USERLEN = 10"
definition HOSTLEN :: nat where "HOSTLEN = 63"

definition BAN_IPMASK :: u16 where "BAN_IPMASK = 0x0001"
definition BAN_OVERLAPPED :: u16 where "BAN_OVERLAPPED = 0x0002"
definition BAN_EXCEPTION :: u16 where "BAN_EXCEPTION = 0x0010"
definition BAN_DEL :: u16 where "BAN_DEL = 0x4000"
definition BAN_ADD :: u16 where "BAN_ADD = 0x8000"

definition has_ban :: "Ban \<Rightarrow> u16 \<Rightarrow> bool" where
  "has_ban b f \<longleftrightarrow> bflags b AND f \<noteq> 0"

text \<open>The C library's \<open>strrchr\<close>: the index of the last occurrence.\<close>

definition strrchr :: "string \<Rightarrow> char \<Rightarrow> nat option" where
  "strrchr s c = (if c \<in> set s then Some (length s - 1 - length (takeWhile (\<lambda>d. d \<noteq> c) (rev s))) else None)"

text \<open>
  A field that is too long loses its beginning: \<open>p = end - len; *p = '*'\<close>.
\<close>

definition cut_start :: "nat \<Rightarrow> string \<Rightarrow> string" where
  "cut_start n s = (if length s > n then CHR ''*'' # drop (length s - n + 1) s else s)"

text \<open>
  The three pointers of \<open>pretty_mask\<close> after its pass through the mask, as the texts they begin; the
  first \<open>!\<close> or \<open>@\<close> decides, and \<open>host\<close> is behind the last \<open>@\<close>.
\<close>

definition mask_parts :: "string \<Rightarrow> string \<times> string \<times> string" where
  "mask_parts msk =
    (case dropWhile (\<lambda>c. c \<noteq> CHR ''!'' \<and> c \<noteq> CHR ''@'') msk of
       [] \<Rightarrow> if CHR ''.'' \<in> set msk \<or> CHR '':'' \<in> set msk then (''*'', ''*'', msk) else (msk, ''*'', ''*'')
     | c # r \<Rightarrow>
         if c = CHR ''!''
         then (takeWhile (\<lambda>c. c \<noteq> CHR ''!'' \<and> c \<noteq> CHR ''@'') msk,
               case strrchr r (CHR ''@'') of None \<Rightarrow> (r, ''*'') | Some i \<Rightarrow> (take i r, drop (i + 1) r))
         else (''*'', case strrchr msk (CHR ''@'') of None \<Rightarrow> (msk, ''*'') | Some i \<Rightarrow> (take i msk, drop (i + 1) msk)))"

definition pretty_mask :: "string \<Rightarrow> string" where
  "pretty_mask msk = (case mask_parts msk of (nk, us, hs) \<Rightarrow>
    take (NICKLEN + USERLEN + HOSTLEN + 2)
      (take NICKLEN nk @ ''!'' @ cut_start USERLEN us @ ''@'' @ cut_start HOSTLEN hs))"

definition set_ban_mask :: "Ban \<Rightarrow> string \<Rightarrow> Ban" where
  "set_ban_mask b s =
    (let b1 = b\<lparr>banstr := take (NICKLEN + USERLEN + HOSTLEN + 2) s\<rparr>
     in case strrchr s (CHR ''@'') of
          None \<Rightarrow> b1
        | Some i \<Rightarrow>
            let b2 = b1\<lparr>nu_len := of_nat i\<rparr>
            in case ipmask_parse (drop (i + 1) s) True of
                 None \<Rightarrow> b2
               | Some (n, a, bits) \<Rightarrow>
                   if n = 0 then b2
                   else b2\<lparr>address := a, addrbits := (case bits of None \<Rightarrow> addrbits b2 | Some x \<Rightarrow> x),
                           bflags := bflags b2 OR BAN_IPMASK\<rparr>)"

definition empty_ban :: Ban where
  "empty_ban = \<lparr>address = ip_zero, bwhen = 0, bflags = 0, nu_len = 0, addrbits = 0, who = [], banstr = []\<rparr>"

definition make_ban :: "string \<Rightarrow> net \<Rightarrow> Ban \<times> net" where
  "make_ban s st = (set_ban_mask empty_ban s, st\<lparr>free_bans := free_bans st - 1, bans_inuse := bans_inuse st + 1\<rparr>)"

section \<open>Searching the bans of a channel\<close>

text \<open>The names of a client that a ban is compared with: \<open>nick!user\<close>, host, address, other host.\<close>

record ban_names =
  bn_nu :: string
  bn_host :: string
  bn_iphost :: string
  bn_sr :: "string option"
  bn_ip :: irc_in_addr

definition names_of :: "string \<Rightarrow> net \<Rightarrow> nat \<Rightarrow> User \<Rightarrow> ban_names" where
  "names_of hh st u usr =
    \<lparr>bn_nu = take (NICKLEN + USERLEN + 1) (cli_name (hashes st) u @ ''!'' @ username usr),
     bn_host = host usr,
     bn_iphost = ircd_ntoa_r (cli_ip (clients st u)),
     bn_sr = (if \<not> IsAccount st u then None
              else if HasFlag st u FLAG_HIDDENHOST then Some (realhost usr)
              else Some (take (HOSTLEN - 1) (account usr @ ''.'' @ hh))),
     bn_ip = cli_ip (clients st u)\<rparr>"

text \<open>The terminator put behind the \<open>nick!user\<close> part of the mask is overwritten with \<open>@\<close> afterwards.\<close>

definition put_at :: "Ban \<Rightarrow> Ban" where
  "put_at b = b\<lparr>banstr := (banstr b)[unat (nu_len b) := CHR ''@'']\<rparr>"

definition ban_hits :: "ban_names \<Rightarrow> Ban \<Rightarrow> bool" where
  "ban_hits nm b \<longleftrightarrow>
    match (take (unat (nu_len b)) (banstr b)) (bn_nu nm) = Some 0 \<and>
    (let hostmask = drop (unat (nu_len b) + 1) (banstr b)
     in has_ban b BAN_IPMASK \<and> ipmask_check (bn_ip nm) (address b) (addrbits b) \<noteq> 0 \<or>
        match hostmask (bn_host nm) = Some 0 \<or> match hostmask (bn_iphost nm) = Some 0 \<or>
        (case bn_sr nm of None \<Rightarrow> False | Some sr \<Rightarrow> match hostmask sr = Some 0))"

fun find_ban_loop :: "ban_names \<Rightarrow> Ban list \<Rightarrow> Ban option \<Rightarrow> Ban option \<times> Ban list" where
  "find_ban_loop nm [] found = (found, [])"
| "find_ban_loop nm (b # bs) found =
    (if found \<noteq> None \<and> \<not> has_ban b BAN_EXCEPTION
     then let (r, bs') = find_ban_loop nm bs found in (r, b # bs')
     else if \<not> ban_hits nm b then let (r, bs') = find_ban_loop nm bs found in (r, put_at b # bs')
     else if has_ban b BAN_EXCEPTION then (None, put_at b # bs)
     else let (r, bs') = find_ban_loop nm bs (Some (put_at b)) in (r, put_at b # bs'))"

definition find_ban :: "string \<Rightarrow> net \<Rightarrow> nat \<Rightarrow> Ban list \<Rightarrow> (Ban option \<times> Ban list) option" where
  "find_ban hh st u bl = (case cli_user (clients st u) of
     None \<Rightarrow> None
   | Some usr \<Rightarrow> Some (find_ban_loop (names_of hh st u usr) bl None))"

definition is_banned :: "string \<Rightarrow> nat \<Rightarrow> net \<Rightarrow> (bool \<times> net) option" where
  "is_banned hh m st =
    (if has_status st m CHFL_BANVALID then Some (has_status st m CHFL_BANNED, st)
     else
       let st1 = set_memb m (\<lambda>mb. mb\<lparr>status := status mb OR CHFL_BANVALID\<rparr>) st;
           c = m_channel (memb st1 m)
       in case find_ban hh st1 (m_user (memb st1 m)) (banlist (channels st1 c)) of
            None \<Rightarrow> None
          | Some (r, bl) \<Rightarrow>
              let st2 = set_chan c (\<lambda>ch. ch\<lparr>banlist := bl\<rparr>) st1
              in if r \<noteq> None
                 then Some (True, set_memb m (\<lambda>mb. mb\<lparr>status := status mb OR CHFL_BANNED\<rparr>) st2)
                 else Some (False, set_memb m (\<lambda>mb. mb\<lparr>status := status mb AND NOT CHFL_BANNED\<rparr>) st2))"

partial_function (option) mode_ban_invalidate_loop :: "nat option \<Rightarrow> net \<Rightarrow> net option" where
  "mode_ban_invalidate_loop p st = (case p of
     None \<Rightarrow> Some st
   | Some m \<Rightarrow> mode_ban_invalidate_loop (next_member (memb st m)) (set_memb m (\<lambda>mb. mb\<lparr>status := status mb AND NOT CHFL_BANVALID\<rparr>) st))"

definition mode_ban_invalidate :: "nat \<Rightarrow> net \<Rightarrow> net option" where
  "mode_ban_invalidate c st = mode_ban_invalidate_loop (members (channels st c)) st"

section \<open>Speaking\<close>

text \<open>The modes +M, +W, +O, +Z and +R against a user, in the order of the code.\<close>

definition modes_refuse :: "net \<Rightarrow> nat \<Rightarrow> nat \<Rightarrow> bool" where
  "modes_refuse st u c \<longleftrightarrow>
    has_mode st c MODE_MODERATENOREG \<and> \<not> IsAccount st u \<or>
    has_mode st c MODE_MSGNONWEB \<and> \<not> IsAccount st u \<and> \<not> IsWebircPort st u \<or>
    has_mode st c MODE_OPERONLY \<and> \<not> IsAnOper st u \<or>
    has_mode st c MODE_SSLONLY \<and> \<not> IsSSL st u \<or>
    has_mode st c MODE_REGONLY \<and> \<not> IsAccount st u"

definition reveal_member :: "bool \<Rightarrow> nat \<Rightarrow> net \<Rightarrow> (bool \<times> net) option" where
  "reveal_member reveal m st =
    (if IsDelayedJoin st m \<and> reveal then map_option (Pair True) (RevealDelayedJoin m st) else Some (True, st))"

definition member_can_send_to_channel :: "string \<Rightarrow> nat \<Rightarrow> bool \<Rightarrow> net \<Rightarrow> (bool \<times> net) option" where
  "member_can_send_to_channel hh m reveal st =
    (let u = m_user (memb st m); c = m_channel (memb st m)
     in if \<not> MyUser st u then reveal_member reveal m st
        else if has_status st m CHFL_CHANNEL_MANAGER \<and> apass (chmode (channels st c)) \<noteq> [] then Some (False, st)
        else if has_status st m (CHFL_CHANOP OR CHFL_VOICE) then Some (True, st)
        else if has_mode st c MODE_MODERATED then Some (False, st)
        else if modes_refuse st u c then Some (False, st)
        else case is_banned hh m st of
               None \<Rightarrow> None
             | Some (True, st1) \<Rightarrow> Some (False, st1)
             | Some (False, st1) \<Rightarrow> reveal_member reveal m st1)"

definition client_can_send_to_channel :: "string \<Rightarrow> nat \<Rightarrow> nat \<Rightarrow> bool \<Rightarrow> net \<Rightarrow> (bool \<times> net) option" where
  "client_can_send_to_channel hh u c reveal st =
    (if IsServer st u \<or> IsChannelService st u then Some (True, st)
     else case find_channel_member st u c of
       None \<Rightarrow> None
     | Some None \<Rightarrow>
         if has_mode st c (MODE_NOPRIVMSGS OR MODE_MODERATED) \<or> modes_refuse st u c then Some (False, st)
         else (case find_ban hh st u (banlist (channels st c)) of
                 None \<Rightarrow> None
               | Some (r, bl) \<Rightarrow> Some (r = None, set_chan c (\<lambda>ch. ch\<lparr>banlist := bl\<rparr>) st))
     | Some (Some m) \<Rightarrow> member_can_send_to_channel hh m reveal st)"

partial_function (option) nickchange_loop :: "string \<Rightarrow> nat \<Rightarrow> nat option \<Rightarrow> net \<Rightarrow> (nat option \<times> net) option" where
  "nickchange_loop hh u p st = (case p of
     None \<Rightarrow> Some (None, st)
   | Some m \<Rightarrow>
       let c = m_channel (memb st m)
       in if has_status st m (CHFL_CHANOP OR CHFL_VOICE) then nickchange_loop hh u (next_channel (memb st m)) st
          else if has_mode st c MODE_MODERATED \<or> modes_refuse st u c then Some (Some c, st)
          else Option.bind (is_banned hh m st) (\<lambda>r.
                 if fst r then Some (Some c, snd r)
                 else nickchange_loop hh u (next_channel (memb (snd r) m)) (snd r)))"

text \<open>The channel whose name \<open>find_no_nickchange_channel\<close> returns.\<close>

definition find_no_nickchange_channel :: "string \<Rightarrow> nat \<Rightarrow> net \<Rightarrow> (nat option \<times> net) option" where
  "find_no_nickchange_channel hh u st =
    (if MyUser st u
     then (case cli_user (clients st u) of None \<Rightarrow> None | Some usr \<Rightarrow> nickchange_loop hh u (u_channel usr) st)
     else Some (None, st))"

section \<open>Adding and removing bans\<close>

text \<open>
  For two address bans the code ends both masks at \<open>nu_len\<close> for the first comparison and writes the
  \<open>@\<close> back, which is what stood there: only \<open>set_ban_mask\<close> marks a ban as an address ban, at an \<open>@\<close>.
\<close>

definition bmatch :: "Ban \<Rightarrow> Ban \<Rightarrow> int option" where
  "bmatch old_ban new_ban =
    (if \<not> has_ban old_ban BAN_EXCEPTION \<and> has_ban new_ban BAN_EXCEPTION then Some 1
     else if bflags old_ban AND bflags new_ban AND BAN_IPMASK = 0 then mmatch (banstr old_ban) (banstr new_ban)
     else if addrbits old_ban > addrbits new_ban then Some 1
     else case mmatch (take (unat (nu_len old_ban)) (banstr old_ban)) (take (unat (nu_len new_ban)) (banstr new_ban)) of
            None \<Rightarrow> None
          | Some res \<Rightarrow>
              if res \<noteq> 0 then Some res
              else if ipmask_check (address new_ban) (address old_ban) (addrbits old_ban) = 0 then Some 1
              else mmatch (banstr old_ban) (banstr new_ban))"

text \<open>The loop that looks for a less specific active entry.\<close>

fun covered_loop :: "Ban list \<Rightarrow> Ban \<Rightarrow> bool option" where
  "covered_loop [] newban = Some False"
| "covered_loop (b # bs) newban = Option.bind (bmatch b newban) (\<lambda>r.
     if r = 0 \<and> \<not> has_ban b BAN_DEL then Some True else covered_loop bs newban)"

text \<open>The loops that mark more specific entries; the number is \<open>remove_count\<close>.\<close>

fun mark_loop :: "Ban \<Rightarrow> Ban list \<Rightarrow> (nat \<times> Ban list) option" where
  "mark_loop newban [] = Some (0, [])"
| "mark_loop newban (b # bs) = Option.bind (bmatch newban b) (\<lambda>r.
     map_option (\<lambda>(n, bs'). if r = 0 then (n + 1, b\<lparr>bflags := bflags b OR (BAN_OVERLAPPED OR BAN_DEL)\<rparr> # bs') else (n, b # bs'))
       (mark_loop newban bs))"

text \<open>The result with the list; \<open>newban\<close> is freed by the caller's wish when the result is not 0.\<close>

definition apply_ban :: "Ban list \<Rightarrow> Ban \<Rightarrow> (int \<times> Ban list) option" where
  "apply_ban bl newban =
    (if \<not> has_ban newban (BAN_ADD OR BAN_DEL) then None
     else if has_ban newban BAN_ADD then
       Option.bind (covered_loop bl newban) (\<lambda>covered.
         if covered then Some (1, bl)
         else map_option (\<lambda>(n, bl'). (0, bl' @ [newban])) (mark_loop newban bl))
     else map_option (\<lambda>(n, bl'). if n > 0 then (0, bl') else (3, bl')) (mark_loop newban bl))"

end
