(* ===== verification/BanLists.thy ===== *)
theory BanLists
  imports ChannelBans
begin

text \<open>
  The ban lists of \<open>ChannelBans\<close>.  The search \<open>find_ban\<close> answers for the client whether some ban of the list hits
  it and no exception does; \<open>bmatch\<close> answering 0 gives that every client the new ban hits is hit by the old
  one; \<open>apply_ban\<close> keeps a list in which no active ban covers another; \<open>pretty_mask\<close> gives the canonical
  \<open>nick!user@host\<close> text that the other functions rely on.
\<close>

section \<open>The search of a ban list\<close>

definition ban_wf :: "Ban \<Rightarrow> bool" where
  "ban_wf b \<longleftrightarrow> unat (nu_len b) < length (banstr b) \<and> banstr b ! unat (nu_len b) = CHR ''@''"

lemma put_at_wf: "ban_wf b \<Longrightarrow> put_at b = b"
  by (metis Ban.surjective Ban.update_convs(7) ban_wf_def list_update_id put_at_def)

text \<open>A client is banned by a list if a ban matches it and no exception does.\<close>

definition banned_by :: "ban_names \<Rightarrow> Ban list \<Rightarrow> bool" where
  "banned_by nms bl \<longleftrightarrow> (\<exists>b \<in> set bl. \<not> has_ban b BAN_EXCEPTION \<and> ban_hits nms b) \<and> \<not> (\<exists>b \<in> set bl. has_ban b BAN_EXCEPTION \<and> ban_hits nms b)"

lemma find_ban_loop_ok:
  assumes "\<forall>b \<in> set bl. ban_wf b" "find_ban_loop nms bl found = (r, bl')"
  shows "bl' = bl" "r = None \<longleftrightarrow> (\<exists>b \<in> set bl. has_ban b BAN_EXCEPTION \<and> ban_hits nms b) \<or> found = None \<and> \<not> (\<exists>b \<in> set bl. ban_hits nms b)"
    "r = Some b \<Longrightarrow> found = Some b \<or> b \<in> set bl \<and> \<not> has_ban b BAN_EXCEPTION \<and> ban_hits nms b"
  using assms
proof (induction bl arbitrary: found r bl')
  case (Cons a bl)
  {
    case 1
    then show ?case using Cons.IH(1) put_at_wf [of a] by (auto split: if_splits prod.splits)
  next
    case 2
    then show ?case using Cons.IH(2) put_at_wf [of a] by (auto split: if_splits prod.splits)
  next
    case 3
    then show ?case using Cons.IH(3) put_at_wf [of a] by (fastforce split: if_splits prod.splits)
  }
qed auto

lemma find_ban_ok:
  assumes "\<forall>b \<in> set bl. ban_wf b" "cli_user (clients st u) = Some usr"
  shows "\<exists>r. find_ban hh st u bl = Some (r, bl) \<and> (r \<noteq> None \<longleftrightarrow> banned_by (names_of hh st u usr) bl) \<and>
    (\<forall>b. r = Some b \<longrightarrow> b \<in> set bl \<and> \<not> has_ban b BAN_EXCEPTION \<and> ban_hits (names_of hh st u usr) b)"
proof -
  obtain r bl' where f: "find_ban_loop (names_of hh st u usr) bl None = (r, bl')" by fastforce
  note k = find_ban_loop_ok [OF assms(1) f]
  have "r \<noteq> None \<longleftrightarrow> banned_by (names_of hh st u usr) bl" using k(2) by (auto simp: banned_by_def)
  with k(1,3) f assms(2) show ?thesis by (auto simp: find_ban_def)
qed

section \<open>Lists of bans\<close>

text \<open>The invariant of the comment before \<open>apply_ban\<close>: no active entry covers another one.\<close>

definition active :: "Ban list \<Rightarrow> Ban list" where
  "active bl = filter (\<lambda>b. \<not> has_ban b BAN_DEL) bl"

definition no_overlap :: "Ban list \<Rightarrow> bool" where
  "no_overlap bl \<longleftrightarrow> sorted_wrt (\<lambda>a b. bmatch a b \<noteq> Some 0 \<and> bmatch b a \<noteq> Some 0) (active bl)"

definition bans_named :: "Ban list \<Rightarrow> bool" where
  "bans_named bl \<longleftrightarrow> (\<forall>b \<in> set bl. is_cstr (banstr b) \<and> banstr b \<noteq> [] \<and> (has_ban b BAN_IPMASK \<longrightarrow> nu_len b \<noteq> 0))"

lemma mmatch_answers: "old \<noteq> [] \<Longrightarrow> is_cstr new \<Longrightarrow> \<exists>r. mmatch old new = Some r"
  using mmatch_ok by blast

lemma bmatch_answers:
  assumes "bans_named [a, b]"
  shows "\<exists>r. bmatch a b = Some r"
proof -
  have a: "banstr a \<noteq> []" "is_cstr (banstr b)" using assms by (auto simp: bans_named_def)
  obtain r1 where r1: "mmatch (banstr a) (banstr b) = Some r1" using mmatch_answers [OF a] by blast
  show ?thesis
  proof (cases "bflags a AND bflags b AND BAN_IPMASK = 0")
    case True
    with r1 show ?thesis by (simp add: bmatch_def)
  next
    case False
    moreover have "bflags a AND bflags b AND BAN_IPMASK = (bflags a AND BAN_IPMASK) AND bflags b" by (simp add: ac_simps)
    ultimately have "has_ban a BAN_IPMASK" by (auto simp: has_ban_def)
    then have "take (unat (nu_len a)) (banstr a) \<noteq> []" using assms by (auto simp: bans_named_def unat_eq_zero)
    moreover have "is_cstr (take (unat (nu_len b)) (banstr b))" using a(2) by (simp add: is_cstr_take)
    ultimately obtain r where "mmatch (take (unat (nu_len a)) (banstr a)) (take (unat (nu_len b)) (banstr b)) = Some r"
      using mmatch_answers by blast
    with r1 show ?thesis by (auto simp: bmatch_def)
  qed
qed

lemma covered_loop_ok:
  assumes "bans_named (newban # bl)"
  shows "covered_loop bl newban = Some (\<exists>b \<in> set (active bl). bmatch b newban = Some 0)"
  using assms
proof (induction bl)
  case (Cons b bl)
  then obtain r where "bmatch b newban = Some r" using bmatch_answers [of b newban] by (auto simp: bans_named_def)
  moreover have "bans_named (newban # bl)" using Cons(2) by (simp add: bans_named_def)
  ultimately show ?case using Cons(1) by (auto simp: active_def)
qed (simp add: active_def)

definition mark :: "Ban \<Rightarrow> Ban \<Rightarrow> Ban" where
  "mark newban b = (if bmatch newban b = Some 0 then b\<lparr>bflags := bflags b OR (BAN_OVERLAPPED OR BAN_DEL)\<rparr> else b)"

lemma mark_loop_ok:
  assumes "bans_named (newban # bl)"
  shows "mark_loop newban bl = Some (length (filter (\<lambda>b. bmatch newban b = Some 0) bl), map (mark newban) bl)"
  using assms
proof (induction bl)
  case (Cons b bl)
  then obtain r where "bmatch newban b = Some r" using bmatch_answers [of newban b] by (auto simp: bans_named_def)
  moreover have "bans_named (newban # bl)" using Cons(2) by (simp add: bans_named_def)
  ultimately show ?case using Cons(1) by (auto simp: mark_def)
qed simp

lemma marked_del: "has_ban (mark newban b) BAN_DEL \<longleftrightarrow> bmatch newban b = Some 0 \<or> has_ban b BAN_DEL"
proof -
  have "(x OR (BAN_OVERLAPPED OR BAN_DEL)) AND BAN_DEL = BAN_DEL" for x :: u16
    by (rule bit_eqI) (auto simp: bit_simps BAN_DEL_def)
  then show ?thesis by (auto simp: mark_def has_ban_def) (auto simp: BAN_DEL_def)
qed

lemma active_mark: "active (map (mark newban) bl) = filter (\<lambda>b. bmatch newban b \<noteq> Some 0) (active bl)"
proof (induction bl)
  case (Cons b bl)
  have "\<not> bmatch newban b = Some 0 \<Longrightarrow> mark newban b = b" by (simp add: mark_def)
  with Cons show ?case by (auto simp: active_def marked_del)
qed (simp add: active_def)

lemma has_ban_or: "has_ban b (f OR g) \<longleftrightarrow> has_ban b f \<or> has_ban b g"
  by (auto simp: has_ban_def bit.conj_disj_distrib or_eq_0_iff)

lemma sorted_wrt_filter_sub: "sorted_wrt R xs \<Longrightarrow> sorted_wrt R (filter P xs)"
  by (induction xs) auto

lemma apply_ban_ok:
  assumes n: "bans_named (newban # bl)" and o: "no_overlap bl" and a: "has_ban newban BAN_ADD \<or> has_ban newban BAN_DEL"
  shows "\<exists>res bl'. apply_ban bl newban = Some (res, bl') \<and> no_overlap bl' \<and>
    (if has_ban newban BAN_ADD
     then if \<exists>b \<in> set (active bl). bmatch b newban = Some 0 then res = 1 \<and> bl' = bl
          else res = 0 \<and> active bl' = filter (\<lambda>b. bmatch newban b \<noteq> Some 0) (active bl) @ active [newban]
     else (res = 0 \<longleftrightarrow> (\<exists>b \<in> set bl. bmatch newban b = Some 0)) \<and> res \<in> {0, 3} \<and>
       active bl' = filter (\<lambda>b. bmatch newban b \<noteq> Some 0) (active bl))"
proof -
  have ad: "has_ban newban (BAN_ADD OR BAN_DEL)" using a by (simp add: has_ban_or)
  have act: "active (map (mark newban) bl @ [newban]) = filter (\<lambda>b. bmatch newban b \<noteq> Some 0) (active bl) @ active [newban]"
    using active_mark by (simp add: active_def)
  show ?thesis
  proof (cases "has_ban newban BAN_ADD")
    case True
    show ?thesis
    proof (cases "\<exists>b \<in> set (active bl). bmatch b newban = Some 0")
      case covered: True
      then have "apply_ban bl newban = Some (1, bl)" using ad True by (simp add: apply_ban_def covered_loop_ok [OF n])
      with o True covered show ?thesis by simp
    next
      case free: False
      then have "apply_ban bl newban = Some (0, map (mark newban) bl @ [newban])"
        using ad True by (simp add: apply_ban_def covered_loop_ok [OF n] mark_loop_ok [OF n])
      moreover have "no_overlap (map (mark newban) bl @ [newban])"
        using sorted_wrt_filter_sub [OF o [unfolded no_overlap_def]] free unfolding no_overlap_def act
        by (auto simp: sorted_wrt_append active_def)
      ultimately show ?thesis using True free act by simp
    qed
  next
    case False
    let ?n = "length (filter (\<lambda>b. bmatch newban b = Some 0) bl)"
    have "apply_ban bl newban = Some (if ?n > 0 then 0 else 3, map (mark newban) bl)"
      using ad False by (simp add: apply_ban_def mark_loop_ok [OF n])
    moreover have "no_overlap (map (mark newban) bl)"
      using sorted_wrt_filter_sub [OF o [unfolded no_overlap_def]] unfolding no_overlap_def active_mark .
    moreover have "?n > 0 \<longleftrightarrow> (\<exists>b \<in> set bl. bmatch newban b = Some 0)" by (auto simp: filter_empty_conv)
    ultimately show ?thesis using False active_mark by (intro exI conjI) auto
  qed
qed

section \<open>Which bans cover others\<close>

lemma cons_split:
  "(\<exists>c s'. s = c # s' \<and> P c \<and> (\<exists>s1 s2. s' = s1 @ s2 \<and> Q s1 \<and> R s2)) \<longleftrightarrow>
   (\<exists>s1 s2. s = s1 @ s2 \<and> (\<exists>c s'. s1 = c # s' \<and> P c \<and> Q s') \<and> R s2)"
proof
  assume "\<exists>c s'. s = c # s' \<and> P c \<and> (\<exists>s1 s2. s' = s1 @ s2 \<and> Q s1 \<and> R s2)"
  then obtain c s1 s2 where "s = (c # s1) @ s2" "P c" "Q s1" "R s2" by auto
  then show "\<exists>s1 s2. s = s1 @ s2 \<and> (\<exists>c s'. s1 = c # s' \<and> P c \<and> Q s') \<and> R s2" by blast
next
  assume "\<exists>s1 s2. s = s1 @ s2 \<and> (\<exists>c s'. s1 = c # s' \<and> P c \<and> Q s') \<and> R s2"
  then obtain c s1 s2 where "s = c # (s1 @ s2)" "P c" "Q s1" "R s2" by auto
  then show "\<exists>c s'. s = c # s' \<and> P c \<and> (\<exists>s1 s2. s' = s1 @ s2 \<and> Q s1 \<and> R s2)" by blast
qed

lemma tmatch_one:
  "tmatch (Any # A) s \<longleftrightarrow> (\<exists>c s'. s = c # s' \<and> True \<and> tmatch A s')"
  "tmatch (Lit d # A) s \<longleftrightarrow> (\<exists>c s'. s = c # s' \<and> ToLower c = ToLower d \<and> tmatch A s')"
  by (cases s; auto)+

lemma tmatch_append: "tmatch (A @ B) s \<longleftrightarrow> (\<exists>s1 s2. s = s1 @ s2 \<and> tmatch A s1 \<and> tmatch B s2)"
proof (induction A arbitrary: s)
  case (Cons t A)
  show ?case
  proof (cases t)
    case Star
    have "tmatch ((t # A) @ B) s \<longleftrightarrow> (\<exists>q s1 s2. q \<le> length s \<and> drop q s = s1 @ s2 \<and> tmatch A s1 \<and> tmatch B s2)"
      unfolding Star append_Cons tmatch_Star Cons by blast
    also have "\<dots> \<longleftrightarrow> (\<exists>s1 s2. s = s1 @ s2 \<and> (\<exists>q \<le> length s1. tmatch A (drop q s1)) \<and> tmatch B s2)"
    proof
      assume "\<exists>q s1 s2. q \<le> length s \<and> drop q s = s1 @ s2 \<and> tmatch A s1 \<and> tmatch B s2"
      then obtain q s1 s2 where q: "q \<le> length s" "drop q s = s1 @ s2" "tmatch A s1" "tmatch B s2" by blast
      have "s = (take q s @ s1) @ s2" using q(2) append_take_drop_id [of q s] by simp
      moreover have "drop q (take q s @ s1) = s1" using q(1) by simp
      ultimately show "\<exists>s1 s2. s = s1 @ s2 \<and> (\<exists>q \<le> length s1. tmatch A (drop q s1)) \<and> tmatch B s2"
        using q(1,3,4) by (intro exI [of _ "take q s @ s1"] exI [of _ s2]) (auto intro!: exI [of _ q])
    next
      assume "\<exists>s1 s2. s = s1 @ s2 \<and> (\<exists>q \<le> length s1. tmatch A (drop q s1)) \<and> tmatch B s2"
      then obtain s1 s2 q where "s = s1 @ s2" "q \<le> length s1" "tmatch A (drop q s1)" "tmatch B s2" by blast
      then show "\<exists>q s1 s2. q \<le> length s \<and> drop q s = s1 @ s2 \<and> tmatch A s1 \<and> tmatch B s2"
        by (intro exI [of _ q] exI [of _ "drop q s1"] exI [of _ s2]) simp
    qed
    finally show ?thesis unfolding Star tmatch_Star .
  next
    case Any
    show ?thesis unfolding Any append_Cons tmatch_one Cons cons_split ..
  next
    case (Lit d)
    show ?thesis unfolding Lit append_Cons tmatch_one Cons cons_split ..
  qed
qed simp

lemma toks_snoc: "\<not> is_wild d \<Longrightarrow> d \<noteq> CHR 0x5C \<Longrightarrow> toks (x @ [d]) = toks x @ [Lit d]"
proof (induction x rule: length_induct)
  case (1 x)
  have IH: "toks (z @ [d]) = toks z @ [Lit d]" if "length z < length x" for z using 1 that by blast
  show ?case
  proof (cases x)
    case Nil
    with 1(2,3) show ?thesis by (auto simp: is_wild_def)
  next
    case (Cons c x')
    show ?thesis
    proof (cases x')
      case Nil
      with Cons 1(2,3) show ?thesis by (auto simp: is_wild_def)
    next
      case (Cons e x'')
      with \<open>x = c # x'\<close> IH [of x'] IH [of x''] show ?thesis by simp
    qed
  qed
qed

lemma toks_at: "toks (x @ CHR ''@'' # y) = toks x @ Lit (CHR ''@'') # toks y"
  using toks_append [of "CHR ''@''" x y] toks_snoc [of "CHR ''@''" x] by (simp add: is_wild_def)

lemma ToLower_at: "ToLower c = CHR ''@'' \<longleftrightarrow> c = CHR ''@''"
  by (auto simp add: of_char_eq [of _ "CHR ''@''"] of_char_ToLower Let_def simp del: of_char_eq_iff)

lemma tmatch_at:
  assumes "CHR ''@'' \<notin> set n" "CHR ''@'' \<notin> set h"
  shows "tmatch (A @ Lit (CHR ''@'') # B) (n @ CHR ''@'' # h) \<longleftrightarrow> tmatch A n \<and> tmatch B h"
proof
  assume "tmatch (A @ Lit (CHR ''@'') # B) (n @ CHR ''@'' # h)"
  then obtain s1 s2 where s: "n @ CHR ''@'' # h = s1 @ s2" "tmatch A s1" "tmatch (Lit (CHR ''@'') # B) s2" unfolding tmatch_append by blast
  then obtain s2' where s2: "s2 = CHR ''@'' # s2'" "tmatch B s2'" by (cases s2) (auto simp: ToLower_at)
  from s(1) s2(1) have "n = s1 \<and> h = s2'" using append_Cons_eq_iff [OF assms, of s1 s2'] by simp
  with s s2 show "tmatch A n \<and> tmatch B h" by simp
next
  assume "tmatch A n \<and> tmatch B h"
  then show "tmatch (A @ Lit (CHR ''@'') # B) (n @ CHR ''@'' # h)" unfolding tmatch_append by (intro exI [of _ n] exI [of _ "CHR ''@'' # h"]) simp
qed

abbreviation nu_part :: "Ban \<Rightarrow> string" where "nu_part b \<equiv> take (unat (nu_len b)) (banstr b)"
abbreviation host_part :: "Ban \<Rightarrow> string" where "host_part b \<equiv> drop (unat (nu_len b) + 1) (banstr b)"

definition ban_text_ok :: "Ban \<Rightarrow> bool" where
  "ban_text_ok b \<longleftrightarrow> ban_wf b \<and> nu_len b \<noteq> 0 \<and> is_cstr (banstr b) \<and> esc_ok (nu_part b) \<and> esc_ok (host_part b) \<and>
    (has_ban b BAN_IPMASK \<longrightarrow> wf_addr (address b) \<and> unat (addrbits b) \<le> 128)"

definition names_ok :: "ban_names \<Rightarrow> bool" where
  "names_ok n \<longleftrightarrow> wf_addr (bn_ip n) \<and>
    (\<forall>s \<in> {bn_nu n, bn_host n, bn_iphost n} \<union> set_option (bn_sr n). is_cstr s \<and> CHR ''@'' \<notin> set s)"

lemma ban_split: "ban_wf b \<Longrightarrow> banstr b = nu_part b @ CHR ''@'' # host_part b"
  using id_take_nth_drop [of "unat (nu_len b)" "banstr b"] by (simp add: ban_wf_def)

definition hosts_of :: "ban_names \<Rightarrow> string set" where
  "hosts_of n = {bn_host n, bn_iphost n} \<union> set_option (bn_sr n)"

lemma ban_hits_iff:
  assumes "ban_text_ok b" "names_ok n"
  shows "ban_hits n b \<longleftrightarrow> tmatch (toks (nu_part b)) (bn_nu n) \<and>
    (has_ban b BAN_IPMASK \<and> (\<forall>i < unat (addrbits b). ip_bit (bn_ip n) i = ip_bit (address b) i) \<or>
     (\<exists>h \<in> hosts_of n. tmatch (toks (host_part b)) h))"
proof -
  have c: "is_cstr (nu_part b)" "is_cstr (host_part b)" "esc_ok (nu_part b)" "esc_ok (host_part b)"
    using assms(1) by (auto simp: ban_text_ok_def is_cstr_take is_cstr_drop)
  have nu: "match (nu_part b) (bn_nu n) = Some 0 \<longleftrightarrow> tmatch (toks (nu_part b)) (bn_nu n)"
    using match_eq_tmatch [OF c(1) _ c(3), of "bn_nu n"] assms(2) by (simp add: names_ok_def)
  have h: "match (host_part b) h = Some 0 \<longleftrightarrow> tmatch (toks (host_part b)) h" if "h \<in> hosts_of n" for h
    using match_eq_tmatch [OF c(2) _ c(4), of h] assms(2) that by (auto simp: names_ok_def hosts_of_def split: if_splits)
  have ip: "ipmask_check (bn_ip n) (address b) (addrbits b) \<noteq> 0 \<longleftrightarrow> (\<forall>i < unat (addrbits b). ip_bit (bn_ip n) i = ip_bit (address b) i)"
    if "has_ban b BAN_IPMASK"
    using ipmask_check_spec [of "bn_ip n" "address b" "addrbits b"] assms that by (simp add: names_ok_def ban_text_ok_def)
  have "(match (host_part b) (bn_host n) = Some 0 \<or> match (host_part b) (bn_iphost n) = Some 0 \<or>
      (case bn_sr n of None \<Rightarrow> False | Some sr \<Rightarrow> match (host_part b) sr = Some 0)) \<longleftrightarrow> (\<exists>h \<in> hosts_of n. tmatch (toks (host_part b)) h)"
    using h by (auto simp: hosts_of_def split: option.splits)
  with nu ip show ?thesis unfolding ban_hits_def Let_def by blast
qed

lemma has_ipmask: "has_ban b BAN_IPMASK \<longleftrightarrow> bit (bflags b) 0"
  by (simp add: has_ban_def BAN_IPMASK_def and_one_eq bit_0 odd_iff_mod_2_eq_one)

lemma both_ipmask: "bflags a AND bflags b AND BAN_IPMASK = 0 \<longleftrightarrow> \<not> (has_ban a BAN_IPMASK \<and> has_ban b BAN_IPMASK)"
proof -
  have "bflags a AND bflags b AND BAN_IPMASK = 0 \<longleftrightarrow> \<not> bit (bflags a AND bflags b) 0"
  proof -
    have "bflags a AND bflags b AND BAN_IPMASK = (bflags a AND bflags b) AND 1" by (simp add: BAN_IPMASK_def and.assoc)
    then show ?thesis by (simp only: and_one_eq bit_0 odd_iff_mod_2_eq_one) simp
  qed
  then show ?thesis by (simp add: has_ipmask bit_simps)
qed

lemma mmatch_covers: "old \<noteq> [] \<Longrightarrow> is_cstr new \<Longrightarrow> mmatch old new = Some 0 \<Longrightarrow> covers (toks old) (toks new)"
  using mmatch_ok [of old new] by auto

lemma ban_covers:
  assumes m: "bmatch old new = Some 0" and ok: "ban_text_ok old" "ban_text_ok new" and n: "names_ok nms"
    and ip: "has_ban new BAN_IPMASK \<longrightarrow> has_ban old BAN_IPMASK" and hit: "ban_hits nms new"
  shows "ban_hits nms old"
proof -
  have wf: "ban_wf old" "ban_wf new" using ok by (auto simp: ban_text_ok_def)
  have ne: "banstr old \<noteq> []" "is_cstr (banstr new)" "nu_part old \<noteq> []" "is_cstr (nu_part new)"
    using ok by (auto simp: ban_text_ok_def ban_wf_def unat_eq_zero is_cstr_take)
  have full: "mmatch (banstr old) (banstr new) = Some 0" using m by (auto simp: bmatch_def split: if_splits option.splits)
  have cov: "covers (toks (nu_part old) @ Lit (CHR ''@'') # toks (host_part old)) (toks (nu_part new) @ Lit (CHR ''@'') # toks (host_part new))"
    using mmatch_covers [OF ne(1,2) full] ban_split [OF wf(1)] ban_split [OF wf(2)] toks_at by metis
  have at: "CHR ''@'' \<notin> set (bn_nu nms)" "h \<in> hosts_of nms \<Longrightarrow> CHR ''@'' \<notin> set h" for h using n by (auto simp: names_ok_def hosts_of_def)
  note hi = ban_hits_iff [OF ok(2) n] and ho = ban_hits_iff [OF ok(1) n]
  from hit hi consider (names) h where "h \<in> hosts_of nms" "tmatch (toks (host_part new)) h" "tmatch (toks (nu_part new)) (bn_nu nms)"
    | (addr) "has_ban new BAN_IPMASK" "\<forall>i < unat (addrbits new). ip_bit (bn_ip nms) i = ip_bit (address new) i" "tmatch (toks (nu_part new)) (bn_nu nms)" by blast
  then show ?thesis
  proof cases
    case names
    then have "tmatch (toks (nu_part new) @ Lit (CHR ''@'') # toks (host_part new)) (bn_nu nms @ CHR ''@'' # h)" using tmatch_at [OF at(1) at(2)] by simp
    with cov have "tmatch (toks (nu_part old) @ Lit (CHR ''@'') # toks (host_part old)) (bn_nu nms @ CHR ''@'' # h)" by (simp add: covers_def)
    then have "tmatch (toks (nu_part old)) (bn_nu nms) \<and> tmatch (toks (host_part old)) h" using tmatch_at [OF at(1) at(2)] names(1) by simp
    with names(1) ho show ?thesis by blast
  next
    case addr
    have both: "has_ban old BAN_IPMASK" using ip addr(1) by blast
    then have b: "\<not> (bflags old AND bflags new AND BAN_IPMASK = 0)" using addr(1) both_ipmask by blast
    from m b have a: "addrbits old \<le> addrbits new" "mmatch (nu_part old) (nu_part new) = Some 0"
       "ipmask_check (address new) (address old) (addrbits old) \<noteq> 0"
      by (auto simp: bmatch_def not_less split: if_splits option.splits)
    have "tmatch (toks (nu_part old)) (bn_nu nms)" using mmatch_covers [OF ne(3,4) a(2)] addr(3) by (simp add: covers_def)
    moreover have "\<forall>i < unat (addrbits old). ip_bit (address new) i = ip_bit (address old) i"
      using ipmask_check_spec [of "address new" "address old" "addrbits old"] a(3) ok both addr(1)
      by (auto simp: ban_text_ok_def split: if_splits)
    then have "\<forall>i < unat (addrbits old). ip_bit (bn_ip nms) i = ip_bit (address old) i"
      using addr(2) a(1) by (auto simp: word_le_nat_alt)
    ultimately show ?thesis using ho both by blast
  qed
qed

section \<open>Canonical masks\<close>

lemma strrchr_last: "c \<notin> set y \<Longrightarrow> strrchr (x @ c # y) c = Some (length x)"
proof -
  assume y: "c \<notin> set y"
  have "takeWhile (\<lambda>d. d \<noteq> c) (rev (x @ c # y)) = rev y" using y by (auto simp: takeWhile_tail)
  then show ?thesis by (simp add: strrchr_def)
qed

lemma strrchr_Some:
  assumes "strrchr s c = Some i"
  shows "i < length s" "s ! i = c" "c \<notin> set (drop (i + 1) s)"
proof -
  have "c \<in> set s" using assms by (auto simp: strrchr_def split: if_splits)
  then obtain x y where s: "s = x @ c # y" "c \<notin> set y" by (meson split_list_last)
  then have "i = length x" using assms strrchr_last by fastforce
  with s show "i < length s" "s ! i = c" "c \<notin> set (drop (i + 1) s)" by simp_all
qed

lemma strrchr_None: "strrchr s c = None \<longleftrightarrow> c \<notin> set s"
  by (simp add: strrchr_def)

abbreviation plain_char :: "char \<Rightarrow> bool" where "plain_char c \<equiv> c \<noteq> CHR ''!'' \<and> c \<noteq> CHR ''@''"

text \<open>The parts of a mask: no \<open>!\<close> or \<open>@\<close> in the nick and no \<open>@\<close> in the host.\<close>

definition parts_ok :: "string \<times> string \<times> string \<Rightarrow> bool" where
  "parts_ok p = (case p of (n, u, h) \<Rightarrow> (\<forall>c \<in> set n. plain_char c) \<and> CHR ''@'' \<notin> set h)"

lemma mask_parts_ok: "parts_ok (mask_parts msk)"
proof (cases "dropWhile plain_char msk")
  case Nil
  then have "\<forall>c \<in> set msk. plain_char c" by (simp add: dropWhile_eq_Nil_conv)
  moreover from this have "CHR ''@'' \<notin> set msk" by blast
  ultimately show ?thesis unfolding mask_parts_def Nil by (simp add: parts_ok_def)
next
  case (Cons c r)
  define tw where "tw = takeWhile plain_char msk"
  have tw: "\<forall>c \<in> set tw. plain_char c" unfolding tw_def using set_takeWhileD [of _ plain_char msk] by blast
  have at: "CHR ''@'' \<notin> set (snd (case strrchr s (CHR ''@'') of None \<Rightarrow> (s, ''*'') | Some i \<Rightarrow> (take i s, drop (i + 1) s)))" for s
    using strrchr_Some(3) [of s "CHR ''@''"] by (cases "strrchr s (CHR ''@'')") simp_all
  have po: "parts_ok (n, q) \<longleftrightarrow> (\<forall>c \<in> set n. plain_char c) \<and> CHR ''@'' \<notin> set (snd q)" for n q by (cases q) (simp add: parts_ok_def)
  show ?thesis
  proof (cases "c = CHR ''!''")
    case True
    show ?thesis unfolding mask_parts_def Cons list.case tw_def [symmetric] if_P [OF True] po using tw at [of r] by blast
  next
    case False
    show ?thesis unfolding mask_parts_def Cons list.case if_not_P [OF False] po using at [of msk] by simp
  qed
qed

lemma mask_parts_of:
  assumes "parts_ok (n, u, h)"
  shows "mask_parts (n @ ''!'' @ u @ ''@'' @ h) = (n, u, h)"
proof -
  have n: "\<forall>c \<in> set n. plain_char c" "CHR ''@'' \<notin> set h" using assms by (auto simp: parts_ok_def)
  have "dropWhile plain_char (n @ CHR ''!'' # r) = CHR ''!'' # r" "takeWhile plain_char (n @ CHR ''!'' # r) = n" for r
    using n(1) by (auto simp: dropWhile_append3 takeWhile_tail)
  moreover have "strrchr (u @ CHR ''@'' # h) (CHR ''@'') = Some (length u)" by (rule strrchr_last [OF n(2)])
  ultimately show ?thesis by (simp add: mask_parts_def)
qed

lemma length_cut_start: "0 < k \<Longrightarrow> length (cut_start k s) \<le> k"
  by (auto simp: cut_start_def)

lemma cut_start_id: "length s \<le> k \<Longrightarrow> cut_start k s = s"
  by (simp add: cut_start_def)

lemma set_cut_start: "c \<in> set (cut_start k s) \<Longrightarrow> c = CHR ''*'' \<or> c \<in> set s"
  by (auto simp: cut_start_def split: if_splits dest: in_set_dropD)

lemma pretty_mask_parts:
  "\<exists>n u h. pretty_mask msk = n @ ''!'' @ u @ ''@'' @ h \<and> parts_ok (n, u, h) \<and>
    length n \<le> NICKLEN \<and> length u \<le> USERLEN \<and> length h \<le> HOSTLEN"
proof -
  obtain nk us hs where p: "mask_parts msk = (nk, us, hs)" by (cases "mask_parts msk") auto
  let ?n = "take NICKLEN nk" and ?u = "cut_start USERLEN us" and ?h = "cut_start HOSTLEN hs"
  have l: "length ?n \<le> NICKLEN" "length ?u \<le> USERLEN" "length ?h \<le> HOSTLEN"
    using length_cut_start [of USERLEN us] length_cut_start [of HOSTLEN hs] by (simp_all add: USERLEN_def HOSTLEN_def)
  then have "pretty_mask msk = ?n @ ''!'' @ ?u @ ''@'' @ ?h"
    by (simp add: pretty_mask_def p)
  moreover have "parts_ok (?n, ?u, ?h)"
    using mask_parts_ok [of msk] p set_cut_start by (auto simp: parts_ok_def dest: in_set_takeD)
  ultimately show ?thesis using l by blast
qed

lemma pretty_mask_of:
  assumes "parts_ok (n, u, h)" "length n \<le> NICKLEN" "length u \<le> USERLEN" "length h \<le> HOSTLEN"
  shows "pretty_mask (n @ ''!'' @ u @ ''@'' @ h) = n @ ''!'' @ u @ ''@'' @ h"
  using assms by (simp add: pretty_mask_def mask_parts_of [OF assms(1), simplified] cut_start_id)

lemma set_ban_mask_wf:
  assumes "parts_ok (n, u, h)" "length n \<le> NICKLEN" "length u \<le> USERLEN" "length h \<le> HOSTLEN" "s = n @ ''!'' @ u @ ''@'' @ h"
  shows "ban_wf (set_ban_mask b s)" "banstr (set_ban_mask b s) = s" "unat (nu_len (set_ban_mask b s)) = length n + 1 + length u"
proof -
  let ?i = "length n + 1 + length u"
  have "strrchr ((n @ ''!'' @ u) @ CHR ''@'' # h) (CHR ''@'') = Some (length (n @ ''!'' @ u))"
    by (rule strrchr_last) (use assms(1) in \<open>simp add: parts_ok_def\<close>)
  then have i: "strrchr s (CHR ''@'') = Some ?i" using assms(5) by simp
  have len: "length s \<le> NICKLEN + USERLEN + HOSTLEN + 2" using assms(2-5) by simp
  show b: "banstr (set_ban_mask b s) = s"
    using len i by (auto simp: set_ban_mask_def Let_def split: option.splits prod.splits)
  have "nu_len (set_ban_mask b s) = of_nat ?i" using i by (auto simp: set_ban_mask_def Let_def split: option.splits prod.splits)
  moreover have "?i < 256" using assms(2,3) by (simp add: NICKLEN_def USERLEN_def)
  moreover have "unat (of_nat k :: u8) = k" if "k < 256" for k using that by (simp add: unat_of_nat)
  ultimately show n: "unat (nu_len (set_ban_mask b s)) = ?i" by presburger
  show "ban_wf (set_ban_mask b s)" unfolding ban_wf_def b n using strrchr_Some(1,2) [OF i] by simp
qed

text \<open>
  The five transformations that the comment of \<open>pretty_mask\<close> lists: a mask and the nick, user and host it stands for.
\<close>

inductive mask_case :: "string \<Rightarrow> string \<Rightarrow> string \<Rightarrow> string \<Rightarrow> bool" where
  mask_nick: "\<forall>c \<in> set m. plain_char c \<and> c \<noteq> CHR ''.'' \<and> c \<noteq> CHR '':'' \<Longrightarrow> mask_case m m ''*'' ''*''"
| mask_host: "\<forall>c \<in> set m. plain_char c \<Longrightarrow> CHR ''.'' \<in> set m \<or> CHR '':'' \<in> set m \<Longrightarrow> mask_case m ''*'' ''*'' m"
| mask_nick_user: "\<forall>c \<in> set n. plain_char c \<Longrightarrow> CHR ''@'' \<notin> set u \<Longrightarrow> mask_case (n @ ''!'' @ u) n u ''*''"
| mask_user_host: "CHR ''!'' \<notin> set (takeWhile (\<lambda>c. c \<noteq> CHR ''@'') u) \<Longrightarrow> CHR ''@'' \<notin> set h \<Longrightarrow> mask_case (u @ ''@'' @ h) ''*'' u h"
| mask_all: "\<forall>c \<in> set n. plain_char c \<Longrightarrow> CHR ''@'' \<notin> set h \<Longrightarrow> mask_case (n @ ''!'' @ u @ ''@'' @ h) n u h"

lemma plain_split:
  assumes "\<forall>c \<in> set n. plain_char c" "\<not> plain_char d"
  shows "dropWhile plain_char (n @ d # r) = d # r" "takeWhile plain_char (n @ d # r) = n"
  using assms by (auto simp: dropWhile_append3 takeWhile_tail)

lemma at_first:
  assumes "CHR ''!'' \<notin> set (takeWhile (\<lambda>c. c \<noteq> CHR ''@'') u)"
  shows "\<exists>r. dropWhile plain_char (u @ CHR ''@'' # h) = CHR ''@'' # r"
  using assms by (induction u) (auto split: if_splits)

lemma takeWhile_shorter: "set (takeWhile P x) \<subseteq> set (takeWhile P (x @ y))"
  by (induction x) auto

lemma mask_case_parts: "mask_case msk n u h \<Longrightarrow> mask_parts msk = (n, u, h)"
proof (induction rule: mask_case.induct)
  case (mask_nick m)
  then have d: "dropWhile plain_char m = []" by (simp add: dropWhile_eq_Nil_conv)
  have "\<not> (CHR ''.'' \<in> set m \<or> CHR '':'' \<in> set m)" using mask_nick by blast
  then show ?case unfolding mask_parts_def d by simp
next
  case (mask_host m)
  then have d: "dropWhile plain_char m = []" by (simp add: dropWhile_eq_Nil_conv)
  show ?case unfolding mask_parts_def d using mask_host(2) by simp
next
  case (mask_nick_user n u)
  then have "strrchr u (CHR ''@'') = None" by (simp add: strrchr_None)
  with mask_nick_user show ?case by (simp add: mask_parts_def plain_split)
next
  case (mask_user_host u h)
  then show ?case using at_first [OF mask_user_host(1), of h] strrchr_last [OF mask_user_host(2), of u] by (auto simp: mask_parts_def)
next
  case (mask_all n h u)
  then show ?case by (intro mask_parts_of) (simp add: parts_ok_def)
qed

lemma mask_case_total: "\<exists>n u h. mask_case msk n u h"
proof (cases "dropWhile plain_char msk")
  case Nil
  then have "\<forall>c \<in> set msk. plain_char c" by (simp add: dropWhile_eq_Nil_conv)
  then show ?thesis using mask_nick [of msk] mask_host [of msk] by blast
next
  case (Cons d r)
  define n where "n = takeWhile plain_char msk"
  have n: "\<forall>c \<in> set n. plain_char c" unfolding n_def using set_takeWhileD [of _ plain_char msk] by blast
  have d: "\<not> plain_char d" using hd_dropWhile [of plain_char msk] Cons by simp
  have m: "msk = n @ [d] @ r" unfolding n_def using Cons takeWhile_dropWhile_id [of plain_char msk] by simp
  show ?thesis
  proof (cases "d = CHR ''!''")
    case True
    show ?thesis
    proof (cases "CHR ''@'' \<in> set r")
      case False
      from mask_nick_user [OF n this] show ?thesis unfolding m True by blast
    next
      case at: True
      then obtain u h where r: "r = u @ CHR ''@'' # h" and h: "CHR ''@'' \<notin> set h" by (meson split_list_last)
      have "r = u @ ''@'' @ h" using r by simp
      with mask_all [OF n h, of u] show ?thesis unfolding m True by blast
    qed
  next
    case False
    then have dc: "d = CHR ''@''" using d by blast
    then have at: "CHR ''@'' \<in> set msk" unfolding m by simp
    then obtain u h where u: "msk = u @ CHR ''@'' # h" "CHR ''@'' \<notin> set h" by (meson split_list_last)
    have "takeWhile (\<lambda>c. c \<noteq> CHR ''@'') msk = n" unfolding m dc using n takeWhile_append2 [of n "\<lambda>c. c \<noteq> CHR ''@''" "''@'' @ r"] by simp
    moreover have "set (takeWhile (\<lambda>c. c \<noteq> CHR ''@'') u) \<subseteq> set (takeWhile (\<lambda>c. c \<noteq> CHR ''@'') msk)" unfolding u(1) by (rule takeWhile_shorter)
    ultimately have "CHR ''!'' \<notin> set (takeWhile (\<lambda>c. c \<noteq> CHR ''@'') u)" using n by blast
    from mask_user_host [OF this u(2)] have "mask_case msk ''*'' u h" using u(1) by simp
    then show ?thesis by blast
  qed
qed

lemma pretty_mask_case:
  assumes "mask_case msk n u h"
  shows "pretty_mask msk = take NICKLEN n @ ''!'' @ cut_start USERLEN u @ ''@'' @ cut_start HOSTLEN h"
    "length (cut_start USERLEN u) \<le> USERLEN" "length (cut_start HOSTLEN h) \<le> HOSTLEN"
proof -
  show l: "length (cut_start USERLEN u) \<le> USERLEN" "length (cut_start HOSTLEN h) \<le> HOSTLEN"
    using length_cut_start [of USERLEN u] length_cut_start [of HOSTLEN h] by (simp_all add: USERLEN_def HOSTLEN_def)
  then show "pretty_mask msk = take NICKLEN n @ ''!'' @ cut_start USERLEN u @ ''@'' @ cut_start HOSTLEN h"
    by (simp add: pretty_mask_def mask_case_parts [OF assms])
qed

text \<open>A wildcard ban is taken to cover an address ban whose text it matches.\<close>

definition ban_of :: "string \<Rightarrow> Ban" where
  "ban_of s = set_ban_mask empty_ban (pretty_mask s)"

lemma text_covers_address:
  "bmatch (ban_of ''*!*@1?.0.*'') (ban_of ''*!*@10.0.0.0/8'') = Some 0"
  "ipmask_check (fst (snd (the (ipmask_parse ''10.9.9.9'' True)))) (address (ban_of ''*!*@10.0.0.0/8'')) (addrbits (ban_of ''*!*@10.0.0.0/8'')) = 1"
  "match ''1?.0.*'' ''10.9.9.9'' = Some 1"
  by code_simp+

lemma ban_without_at: "banstr (put_at (set_ban_mask empty_ban ''nick'')) = ''@ick''"
  by code_simp

end
