(* ===== verification/ChannelInv.thy ===== *)
theory ChannelInv
  imports Channel "HOL-Library.Sublist"
begin

text \<open>
  The invariant of the channels of a network and the proof that every operation of \<open>Channel\<close> keeps
  it: the matrix of memberships (\<open>minv\<close>: the chain of the members of every channel, the chain of the
  channels of every user, the free list), the table and the list of the channels (\<open>ginv\<close>) and the
  lists of destruction events (\<open>einv\<close>).  The ghost arguments are the lists that the chains hold.
\<close>

section \<open>The links\<close>

definition nm :: "net \<Rightarrow> links" where "nm st m = next_member (memb st m)"
definition pm :: "net \<Rightarrow> links" where "pm st m = prev_member (memb st m)"
definition nc :: "net \<Rightarrow> links" where "nc st m = next_channel (memb st m)"
definition pc :: "net \<Rightarrow> links" where "pc st m = prev_channel (memb st m)"
definition gn :: "net \<Rightarrow> links" where "gn st c = ch_next (channels st c)"
definition gp :: "net \<Rightarrow> links" where "gp st c = ch_prev (channels st c)"

definition uchan :: "net \<Rightarrow> nat \<Rightarrow> nat option" where
  "uchan st u = Option.bind (cli_user (clients st u)) u_channel"

lemma set_memb_simps [simp]:
  "memb (set_memb m f st) x = (if x = m then f (memb st m) else memb st x)"
  "channels (set_memb m f st) = channels st" "clients (set_memb m f st) = clients st"
  "hashes (set_memb m f st) = hashes st" "GlobalChannelList (set_memb m f st) = GlobalChannelList st"
  "membershipFreeList (set_memb m f st) = membershipFreeList st"
  "membershipAllocCount (set_memb m f st) = membershipAllocCount st"
  "minute_list (set_memb m f st) = minute_list st" "days_list (set_memb m f st) = days_list st"
  "chan_next (set_memb m f st) = chan_next st" "UserStats_channels (set_memb m f st) = UserStats_channels st"
  by (simp_all add: set_memb_def)

lemma set_chan_simps [simp]:
  "channels (set_chan c f st) x = (if x = c then f (channels st c) else channels st x)"
  "memb (set_chan c f st) = memb st" "clients (set_chan c f st) = clients st"
  "hashes (set_chan c f st) = hashes st" "GlobalChannelList (set_chan c f st) = GlobalChannelList st"
  "membershipFreeList (set_chan c f st) = membershipFreeList st"
  "membershipAllocCount (set_chan c f st) = membershipAllocCount st"
  "minute_list (set_chan c f st) = minute_list st" "days_list (set_chan c f st) = days_list st"
  "chan_next (set_chan c f st) = chan_next st" "UserStats_channels (set_chan c f st) = UserStats_channels st"
  by (simp_all add: set_chan_def)

lemma set_user_simps [simp]:
  "cli_user (clients (set_user u f st) x) = (if x = u then map_option f (cli_user (clients st u)) else cli_user (clients st x))"
  "cli_from (clients (set_user u f st) x) = cli_from (clients st x)"
  "cli_flags (clients (set_user u f st) x) = cli_flags (clients st x)"
  "cli_up (clients (set_user u f st) x) = cli_up (clients st x)"
  "memb (set_user u f st) = memb st" "channels (set_user u f st) = channels st"
  "hashes (set_user u f st) = hashes st" "GlobalChannelList (set_user u f st) = GlobalChannelList st"
  "membershipFreeList (set_user u f st) = membershipFreeList st"
  "membershipAllocCount (set_user u f st) = membershipAllocCount st"
  "minute_list (set_user u f st) = minute_list st" "days_list (set_user u f st) = days_list st"
  "chan_next (set_user u f st) = chan_next st" "UserStats_channels (set_user u f st) = UserStats_channels st"
  by (simp_all add: set_user_def)

lemmas link_defs = nm_def pm_def nc_def pc_def gn_def gp_def uchan_def

lemma link_member_links:
  "nm (link_member m c st) = (nm st)(m := members (channels st c))"
  "pm (link_member m c st) = (link_prev (pm st) (members (channels st c)) (Some m))(m := None)"
  "nc (link_member m c st) = nc st" "pc (link_member m c st) = pc st" "uchan (link_member m c st) = uchan st"
  by (auto simp: link_defs link_member_def Let_def fun_eq_iff split: option.split)

lemma link_channel_links:
  assumes "cli_user (clients st u) \<noteq> None"
  shows "nc (link_channel m u st) = (nc st)(m := uchan st u)"
  "pc (link_channel m u st) = (link_prev (pc st) (uchan st u) (Some m))(m := None)"
  "nm (link_channel m u st) = nm st" "pm (link_channel m u st) = pm st"
  "uchan (link_channel m u st) = (uchan st)(u := Some m)"
  using assms by (auto simp: link_defs link_channel_def Let_def fun_eq_iff split: option.split)

lemma link_member_rest [simp]:
  "m_user (memb (link_member m c st) x) = m_user (memb st x)"
  "m_channel (memb (link_member m c st) x) = m_channel (memb st x)"
  "status (memb (link_member m c st) x) = status (memb st x)"
  "members (channels (link_member m c st) d) = (if d = c then Some m else members (channels st d))"
  "clients (link_member m c st) = clients st" "hashes (link_member m c st) = hashes st"
  "users (channels (link_member m c st) d) = users (channels st d)"
  "destruct_event (channels (link_member m c st) d) = destruct_event (channels st d)"
  "ch_next (channels (link_member m c st) d) = ch_next (channels st d)"
  "ch_prev (channels (link_member m c st) d) = ch_prev (channels st d)"
  "GlobalChannelList (link_member m c st) = GlobalChannelList st"
  "membershipFreeList (link_member m c st) = membershipFreeList st"
  "membershipAllocCount (link_member m c st) = membershipAllocCount st"
  "minute_list (link_member m c st) = minute_list st" "days_list (link_member m c st) = days_list st"
  "chan_next (link_member m c st) = chan_next st"
  by (simp_all add: link_member_def Let_def split: option.split)

lemma link_channel_rest [simp]:
  "m_user (memb (link_channel m u st) x) = m_user (memb st x)"
  "m_channel (memb (link_channel m u st) x) = m_channel (memb st x)"
  "status (memb (link_channel m u st) x) = status (memb st x)"
  "channels (link_channel m u st) = channels st" "hashes (link_channel m u st) = hashes st"
  "cli_user (clients (link_channel m u st) x) = (if x = u then map_option (\<lambda>usr. usr\<lparr>u_channel := Some m\<rparr>) (cli_user (clients st u)) else cli_user (clients st x))"
  "cli_flags (clients (link_channel m u st) x) = cli_flags (clients st x)"
  "cli_from (clients (link_channel m u st) x) = cli_from (clients st x)"
  "GlobalChannelList (link_channel m u st) = GlobalChannelList st"
  "membershipFreeList (link_channel m u st) = membershipFreeList st"
  "membershipAllocCount (link_channel m u st) = membershipAllocCount st"
  "minute_list (link_channel m u st) = minute_list st" "days_list (link_channel m u st) = days_list st"
  "chan_next (link_channel m u st) = chan_next st"
  by (simp_all add: link_channel_def Let_def split: option.split)

lemma unlink_member_links:
  "nm (unlink_member m st) = unlink_next (nm st) (pm st) m"
  "pm (unlink_member m st) = unlink_prev (nm st) (pm st) m"
  "members (channels (unlink_member m st) (m_channel (memb st m))) =
     unlink_head (nm st) (pm st) (members (channels st (m_channel (memb st m)))) m"
  "nc (unlink_member m st) = nc st" "pc (unlink_member m st) = pc st" "uchan (unlink_member m st) = uchan st"
  by (auto simp: link_defs unlink_member_def unlink_next_def unlink_prev_def unlink_head_def Let_def fun_eq_iff split: option.split)

lemma unlink_channel_of_links:
  "nc (unlink_channel_of m st) = unlink_next (nc st) (pc st) m"
  "pc (unlink_channel_of m st) = unlink_prev (nc st) (pc st) m"
  "nm (unlink_channel_of m st) = nm st" "pm (unlink_channel_of m st) = pm st"
  "u \<noteq> m_user (memb st m) \<Longrightarrow> uchan (unlink_channel_of m st) u = uchan st u"
  by (auto simp: link_defs unlink_channel_of_def unlink_next_def unlink_prev_def unlink_head_def Let_def fun_eq_iff split: option.split)

lemma unlink_channel_of_head:
  assumes "cli_user (clients st (m_user (memb st m))) \<noteq> None"
  shows "uchan (unlink_channel_of m st) (m_user (memb st m)) = unlink_head (nc st) (pc st) (uchan st (m_user (memb st m))) m"
  using assms by (auto simp: link_defs unlink_channel_of_def unlink_head_def Let_def split: option.split)

lemma unlink_member_rest [simp]:
  "m_user (memb (unlink_member m st) x) = m_user (memb st x)"
  "m_channel (memb (unlink_member m st) x) = m_channel (memb st x)"
  "status (memb (unlink_member m st) x) = status (memb st x)"
  "d \<noteq> m_channel (memb st m) \<Longrightarrow> channels (unlink_member m st) d = channels st d"
  "clients (unlink_member m st) = clients st" "hashes (unlink_member m st) = hashes st"
  "users (channels (unlink_member m st) d) = users (channels st d)"
  "destruct_event (channels (unlink_member m st) d) = destruct_event (channels st d)"
  "creationtime (channels (unlink_member m st) d) = creationtime (channels st d)"
  "invites (channels (unlink_member m st) d) = invites (channels st d)"
  "ch_next (channels (unlink_member m st) d) = ch_next (channels st d)"
  "ch_prev (channels (unlink_member m st) d) = ch_prev (channels st d)"
  "chmode (channels (unlink_member m st) d) = chmode (channels st d)"
  "GlobalChannelList (unlink_member m st) = GlobalChannelList st"
  "membershipFreeList (unlink_member m st) = membershipFreeList st"
  "membershipAllocCount (unlink_member m st) = membershipAllocCount st"
  "minute_list (unlink_member m st) = minute_list st" "days_list (unlink_member m st) = days_list st"
  "chan_next (unlink_member m st) = chan_next st"
  by (simp_all add: unlink_member_def Let_def split: option.split)

lemma unlink_channel_of_rest [simp]:
  "m_user (memb (unlink_channel_of m st) x) = m_user (memb st x)"
  "m_channel (memb (unlink_channel_of m st) x) = m_channel (memb st x)"
  "status (memb (unlink_channel_of m st) x) = status (memb st x)"
  "channels (unlink_channel_of m st) = channels st" "hashes (unlink_channel_of m st) = hashes st"
  "cli_flags (clients (unlink_channel_of m st) x) = cli_flags (clients st x)"
  "cli_from (clients (unlink_channel_of m st) x) = cli_from (clients st x)"
  "x \<noteq> m_user (memb st m) \<Longrightarrow> clients (unlink_channel_of m st) x = clients st x"
  "GlobalChannelList (unlink_channel_of m st) = GlobalChannelList st"
  "membershipFreeList (unlink_channel_of m st) = membershipFreeList st"
  "membershipAllocCount (unlink_channel_of m st) = membershipAllocCount st"
  "minute_list (unlink_channel_of m st) = minute_list st" "days_list (unlink_channel_of m st) = days_list st"
  "chan_next (unlink_channel_of m st) = chan_next st"
  by (simp_all add: unlink_channel_of_def Let_def set_user_def split: option.split)

section \<open>The matrix of memberships\<close>

text \<open>
  \<open>M c\<close> and \<open>C u\<close> are the memberships of a channel and of a user in the order of their chains.
\<close>

definition minv :: "net \<Rightarrow> (nat \<Rightarrow> nat list) \<Rightarrow> (nat \<Rightarrow> nat list) \<Rightarrow> bool" where
  "minv st M C \<longleftrightarrow>
    (\<forall>c. dll (nm st) (pm st) (members (channels st c)) (M c)) \<and>
    (\<forall>u. dll (nc st) (pc st) (uchan st u) (C u)) \<and>
    (\<forall>c m. m \<in> set (M c) \<longrightarrow> m_channel (memb st m) = c \<and> m \<in> set (C (m_user (memb st m)))) \<and>
    (\<forall>u m. m \<in> set (C u) \<longrightarrow> m_user (memb st m) = u \<and> m \<in> set (M (m_channel (memb st m)))) \<and>
    (\<forall>u. distinct (map (\<lambda>m. m_channel (memb st m)) (C u))) \<and>
    (\<forall>u m. m \<in> set (C u) \<longrightarrow> m < membershipAllocCount st \<and> m \<notin> set (membershipFreeList st)) \<and>
    distinct (membershipFreeList st) \<and> (\<forall>m \<in> set (membershipFreeList st). m < membershipAllocCount st) \<and>
    (\<forall>c. users (channels st c) = length (M c)) \<and>
    (\<forall>u. C u \<noteq> [] \<longrightarrow> \<not> IsServer st u \<and> \<not> IsMe st u) \<and>
    (\<forall>u usr. cli_user (clients st u) = Some usr \<longrightarrow> joined usr = int (length (C u)))"

lemma minvD:
  assumes "minv st M C"
  shows "dll (nm st) (pm st) (members (channels st c)) (M c)" "dll (nc st) (pc st) (uchan st u) (C u)"
    "m \<in> set (M c) \<Longrightarrow> m_channel (memb st m) = c" "m \<in> set (M c) \<Longrightarrow> m \<in> set (C (m_user (memb st m)))"
    "m \<in> set (C u) \<Longrightarrow> m_user (memb st m) = u" "m \<in> set (C u) \<Longrightarrow> m \<in> set (M (m_channel (memb st m)))"
    "distinct (map (\<lambda>m. m_channel (memb st m)) (C u))"
    "m \<in> set (C u) \<Longrightarrow> m < membershipAllocCount st" "m \<in> set (C u) \<Longrightarrow> m \<notin> set (membershipFreeList st)"
    "distinct (membershipFreeList st)" "m \<in> set (membershipFreeList st) \<Longrightarrow> m < membershipAllocCount st"
    "users (channels st c) = length (M c)" "C u \<noteq> [] \<Longrightarrow> \<not> IsServer st u" "C u \<noteq> [] \<Longrightarrow> \<not> IsMe st u"
    "cli_user (clients st u) = Some usr \<Longrightarrow> joined usr = int (length (C u))"
  using assms unfolding minv_def by blast+

lemma minvI:
  assumes "\<And>c. dll (nm st) (pm st) (members (channels st c)) (M c)" "\<And>u. dll (nc st) (pc st) (uchan st u) (C u)"
    "\<And>c m. m \<in> set (M c) \<Longrightarrow> m_channel (memb st m) = c \<and> m \<in> set (C (m_user (memb st m)))"
    "\<And>u m. m \<in> set (C u) \<Longrightarrow> m_user (memb st m) = u \<and> m \<in> set (M (m_channel (memb st m)))"
    "\<And>u. distinct (map (\<lambda>m. m_channel (memb st m)) (C u))"
    "\<And>u m. m \<in> set (C u) \<Longrightarrow> m < membershipAllocCount st \<and> m \<notin> set (membershipFreeList st)"
    "distinct (membershipFreeList st)" "\<And>m. m \<in> set (membershipFreeList st) \<Longrightarrow> m < membershipAllocCount st"
    "\<And>c. users (channels st c) = length (M c)" "\<And>u. C u \<noteq> [] \<Longrightarrow> \<not> IsServer st u \<and> \<not> IsMe st u"
    "\<And>u usr. cli_user (clients st u) = Some usr \<Longrightarrow> joined usr = int (length (C u))"
  shows "minv st M C"
  using assms unfolding minv_def by blast

lemma minv_has_user: "minv st M C \<Longrightarrow> C u \<noteq> [] \<Longrightarrow> cli_user (clients st u) \<noteq> None"
  using minvD(2) [of st M C u] by (cases "C u") (auto simp: dll_def uchan_def bind_eq_Some_conv)

lemma minv_one_user:
  assumes "minv st M C" "m \<in> set (M c)" "m' \<in> set (M c)" "m_user (memb st m) = m_user (memb st m')"
  shows "m = m'"
proof -
  have "m \<in> set (C (m_user (memb st m)))" "m' \<in> set (C (m_user (memb st m)))"
    using minvD(4) [OF assms(1)] assms(2-4) by metis+
  moreover have "m_channel (memb st m) = m_channel (memb st m')" using minvD(3) [OF assms(1)] assms(2,3) by simp
  ultimately show ?thesis using minvD(7) [OF assms(1)] by (meson distinct_map inj_onD)
qed

text \<open>Both directions of the search find the one membership of the user on the channel.\<close>

definition membership_of :: "net \<Rightarrow> (nat \<Rightarrow> nat list) \<Rightarrow> nat \<Rightarrow> nat \<Rightarrow> nat option" where
  "membership_of st M c u = find (\<lambda>m. m_user (memb st m) = u) (M c)"

lemma membership_of_iff:
  assumes "minv st M C"
  shows "membership_of st M c u = Some m \<longleftrightarrow> m \<in> set (M c) \<and> m_user (memb st m) = u"
proof -
  have "distinct (map (\<lambda>m. m_user (memb st m)) (M c))"
    unfolding distinct_map inj_on_def
    using minv_one_user [OF assms] dll_distinct [OF minvD(1) [OF assms]] by blast
  from find_iff [OF this] show ?thesis by (simp add: membership_of_def)
qed

lemma find_member_link_ok:
  assumes "minv st M C" "cli_user (clients st u) \<noteq> None" "\<not> IsServer st u" "\<not> IsMe st u"
  shows "find_member_link st c u = Some (membership_of st M c u)"
proof (cases "IsChannelService st u")
  case True
  have "walk (\<lambda>m. asserting (m_channel (memb st m) = c) (m_user (memb st m) = u)) (nm st) (members (channels st c)) =
      Some (find (\<lambda>m. m_user (memb st m) = u) (M c))"
    by (rule walk_dll [OF minvD(1) [OF assms(1)]]) (use minvD(3) [OF assms(1)] in simp)
  with True assms show ?thesis by (simp add: find_member_link_def membership_of_def nm_def [abs_def])
next
  case False
  obtain usr where usr: "cli_user (clients st u) = Some usr" using assms(2) by auto
  have w: "walk (\<lambda>m. asserting (m_user (memb st m) = u) (m_channel (memb st m) = c)) (nc st) (uchan st u) =
      Some (find (\<lambda>m. m_channel (memb st m) = c) (C u))"
    by (rule walk_dll [OF minvD(2) [OF assms(1)]]) (use minvD(5) [OF assms(1)] in simp)
  have "find (\<lambda>m. m_channel (memb st m) = c) (C u) = Some m \<longleftrightarrow> membership_of st M c u = Some m" for m
    unfolding membership_of_iff [OF assms(1)] find_iff [OF minvD(7) [OF assms(1)]]
    using minvD(3-6) [OF assms(1)] by metis
  then have "find (\<lambda>m. m_channel (memb st m) = c) (C u) = membership_of st M c u"
    by (metis option.exhaust)
  with w usr False assms(3,4) show ?thesis by (simp add: find_member_link_def nc_def [abs_def] uchan_def)
qed

lemma minv_cong:
  assumes "minv st M C" "nm st' = nm st" "pm st' = pm st" "nc st' = nc st" "pc st' = pc st"
    "\<And>c. members (channels st' c) = members (channels st c)" "uchan st' = uchan st"
    "\<And>m. m_user (memb st' m) = m_user (memb st m)" "\<And>m. m_channel (memb st' m) = m_channel (memb st m)"
    "membershipAllocCount st' = membershipAllocCount st" "membershipFreeList st' = membershipFreeList st"
    "\<And>c. users (channels st' c) = users (channels st c)"
    "\<And>u. IsServer st' u = IsServer st u" "\<And>u. IsMe st' u = IsMe st u"
    "\<And>u usr'. cli_user (clients st' u) = Some usr' \<Longrightarrow> \<exists>usr. cli_user (clients st u) = Some usr \<and> joined usr' = joined usr"
  shows "minv st' M C"
proof (rule minvI)
  fix u usr' assume "cli_user (clients st' u) = Some usr'"
  with assms(15) minvD(15) [OF assms(1)] show "joined usr' = int (length (C u))" by metis
qed (use minvD [OF assms(1)] in \<open>auto simp: assms(2-14)\<close>)

lemma alloc_membership_ok:
  assumes "minv st M C" "alloc_membership st = (m, st1)"
  shows "minv st1 M C \<and> m \<notin> set (M c) \<and> m \<notin> set (C u) \<and> m < membershipAllocCount st1 \<and> m \<notin> set (membershipFreeList st1)"
proof -
  have m: "(\<forall>u. m \<notin> set (C u)) \<and> m < membershipAllocCount st1 \<and> m \<notin> set (membershipFreeList st1)"
  proof (cases "membershipFreeList st")
    case Nil
    then have "m = membershipAllocCount st" "st1 = st\<lparr>membershipAllocCount := membershipAllocCount st + 1\<rparr>"
      using assms(2) by (auto simp: alloc_membership_def)
    then show ?thesis using minvD(8,11) [OF assms(1)] Nil by fastforce
  next
    case (Cons n ns)
    then have "m = n" "st1 = st\<lparr>membershipFreeList := ns\<rparr>" using assms(2) by (auto simp: alloc_membership_def)
    then show ?thesis using minvD(9,10,11) [OF assms(1)] Cons by fastforce
  qed
  have st1: "memb st1 = memb st" "channels st1 = channels st" "clients st1 = clients st" "hashes st1 = hashes st"
    using assms(2) by (auto simp: alloc_membership_def split: list.splits)
  have l: "nm st1 = nm st" "pm st1 = pm st" "nc st1 = nc st" "pc st1 = pc st" "uchan st1 = uchan st"
    "IsServer st1 = IsServer st" "IsMe st1 = IsMe st"
    using st1 by (auto simp: link_defs fun_eq_iff IsServer_def IsMe_def)
  have f: "set (membershipFreeList st1) \<subseteq> set (membershipFreeList st)" "distinct (membershipFreeList st1)"
    "membershipAllocCount st \<le> membershipAllocCount st1"
    using assms(2) minvD(10) [OF assms(1)] by (auto simp: alloc_membership_def split: list.splits)
  have "minv st1 M C"
  proof (rule minvI)
    fix u k assume "k \<in> set (C u)"
    with minvD(8,9) [OF assms(1) this] f show "k < membershipAllocCount st1 \<and> k \<notin> set (membershipFreeList st1)" by auto
  next
    fix k assume "k \<in> set (membershipFreeList st1)"
    with minvD(11) [OF assms(1), of k] f show "k < membershipAllocCount st1" by auto
  qed (use minvD [OF assms(1)] f(2) in \<open>auto simp: l st1\<close>)
  moreover have "m \<notin> set (M c)" using minvD(4) [OF assms(1)] m by blast
  ultimately show ?thesis using m by blast
qed

text \<open>What the operations on destruction events, modes and invitations leave alone.\<close>

definition same_matrix :: "net \<Rightarrow> net \<Rightarrow> bool" where
  "same_matrix st st' \<longleftrightarrow> memb st' = memb st \<and> membershipAllocCount st' = membershipAllocCount st \<and>
     membershipFreeList st' = membershipFreeList st \<and>
     (\<forall>c. members (channels st' c) = members (channels st c) \<and> users (channels st' c) = users (channels st c)) \<and>
     (\<forall>u. cli_status (hashes st') u = cli_status (hashes st) u \<and> cli_flags (clients st' u) = cli_flags (clients st u) \<and>
        cli_from (clients st' u) = cli_from (clients st u) \<and> cli_up (clients st' u) = cli_up (clients st u) \<and>
        map_option (\<lambda>usr. (u_channel usr, joined usr, u_server usr)) (cli_user (clients st' u)) =
        map_option (\<lambda>usr. (u_channel usr, joined usr, u_server usr)) (cli_user (clients st u)))"

lemma same_matrixD:
  assumes "same_matrix st st'"
  shows "memb st' = memb st" "membershipAllocCount st' = membershipAllocCount st"
    "membershipFreeList st' = membershipFreeList st" "members (channels st' c) = members (channels st c)"
    "users (channels st' c) = users (channels st c)" "cli_status (hashes st') u = cli_status (hashes st) u"
    "cli_flags (clients st' u) = cli_flags (clients st u)" "cli_from (clients st' u) = cli_from (clients st u)"
    "cli_up (clients st' u) = cli_up (clients st u)"
    "map_option (\<lambda>usr. (u_channel usr, joined usr, u_server usr)) (cli_user (clients st' u)) =
        map_option (\<lambda>usr. (u_channel usr, joined usr, u_server usr)) (cli_user (clients st u))"
  using assms unfolding same_matrix_def by blast+

lemma same_matrix_refl [simp]: "same_matrix st st"
  by (simp add: same_matrix_def)

lemma same_matrix_trans: "same_matrix a b \<Longrightarrow> same_matrix b c \<Longrightarrow> same_matrix a c"
  unfolding same_matrix_def by simp

lemma same_matrix_user:
  "same_matrix st st' \<Longrightarrow> cli_user (clients st' u) = Some usr' \<Longrightarrow>
   \<exists>usr. cli_user (clients st u) = Some usr \<and> joined usr' = joined usr \<and> u_channel usr' = u_channel usr \<and> u_server usr' = u_server usr"
  using same_matrixD(10) [of st st' u] by (cases "cli_user (clients st u)") auto

lemma same_matrix_None: "same_matrix st st' \<Longrightarrow> cli_user (clients st' u) = None \<longleftrightarrow> cli_user (clients st u) = None"
  using same_matrixD(10) [of st st' u] by (cases "cli_user (clients st u)"; cases "cli_user (clients st' u)") auto

lemma same_matrix_uchan: "same_matrix st st' \<Longrightarrow> uchan st' u = uchan st u"
  using same_matrixD(10) [of st st' u]
  by (cases "cli_user (clients st u)"; cases "cli_user (clients st' u)") (auto simp: uchan_def)

lemma same_matrix_minv: "same_matrix st st' \<Longrightarrow> minv st' M C = minv st M C"
proof -
  have "minv a M C \<Longrightarrow> minv b M C" if "same_matrix a b" for a b
  proof (erule minv_cong)
    show "\<exists>usr. cli_user (clients a u) = Some usr \<and> joined usr' = joined usr"
      if "cli_user (clients b u) = Some usr'" for u usr'
      using same_matrix_user [OF \<open>same_matrix a b\<close> that] by blast
  qed (use same_matrixD [OF that] same_matrix_uchan [OF that]
        in \<open>auto simp: link_defs fun_eq_iff IsServer_def IsMe_def\<close>)
  moreover assume s: "same_matrix st st'"
  moreover have "same_matrix st' st" using s unfolding same_matrix_def by simp
  ultimately show ?thesis by blast
qed

lemma same_matrix_membership: "same_matrix st st' \<Longrightarrow> membership_of st' M c u = membership_of st M c u"
  by (simp add: membership_of_def same_matrixD(1))

lemma remove_destruct_event_same:
  "remove_destruct_event c st = Some st' \<Longrightarrow> same_matrix st st'"
  by (auto simp: remove_destruct_event_def same_matrix_def set_chan_def split: option.splits)

lemma remove_destruct_event_some:
  "destruct_event (channels st c) \<noteq> None \<Longrightarrow> \<exists>st'. remove_destruct_event c st = Some st' \<and> same_matrix st st'"
  using remove_destruct_event_same [of c st] by (cases "remove_destruct_event c st") (auto simp: remove_destruct_event_def)

lemma links_cong:
  "memb st' = memb st \<Longrightarrow> nm st' = nm st" "memb st' = memb st \<Longrightarrow> pm st' = pm st"
  "memb st' = memb st \<Longrightarrow> nc st' = nc st" "memb st' = memb st \<Longrightarrow> pc st' = pc st"
  by (simp_all add: link_defs fun_eq_iff)

lemma links_set [simp]:
  "nm (set_user u f st) = nm st" "pm (set_user u f st) = pm st" "nc (set_user u f st) = nc st" "pc (set_user u f st) = pc st"
  "nm (set_chan c g st) = nm st" "pm (set_chan c g st) = pm st" "nc (set_chan c g st) = nc st" "pc (set_chan c g st) = pc st"
  "uchan (set_chan c g st) = uchan st" "uchan (set_memb m h st) = uchan st"
  by (simp_all add: link_defs fun_eq_iff)

lemma uchan_set_user: "(\<And>usr. u_channel (f usr) = u_channel usr) \<Longrightarrow> uchan (set_user u f st) = uchan st"
  by (auto simp: uchan_def fun_eq_iff bind_map_option o_def split: bind_split)

lemma status_tests [simp]:
  "IsServer (set_user u f st) = IsServer st" "IsMe (set_user u f st) = IsMe st"
  "IsServer (set_chan c g st) = IsServer st" "IsMe (set_chan c g st) = IsMe st"
  "IsServer (set_memb m h st) = IsServer st" "IsMe (set_memb m h st) = IsMe st"
  by (simp_all add: IsServer_def IsMe_def fun_eq_iff)

section \<open>Joining\<close>

abbreviation fill_member :: "nat \<Rightarrow> nat \<Rightarrow> nat \<Rightarrow> u32 \<Rightarrow> u16 \<Rightarrow> net \<Rightarrow> net" where
  "fill_member m c u flags opl \<equiv> set_memb m (\<lambda>mb. mb\<lparr>m_user := u, m_channel := c, status := flags, oplevel := opl\<rparr>)"

lemma links_fill [simp]:
  "nm (fill_member m c u flags opl st) = nm st" "pm (fill_member m c u flags opl st) = pm st"
  "nc (fill_member m c u flags opl st) = nc st" "pc (fill_member m c u flags opl st) = pc st"
  by (auto simp: link_defs fun_eq_iff)

lemma add_links_ok:
  assumes inv: "minv st M C" and usr: "cli_user (clients st u) \<noteq> None" "\<not> IsServer st u" "\<not> IsMe st u"
    and new: "membership_of st M c u = None"
    and fresh: "\<And>d. m \<notin> set (M d)" "\<And>v. m \<notin> set (C v)" "m < membershipAllocCount st" "m \<notin> set (membershipFreeList st)"
    and same: "same_matrix (link_channel m u (link_member m c (fill_member m c u flags opl st))) st4"
  shows "minv (set_user u (\<lambda>usr. usr\<lparr>joined := joined usr + 1\<rparr>) (set_chan c (\<lambda>ch. ch\<lparr>users := users ch + 1\<rparr>) st4))
    (M(c := m # M c)) (C(u := m # C u))" (is "minv ?st _ _")
proof (rule minvI)
  note s4 = same_matrixD [OF same]
  have nm: "nm ?st = (nm st)(m := members (channels st c))" "pm ?st = (link_prev (pm st) (members (channels st c)) (Some m))(m := None)"
    "nc ?st = (nc st)(m := uchan st u)" "pc ?st = (link_prev (pc st) (uchan st u) (Some m))(m := None)"
    "uchan ?st = (uchan st)(u := Some m)"
    using usr(1) by (simp_all add: links_cong [OF s4(1)] link_channel_links link_member_links uchan_set_user
        same_matrix_uchan [OF same] fun_eq_iff)
  have us: "m_user (memb st4 x) = (if x = m then u else m_user (memb st x))"
    "m_channel (memb st4 x) = (if x = m then c else m_channel (memb st x))" for x
    using s4(1) by simp_all
  note D = minvD [OF inv]
  have link_other: "link_prev f (members (channels st c)) v x = f x" if "x \<notin> set (M c)" for f v x
    using D(1) [of c] that by (cases "M c") (auto simp: dll_def)
  have link_other': "link_prev f (uchan st u) v x = f x" if "x \<notin> set (C u)" for f v x
    using D(2) [of u] that by (cases "C u") (auto simp: dll_def)
  have dis: "x \<notin> set (M c)" if "x \<in> set (M d)" "d \<noteq> c" for x d using D(3) that by blast
  have dis': "x \<notin> set (C u)" if "x \<in> set (C v)" "v \<noteq> u" for x v using D(5) that by blast
  show "dll (nm ?st) (pm ?st) (members (channels ?st d)) ((M(c := m # M c)) d)" for d
  proof (cases "d = c")
    case True
    with dll_push [OF D(1) fresh(1), of c] show ?thesis unfolding nm using s4(4) by simp
  next
    case False
    have "dll (nm ?st) (pm ?st) (members (channels st d)) (M d) = dll (nm st) (pm st) (members (channels st d)) (M d)"
      by (rule dll_cong) (unfold nm, use fresh(1) [of d] link_other dis False in auto)
    with False D(1) [of d] s4(4) show ?thesis by simp
  qed
  show "dll (nc ?st) (pc ?st) (uchan ?st v) ((C(u := m # C u)) v)" for v
  proof (cases "v = u")
    case True
    with dll_push [OF D(2) fresh(2), of u] show ?thesis unfolding nm by simp
  next
    case False
    have "dll (nc ?st) (pc ?st) (uchan st v) (C v) = dll (nc st) (pc st) (uchan st v) (C v)"
      by (rule dll_cong) (unfold nm, use fresh(2) [of v] link_other' dis' False in auto)
    moreover have "uchan ?st v = uchan st v" unfolding nm(5) using False by simp
    ultimately show ?thesis using False D(2) [of v] by (simp only: fun_upd_other not_False_eq_True)
  qed
  show "m_channel (memb ?st k) = d \<and> k \<in> set ((C(u := m # C u)) (m_user (memb ?st k)))"
    if "k \<in> set ((M(c := m # M c)) d)" for d k
    using that D(3,4) [of k d] fresh(1) by (auto simp: us split: if_splits)
  show "m_user (memb ?st k) = v \<and> k \<in> set ((M(c := m # M c)) (m_channel (memb ?st k)))"
    if "k \<in> set ((C(u := m # C u)) v)" for v k
    using that D(5,6) [of k v] fresh(2) by (auto simp: us split: if_splits)
  have nch: "m_channel (memb st k) \<noteq> c" if "k \<in> set (C u)" for k
    using that new membership_of_iff [OF inv, of c u k] D(5,6) [of k u] by auto
  show "distinct (map (\<lambda>k. m_channel (memb ?st k)) ((C(u := m # C u)) v))" for v
  proof -
    have e: "map (\<lambda>k. m_channel (memb st4 k)) (C v) = map (\<lambda>k. m_channel (memb st k)) (C v)"
      by (rule map_cong) (use fresh(2) us in auto)
    have "map (\<lambda>k. m_channel (memb ?st k)) ((C(u := m # C u)) v) = (if v = u then [c] else []) @ map (\<lambda>k. m_channel (memb st k)) (C v)"
      using e us(2) [of m] by simp
    moreover have "distinct ((if v = u then [c] else []) @ map (\<lambda>k. m_channel (memb st k)) (C v))" using D(7) [of v] nch by auto
    ultimately show ?thesis by (simp only:)
  qed
  show "k < membershipAllocCount ?st \<and> k \<notin> set (membershipFreeList ?st)" if "k \<in> set ((C(u := m # C u)) v)" for v k
    using that D(8,9) [of k v] fresh(3,4) s4(2,3) by (auto split: if_splits)
  show "distinct (membershipFreeList ?st)" using D(10) s4(3) by simp
  show "k < membershipAllocCount ?st" if "k \<in> set (membershipFreeList ?st)" for k
    using that D(11) [of k] s4(2,3) by simp
  show "users (channels ?st d) = length ((M(c := m # M c)) d)" for d using D(12) s4(5) by simp
  show "\<not> IsServer ?st v \<and> \<not> IsMe ?st v" if "(C(u := m # C u)) v \<noteq> []" for v
    using that D(13,14) [of v] usr(2,3) s4(6) by (auto simp: IsServer_def IsMe_def split: if_splits)
  show "joined usr' = int (length ((C(u := m # C u)) v))" if "cli_user (clients ?st v) = Some usr'" for v usr'
  proof -
    have "\<exists>usr. cli_user (clients st4 v) = Some usr \<and> joined usr' = (if v = u then joined usr + 1 else joined usr)"
      using that by (cases "v = u") auto
    then obtain usr where "cli_user (clients st4 v) = Some usr" "joined usr' = (if v = u then joined usr + 1 else joined usr)" by blast
    moreover from same_matrix_user [OF same this(1)] obtain usr0 where
      "cli_user (clients st v) = Some usr0" "joined usr = joined usr0" by (auto split: if_splits)
    ultimately show ?thesis using D(15) [of v usr0] by simp
  qed
qed

lemma add_user_to_channel_ok:
  assumes inv: "minv st M C" and usr: "cli_user (clients st u) \<noteq> None" "\<not> IsServer st u" "\<not> IsMe st u"
    and new: "membership_of st M c u = None"
  shows "\<exists>st' m. add_user_to_channel c u flags opl st = Some st' \<and> minv st' (M(c := m # M c)) (C(u := m # C u)) \<and>
    (\<forall>d. m \<notin> set (M d)) \<and> m_user (memb st' m) = u \<and> status (memb st' m) = flags \<and>
    (\<forall>x. x \<noteq> m \<longrightarrow> m_user (memb st' x) = m_user (memb st x) \<and> status (memb st' x) = status (memb st x))"
proof -
  obtain m st1 where a: "alloc_membership st = (m, st1)" by fastforce
  have f: "minv st1 M C" "\<And>d. m \<notin> set (M d)" "\<And>v. m \<notin> set (C v)" "m < membershipAllocCount st1" "m \<notin> set (membershipFreeList st1)"
    using alloc_membership_ok [OF inv a] by blast+
  have s1: "memb st1 = memb st" "clients st1 = clients st" "IsServer st1 = IsServer st" "IsMe st1 = IsMe st"
    using a by (auto simp: alloc_membership_def IsServer_def IsMe_def fun_eq_iff split: list.splits)
  let ?st3 = "link_channel m u (link_member m c (fill_member m c u flags opl st1))"
  have "\<exists>st4. (if destruct_event (channels ?st3 c) \<noteq> None then remove_destruct_event c ?st3 else Some ?st3) = Some st4 \<and> same_matrix ?st3 st4"
    using remove_destruct_event_some [of ?st3 c] same_matrix_refl [of ?st3] by (cases "destruct_event (channels ?st3 c) \<noteq> None") simp_all
  then obtain st4 where r: "(if destruct_event (channels ?st3 c) \<noteq> None then remove_destruct_event c ?st3 else Some ?st3) = Some st4"
    "same_matrix ?st3 st4" by blast
  let ?st' = "set_user u (\<lambda>usr. usr\<lparr>joined := joined usr + 1\<rparr>) (set_chan c (\<lambda>ch. ch\<lparr>users := users ch + 1\<rparr>) st4)"
  have "add_user_to_channel c u flags opl st = Some ?st'"
    unfolding add_user_to_channel_def a Let_def prod.case r(1) using usr(1) by (simp only: if_False option.map)
  moreover have "minv ?st' (M(c := m # M c)) (C(u := m # C u))"
    by (rule add_links_ok [OF f(1) _ _ _ _ f(2-5) r(2)]) (use usr new s1 in \<open>auto simp: membership_of_def\<close>)
  moreover have "memb ?st' = memb ?st3" using same_matrixD(1) [OF r(2)] by simp
  then have "m_user (memb ?st' m) = u \<and> status (memb ?st' m) = flags \<and>
    (\<forall>x. x \<noteq> m \<longrightarrow> m_user (memb ?st' x) = m_user (memb st x) \<and> status (memb ?st' x) = status (memb st x))"
    using s1 by (simp only:) simp
  ultimately show ?thesis using f(2) by blast
qed

section \<open>The list of channels and the destruction events\<close>

text \<open>
  The two sides of the invitations agree: a channel lists a user once if and only if the user lists the
  channel, and the user's count is the length of the list.
\<close>

definition iinv :: "net \<Rightarrow> bool" where
  "iinv st \<longleftrightarrow>
    (\<forall>c. distinct (invites (channels st c)) \<and> (\<forall>u \<in> set (invites (channels st c)). cli_user (clients st u) \<noteq> None)) \<and>
    (\<forall>u usr. cli_user (clients st u) = Some usr \<longrightarrow> distinct (invited usr) \<and> ninvites usr = int (length (invited usr)) \<and>
       (\<forall>c. c \<in> set (invited usr) \<longleftrightarrow> u \<in> set (invites (channels st c))))"

lemma iinvD:
  assumes "iinv st"
  shows "distinct (invites (channels st c))" "u \<in> set (invites (channels st c)) \<Longrightarrow> cli_user (clients st u) \<noteq> None"
    "cli_user (clients st u) = Some usr \<Longrightarrow> distinct (invited usr)"
    "cli_user (clients st u) = Some usr \<Longrightarrow> ninvites usr = int (length (invited usr))"
    "cli_user (clients st u) = Some usr \<Longrightarrow> c \<in> set (invited usr) \<longleftrightarrow> u \<in> set (invites (channels st c))"
  using assms unfolding iinv_def by blast+

definition same_invites :: "net \<Rightarrow> net \<Rightarrow> bool" where
  "same_invites st st' \<longleftrightarrow> (\<forall>c. invites (channels st' c) = invites (channels st c)) \<and>
    (\<forall>u. map_option (\<lambda>usr. (invited usr, ninvites usr)) (cli_user (clients st' u)) =
         map_option (\<lambda>usr. (invited usr, ninvites usr)) (cli_user (clients st u)))"

lemma same_invites_trans: "same_invites a b \<Longrightarrow> same_invites b c \<Longrightarrow> same_invites a c"
  by (simp add: same_invites_def)

lemma same_invites_iinv:
  assumes "same_invites st st'" "iinv st"
  shows "iinv st'"
proof -
  note s = assms(1) [unfolded same_invites_def]
  have eq: "map_option (\<lambda>usr. (invited usr, ninvites usr)) (cli_user (clients st' u)) =
      map_option (\<lambda>usr. (invited usr, ninvites usr)) (cli_user (clients st u))" for u using s by blast
  have none: "cli_user (clients st' u) = None \<longleftrightarrow> cli_user (clients st u) = None" for u
    using eq [of u] by (cases "cli_user (clients st u)"; cases "cli_user (clients st' u)") simp_all
  have some: "\<exists>usr. cli_user (clients st u) = Some usr \<and> invited usr' = invited usr \<and> ninvites usr' = ninvites usr"
    if "cli_user (clients st' u) = Some usr'" for u usr'
    using eq [of u] that by (cases "cli_user (clients st u)") simp_all
  have inv: "invites (channels st' c) = invites (channels st c)" for c using s by blast
  note D = iinvD [OF assms(2)]
  show ?thesis unfolding iinv_def none inv
  proof (intro conjI allI ballI impI)
    fix u usr' assume "cli_user (clients st' u) = Some usr'"
    then obtain usr where u: "cli_user (clients st u) = Some usr" "invited usr' = invited usr" "ninvites usr' = ninvites usr"
      using some by blast
    show "distinct (invited usr')" "ninvites usr' = int (length (invited usr'))" using D(3,4) [OF u(1)] u(2,3) by simp_all
    show "c \<in> set (invited usr') \<longleftrightarrow> u \<in> set (invites (channels st c))" for c using D(5) [OF u(1)] u(2) by simp
  qed (use D(1,2) in blast)+
qed

text \<open>Channels that do not exist have no invitations.\<close>

definition iside :: "net \<Rightarrow> nat list \<Rightarrow> bool" where
  "iside st G \<longleftrightarrow> iinv st \<and> (\<forall>c. c \<notin> set G \<longrightarrow> invites (channels st c) = [])"

lemma same_invites_iside: "same_invites st st' \<Longrightarrow> iside st G \<Longrightarrow> iside st' G"
  using same_invites_iinv [of st st'] by (simp add: iside_def same_invites_def)

lemma del_invite_iinv:
  assumes "iinv st" "del_invite u c st = Some st'"
  shows "iinv st'" "invites (channels st' d) = (if d = c then remove1 u (invites (channels st c)) else invites (channels st d))"
    "cli_user (clients st' v) = map_option (\<lambda>usr. if v = u then usr\<lparr>invited := remove1 c (invited usr),
       ninvites := int (length (remove1 c (invited usr)))\<rparr> else usr) (cli_user (clients st v))"
proof -
  obtain usr where usr: "cli_user (clients st u) = Some usr" using assms(2) by (auto simp: del_invite_def split: if_splits)
  note D = iinvD [OF assms(1)]
  have mem: "c \<in> set (invited usr) \<longleftrightarrow> u \<in> set (invites (channels st c))" using D(5) [OF usr] .
  have len: "ninvites usr = int (length (invited usr))" using D(4) [OF usr] .
  show inv: "invites (channels st' d) = (if d = c then remove1 u (invites (channels st c)) else invites (channels st d))" for d
    using assms(2) by (auto simp: del_invite_def Let_def remove1_idem split: if_splits)
  have "int (length (invited usr)) - 1 = int (length (remove1 c (invited usr)))" if "c \<in> set (invited usr)"
    using length_pos_if_in_set [OF that] that by (simp add: length_remove1 of_nat_diff Suc_leI)
  then show us: "cli_user (clients st' v) = map_option (\<lambda>usr. if v = u then usr\<lparr>invited := remove1 c (invited usr),
       ninvites := int (length (remove1 c (invited usr)))\<rparr> else usr) (cli_user (clients st v))" for v
    using assms(2) usr mem len
    by (cases "u \<in> set (invites (channels st c))"; cases "cli_user (clients st v)") (auto simp: del_invite_def Let_def remove1_idem)
  show "iinv st'" unfolding iinv_def
  proof (intro conjI allI ballI impI)
    fix d show "distinct (invites (channels st' d))" using D(1) inv by simp
    fix v assume "v \<in> set (invites (channels st' d))"
    then have "v \<in> set (invites (channels st d))" using inv [of d] set_remove1_subset [of u] by (auto split: if_splits)
    with D(2) show "cli_user (clients st' v) \<noteq> None" using us [of v] by simp
  next
    fix v usr' assume v: "cli_user (clients st' v) = Some usr'"
    then obtain usr0 where u0: "cli_user (clients st v) = Some usr0"
      "usr' = (if v = u then usr0\<lparr>invited := remove1 c (invited usr0), ninvites := int (length (remove1 c (invited usr0)))\<rparr> else usr0)"
      using us [of v] by auto
    show "distinct (invited usr')" "ninvites usr' = int (length (invited usr'))" using D(3,4) [OF u0(1)] u0(2) by simp_all
    fix d show "d \<in> set (invited usr') \<longleftrightarrow> v \<in> set (invites (channels st' d))"
      using D(3,5) [OF u0(1)] u0(2) inv [of d] D(1) [of d] D(1) [of c] by (auto split: if_splits)
  qed
qed

definition ginv :: "net \<Rightarrow> nat list \<Rightarrow> bool" where
  "ginv st G \<longleftrightarrow> dll (gn st) (gp st) (GlobalChannelList st) G \<and> channel_inv (hashes st) \<and>
     tmem (channelTable (hashes st)) = set G \<and> (\<forall>c \<in> set G. c < chan_next st) \<and>
     iside st G"

definition einv :: "net \<Rightarrow> nat list \<Rightarrow> bool" where
  "einv st G \<longleftrightarrow> distinct (map chptr (minute_list st @ days_list st)) \<and>
     (\<forall>e \<in> set (minute_list st @ days_list st). chptr e \<in> set G \<and> destruct_event (channels st (chptr e)) = Some e) \<and>
     (\<forall>c \<in> set G. \<forall>e. destruct_event (channels st c) = Some e \<longrightarrow> e \<in> set (minute_list st @ days_list st) \<and> chptr e = c) \<and>
     (\<forall>c \<in> set G. destruct_event (channels st c) \<noteq> None \<longrightarrow> members (channels st c) = None)"

definition same_glob :: "net \<Rightarrow> net \<Rightarrow> bool" where
  "same_glob st st' \<longleftrightarrow> hashes st' = hashes st \<and> GlobalChannelList st' = GlobalChannelList st \<and> chan_next st' = chan_next st \<and>
     minute_list st' = minute_list st \<and> days_list st' = days_list st \<and>
     (\<forall>c. ch_next (channels st' c) = ch_next (channels st c) \<and> ch_prev (channels st' c) = ch_prev (channels st c) \<and>
        destruct_event (channels st' c) = destruct_event (channels st c)) \<and>
     (iinv st \<longrightarrow> iinv st') \<and> (\<forall>c. invites (channels st c) = [] \<longrightarrow> invites (channels st' c) = [])"

lemma same_globI:
  assumes "hashes st' = hashes st" "GlobalChannelList st' = GlobalChannelList st" "chan_next st' = chan_next st"
    "minute_list st' = minute_list st" "days_list st' = days_list st"
    "\<And>c. ch_next (channels st' c) = ch_next (channels st c) \<and> ch_prev (channels st' c) = ch_prev (channels st c) \<and>
        destruct_event (channels st' c) = destruct_event (channels st c)" "same_invites st st'"
  shows "same_glob st st'"
  using assms same_invites_iinv [OF assms(7)] unfolding same_glob_def same_invites_def by simp

lemma same_globD:
  assumes "same_glob st st'"
  shows "hashes st' = hashes st" "GlobalChannelList st' = GlobalChannelList st" "chan_next st' = chan_next st"
    "minute_list st' = minute_list st" "days_list st' = days_list st"
    "destruct_event (channels st' c) = destruct_event (channels st c)" "gn st' = gn st" "gp st' = gp st"
    "iinv st \<Longrightarrow> iinv st'" "invites (channels st c) = [] \<Longrightarrow> invites (channels st' c) = []"
  using assms unfolding same_glob_def by (auto simp: gn_def gp_def)

lemma same_glob_refl [simp]: "same_glob st st"
  by (simp add: same_glob_def)

lemma same_glob_trans: "same_glob a b \<Longrightarrow> same_glob b c \<Longrightarrow> same_glob a c"
  unfolding same_glob_def by simp

lemma same_glob_ginv: "same_glob st st' \<Longrightarrow> ginv st G \<Longrightarrow> ginv st' G"
  unfolding ginv_def iside_def using same_globD [of st st'] by simp

lemma same_glob_einv: "same_glob st st' \<Longrightarrow> (\<And>c. members (channels st' c) = members (channels st c)) \<Longrightarrow> einv st' G = einv st G"
  unfolding einv_def using same_globD(4,5,6) [of st st'] by simp

lemma del_invite_same:
  assumes "iinv st" "del_invite u c st = Some st'"
  shows "same_matrix st st'" "same_glob st st'" "chmode (channels st' d) = chmode (channels st d)"
    "banlist (channels st' d) = banlist (channels st d)" "creationtime (channels st' d) = creationtime (channels st d)"
proof -
  note d = del_invite_iinv [OF assms]
  have r: "hashes st' = hashes st \<and> GlobalChannelList st' = GlobalChannelList st \<and> chan_next st' = chan_next st \<and>
     minute_list st' = minute_list st \<and> days_list st' = days_list st \<and> ch_next (channels st' e) = ch_next (channels st e) \<and>
     ch_prev (channels st' e) = ch_prev (channels st e) \<and> destruct_event (channels st' e) = destruct_event (channels st e)" for e
    using assms(2) by (auto simp: del_invite_def Let_def split: if_splits)
  show "same_glob st st'" unfolding same_glob_def using r d(1,2) by simp
  show "same_matrix st st'" "chmode (channels st' d) = chmode (channels st d)" "banlist (channels st' d) = banlist (channels st d)"
    "creationtime (channels st' d) = creationtime (channels st d)"
    using assms(2) by (auto simp: del_invite_def Let_def same_matrix_def option.map_comp o_def split: if_splits)
qed

lemma del_invites_ok:
  "iinv st \<Longrightarrow> \<exists>st'. del_invites c st = Some st' \<and> same_matrix st st' \<and> same_glob st st' \<and> invites (channels st' c) = []"
proof (induction "invites (channels st c)" arbitrary: st)
  case Nil
  then show ?case by (intro exI [of _ st]) (simp add: del_invites.simps)
next
  case (Cons u us)
  have "cli_user (clients st u) \<noteq> None" using iinvD(2) [OF Cons.prems, of u c] Cons(2) [symmetric] by simp
  then obtain st1 where st1: "del_invite u c st = Some st1" by (auto simp: del_invite_def Let_def)
  note d = del_invite_iinv [OF Cons.prems st1] and s = del_invite_same [OF Cons.prems st1]
  have "us = invites (channels st1 c)" using d(2) [of c] Cons(2) [symmetric] by simp
  from Cons(1) [OF this d(1)] obtain st' where st': "del_invites c st1 = Some st'" "same_matrix st1 st'" "same_glob st1 st'"
    "invites (channels st' c) = []" by blast
  moreover have "del_invites c st = del_invites c st1"
    using Cons(2) [symmetric] st1 by (simp add: del_invites.simps [of c st])
  ultimately show ?case using same_matrix_trans [OF s(1) st'(2)] same_glob_trans [OF s(2) st'(3)] by simp
qed

lemma rem_loop_self: "rem_loop c nx p = Some (nx', 0) \<Longrightarrow> nx' c = Some c"
proof -
  have "rem_loop c nx p = Some y \<Longrightarrow> snd y = 0 \<longrightarrow> fst y c = Some c" for y
    by (erule rem_loop.raw_induct [rotated]) (auto split: option.splits if_splits)
  then show "rem_loop c nx p = Some (nx', 0) \<Longrightarrow> nx' c = Some c" by fastforce
qed

lemma hRemChannel_ok:
  assumes "channel_inv hs" "c \<in> tmem (channelTable hs)"
  shows "\<exists>t. hRemChannel hs c = Some (hs\<lparr>channelTable := t\<rparr>, 0) \<and> channel_inv (hs\<lparr>channelTable := t\<rparr>) \<and>
    tmem t = tmem (channelTable hs) - {c} \<and> hnext t c = Some c"
proof -
  obtain hs' where r: "hRemChannel hs c = Some (hs', 0)" "channel_inv hs'" "tmem (channelTable hs') = tmem (channelTable hs) - {c}"
    using ch.rem_ok [OF assms] by blast
  obtain t where t: "table_rem (strhash (crc32hash hs) (chname hs c)) c (channelTable hs) = Some (t, 0)" "hs' = hs\<lparr>channelTable := t\<rparr>"
    using r(1) by (auto simp: hRemChannel_def)
  have "hnext t c = Some c"
    using t(1) rem_loop_self by (fastforce simp: table_rem_def split: if_splits)
  with r t show ?thesis by auto
qed

lemma unlink_channel_links:
  "gn (unlink_channel c st) = unlink_next (gn st) (gp st) c"
  "gp (unlink_channel c st) = unlink_prev (gn st) (gp st) c"
  "GlobalChannelList (unlink_channel c st) = unlink_head (gn st) (gp st) (GlobalChannelList st) c"
  by (auto simp: gn_def gp_def unlink_channel_def unlink_next_def unlink_prev_def unlink_head_def Let_def fun_eq_iff split: option.split)

lemma unlink_channel_rest:
  "same_matrix st (unlink_channel c st)" "hashes (unlink_channel c st) = hashes st" "chan_next (unlink_channel c st) = chan_next st"
  "minute_list (unlink_channel c st) = minute_list st" "days_list (unlink_channel c st) = days_list st"
  "destruct_event (channels (unlink_channel c st) d) = destruct_event (channels st d)" "same_invites st (unlink_channel c st)"
  by (auto simp: same_matrix_def same_invites_def unlink_channel_def Let_def split: option.split)

lemma free_ban_list_same: "same_matrix st (free_ban_list c st)" "same_glob st (free_ban_list c st)"
  by (simp_all add: free_ban_list_def same_matrix_def same_invites_def same_globI)

lemma destruct_channel_ok:
  assumes g: "ginv st G" and e: "einv st G" and c: "c \<in> set G" "members (channels st c) = None" "destruct_event (channels st c) = None"
  shows "\<exists>st'. destruct_channel c st = Some st' \<and> same_matrix st st' \<and> ginv st' (remove1 c G) \<and> einv st' (remove1 c G) \<and>
    (\<forall>d. destruct_event (channels st' d) = destruct_event (channels st d)) \<and> minute_list st' = minute_list st \<and> days_list st' = days_list st"
proof -
  have "iinv st" using g by (simp add: ginv_def iside_def)
  from del_invites_ok [OF this, of c]
  obtain st1 where d: "del_invites c st = Some st1" "same_matrix st st1" "same_glob st st1" "invites (channels st1 c) = []" by blast
  let ?st1 = "free_ban_list c st1" and ?st2 = "unlink_channel c (free_ban_list c st1)"
  have sg: "same_glob st ?st1" using d(3) free_ban_list_same(2) same_glob_trans by blast
  have sm: "same_matrix st ?st2" using d(2) free_ban_list_same(1) unlink_channel_rest(1) same_matrix_trans by blast
  have g1: "ginv ?st1 G" using same_glob_ginv [OF sg g] .
  note r2 = unlink_channel_rest(2-7) [where c = c and st = ?st1]
  obtain t where t: "hRemChannel (hashes ?st2) c = Some ((hashes ?st2)\<lparr>channelTable := t\<rparr>, 0)" "channel_inv ((hashes ?st2)\<lparr>channelTable := t\<rparr>)"
     "tmem t = set G - {c}" "hnext t c = Some c"
    using hRemChannel_ok [of "hashes ?st2" c] g1 c(1) r2(1) by (auto simp: ginv_def)
  let ?st' = "?st2\<lparr>hashes := (hashes ?st2)\<lparr>channelTable := t\<rparr>, UserStats_channels := UserStats_channels ?st2 - 1\<rparr>"
  have "destruct_channel c st = Some ?st'"
    unfolding destruct_channel_def d(1) Let_def option.case t(1) prod.case using c(2) t(4) by simp
  moreover have "same_matrix ?st2 ?st'" by (simp add: same_matrix_def)
  then have "same_matrix st ?st'" using sm same_matrix_trans by blast
  moreover have "ginv ?st' (remove1 c G)"
  proof -
    have "dll (gn ?st1) (gp ?st1) (GlobalChannelList ?st1) G" using g1 by (simp add: ginv_def)
    from dll_unlink [OF this c(1)] have "dll (gn ?st2) (gp ?st2) (GlobalChannelList ?st2) (remove1 c G)"
      by (simp only: unlink_channel_links)
    moreover have "gn ?st' = gn ?st2" "gp ?st' = gp ?st2" by (simp_all add: gn_def gp_def fun_eq_iff)
    moreover have "distinct G" using g by (auto simp: ginv_def dest: dll_distinct)
    moreover have "iside ?st2 (remove1 c G)"
      using same_invites_iside [OF r2(6), of G] g1 r2(6) same_globD(10) [OF free_ban_list_same(2) [of st1 c] d(4)] \<open>distinct G\<close>
      by (auto simp: ginv_def iside_def same_invites_def)
    then have "iside ?st' (remove1 c G)" by (rule same_invites_iside [rotated]) (simp add: same_invites_def)
    ultimately show ?thesis using t(2,3) g1 r2(2) by (auto simp: ginv_def)
  qed
  moreover have "einv ?st' (remove1 c G)"
  proof -
    have "minute_list ?st' = minute_list st" "days_list ?st' = days_list st" "\<And>d. destruct_event (channels ?st' d) = destruct_event (channels st d)"
      "\<And>d. members (channels ?st' d) = members (channels st d)"
      using r2 same_globD [OF sg] same_matrixD(4) [OF sm] by simp_all
    moreover have "chptr e \<noteq> c" if "e \<in> set (minute_list st @ days_list st)" for e using e that c(3) by (auto simp: einv_def)
    moreover have "d \<in> set G" if "d \<in> set (remove1 c G)" for d using that set_remove1_subset by fast
    ultimately show ?thesis using e unfolding einv_def by (simp add: in_set_remove1) blast
  qed
  moreover have "destruct_event (channels ?st' d) = destruct_event (channels st d)" for d
    using r2(5) [of d] same_globD(6) [OF sg, of d] by simp
  moreover have "minute_list ?st' = minute_list st" "days_list ?st' = days_list st" using r2(3,4) same_globD(4,5) [OF sg] by simp_all
  ultimately show ?thesis by blast
qed

lemma schedule_links [simp]:
  "gn (set_chan c (\<lambda>ch. ch\<lparr>destruct_event := e\<rparr>) st) = gn st" "gp (set_chan c (\<lambda>ch. ch\<lparr>destruct_event := e\<rparr>) st) = gp st"
  by (auto simp: gn_def gp_def fun_eq_iff)

lemma add_event_ok:
  assumes "ginv st G" "einv st G" "c \<in> set G" "members (channels st c) = None" "destruct_event (channels st c) = None"
    "st' = set_chan c (\<lambda>ch. ch\<lparr>destruct_event := Some e\<rparr>) st1" "chptr e = c"
    "st1 = st\<lparr>minute_list := minute_list st @ [e]\<rparr> \<or> st1 = st\<lparr>days_list := days_list st @ [e]\<rparr>"
  shows "same_matrix st st' \<and> ginv st' G \<and> einv st' G \<and> destruct_event (channels st' c) \<noteq> None \<and>
    (\<forall>d. d \<noteq> c \<longrightarrow> destruct_event (channels st' d) = destruct_event (channels st d))"
proof -
  have old: "c \<notin> chptr ` set (minute_list st)" "c \<notin> chptr ` set (days_list st)" using assms(2,5) by (auto simp: einv_def)
  have s1: "gn st1 = gn st" "gp st1 = gp st" "channels st1 = channels st" "set (minute_list st1 @ days_list st1) = insert e (set (minute_list st @ days_list st))"
    "hashes st1 = hashes st" "GlobalChannelList st1 = GlobalChannelList st" "chan_next st1 = chan_next st"
    using assms(8) by (auto simp: gn_def gp_def fun_eq_iff)
  have "distinct (map chptr (minute_list st1 @ days_list st1))"
  proof -
    have d: "distinct (map chptr (minute_list st) @ map chptr (days_list st))" using assms(2) by (simp add: einv_def)
    have "map chptr (minute_list st1 @ days_list st1) = map chptr (minute_list st) @ c # map chptr (days_list st) \<or>
        map chptr (minute_list st1 @ days_list st1) = map chptr (minute_list st) @ map chptr (days_list st) @ [c]"
      using assms(7,8) by auto
    moreover have "distinct (map chptr (minute_list st) @ c # map chptr (days_list st))"
      "distinct (map chptr (minute_list st) @ map chptr (days_list st) @ [c])" using d old by simp_all
    ultimately show ?thesis by metis
  qed
  moreover have "chptr d \<in> set G \<and> destruct_event (channels st' (chptr d)) = Some d" if "d \<in> set (minute_list st1 @ days_list st1)" for d
  proof (cases "d = e")
    case False
    then have d: "d \<in> set (minute_list st @ days_list st)" using that s1(4) by auto
    then have "chptr d \<noteq> c" using old by auto
    with d assms(2,6) s1(3) show ?thesis by (auto simp: einv_def)
  qed (use assms(3,6,7) in simp)
  moreover have "e' \<in> set (minute_list st1 @ days_list st1) \<and> chptr e' = d" if "d \<in> set G" "destruct_event (channels st' d) = Some e'" for d e'
    using that s1(3,4) assms(2,6,7) by (cases "d = c") (auto simp: einv_def)
  moreover have "members (channels st' d) = None" if "d \<in> set G" "destruct_event (channels st' d) \<noteq> None" for d
    using that s1(3) assms(2,4,6) by (cases "d = c") (auto simp: einv_def)
  moreover have "minute_list st' = minute_list st1" "days_list st' = days_list st1" using assms(6) by simp_all
  ultimately have "einv st' G" unfolding einv_def by simp
  moreover have "same_invites st st'" using assms(6,8) by (auto simp: same_invites_def)
  then have "iside st' G" using assms(1) same_invites_iside unfolding ginv_def by blast
  then have "ginv st' G" using assms(1) s1 unfolding ginv_def assms(6) by simp
  moreover have "same_matrix st st'" using assms(6,8) by (auto simp: same_matrix_def)
  ultimately show ?thesis using s1(3) assms(6) by simp
qed

lemma schedule_ok:
  assumes "ginv st G" "einv st G" "c \<in> set G" "members (channels st c) = None" "destruct_event (channels st c) = None"
    "st' = schedule_destruct_event_1m now c st \<or> st' = schedule_destruct_event_48h now c st"
  shows "same_matrix st st' \<and> ginv st' G \<and> einv st' G \<and> destruct_event (channels st' c) \<noteq> None \<and>
    (\<forall>d. d \<noteq> c \<longrightarrow> destruct_event (channels st' d) = destruct_event (channels st d))"
  using assms(6)
proof
  assume "st' = schedule_destruct_event_1m now c st"
  from add_event_ok [OF assms(1-5) this [unfolded schedule_destruct_event_1m_def Let_def assms(5), simplified]]
  show ?thesis by simp
next
  assume "st' = schedule_destruct_event_48h now c st"
  from add_event_ok [OF assms(1-5) this [unfolded schedule_destruct_event_48h_def Let_def assms(5), simplified]]
  show ?thesis by simp
qed

lemma same_glob_set_chan:
  "(\<And>ch. ch_next (f ch) = ch_next ch \<and> ch_prev (f ch) = ch_prev ch \<and> destruct_event (f ch) = destruct_event ch \<and> invites (f ch) = invites ch) \<Longrightarrow>
   same_glob st (set_chan c f st)"
  by (rule same_globI) (auto simp: same_invites_def)

lemma same_matrix_set_chan:
  "(\<And>ch. members (f ch) = members ch \<and> users (f ch) = users ch) \<Longrightarrow> same_matrix st (set_chan c f st)"
  by (simp add: same_matrix_def)

abbreviation dec_users :: "nat \<Rightarrow> net \<Rightarrow> net" where
  "dec_users c \<equiv> set_chan c (\<lambda>ch. ch\<lparr>users := users ch - 1\<rparr>)"

text \<open>The last member has left: what is done before the channel is destroyed or its destruction is scheduled.\<close>

lemma empty_channel_ok:
  assumes "ginv st G" "einv st G" "c \<in> set G" "members (channels st c) = None" "destruct_event (channels st c) = None" "users (channels st c) = 1"
  shows "\<exists>st' G'. sub1_from_channel ft now c st = Some (False, st') \<and> same_matrix (dec_users c st) st' \<and> ginv st' G' \<and> einv st' G' \<and>
    (G' = G \<and> destruct_event (channels st' c) \<noteq> None \<or> G' = remove1 c G) \<and>
    (\<forall>d. d \<noteq> c \<longrightarrow> destruct_event (channels st' d) = destruct_event (channels st d))"
proof -
  let ?st1 = "set_chan c (\<lambda>ch. ch\<lparr>users := 0, chmode := (chmode ch)\<lparr>mode := mode (chmode ch) AND NOT MODE_INVITEONLY, limit := 0\<rparr>\<rparr>) st"
  let ?na = "apass (chmode (channels ?st1 c)) = []"
  let ?st1' = "set_chan c (\<lambda>ch. ch\<lparr>chmode := (chmode ch)\<lparr>mode := 0, key := []\<rparr>\<rparr>) ?st1"
  have s1: "same_matrix (dec_users c st) ?st1" "same_glob st ?st1"
    using assms(6) by (auto simp: same_matrix_def intro!: same_glob_set_chan)
  have s1': "same_matrix ?st1 ?st1'" "same_glob ?st1 ?st1'"
    by (auto intro!: same_matrix_set_chan same_glob_set_chan)
  have "iinv ?st1'" using same_globD(9) [OF s1'(2)] same_globD(9) [OF s1(2)] assms(1) by (simp only: ginv_def iside_def simp_thms)
  from del_invites_ok [OF this, of c]
  obtain st1d where d: "del_invites c ?st1' = Some st1d" "same_matrix ?st1' st1d" "same_glob ?st1' st1d" by blast
  let ?st2' = "set_chan c (\<lambda>ch. ch\<lparr>banlist := []\<rparr>) (free_ban_list c st1d)"
  have s2': "same_matrix st1d ?st2'" "same_glob st1d ?st2'"
    by (rule same_matrix_trans [OF free_ban_list_same(1)], rule same_matrix_set_chan, simp)
      (rule same_glob_trans [OF free_ban_list_same(2)], rule same_glob_set_chan, simp)
  obtain st2 where st2: "(if ?na then map_option (\<lambda>s. set_chan c (\<lambda>ch. ch\<lparr>banlist := []\<rparr>) (free_ban_list c s)) (del_invites c ?st1') else Some ?st1) = Some st2"
    and sm: "same_matrix (dec_users c st) st2" and sg: "same_glob st st2"
  proof (cases ?na)
    case True
    show ?thesis
    proof (rule that [of ?st2'])
      show "same_matrix (dec_users c st) ?st2'" by (rule same_matrix_trans [OF s1(1) same_matrix_trans [OF s1'(1) same_matrix_trans [OF d(2) s2'(1)]]])
      show "same_glob st ?st2'" by (rule same_glob_trans [OF s1(2) same_glob_trans [OF s1'(2) same_glob_trans [OF d(3) s2'(2)]]])
    qed (use True d(1) in \<open>simp only: if_True option.map simp_thms\<close>)
  next
    case False
    show ?thesis by (rule that [of ?st1]) (use False s1 in simp_all)
  qed
  have m2: "members (channels st2 d) = members (channels st d)" for d using same_matrixD(4) [OF sm, of d] by simp
  have g2: "ginv st2 G" "einv st2 G" "members (channels st2 c) = None" "destruct_event (channels st2 c) = None"
    using same_glob_ginv [OF sg assms(1)] same_glob_einv [OF sg m2] assms m2 same_globD(6) [OF sg] by simp_all
  have dev: "destruct_event (channels st2 d) = destruct_event (channels st d)" for d using same_globD(6) [OF sg] .
  show ?thesis
  proof (cases "?na \<and> \<not> feat_oplevels ft")
    case True
    obtain st' where st': "destruct_channel c st2 = Some st'" "same_matrix st2 st'" "ginv st' (remove1 c G)" "einv st' (remove1 c G)"
       "\<And>d. destruct_event (channels st' d) = destruct_event (channels st2 d)"
      using destruct_channel_ok [OF g2(1,2) assms(3) g2(3,4)] by blast
    have "sub1_from_channel ft now c st = Some (False, st')"
      unfolding sub1_from_channel_def Let_def st2 option.case using assms(6) True st'(1) by simp
    then show ?thesis using st'(3-5) same_matrix_trans [OF sm st'(2)] dev by auto
  next
    case False
    let ?st' = "if now - creationtime (channels st2 c) < 172800 then schedule_destruct_event_1m now c st2 else schedule_destruct_event_48h now c st2"
    have r: "sub1_from_channel ft now c st = Some (False, ?st')"
      unfolding sub1_from_channel_def Let_def st2 option.case using assms(6) False by (simp only: if_False if_distrib) auto
    have k: "same_matrix st2 ?st' \<and> ginv ?st' G \<and> einv ?st' G \<and> destruct_event (channels ?st' c) \<noteq> None \<and>
      (\<forall>d. d \<noteq> c \<longrightarrow> destruct_event (channels ?st' d) = destruct_event (channels st2 d))"
      by (rule schedule_ok [OF g2(1,2) assms(3) g2(3,4)]) auto
    show ?thesis
    proof (intro exI conjI)
      show "sub1_from_channel ft now c st = Some (False, ?st')" by (rule r)
      show "same_matrix (dec_users c st) ?st'" by (rule same_matrix_trans [OF sm conjunct1 [OF k]])
      show "ginv ?st' G" "einv ?st' G" using k by blast+
      show "G = G \<and> destruct_event (channels ?st' c) \<noteq> None \<or> G = remove1 c G" using k by blast
      show "\<forall>d. d \<noteq> c \<longrightarrow> destruct_event (channels ?st' d) = destruct_event (channels st d)" using k unfolding dev by blast
    qed
  qed
qed

section \<open>Leaving\<close>

lemma find_delayed_joins_ok:
  assumes "dll (nm st) (pm st) (members (channels st c)) xs"
  shows "find_delayed_joins st c = Some (\<exists>m \<in> set xs. IsDelayedJoin st m)"
proof -
  have "walk (\<lambda>m. Some (IsDelayedJoin st m)) (nm st) (members (channels st c)) = Some (find (IsDelayedJoin st) xs)"
    by (rule walk_dll [OF assms]) simp
  moreover have "find (IsDelayedJoin st) xs = None \<longleftrightarrow> \<not> (\<exists>m \<in> set xs. IsDelayedJoin st m)" by (auto simp: find_None_iff)
  ultimately show ?thesis by (auto simp: find_delayed_joins_def nm_def [abs_def])
qed

lemma channel_all_zombies_ok:
  assumes "dll (nm st) (pm st) (members (channels st c)) xs"
  shows "channel_all_zombies st c = Some (\<forall>m \<in> set xs. IsZombie st m)"
proof -
  have "walk (\<lambda>m. Some (\<not> IsZombie st m)) (nm st) (members (channels st c)) = Some (find (\<lambda>m. \<not> IsZombie st m) xs)"
    by (rule walk_dll [OF assms]) simp
  moreover have "find (\<lambda>m. \<not> IsZombie st m) xs = None \<longleftrightarrow> (\<forall>m \<in> set xs. IsZombie st m)" by (auto simp: find_None_iff)
  ultimately show ?thesis by (auto simp: channel_all_zombies_def nm_def [abs_def])
qed

lemma CheckDelayedJoins_ok:
  assumes "dll (nm st) (pm st) (members (channels st c)) xs"
  shows "\<exists>st'. CheckDelayedJoins c st = Some st' \<and> same_matrix st st' \<and> same_glob st st'"
proof (cases "has_mode st c MODE_WASDELJOINS \<and> \<not> (\<exists>m \<in> set xs. IsDelayedJoin st m)")
  case True
  let ?st' = "set_chan c (\<lambda>ch. ch\<lparr>chmode := (chmode ch)\<lparr>mode := mode (chmode ch) AND NOT MODE_WASDELJOINS\<rparr>\<rparr>) st"
  have "CheckDelayedJoins c st = Some ?st'"
    using True find_delayed_joins_ok [OF assms] by (simp add: CheckDelayedJoins_def)
  moreover have "same_matrix st ?st'" "same_glob st ?st'" by (auto intro!: same_matrix_set_chan same_glob_set_chan)
  ultimately show ?thesis by blast
next
  case False
  then have "CheckDelayedJoins c st = Some st" using find_delayed_joins_ok [OF assms] by (auto simp: CheckDelayedJoins_def)
  then show ?thesis by simp
qed

lemma unlink_members_dll:
  assumes inv: "minv st M C" and m: "m \<in> set (M c)"
  shows "dll (nm (unlink_member m st)) (pm (unlink_member m st)) (members (channels (unlink_member m st) d)) ((M(c := remove1 m (M c))) d)"
proof -
  have mc: "m_channel (memb st m) = c" using minvD(3) [OF inv m] .
  show ?thesis
  proof (cases "d = c")
    case True
    with dll_unlink [OF minvD(1) [OF inv] m] mc show ?thesis
      using unlink_member_links(3) [of m st] by (simp add: unlink_member_links(1,2))
  next
    case False
    have "dll (nm (unlink_member m st)) (pm (unlink_member m st)) (members (channels st d)) (M d) = dll (nm st) (pm st) (members (channels st d)) (M d)"
    proof (rule dll_cong)
      fix x assume "x \<in> set (M d)"
      then have "x \<notin> set (M c)" using minvD(3) [OF inv] False by blast
      then show "nm (unlink_member m st) x = nm st x \<and> pm (unlink_member m st) x = pm st x"
        using dll_unlink_other [OF minvD(1) [OF inv] m] by (simp add: unlink_member_links)
    qed
    with False mc minvD(1) [OF inv] show ?thesis by simp
  qed
qed

definition removed :: "nat \<Rightarrow> nat \<Rightarrow> net \<Rightarrow> net" where
  "removed m u st = (let st4 = set_user u (\<lambda>usr. usr\<lparr>joined := joined usr - 1\<rparr>) (unlink_channel_of m st)
    in st4\<lparr>membershipFreeList := m # membershipFreeList st4\<rparr>)"

lemma removed_simps [simp]:
  "channels (removed m u st) = channels st" "hashes (removed m u st) = hashes st"
  "GlobalChannelList (removed m u st) = GlobalChannelList st" "chan_next (removed m u st) = chan_next st"
  "minute_list (removed m u st) = minute_list st" "days_list (removed m u st) = days_list st"
  "membershipAllocCount (removed m u st) = membershipAllocCount st"
  "membershipFreeList (removed m u st) = m # membershipFreeList st"
  "m_user (memb (removed m u st) x) = m_user (memb st x)" "m_channel (memb (removed m u st) x) = m_channel (memb st x)"
  "status (memb (removed m u st) x) = status (memb st x)"
  "IsServer (removed m u st) = IsServer st" "IsMe (removed m u st) = IsMe st"
  by (simp_all add: removed_def Let_def IsServer_def IsMe_def fun_eq_iff)

lemma removed_clients:
  "cli_flags (clients (removed m u st) v) = cli_flags (clients st v)"
  "cli_user (clients (removed m u st) v) = None \<longleftrightarrow> cli_user (clients st v) = None"
  by (simp_all add: removed_def Let_def) (simp add: unlink_channel_of_def Let_def split: option.split)

lemma removed_invites: "same_invites st (removed m u st)"
  by (auto simp: same_invites_def removed_def Let_def unlink_channel_of_def option.map_comp o_def split: option.split)

lemma removed_links:
  "nm (removed m u st) = nm (unlink_channel_of m st)" "pm (removed m u st) = pm (unlink_channel_of m st)"
  "nc (removed m u st) = nc (unlink_channel_of m st)" "pc (removed m u st) = pc (unlink_channel_of m st)"
  "uchan (removed m u st) = uchan (unlink_channel_of m st)"
proof -
  let ?s = "set_user u (\<lambda>usr. usr\<lparr>joined := joined usr - 1\<rparr>) (unlink_channel_of m st)"
  have m: "memb (removed m u st) = memb (unlink_channel_of m st)" "clients (removed m u st) = clients ?s" by (simp_all add: removed_def Let_def)
  show "nm (removed m u st) = nm (unlink_channel_of m st)" "pm (removed m u st) = pm (unlink_channel_of m st)"
    "nc (removed m u st) = nc (unlink_channel_of m st)" "pc (removed m u st) = pc (unlink_channel_of m st)"
    by (rule links_cong [OF m(1)])+
  have "uchan (removed m u st) = uchan ?s" using m(2) by (simp add: uchan_def fun_eq_iff)
  also have "\<dots> = uchan (unlink_channel_of m st)" by (rule uchan_set_user) simp
  finally show "uchan (removed m u st) = uchan (unlink_channel_of m st)" .
qed

lemma removed_joined:
  assumes "cli_user (clients (removed m u st) v) = Some usr'" "m_user (memb st m) = u"
  shows "\<exists>usr. cli_user (clients st v) = Some usr \<and> joined usr' = (if v = u then joined usr - 1 else joined usr)"
  using assms by (auto simp: removed_def Let_def unlink_channel_of_def split: option.splits if_splits)

lemma removed_ok:
  assumes inv: "minv st M C" and m: "m \<in> set (M c)" "m_user (memb st m) = u" and same: "same_matrix (unlink_member m st) st2"
  shows "minv (dec_users c (removed m u st2)) (M(c := remove1 m (M c))) (C(u := remove1 m (C u)))" (is "minv ?st ?M ?C")
    "users (channels (removed m u st2) c) = Suc (length (remove1 m (M c)))"
    "members (channels (removed m u st2) c) = None \<longleftrightarrow> remove1 m (M c) = []"
proof -
  note s2 = same_matrixD [OF same]
  note D = minvD [OF inv]
  have mc: "m_channel (memb st m) = c" "m \<in> set (C u)" using D(3,4) [OF m(1)] m(2) by simp_all
  have us2: "m_user (memb st2 x) = m_user (memb st x)" "m_channel (memb st2 x) = m_channel (memb st x)" for x using s2(1) by simp_all
  have hu: "cli_user (clients st2 u) \<noteq> None" "cli_user (clients st u) \<noteq> None"
    using minv_has_user [OF inv, of u] mc(2) same_matrix_None [OF same, of u] by force+
  have l2: "nm st2 = nm (unlink_member m st)" "pm st2 = pm (unlink_member m st)" "nc st2 = nc st" "pc st2 = pc st"
    using links_cong [OF s2(1)] by (simp_all add: unlink_member_links)
  have uc2: "uchan st2 v = uchan st v" for v using same_matrix_uchan [OF same, of v] by (simp add: unlink_member_links)
  note lk = unlink_channel_of_links [where m = m and st = st2] and hd = unlink_channel_of_head [of st2 m, unfolded us2 m(2), OF hu(1)]
  have dist: "distinct (M c)" "distinct (C u)" using D(1,2) dll_distinct by blast+
  have dC: "dll (nc (removed m u st2)) (pc (removed m u st2)) (uchan (removed m u st2) v) (?C v)" for v
  proof (cases "v = u")
    case True
    from dll_unlink [OF D(2) mc(2)] show ?thesis
      unfolding removed_links lk(1,2) hd l2 True uc2 by simp
  next
    case False
    have "dll (unlink_next (nc st) (pc st) m) (unlink_prev (nc st) (pc st) m) (uchan st v) (C v) = dll (nc st) (pc st) (uchan st v) (C v)"
    proof (rule dll_cong)
      fix x assume "x \<in> set (C v)"
      then have "x \<notin> set (C u)" using D(5) False by blast
      then show "unlink_next (nc st) (pc st) m x = nc st x \<and> unlink_prev (nc st) (pc st) m x = pc st x"
        using dll_unlink_other [OF D(2) mc(2)] by simp
    qed
    with D(2) [of v] False lk(5) [where u = v] m(2) us2 show ?thesis unfolding removed_links lk(1,2) l2 by (simp add: uc2)
  qed
  have dM: "dll (nm (removed m u st2)) (pm (removed m u st2)) (members (channels (removed m u st2) d)) (?M d)" for d
    using unlink_members_dll [OF inv m(1), of d] unfolding removed_links lk(3,4) l2 removed_simps s2(4) .
  show "users (channels (removed m u st2) c) = Suc (length (remove1 m (M c)))"
    using D(12) [of c] m(1) s2(5) [of c] by (simp add: length_remove1) (metis Suc_pred length_pos_if_in_set)
  show "members (channels (removed m u st2) c) = None \<longleftrightarrow> remove1 m (M c) = []"
    using dM [of c] dll_None by (metis dll_Nil fun_upd_same)
  show "minv ?st ?M ?C"
  proof (rule minvI)
    show "dll (nm ?st) (pm ?st) (members (channels ?st d)) (?M d)" for d using dM [of d] by (cases "d = c") simp_all
    show "dll (nc ?st) (pc ?st) (uchan ?st v) (?C v)" for v using dC [of v] by (simp only: links_set)
    show "m_channel (memb ?st k) = d \<and> k \<in> set (?C (m_user (memb ?st k)))" if "k \<in> set (?M d)" for d k
      using that D(3,4) [of k d] m mc dist minv_one_user [OF inv, of k c m] by (auto simp: us2 split: if_splits)
    show "m_user (memb ?st k) = v \<and> k \<in> set (?M (m_channel (memb ?st k)))" if "k \<in> set (?C v)" for v k
      using that D(5,6) [of k v] m mc dist by (auto simp: us2 split: if_splits)
    show "distinct (map (\<lambda>k. m_channel (memb ?st k)) (?C v))" for v
      using D(7) [of v] by (auto simp: us2 distinct_map intro: inj_on_subset dest: notin_set_remove1)
    show "k < membershipAllocCount ?st \<and> k \<notin> set (membershipFreeList ?st)" if "k \<in> set (?C v)" for v k
      using that D(5,8,9) [of k v] m(2) dist s2(2,3) by (auto split: if_splits)
    show "distinct (membershipFreeList ?st)" using D(9) [OF mc(2)] D(10) s2(3) by simp
    show "k < membershipAllocCount ?st" if "k \<in> set (membershipFreeList ?st)" for k
      using that D(8) [OF mc(2)] D(11) [of k] s2(2,3) by auto
    show "users (channels ?st d) = length (?M d)" for d using D(12) s2(5) m(1) by (auto simp: length_remove1)
    show "\<not> IsServer ?st v \<and> \<not> IsMe ?st v" if "?C v \<noteq> []" for v
    proof -
      have "C v \<noteq> []" using that mc(2) by (auto split: if_splits)
      with D(13,14) [of v] s2(6) show ?thesis by (simp add: IsServer_def IsMe_def)
    qed
    show "joined usr' = int (length (?C v))" if "cli_user (clients ?st v) = Some usr'" for v usr'
    proof -
      have "cli_user (clients (removed m u st2) v) = Some usr'" using that by simp
      from removed_joined [OF this] m(2) us2 obtain usr where "cli_user (clients st2 v) = Some usr"
        "joined usr' = (if v = u then joined usr - 1 else joined usr)" by auto
      moreover from same_matrix_user [OF same this(1)] obtain usr0 where "cli_user (clients st v) = Some usr0" "joined usr = joined usr0"
        by auto
      moreover have "int (length (C u) - Suc 0) = int (length (C u)) - 1" using length_pos_if_in_set [OF mc(2)] by linarith
      ultimately show ?thesis using D(15) [of v usr0] mc(2) by (auto simp: length_remove1)
    qed
  qed
qed

definition net_inv :: "net \<Rightarrow> (nat \<Rightarrow> nat list) \<Rightarrow> (nat \<Rightarrow> nat list) \<Rightarrow> nat list \<Rightarrow> bool" where
  "net_inv st M C G \<longleftrightarrow> minv st M C \<and> ginv st G \<and> einv st G \<and> (\<forall>c. M c \<noteq> [] \<longrightarrow> c \<in> set G)"

text \<open>Channels with neither members nor a scheduled destruction.\<close>

definition idle :: "net \<Rightarrow> nat list \<Rightarrow> nat set" where
  "idle st G = {c \<in> set G. members (channels st c) = None \<and> destruct_event (channels st c) = None}"

lemma remove_member_ok:
  assumes inv: "net_inv st M C G" and m: "m \<in> set (M c)" "m_user (memb st m) = u"
  shows "\<exists>st' G'. remove_member_from_channel ft now m st = Some (remove1 m (M c) \<noteq> [], st') \<and>
    net_inv st' (M(c := remove1 m (M c))) (C(u := remove1 m (C u))) G' \<and> idle st' G' \<subseteq> idle st G \<and>
    (\<forall>x. m_user (memb st' x) = m_user (memb st x) \<and> status (memb st' x) = status (memb st x)) \<and>
    (\<forall>v. cli_flags (clients st' v) = cli_flags (clients st v) \<and> cli_status (hashes st') v = cli_status (hashes st) v \<and>
       (cli_user (clients st' v) = None \<longleftrightarrow> cli_user (clients st v) = None)) \<and>
    (G' = G \<or> G' = remove1 c G)"
proof -
  have i: "minv st M C" "ginv st G" "einv st G" "\<And>c. M c \<noteq> [] \<Longrightarrow> c \<in> set G" using inv by (auto simp: net_inv_def)
  note D = minvD [OF i(1)]
  have mc: "m_channel (memb st m) = c" using D(3) [OF m(1)] .
  have cG: "c \<in> set G" using i(4) [of c] m(1) by force
  let ?st1 = "unlink_member m st"
  have dl: "dll (nm ?st1) (pm ?st1) (members (channels ?st1 c)) (remove1 m (M c))"
    using unlink_members_dll [OF i(1) m(1), of c] by simp
  obtain st2 where st2: "(if IsDelayedJoin ?st1 m then CheckDelayedJoins c ?st1 else Some ?st1) = Some st2"
    "same_matrix ?st1 st2" "same_glob ?st1 st2"
    using CheckDelayedJoins_ok [OF dl] same_matrix_refl same_glob_refl by (cases "IsDelayedJoin ?st1 m") auto
  let ?st5 = "removed m u st2"
  note R = removed_ok [OF i(1) m st2(2)]
  have r: "remove_member_from_channel ft now m st = sub1_from_channel ft now c ?st5"
    unfolding remove_member_from_channel_def Let_def mc st2(1) option.case m(2) removed_def ..
  have sg: "same_glob st ?st1" by (rule same_globI) (simp_all add: same_invites_def)
  have sg5: "same_glob st ?st5"
    by (rule same_glob_trans [OF sg same_glob_trans [OF st2(3)]], rule same_globI) (simp_all add: removed_invites)
  have ne: "members (channels st c) \<noteq> None"
  proof
    assume "members (channels st c) = None"
    with D(1) [of c] have "M c = []" using dll_None [of "nm st" "pm st" "M c"] by simp
    with m(1) show False by simp
  qed
  have ev: "destruct_event (channels st c) = None" using i(3) cG ne by (auto simp: einv_def)
  have mem: "members (channels ?st5 d) = members (channels st d)" if "d \<noteq> c" for d
    using that same_matrixD(4) [OF st2(2), of d] mc by simp
  have e5: "einv ?st5 G"
  proof -
    have "members (channels ?st5 d) = None" if "d \<in> set G" "destruct_event (channels st d) \<noteq> None" for d
      using that mem [of d] ev i(3) by (cases "d = c") (auto simp: einv_def)
    with i(3) show ?thesis unfolding einv_def same_globD(4-6) [OF sg5] by blast
  qed
  have g5: "ginv ?st5 G" using same_glob_ginv [OF sg5 i(2)] .
  have ev5: "destruct_event (channels ?st5 d) = destruct_event (channels st d)" for d using same_globD(6) [OF sg5] .
  have "\<exists>st' G'. sub1_from_channel ft now c ?st5 = Some (remove1 m (M c) \<noteq> [], st') \<and> same_matrix (dec_users c ?st5) st' \<and>
     ginv st' G' \<and> einv st' G' \<and> (\<forall>d \<noteq> c. destruct_event (channels st' d) = destruct_event (channels ?st5 d)) \<and>
     (G' = G \<and> (remove1 m (M c) = [] \<longrightarrow> destruct_event (channels st' c) \<noteq> None) \<or> G' = remove1 c G \<and> remove1 m (M c) = [])"
  proof (cases "remove1 m (M c) = []")
    case True
    with R(2,3) have "users (channels ?st5 c) = 1" "members (channels ?st5 c) = None" by auto
    from empty_channel_ok [OF g5 e5 cG this(2) _ this(1), of ft now] ev5 ev True show ?thesis by auto
  next
    case False
    with R(2,3) have "users (channels ?st5 c) > 1" "members (channels ?st5 c) \<noteq> None" by auto
    then have "sub1_from_channel ft now c ?st5 = Some (True, dec_users c ?st5)" by (simp add: sub1_from_channel_def)
    moreover have d: "same_glob ?st5 (dec_users c ?st5)" by (rule same_glob_set_chan) simp
    moreover have "einv (dec_users c ?st5) G" using same_glob_einv [OF d, of G] e5 by simp
    moreover have "ginv (dec_users c ?st5) G" using same_glob_ginv [OF d g5] .
    ultimately show ?thesis using False same_globD(6) [OF d] by (intro exI [of _ "dec_users c ?st5"] exI [of _ G]) simp
  qed
  then obtain st' G' where st': "sub1_from_channel ft now c ?st5 = Some (remove1 m (M c) \<noteq> [], st')" "same_matrix (dec_users c ?st5) st'"
     "ginv st' G'" "einv st' G'" "\<And>d. d \<noteq> c \<Longrightarrow> destruct_event (channels st' d) = destruct_event (channels ?st5 d)"
     "G' = G \<and> (remove1 m (M c) = [] \<longrightarrow> destruct_event (channels st' c) \<noteq> None) \<or> G' = remove1 c G \<and> remove1 m (M c) = []" by blast
  have subG: "d \<in> set G" if "d \<in> set G'" for d using st'(6) that set_remove1_subset [of c G] by auto
  have dG: "distinct G" using i(2) by (auto simp: ginv_def dest: dll_distinct)
  have inG: "d \<in> set G'" if "(M(c := remove1 m (M c))) d \<noteq> []" for d
    using that i(4) [of d] st'(6) cG dG by (auto split: if_splits)
  have inv': "net_inv st' (M(c := remove1 m (M c))) (C(u := remove1 m (C u))) G'"
    unfolding net_inv_def using same_matrix_minv [OF st'(2)] R(1) st'(3,4) inG by blast
  have mem': "members (channels st' d) = members (channels ?st5 d)" for d using same_matrixD(4) [OF st'(2), of d] by simp
  have idl: "idle st' G' \<subseteq> idle st G"
  proof
    fix d assume d: "d \<in> idle st' G'"
    have "d \<noteq> c"
    proof
      assume "d = c"
      with d have "c \<in> set G'" "remove1 m (M c) = []" "destruct_event (channels st' c) = None" using mem' R(3) by (auto simp: idle_def)
      with st'(6) dG show False by auto
    qed
    with d mem [of d] mem' [of d] st'(5) [of d] ev5 subG show "d \<in> idle st G" by (auto simp: idle_def)
  qed
  have "m_user (memb st' x) = m_user (memb st x) \<and> status (memb st' x) = status (memb st x)" for x
    using same_matrixD(1) [OF st'(2)] same_matrixD(1) [OF st2(2)] by simp
  moreover have "cli_flags (clients st' v) = cli_flags (clients st v) \<and> cli_status (hashes st') v = cli_status (hashes st) v \<and>
     (cli_user (clients st' v) = None \<longleftrightarrow> cli_user (clients st v) = None)" for v
    using same_matrixD(6,7) [OF st'(2), of v] same_matrixD(6,7) [OF st2(2), of v] same_matrix_None [OF st'(2), of v]
      same_matrix_None [OF st2(2), of v] by (simp add: removed_clients)
  ultimately show ?thesis using r st'(1,6) inv' idl by (intro exI [of _ st'] exI [of _ G']) auto
qed

definition keeps :: "net \<Rightarrow> net \<Rightarrow> bool" where
  "keeps st st' \<longleftrightarrow> (\<forall>x. m_user (memb st' x) = m_user (memb st x) \<and> status (memb st' x) = status (memb st x)) \<and>
    (\<forall>v. cli_flags (clients st' v) = cli_flags (clients st v) \<and> cli_status (hashes st') v = cli_status (hashes st) v \<and>
       (cli_user (clients st' v) = None \<longleftrightarrow> cli_user (clients st v) = None))"

lemma keeps_refl [simp]: "keeps st st" by (simp add: keeps_def)

lemma keeps_trans: "keeps a b \<Longrightarrow> keeps b c \<Longrightarrow> keeps a c" by (simp add: keeps_def)

lemma keepsD:
  assumes "keeps st st'"
  shows "m_user (memb st' x) = m_user (memb st x)" "has_status st' = has_status st"
    "IsServer st' = IsServer st" "IsMe st' = IsMe st" "cli_user (clients st' v) = None \<longleftrightarrow> cli_user (clients st v) = None"
  using assms by (auto simp: keeps_def has_status_def IsServer_def IsMe_def fun_eq_iff)

lemma net_invD:
  assumes "net_inv st M C G"
  shows "minv st M C" "ginv st G" "einv st G" "M c \<noteq> [] \<Longrightarrow> c \<in> set G"
  using assms by (auto simp: net_inv_def)

lemma minv_C_set: "minv st M C \<Longrightarrow> set (C u) = {m. m_user (memb st m) = u \<and> (\<exists>d. m \<in> set (M d))}"
  using minvD(4,5,6) [of st M C] by blast

lemma remove_member:
  assumes "net_inv st M C G" "m \<in> set (M c)"
  shows "\<exists>st' C' G'. remove_member_from_channel ft now m st = Some (remove1 m (M c) \<noteq> [], st') \<and>
    net_inv st' (M(c := remove1 m (M c))) C' G' \<and> idle st' G' \<subseteq> idle st G \<and> keeps st st'"
  using remove_member_ok [OF assms refl, of ft now] unfolding keeps_def by blast

lemma remove_zombies_ok:
  "net_inv st M C G \<Longrightarrow> M c \<noteq> [] \<Longrightarrow> \<exists>st' C' G'. remove_zombies ft now c st = Some st' \<and>
     net_inv st' (M(c := [])) C' G' \<and> idle st' G' \<subseteq> idle st G \<and> keeps st st'"
proof (induction "M c" arbitrary: st M C G)
  case (Cons m ms)
  have h: "members (channels st c) = Some m" using minvD(1) [OF net_invD(1) [OF Cons.prems(1)], of c] Cons(2) by (metis dll_def dseg.simps(2))
  have m: "m \<in> set (M c)" "remove1 m (M c) = ms" using Cons(2) by (metis list.set_intros(1), metis remove1.simps(2))
  obtain st1 C1 G1 where r: "remove_member_from_channel ft now m st = Some (ms \<noteq> [], st1)" "net_inv st1 (M(c := ms)) C1 G1"
    "idle st1 G1 \<subseteq> idle st G" "keeps st st1"
    using remove_member [OF Cons.prems(1) m(1), of ft now] m(2) by auto
  show ?case
  proof (cases "ms = []")
    case True
    with r h show ?thesis by (auto simp: remove_zombies.simps [of ft now c st])
  next
    case False
    have "ms = (M(c := ms)) c" "(M(c := ms)) c \<noteq> []" using False by simp_all
    from Cons(1) [OF this(1) r(2) this(2)] obtain st' C' G' where "remove_zombies ft now c st1 = Some st'"
      "net_inv st' (M(c := [])) C' G'" "idle st' G' \<subseteq> idle st1 G1" "keeps st1 st'" unfolding fun_upd_upd by blast
    moreover from this(1) have "remove_zombies ft now c st = Some st'" using r(1) h False by (simp add: remove_zombies.simps [of ft now c st])
    ultimately show ?thesis using r(3,4) keeps_trans by blast
  qed
qed simp

text \<open>What is left of the members of a channel when a user leaves it.\<close>

definition leave :: "net \<Rightarrow> nat \<Rightarrow> nat list \<Rightarrow> nat list" where
  "leave st u ms =
    (if \<exists>m \<in> set ms. m_user (memb st m) = u
     then let rest = filter (\<lambda>m. m_user (memb st m) \<noteq> u) ms in if \<forall>m \<in> set rest. IsZombie st m then [] else rest
     else ms)"

lemma leave_keeps: "keeps st st' \<Longrightarrow> leave st' u ms = leave st u ms"
  by (simp add: leave_def keepsD)

lemma remove1_user:
  assumes "minv st M C" "m \<in> set (M c)"
  shows "remove1 m (M c) = filter (\<lambda>k. m_user (memb st k) \<noteq> m_user (memb st m)) (M c)"
proof -
  have "remove1 m (M c) = filter (\<lambda>k. k \<noteq> m) (M c)"
    using dll_distinct [OF minvD(1) [OF assms(1)]] by (simp add: distinct_remove1_removeAll removeAll_filter_not_eq) (metis (no_types))
  also have "\<dots> = filter (\<lambda>k. m_user (memb st k) \<noteq> m_user (memb st m)) (M c)"
    by (rule filter_cong) (use minv_one_user [OF assms(1) _ assms(2)] in auto)
  finally show ?thesis .
qed

lemma remove_user_from_channel_ok:
  assumes inv: "net_inv st M C G" and u: "cli_user (clients st u) \<noteq> None" "\<not> IsServer st u" "\<not> IsMe st u"
  shows "\<exists>st' C' G'. remove_user_from_channel ft now u c st = Some st' \<and> net_inv st' (M(c := leave st u (M c))) C' G' \<and>
    idle st' G' \<subseteq> idle st G \<and> keeps st st'"
proof -
  note i = net_invD [OF inv]
  have f: "find_member_link st c u = Some (membership_of st M c u)" by (rule find_member_link_ok [OF i(1) u])
  show ?thesis
  proof (cases "membership_of st M c u")
    case None
    then have "leave st u (M c) = M c" by (auto simp: leave_def membership_of_def find_None_iff)
    then have "M(c := leave st u (M c)) = M" by auto
    with f None inv show ?thesis by (auto simp: remove_user_from_channel_def)
  next
    case (Some m)
    then have m: "m \<in> set (M c)" "m_user (memb st m) = u" using membership_of_iff [OF i(1)] by auto
    let ?rest = "filter (\<lambda>m. m_user (memb st m) \<noteq> u) (M c)"
    have rest: "remove1 m (M c) = ?rest" using remove1_user [OF i(1) m(1)] m(2) by simp
    have lv: "leave st u (M c) = (if \<forall>m \<in> set ?rest. IsZombie st m then [] else ?rest)"
      using m by (auto simp: leave_def)
    obtain st1 C1 G1 where r: "remove_member_from_channel ft now m st = Some (?rest \<noteq> [], st1)" "net_inv st1 (M(c := ?rest)) C1 G1"
      "idle st1 G1 \<subseteq> idle st G" "keeps st st1"
      using remove_member [OF inv m(1), of ft now] unfolding rest by blast
    have az: "channel_all_zombies st1 c = Some (\<forall>m \<in> set ?rest. IsZombie st m)"
      using channel_all_zombies_ok [OF minvD(1) [OF net_invD(1) [OF r(2)]], of c] keepsD(2) [OF r(4)] by simp
    consider (empty) "?rest = []" | (zombies) "?rest \<noteq> []" "\<forall>m \<in> set ?rest. IsZombie st m" | (other) "?rest \<noteq> []" "\<not> (\<forall>m \<in> set ?rest. IsZombie st m)"
      by blast
    then show ?thesis
    proof cases
      case empty
      then have "remove_user_from_channel ft now u c st = Some st1" "leave st u (M c) = ?rest"
        using f Some r(1) lv by (simp_all add: remove_user_from_channel_def)
      with r show ?thesis by auto
    next
      case zombies
      have "(M(c := ?rest)) c \<noteq> []" using zombies(1) by simp
      from remove_zombies_ok [OF r(2) this, of ft now] obtain st' C' G' where z: "remove_zombies ft now c st1 = Some st'"
        "net_inv st' (M(c := [])) C' G'" "idle st' G' \<subseteq> idle st1 G1" "keeps st1 st'" unfolding fun_upd_upd by blast
      have "remove_user_from_channel ft now u c st = Some st'"
        unfolding remove_user_from_channel_def f Some option.case r(1) prod.case using zombies az z(1) by simp
      moreover have "leave st u (M c) = []" using lv zombies by simp
      ultimately show ?thesis using z r(3,4) keeps_trans by (metis subset_trans)
    next
      case other
      have "remove_user_from_channel ft now u c st = Some st1"
        unfolding remove_user_from_channel_def f Some option.case r(1) prod.case az
        using other by (simp only: bool.case if_False not_False_eq_True)
      moreover have "leave st u (M c) = ?rest" using lv other by simp
      ultimately show ?thesis using r by auto
    qed
  qed
qed

lemma leave_subset: "set (leave st u ms) \<subseteq> set ms" by (auto simp: leave_def Let_def)

lemma leave_gone: "m \<in> set (leave st u ms) \<Longrightarrow> m_user (memb st m) \<noteq> u"
  by (auto simp: leave_def Let_def split: if_splits)

lemma leave_idem: "leave st u (leave st u ms) = leave st u ms"
  using leave_gone by (auto simp: leave_def [of st u "leave st u ms"])

lemma remove_user_from_all_ok:
  "net_inv st M C G \<Longrightarrow> cli_user (clients st u) \<noteq> None \<Longrightarrow> \<not> IsServer st u \<Longrightarrow> \<not> IsMe st u \<Longrightarrow>
   \<exists>st' C' G'. remove_user_from_all_channels ft now u st = Some st' \<and> net_inv st' (\<lambda>c. leave st u (M c)) C' G' \<and>
     idle st' G' \<subseteq> idle st G \<and> keeps st st'"
proof (induction "length (C u)" arbitrary: st M C G rule: less_induct)
  case less
  note i = net_invD [OF less.prems(1)]
  obtain usr where usr: "cli_user (clients st u) = Some usr" using less.prems(2) by blast
  have uc: "u_channel usr = uchan st u" by (simp add: uchan_def usr)
  have set: "set (C u) = {m. m_user (memb st m) = u \<and> (\<exists>d. m \<in> set (M d))}" by (rule minv_C_set [OF i(1)])
  show ?case
  proof (cases "C u")
    case Nil
    then have "uchan st u = None" using minvD(2) [OF i(1), of u] by simp
    then have "remove_user_from_all_channels ft now u st = Some st" using usr uc by (simp add: remove_user_from_all_channels.simps)
    moreover have "(\<lambda>c. leave st u (M c)) = M" using Nil set by (auto simp: leave_def fun_eq_iff)
    ultimately show ?thesis using less.prems(1) by auto
  next
    case (Cons m ms)
    let ?c = "m_channel (memb st m)"
    have h: "uchan st u = Some m" using minvD(2) [OF i(1), of u] Cons by (simp add: dll_def)
    have m: "m \<in> set (C u)" "m_user (memb st m) = u" "m \<in> set (M ?c)" using minvD(5,6) [OF i(1), of m u] Cons by auto
    obtain st1 C1 G1 where r: "remove_user_from_channel ft now u ?c st = Some st1" "net_inv st1 (M(?c := leave st u (M ?c))) C1 G1"
      "idle st1 G1 \<subseteq> idle st G" "keeps st st1" using remove_user_from_channel_ok [OF less.prems, of ft now ?c] by blast
    note k = keepsD [OF r(4)]
    have "set (C1 u) \<subset> set (C u)"
    proof -
      have s1: "set (C1 u) = {m. m_user (memb st m) = u \<and> (\<exists>d. m \<in> set ((M(?c := leave st u (M ?c))) d))}"
        using minv_C_set [OF net_invD(1) [OF r(2)], of u] k(1) by simp
      have "set (C1 u) \<subseteq> set (C u)" unfolding s1 set using leave_subset [of st u "M ?c"] by (auto split: if_splits)
      moreover have "m \<notin> set (C1 u)"
      proof
        assume "m \<in> set (C1 u)"
        then obtain d where d: "m \<in> set ((M(?c := leave st u (M ?c))) d)" unfolding s1 by blast
        have "d \<noteq> ?c" using d leave_gone [of m st u "M ?c"] m(2) by auto
        with d have "m \<in> set (M d)" by simp
        with minvD(3) [OF i(1) this] \<open>d \<noteq> ?c\<close> show False by simp
      qed
      ultimately show ?thesis using m(1) by blast
    qed
    moreover have "distinct (C1 u)" "distinct (C u)"
      using minvD(2) [OF net_invD(1) [OF r(2)]] minvD(2) [OF i(1)] dll_distinct by blast+
    ultimately have "length (C1 u) < length (C u)" using psubset_card_mono [of "set (C u)" "set (C1 u)"] by (simp add: distinct_card)
    moreover have "cli_user (clients st1 u) \<noteq> None" "\<not> IsServer st1 u" "\<not> IsMe st1 u" using k less.prems(2-4) by simp_all
    ultimately obtain st' C' G' where z: "remove_user_from_all_channels ft now u st1 = Some st'"
      "net_inv st' (\<lambda>d. leave st1 u ((M(?c := leave st u (M ?c))) d)) C' G'" "idle st' G' \<subseteq> idle st1 G1" "keeps st1 st'" using less.hyps [OF _ r(2)] by blast
    have "(\<lambda>d. leave st1 u ((M(?c := leave st u (M ?c))) d)) = (\<lambda>d. leave st u (M d))"
      unfolding leave_keeps [OF r(4)] by (auto simp: leave_idem)
    moreover have "remove_user_from_all_channels ft now u st = Some st'"
      using usr uc h r(1) z(1) by (simp add: remove_user_from_all_channels.simps [of ft now u st])
    ultimately show ?thesis using z r(3,4) keeps_trans by (metis subset_trans)
  qed
qed

section \<open>Expired channels\<close>

lemma remove_event_ok:
  assumes g: "ginv st G" and e: "einv st G" and c: "c \<in> set G" "destruct_event (channels st c) = Some ev"
  shows "\<exists>st'. remove_destruct_event c st = Some st' \<and> same_matrix st st' \<and> ginv st' G \<and> einv st' G \<and>
    destruct_event (channels st' c) = None \<and> (\<forall>d. d \<noteq> c \<longrightarrow> destruct_event (channels st' d) = destruct_event (channels st d)) \<and>
    minute_list st' = remove1 ev (minute_list st) \<and> days_list st' = remove1 ev (days_list st)"
proof -
  let ?st' = "set_chan c (\<lambda>ch. ch\<lparr>destruct_event := None\<rparr>)
    (st\<lparr>minute_list := remove1 ev (minute_list st), days_list := remove1 ev (days_list st)\<rparr>)"
  have r: "remove_destruct_event c st = Some ?st'" using c(2) by (simp add: remove_destruct_event_def)
  have ev: "ev \<in> set (minute_list st @ days_list st)" using e c by (auto simp: einv_def)
  have cev: "chptr ev = c" using e c by (auto simp: einv_def)
  have d0: "distinct (map chptr (minute_list st @ days_list st))" using e by (simp add: einv_def)
  have inj: "x = y" if "x \<in> set (minute_list st @ days_list st)" "y \<in> set (minute_list st @ days_list st)" "chptr x = chptr y" for x y
    using d0 that by (meson distinct_map inj_onD)
  have chp: "chptr x \<noteq> c" if "x \<in> set (minute_list st @ days_list st)" "x \<noteq> ev" for x
    using that e c(2) by (auto simp: einv_def)
  have dl: "distinct (minute_list st)" "distinct (days_list st)" using d0 by (auto simp: distinct_map)
  have dist: "distinct (map chptr (remove1 ev (minute_list st) @ remove1 ev (days_list st)))"
    using d0 set_remove1_subset [of ev "minute_list st"] set_remove1_subset [of ev "days_list st"]
    by (auto simp: distinct_map intro: inj_on_subset)
  have "einv ?st' G" unfolding einv_def
  proof (intro conjI ballI allI impI)
    show "distinct (map chptr (minute_list ?st' @ days_list ?st'))" using dist by simp
    fix x assume "x \<in> set (minute_list ?st' @ days_list ?st')"
    then have x: "x \<in> set (minute_list st @ days_list st)" "x \<noteq> ev" using dl by auto
    show "chptr x \<in> set G" using x(1) e by (auto simp: einv_def)
    show "destruct_event (channels ?st' (chptr x)) = Some x" using x chp [OF x] e by (auto simp: einv_def)
  next
    fix d x assume d: "d \<in> set G" "destruct_event (channels ?st' d) = Some x"
    then have dc: "d \<noteq> c" "destruct_event (channels st d) = Some x" by (auto split: if_splits)
    then have x: "x \<in> set (minute_list st @ days_list st)" "chptr x = d" using e d(1) by (auto simp: einv_def)
    then show "chptr x = d" by simp
    have "x \<noteq> ev" using x(2) dc(1) cev by auto
    with x(1) show "x \<in> set (minute_list ?st' @ days_list ?st')" by (auto simp: in_set_remove1)
  next
    fix d assume "d \<in> set G" "destruct_event (channels ?st' d) \<noteq> None"
    then show "members (channels ?st' d) = None" using e by (auto simp: einv_def split: if_splits)
  qed
  moreover have "ginv ?st' G"
  proof -
    have "gn ?st' = gn st" "gp ?st' = gp st" by (auto simp: gn_def gp_def fun_eq_iff)
    moreover have "same_invites st ?st'" by (simp add: same_invites_def)
    then have "iside ?st' G" using g same_invites_iside unfolding ginv_def by blast
    ultimately show ?thesis using g unfolding ginv_def by simp
  qed
  moreover have "same_matrix st ?st'" by (simp add: same_matrix_def)
  ultimately show ?thesis using r by auto
qed

abbreviation events :: "bool \<Rightarrow> net \<Rightarrow> DestructEvent list" where
  "events days st \<equiv> (if days then days_list st else minute_list st)"

lemma events_disjoint: "einv st G \<Longrightarrow> e \<in> set (events days st) \<Longrightarrow> e \<notin> set (events (\<not> days) st)"
  by (auto simp: einv_def split: if_splits)

lemma exec_expired_ok:
  "net_inv st M C G \<Longrightarrow> \<exists>st' G'. exec_expired now days st = Some st' \<and> net_inv st' M C G' \<and> set G' \<subseteq> set G \<and> same_matrix st st' \<and>
     (events days st' = [] \<or> now < expires (hd (events days st'))) \<and> events (\<not> days) st' = events (\<not> days) st \<and>
     (\<forall>d \<in> set G'. destruct_event (channels st' d) = destruct_event (channels st d)) \<and> suffix (events days st') (events days st) \<and>
     (\<forall>d \<in> set G - set G'. \<exists>e. destruct_event (channels st d) = Some e \<and> expires e \<le> now)"
proof (induction "length (events days st)" arbitrary: st G rule: less_induct)
  case less
  note i = net_invD [OF less.prems]
  show ?case
  proof (cases "events days st")
    case Nil
    then have "exec_expired now days st = Some st" by (simp add: exec_expired.simps)
    with less.prems Nil show ?thesis by (intro exI [of _ st] exI [of _ G]) auto
  next
    case (Cons e es)
    show ?thesis
    proof (cases "now \<ge> expires e")
      case False
      then have "exec_expired now days st = Some st" using Cons by (simp add: exec_expired.simps)
      with less.prems Cons False show ?thesis by (intro exI [of _ st] exI [of _ G]) auto
    next
      case True
      let ?c = "chptr e"
      have "e \<in> set (minute_list st @ days_list st)" using Cons by (auto split: if_splits)
      then have c: "?c \<in> set G" "destruct_event (channels st ?c) = Some e" "members (channels st ?c) = None" using i(3) by (auto simp: einv_def)
      obtain st1 where r1: "remove_destruct_event ?c st = Some st1" "same_matrix st st1" "ginv st1 G" "einv st1 G"
        "destruct_event (channels st1 ?c) = None" "minute_list st1 = remove1 e (minute_list st)" "days_list st1 = remove1 e (days_list st)"
        "\<And>d. d \<noteq> ?c \<Longrightarrow> destruct_event (channels st1 d) = destruct_event (channels st d)"
        using remove_event_ok [OF i(2,3) c(1,2)] by blast
      have "members (channels st1 ?c) = None" using same_matrixD(4) [OF r1(2)] c(3) by simp
      from destruct_channel_ok [OF r1(3,4) c(1) this r1(5)] obtain st2 where r2: "destruct_channel ?c st1 = Some st2" "same_matrix st1 st2"
        "ginv st2 (remove1 ?c G)" "einv st2 (remove1 ?c G)" "minute_list st2 = minute_list st1" "days_list st2 = days_list st1"
        "\<And>d. destruct_event (channels st2 d) = destruct_event (channels st1 d)" by blast
      have sm: "same_matrix st st2" using same_matrix_trans [OF r1(2) r2(2)] .
      have "M ?c = []" using minvD(1) [OF i(1), of ?c] c(3) dll_None [of "nm st" "pm st" "M ?c"] by simp
      moreover have "distinct G" using i(2) by (auto simp: ginv_def dest: dll_distinct)
      ultimately have "d \<in> set (remove1 ?c G)" if "M d \<noteq> []" for d using i(4) [OF that] that by auto
      then have inv2: "net_inv st2 M C (remove1 ?c G)" unfolding net_inv_def using same_matrix_minv [OF sm] i(1) r2(3,4) by blast
      have "e \<notin> set (events (\<not> days) st)" by (rule events_disjoint [OF i(3)]) (simp add: Cons)
      then have ev: "events days st2 = es" "events (\<not> days) st2 = events (\<not> days) st"
        using Cons r1(6,7) r2(5,6) by (auto simp: remove1_idem split: if_splits)
      have "length (events days st2) < length (events days st)" using ev(1) Cons by simp
      from less.hyps [OF this inv2] obtain st' G' where z: "exec_expired now days st2 = Some st'" "net_inv st' M C G'" "set G' \<subseteq> set (remove1 ?c G)"
        "same_matrix st2 st'" "events days st' = [] \<or> now < expires (hd (events days st'))" "events (\<not> days) st' = events (\<not> days) st2"
        "\<And>d. d \<in> set G' \<Longrightarrow> destruct_event (channels st' d) = destruct_event (channels st2 d)" "suffix (events days st') (events days st2)"
        "\<And>d. d \<in> set (remove1 ?c G) - set G' \<Longrightarrow> \<exists>e. destruct_event (channels st2 d) = Some e \<and> expires e \<le> now" by blast
      have "exec_expired now days st = Some st'"
        using Cons True r1(1) r2(1) z(1) by (simp add: exec_expired.simps [of now days st])
      moreover have "set G' \<subseteq> set G" using z(3) set_remove1_subset [of ?c G] by blast
      moreover have "destruct_event (channels st' d) = destruct_event (channels st d)" if "d \<in> set G'" for d
      proof -
        have "d \<noteq> ?c" using that z(3) \<open>distinct G\<close> by auto
        then show ?thesis using z(7) [OF that] r2(7) [of d] r1(8) [of d] by simp
      qed
      moreover have "suffix (events days st') (events days st)" using z(8) unfolding ev(1) Cons by (rule suffix_ConsI)
      moreover have "\<exists>e. destruct_event (channels st d) = Some e \<and> expires e \<le> now" if "d \<in> set G - set G'" for d
      proof (cases "d = ?c")
        case True
        with c(2) \<open>now \<ge> expires e\<close> show ?thesis by simp
      next
        case False
        then have "d \<in> set (remove1 ?c G) - set G'" using that by simp
        from z(9) [OF this] show ?thesis unfolding r2(7) r1(8) [OF False] .
      qed
      ultimately show ?thesis using z(2,5,6) same_matrix_trans [OF sm z(4)] unfolding ev(2) by blast
    qed
  qed
qed

lemma exec_expired_destruct_events_ok:
  assumes "net_inv st M C G"
  shows "\<exists>st' G'. exec_expired_destruct_events now st = Some st' \<and> net_inv st' M C G' \<and> set G' \<subseteq> set G \<and> same_matrix st st' \<and>
    (\<forall>e \<in> {minute_list st', days_list st'}. e = [] \<or> now < expires (hd e)) \<and>
    (\<forall>d \<in> set G'. destruct_event (channels st' d) = destruct_event (channels st d)) \<and>
    suffix (minute_list st') (minute_list st) \<and> suffix (days_list st') (days_list st) \<and>
    (\<forall>d \<in> set G - set G'. \<exists>e. destruct_event (channels st d) = Some e \<and> expires e \<le> now)"
proof -
  from exec_expired_ok [OF assms, of now False] obtain st1 G1 where r: "exec_expired now False st = Some st1" "net_inv st1 M C G1"
    "set G1 \<subseteq> set G" "same_matrix st st1" "minute_list st1 = [] \<or> now < expires (hd (minute_list st1))"
    "\<And>d. d \<in> set G1 \<Longrightarrow> destruct_event (channels st1 d) = destruct_event (channels st d)"
    "suffix (minute_list st1) (minute_list st)" "days_list st1 = days_list st"
    "\<And>d. d \<in> set G - set G1 \<Longrightarrow> \<exists>e. destruct_event (channels st d) = Some e \<and> expires e \<le> now" by auto
  from exec_expired_ok [OF r(2), of now True] obtain st2 G2 where r2: "exec_expired now True st1 = Some st2" "net_inv st2 M C G2"
    "set G2 \<subseteq> set G1" "same_matrix st1 st2" "days_list st2 = [] \<or> now < expires (hd (days_list st2))" "minute_list st2 = minute_list st1"
    "\<And>d. d \<in> set G2 \<Longrightarrow> destruct_event (channels st2 d) = destruct_event (channels st1 d)"
    "suffix (days_list st2) (days_list st1)"
    "\<And>d. d \<in> set G1 - set G2 \<Longrightarrow> \<exists>e. destruct_event (channels st1 d) = Some e \<and> expires e \<le> now" by auto
  have "\<exists>e. destruct_event (channels st d) = Some e \<and> expires e \<le> now" if "d \<in> set G - set G2" for d
    using r(6,9) [of d] r2(9) [of d] that by (cases "d \<in> set G1") auto
  then show ?thesis using r(1-8) r2(1-8) same_matrix_trans [OF r(4) r2(4)]
    by (intro exI [of _ st2] exI [of _ G2]) (auto simp: exec_expired_destruct_events_def)
qed

section \<open>Creation\<close>

lemma channel_inv_name:
  assumes "channel_inv hs" "c \<notin> tmem (channelTable hs)" "is_cstr n"
  shows "channel_inv (hAddChannel (hs\<lparr>chname := (chname hs)(c := n)\<rparr>) c)"
    "tmem (channelTable (hAddChannel (hs\<lparr>chname := (chname hs)(c := n)\<rparr>) c)) = insert c (tmem (channelTable hs))"
proof -
  let ?hs = "hs\<lparr>chname := (chname hs)(c := n)\<rparr>"
  have "tinv (\<lambda>d. strhash (crc32hash hs) (chname ?hs d)) (channelTable hs)"
    by (rule tinv_cong [of "\<lambda>d. strhash (crc32hash hs) (chname hs d)"]) (use assms in \<open>auto simp: channel_inv_def\<close>)
  then have "channel_inv ?hs" using assms by (auto simp: channel_inv_def)
  from ch.add_ok [OF this, of c] assms(2,3) show "channel_inv (hAddChannel ?hs c)" "tmem (channelTable (hAddChannel ?hs c)) = insert c (tmem (channelTable hs))"
    by auto
qed

definition known_as :: "nat \<Rightarrow> string \<Rightarrow> net \<Rightarrow> bool" where
  "known_as c name st \<longleftrightarrow> fold_eq name (chname (hashes st) c)"

lemma get_channel_new_ok:
  assumes inv: "net_inv st M C G" and hs: "channel_inv hs" "tmem (channelTable hs) = set G" "cli_status hs = cli_status (hashes st)" and n: "is_cstr n"
    and st': "st' = (set_chan c (\<lambda>_. chan) (case GlobalChannelList st of Some g \<Rightarrow> set_chan g (\<lambda>ch. ch\<lparr>ch_prev := Some c\<rparr>) st | None \<Rightarrow> st))
      \<lparr>GlobalChannelList := Some c, chan_next := c + 1, UserStats_channels := UserStats_channels st + 1,
       hashes := hAddChannel (hs\<lparr>chname := (chname hs)(c := n)\<rparr>) c\<rparr>"
    and c: "c = chan_next st" "ch_next chan = GlobalChannelList st" "ch_prev chan = None" "destruct_event chan = None" "users chan = 0" "members chan = None" "invites chan = []"
  shows "net_inv st' M C (c # G)" "keeps st st'"
proof -
  note i = net_invD [OF inv]
  have cG: "c \<notin> set G" using i(2) c(1) by (auto simp: ginv_def)
  have Mc: "M c = []" using i(4) [of c] cG by blast
  have mc: "members (channels st c) = None" "users (channels st c) = 0" using minvD(1,12) [OF i(1), of c] Mc by simp_all
  have ch: "channels st' d = (if d = c then chan else if GlobalChannelList st = Some d then (channels st d)\<lparr>ch_prev := Some c\<rparr> else channels st d)" for d
    using st' by (simp split: option.split)
  have sm: "same_matrix st st'"
    using st' hs(3) mc c(5,6) by (auto simp: same_matrix_def hAddChannel_def split: option.split)
  have gl: "gn st' = (gn st)(c := GlobalChannelList st)" "gp st' = (link_prev (gp st) (GlobalChannelList st) (Some c))(c := None)"
    using c(2,3) by (auto simp: gn_def gp_def ch fun_eq_iff)
  have "dll (gn st) (gp st) (GlobalChannelList st) G" using i(2) by (simp add: ginv_def)
  from dll_push [OF this cG] have dl: "dll (gn st') (gp st') (Some c) (c # G)" unfolding gl .
  have "same_invites st st'"
    using st' c(1,7) i(2) cG by (auto simp: same_invites_def ginv_def iside_def split: option.split)
  then have "iside st' G" using same_invites_iside i(2) unfolding ginv_def by blast
  then have "iside st' (c # G)" by (auto simp: iside_def)
  then have "ginv st' (c # G)"
    using dl channel_inv_name [OF hs(1) _ n, of c] hs(2) cG i(2) c(1) unfolding ginv_def st' by (auto split: option.split)
  moreover have "einv st' (c # G)"
  proof -
    have l: "minute_list st' = minute_list st" "days_list st' = days_list st" using st' by (simp_all split: option.split)
    have d: "destruct_event (channels st' d) = destruct_event (channels st d)" "members (channels st' d) = members (channels st d)" if "d \<in> set G" for d
      using that cG ch by (auto split: if_splits)
    have c': "destruct_event (channels st' c) = None" using ch c(4) by simp
    show ?thesis using i(3) d c' unfolding einv_def l by (auto simp: mc)
  qed
  ultimately show "net_inv st' M C (c # G)"
    unfolding net_inv_def using same_matrix_minv [OF sm] i(1,4) by auto
  show "keeps st st'" using same_matrixD(1,6,7) [OF sm] same_matrix_None [OF sm] by (simp add: keeps_def)
qed

lemma get_channel_ok:
  assumes inv: "net_inv st M C G" and n: "is_cstr name" "name \<noteq> []"
    and n': "n' = (if MyUser st u \<and> length name > CHANNELLEN then take CHANNELLEN name else name)"
  shows "\<exists>r st' G'. get_channel now create u name st = Some (r, st') \<and> net_inv st' M C G' \<and> keeps st st' \<and>
    (case r of None \<Rightarrow> \<not> create \<and> G' = G \<and> (\<forall>c \<in> set G. \<not> known_as c n' st)
     | Some c \<Rightarrow> known_as c n' st' \<and> (c \<in> set G \<and> G' = G \<or> create \<and> G' = c # G \<and> c \<notin> set G \<and> (\<forall>d \<in> set G. \<not> known_as d n' st)))"
proof -
  note i = net_invD [OF inv]
  have cn: "is_cstr n'" using n(1) n' by (auto simp: is_cstr_take)
  have ci: "channel_inv (hashes st)" "tmem (channelTable (hashes st)) = set G" using i(2) by (auto simp: ginv_def)
  obtain hs r where s: "hSeekChannel (hashes st) n' = Some (hs, r)" "channel_inv hs" "tmem (channelTable hs) = set G"
    "case r of None \<Rightarrow> \<forall>c \<in> set G. \<not> known_as c n' st | Some c \<Rightarrow> c \<in> set G \<and> known_as c n' st"
    using ch.seek_ok [OF ci(1) cn] ci(2) unfolding known_as_def channel_hit_def by (auto split: option.splits)
  have hsf: "cli_status hs = cli_status (hashes st)" "chname hs = chname (hashes st)"
    using s(1) by (auto simp: hSeekChannel_def)
  let ?st1 = "st\<lparr>hashes := hs\<rparr>"
  have sm1: "same_matrix st ?st1" using hsf by (simp add: same_matrix_def)
  have l: "gn ?st1 = gn st" "gp ?st1 = gp st" by (simp_all add: gn_def gp_def fun_eq_iff)
  have "same_invites st ?st1" by (simp add: same_invites_def)
  then have "iside ?st1 G" using same_invites_iside i(2) unfolding ginv_def by blast
  then have inv1: "net_inv ?st1 M C G"
    using same_matrix_minv [OF sm1] i s(2,3) l by (simp add: net_inv_def ginv_def einv_def)
  have k1: "keeps st ?st1" using hsf by (simp add: keeps_def)
  have unf: "get_channel now create u name st = (case (hs, r) of
       (hs, Some c) \<Rightarrow> Some (Some c, st\<lparr>hashes := hs\<rparr>)
     | (hs, None) \<Rightarrow>
         if \<not> create then Some (None, st\<lparr>hashes := hs\<rparr>)
         else
           let c = chan_next st;
               st1 = (case GlobalChannelList st of Some g \<Rightarrow> set_chan g (\<lambda>ch. ch\<lparr>ch_prev := Some c\<rparr>) st | None \<Rightarrow> st);
               ch = \<lparr>ch_next = GlobalChannelList st, ch_prev = None, destruct_event = None,
                     creationtime = (if MyUser st u then now else 0), users = 0, members = None,
                     invites = [], banlist = [], chmode = \<lparr>mode = 0, limit = 0, key = [], upass = [], apass = []\<rparr>\<rparr>
           in Some (Some c, (set_chan c (\<lambda>_. ch) st1)\<lparr>GlobalChannelList := Some c, chan_next := c + 1,
                UserStats_channels := UserStats_channels st + 1,
                hashes := hAddChannel (hs\<lparr>chname := (chname hs)(c := n')\<rparr>) c\<rparr>))"
    unfolding get_channel_def n' [symmetric] Let_def s(1) using n(2) by simp
  show ?thesis
  proof (cases r)
    case (Some c)
    with unf s(4) inv1 k1 show ?thesis
      by (intro exI [of _ "Some c"] exI [of _ ?st1] exI [of _ G]) (simp add: known_as_def hsf)
  next
    case None
    show ?thesis
    proof (cases create)
      case False
      with None unf s(4) inv1 k1 show ?thesis
        by (intro exI [of _ None] exI [of _ ?st1] exI [of _ G]) simp
    next
      case True
      let ?c = "chan_next st"
      let ?chan = "\<lparr>ch_next = GlobalChannelList st, ch_prev = None, destruct_event = None,
          creationtime = (if MyUser st u then now else 0), users = 0, members = None,
          invites = [], banlist = [], chmode = \<lparr>mode = 0, limit = 0, key = [], upass = [], apass = []\<rparr>\<rparr>"
      let ?st' = "(set_chan ?c (\<lambda>_. ?chan) (case GlobalChannelList st of Some g \<Rightarrow> set_chan g (\<lambda>ch. ch\<lparr>ch_prev := Some ?c\<rparr>) st | None \<Rightarrow> st))
        \<lparr>GlobalChannelList := Some ?c, chan_next := ?c + 1, UserStats_channels := UserStats_channels st + 1,
         hashes := hAddChannel (hs\<lparr>chname := (chname hs)(?c := n')\<rparr>) ?c\<rparr>"
      have g: "get_channel now create u name st = Some (Some ?c, ?st')"
        unfolding unf None Let_def prod.case option.case using True by (simp only: not_True_eq_False if_False)
      have cG: "?c \<notin> set G" using i(2) by (auto simp: ginv_def)
      have "net_inv ?st' M C (?c # G)" "keeps st ?st'"
        by (rule get_channel_new_ok [OF inv s(2,3) hsf(1) cn refl refl]; simp)+
      moreover have "known_as ?c n' ?st'" by (simp add: known_as_def hAddChannel_def fold_eq_def)
      ultimately show ?thesis using g cG True s(4) None
        by (intro exI [of _ "Some ?c"] exI [of _ ?st'] exI [of _ "?c # G"]) simp
    qed
  qed
qed

section \<open>Joining, with the destruction events\<close>

lemma einv_members:
  assumes "einv st G" "minute_list st' = minute_list st" "days_list st' = days_list st"
    "\<And>d. destruct_event (channels st' d) = destruct_event (channels st d)" "destruct_event (channels st c) = None"
    "\<And>d. d \<noteq> c \<Longrightarrow> members (channels st' d) = members (channels st d)"
  shows "einv st' G"
proof -
  have "members (channels st' d) = None" if "d \<in> set G" "destruct_event (channels st d) \<noteq> None" for d
    using that assms(1,5,6) by (cases "d = c") (auto simp: einv_def)
  with assms(1) show ?thesis unfolding einv_def assms(2-4) by blast
qed

lemma link_channel_invites: "same_invites st (link_channel m u st)"
  by (auto simp: same_invites_def link_channel_def Let_def option.map_comp o_def split: option.split)

lemma add_user_ok:
  assumes inv: "net_inv st M C G" and usr: "cli_user (clients st u) \<noteq> None" "\<not> IsServer st u" "\<not> IsMe st u"
    and c: "c \<in> set G" and new: "membership_of st M c u = None"
  shows "\<exists>st' m. add_user_to_channel c u flags opl st = Some st' \<and> net_inv st' (M(c := m # M c)) (C(u := m # C u)) G \<and>
    (\<forall>d. m \<notin> set (M d)) \<and> m_user (memb st' m) = u \<and> status (memb st' m) = flags \<and>
    (\<forall>x. x \<noteq> m \<longrightarrow> m_user (memb st' x) = m_user (memb st x) \<and> status (memb st' x) = status (memb st x)) \<and>
    destruct_event (channels st' c) = None \<and> (\<forall>d. d \<noteq> c \<longrightarrow> destruct_event (channels st' d) = destruct_event (channels st d))"
proof -
  note i = net_invD [OF inv]
  obtain st' m where a: "add_user_to_channel c u flags opl st = Some st'" "minv st' (M(c := m # M c)) (C(u := m # C u))"
    "\<forall>d. m \<notin> set (M d)" "m_user (memb st' m) = u" "status (memb st' m) = flags"
    "\<forall>x. x \<noteq> m \<longrightarrow> m_user (memb st' x) = m_user (memb st x) \<and> status (memb st' x) = status (memb st x)"
    using add_user_to_channel_ok [OF i(1) usr new, of flags opl] by blast
  obtain k st1 where al: "alloc_membership st = (k, st1)" by fastforce
  let ?st3 = "link_channel k u (link_member k c (fill_member k c u flags opl st1))"
  have si3: "same_invites st ?st3" by (rule same_invites_trans [OF _ link_channel_invites]) (use al in \<open>auto simp: alloc_membership_def same_invites_def link_member_def Let_def split: list.splits option.split\<close>)
  from si3 have sg3: "same_glob st ?st3" by (rule same_globI [rotated -1]) (use al in \<open>auto simp: alloc_membership_def split: list.splits\<close>)
  have m3: "members (channels ?st3 d) = members (channels st d)" if "d \<noteq> c" for d
    using that al by (auto simp: alloc_membership_def split: list.splits)
  obtain st4 where st4: "(if destruct_event (channels ?st3 c) \<noteq> None then remove_destruct_event c ?st3 else Some ?st3) = Some st4"
      "st' = set_user u (\<lambda>usr. usr\<lparr>joined := joined usr + 1\<rparr>) (set_chan c (\<lambda>ch. ch\<lparr>users := users ch + 1\<rparr>) st4)"
    using a(1) usr(1) unfolding add_user_to_channel_def al Let_def prod.case by (auto simp del: link_channel_rest link_member_rest)
  obtain sta where sta: "ginv sta G" "einv sta G" "destruct_event (channels sta c) = None"
      "minute_list st4 = minute_list sta" "days_list st4 = days_list sta" "\<And>d. destruct_event (channels st4 d) = destruct_event (channels sta d)"
      "\<And>d. members (channels sta d) = members (channels st d)" "gn st4 = gn sta" "gp st4 = gp sta"
      "GlobalChannelList st4 = GlobalChannelList sta" "hashes st4 = hashes sta" "chan_next st4 = chan_next sta"
      "\<And>d. members (channels st4 d) = members (channels ?st3 d)" "same_invites sta st4"
      "\<And>d. d \<noteq> c \<Longrightarrow> destruct_event (channels sta d) = destruct_event (channels st d)"
  proof (cases "destruct_event (channels st c)")
    case None
    then have "st4 = ?st3" using st4(1) same_globD(6) [OF sg3, of c] by (simp del: link_channel_rest link_member_rest)
    with None show ?thesis using that [of st] i(2,3) same_globD [OF sg3] si3 by (simp del: link_channel_rest link_member_rest)
  next
    case (Some e)
    then have e3: "destruct_event (channels ?st3 c) = Some e" using same_globD(6) [OF sg3, of c] by (simp del: link_channel_rest link_member_rest)
    obtain sta where s: "remove_destruct_event c st = Some sta" "same_matrix st sta" "ginv sta G" "einv sta G" "destruct_event (channels sta c) = None"
      "\<And>d. d \<noteq> c \<Longrightarrow> destruct_event (channels sta d) = destruct_event (channels st d)"
      using remove_event_ok [OF i(2,3) c Some] by blast
    let ?rm = "\<lambda>s. set_chan c (\<lambda>ch. ch\<lparr>destruct_event := None\<rparr>) (s\<lparr>minute_list := remove1 e (minute_list s), days_list := remove1 e (days_list s)\<rparr>)"
    have "st4 = ?rm ?st3" "sta = ?rm st" using st4(1) s(1) e3 Some by (simp_all add: remove_destruct_event_def del: link_channel_rest link_member_rest)
    moreover have "same_invites (?rm st) (?rm ?st3)" using si3 by (simp add: same_invites_def del: link_channel_rest link_member_rest)
    ultimately show ?thesis using that [of sta] s(3-6) same_globD [OF sg3]
      by (simp add: gn_def gp_def fun_eq_iff del: link_channel_rest link_member_rest)
  qed
  have "einv st' G" by (rule einv_members [OF sta(2)]) (use st4(2) sta m3 in auto)
  moreover have "ginv st' G"
  proof -
    have "gn st' = gn st4" "gp st' = gp st4" unfolding st4(2) by (auto simp: gn_def gp_def fun_eq_iff)
    moreover have "same_invites st4 st'" unfolding st4(2) by (auto simp: same_invites_def option.map_comp o_def)
    then have "iside st' G" using sta(1,14) same_invites_iside unfolding ginv_def by blast
    ultimately show ?thesis using sta unfolding ginv_def using st4(2) by simp
  qed
  ultimately have "net_inv st' (M(c := m # M c)) (C(u := m # C u)) G"
    unfolding net_inv_def using a(2) i(4) c by auto
  moreover have "destruct_event (channels st' c) = None" using st4(2) sta(3,6) by simp
  moreover have "destruct_event (channels st' d) = destruct_event (channels st d)" if "d \<noteq> c" for d using st4(2) sta(6) sta(15) [OF that] that by simp
  ultimately show ?thesis using a by blast
qed

end
