(* ===== verification/ChannelNet.thy ===== *)
theory ChannelNet
  imports ChannelInv
begin

text \<open>
  What the operations of \<open>Channel\<close> do, said of who is on which channel: the lemmas of
  \<open>ChannelInv\<close> without the chains and the free lists.
\<close>

section \<open>Who is on which channel\<close>

text \<open>The memberships as the code sees them.\<close>

definition on_chan :: "net \<Rightarrow> nat \<Rightarrow> nat \<Rightarrow> bool" where
  "on_chan st u c \<longleftrightarrow> (\<exists>m. find_member_link st c u = Some (Some m))"

definition zombie_on :: "net \<Rightarrow> nat \<Rightarrow> nat \<Rightarrow> bool" where
  "zombie_on st u c \<longleftrightarrow> is_zombie st u c = Some True"

definition net_ok :: "net \<Rightarrow> bool" where
  "net_ok st \<longleftrightarrow> (\<exists>M C G. net_inv st M C G)"

definition chan_exists :: "net \<Rightarrow> nat \<Rightarrow> bool" where
  "chan_exists st c \<longleftrightarrow> c \<in> tmem (channelTable (hashes st))"

definition is_person :: "net \<Rightarrow> nat \<Rightarrow> bool" where
  "is_person st u \<longleftrightarrow> cli_user (clients st u) \<noteq> None \<and> \<not> IsServer st u \<and> \<not> IsMe st u"

lemma member_is_person: "minv st M C \<Longrightarrow> m \<in> set (M c) \<Longrightarrow> is_person st (m_user (memb st m))"
  using minvD(4) [of st M C m c] minvD(13,14) [of st M C "m_user (memb st m)"] minv_has_user [of st M C "m_user (memb st m)"]
  by (force simp: is_person_def)

lemma find_member_link_iff:
  assumes "minv st M C"
  shows "find_member_link st c u = Some (Some m) \<longleftrightarrow> m \<in> set (M c) \<and> m_user (memb st m) = u"
proof (cases "is_person st u")
  case True
  then show ?thesis using find_member_link_ok [OF assms, of u c] membership_of_iff [OF assms, of c u m] by (simp add: is_person_def)
next
  case False
  have no: "\<not> (k \<in> set (M c) \<and> m_user (memb st k) = u)" for k using member_is_person [OF assms] False by blast
  have w: "walk (\<lambda>m. asserting (m_channel (memb st m) = c) (m_user (memb st m) = u)) (nm st) (members (channels st c)) =
      Some (find (\<lambda>m. m_user (memb st m) = u) (M c))"
    by (rule walk_dll [OF minvD(1) [OF assms]]) (use minvD(3) [OF assms] in simp)
  have "find (\<lambda>m. m_user (memb st m) = u) (M c) = None" using no by (auto simp: find_None_iff)
  with w False no show ?thesis by (auto simp: find_member_link_def is_person_def nm_def [abs_def] split: option.splits)
qed

lemma on_chan_iff: "minv st M C \<Longrightarrow> on_chan st u c \<longleftrightarrow> (\<exists>m \<in> set (M c). m_user (memb st m) = u)"
  by (auto simp: on_chan_def find_member_link_iff)

lemma zombie_on_iff:
  assumes "minv st M C"
  shows "zombie_on st u c \<longleftrightarrow> (\<exists>m \<in> set (M c). m_user (memb st m) = u \<and> IsZombie st m)"
proof -
  have "zombie_on st u c \<longleftrightarrow> (\<exists>m. find_member_link st c u = Some (Some m) \<and> IsZombie st m)"
    by (auto simp: zombie_on_def is_zombie_def member_test_def split: option.splits)
  then show ?thesis using find_member_link_iff [OF assms] by auto
qed

lemma net_inv_ok: "net_inv st M C G \<Longrightarrow> net_ok st" by (auto simp: net_ok_def)

text \<open>What remains when \<open>u\<close> leaves \<open>c\<close>: nobody if only zombies would be left.\<close>

definition stays :: "net \<Rightarrow> nat \<Rightarrow> nat \<Rightarrow> nat \<Rightarrow> bool" where
  "stays st u v c \<longleftrightarrow> on_chan st v c \<and>
    (on_chan st u c \<longrightarrow> v \<noteq> u \<and> (\<exists>w. w \<noteq> u \<and> on_chan st w c \<and> \<not> zombie_on st w c))"

lemma leave_stays:
  assumes "minv st M C"
  shows "(\<exists>m \<in> set (leave st u (M c)). m_user (memb st m) = v) \<longleftrightarrow> stays st u v c"
proof (cases "on_chan st u c")
  case False
  then have "leave st u (M c) = M c" using on_chan_iff [OF assms] by (auto simp: leave_def)
  with False on_chan_iff [OF assms] show ?thesis by (simp add: stays_def)
next
  case True
  let ?rest = "filter (\<lambda>m. m_user (memb st m) \<noteq> u) (M c)"
  have lv: "leave st u (M c) = (if \<forall>m \<in> set ?rest. IsZombie st m then [] else ?rest)"
    using True on_chan_iff [OF assms] by (auto simp: leave_def)
  have "(\<exists>w. w \<noteq> u \<and> on_chan st w c \<and> \<not> zombie_on st w c) \<longleftrightarrow> \<not> (\<forall>m \<in> set ?rest. IsZombie st m)"
    using on_chan_iff [OF assms] zombie_on_iff [OF assms] minv_one_user [OF assms] by auto metis+
  then show ?thesis unfolding lv stays_def using True on_chan_iff [OF assms] by auto
qed

text \<open>Channels that nobody is on and that nothing will destroy.\<close>

definition abandoned :: "net \<Rightarrow> nat \<Rightarrow> bool" where
  "abandoned st c \<longleftrightarrow> chan_exists st c \<and> (\<forall>v. \<not> on_chan st v c) \<and> destruct_event (channels st c) = None"

lemma abandoned_iff:
  assumes "net_inv st M C G"
  shows "abandoned st c \<longleftrightarrow> c \<in> idle st G"
proof -
  note i = net_invD [OF assms]
  have "(\<forall>v. \<not> on_chan st v c) \<longleftrightarrow> M c = []" unfolding on_chan_iff [OF i(1)] by (cases "M c") auto
  also have "\<dots> \<longleftrightarrow> members (channels st c) = None"
    using minvD(1) [OF i(1), of c] dll_None [of "nm st" "pm st" "M c"] by (metis dll_Nil)
  finally show ?thesis using i(2) by (auto simp: abandoned_def idle_def chan_exists_def ginv_def)
qed

lemma person_same_flags:
  assumes "minv st M C"
  shows "minv (st\<lparr>clients := (clients st)(u := (clients st u)\<lparr>cli_flags := fl\<rparr>)\<rparr>) M C"
  by (rule minv_cong [OF assms]) (auto simp: link_defs fun_eq_iff IsServer_def IsMe_def split: if_splits)

lemma leave_outcome:
  assumes "net_inv st M C G" "net_inv st' M' C' G'" "keeps st st'" "idle st' G' \<subseteq> idle st G" "\<And>d. M' d = (if P d then leave st u (M d) else M d)"
  shows "net_ok st'" "on_chan st' v d \<longleftrightarrow> (if P d then stays st u v d else on_chan st v d)" "abandoned st' d \<longrightarrow> abandoned st d"
proof -
  show "net_ok st'" using net_inv_ok [OF assms(2)] .
  show "on_chan st' v d \<longleftrightarrow> (if P d then stays st u v d else on_chan st v d)"
    unfolding on_chan_iff [OF net_invD(1) [OF assms(2)]] assms(5) keepsD(1) [OF assms(3)]
    using leave_stays [OF net_invD(1) [OF assms(1)]] on_chan_iff [OF net_invD(1) [OF assms(1)]] by simp
  show "abandoned st' d \<longrightarrow> abandoned st d"
    using abandoned_iff [OF assms(1)] abandoned_iff [OF assms(2)] assms(4) by blast
qed

lemma member_search_ok:
  assumes "net_ok st" "is_person st u"
  shows "\<exists>r. \<forall>fl. find_member_link (st\<lparr>clients := (clients st)(u := (clients st u)\<lparr>cli_flags := fl\<rparr>)\<rparr>) c u = Some r"
proof -
  obtain M C G where inv: "net_inv st M C G" using assms(1) by (auto simp: net_ok_def)
  have "find_member_link (st\<lparr>clients := (clients st)(u := (clients st u)\<lparr>cli_flags := fl\<rparr>)\<rparr>) c u = Some (membership_of st M c u)" for fl
    using find_member_link_ok [OF person_same_flags [OF net_invD(1) [OF inv]], where u = u and c = c] assms(2)
    by (simp add: is_person_def membership_of_def IsServer_def IsMe_def)
  then show ?thesis by blast
qed

lemma chan_exists_iff: "net_inv st M C G \<Longrightarrow> chan_exists st c \<longleftrightarrow> c \<in> set G"
  by (auto simp: chan_exists_def net_inv_def ginv_def)

lemma add_user_keeps_persons:
  "add_user_to_channel c u flags opl st = Some st' \<Longrightarrow> is_person st' v = is_person st v"
proof -
  assume a: "add_user_to_channel c u flags opl st = Some st'"
  show ?thesis
  proof (cases "cli_user (clients st u) = None")
    case True
    with a show ?thesis by (simp add: add_user_to_channel_def)
  next
    case False
    obtain k st1 where al: "alloc_membership st = (k, st1)" by fastforce
    let ?st3 = "link_channel k u (link_member k c (fill_member k c u flags opl st1))"
    obtain st4 where st4: "(if destruct_event (channels ?st3 c) \<noteq> None then remove_destruct_event c ?st3 else Some ?st3) = Some st4"
      "st' = set_user u (\<lambda>usr. usr\<lparr>joined := joined usr + 1\<rparr>) (set_chan c (\<lambda>ch. ch\<lparr>users := users ch + 1\<rparr>) st4)"
      using a False unfolding add_user_to_channel_def al Let_def prod.case by (auto simp del: link_channel_rest link_member_rest)
    have "same_matrix ?st3 st4"
      using st4(1) remove_destruct_event_same same_matrix_refl by (metis option.inject)
    then have "is_person st4 v = is_person ?st3 v"
      using same_matrix_None [of ?st3 st4 v] same_matrixD(6) [of ?st3 st4 v] by (simp add: is_person_def IsServer_def IsMe_def)
    moreover have "is_person ?st3 v = is_person st1 v" by (simp add: is_person_def IsServer_def IsMe_def)
    moreover have "is_person st1 v = is_person st v" using al by (auto simp: alloc_membership_def is_person_def IsServer_def IsMe_def split: list.splits)
    moreover have "is_person st' v = is_person st4 v" using st4(2) by (simp add: is_person_def)
    ultimately show ?thesis by simp
  qed
qed

lemma join_net:
  assumes "net_ok st" "is_person st u" "chan_exists st c" "\<not> on_chan st u c"
  shows "\<exists>st'. add_user_to_channel c u flags opl st = Some st' \<and> net_ok st' \<and>
    (\<forall>v d. on_chan st' v d \<longleftrightarrow> on_chan st v d \<or> v = u \<and> d = c) \<and>
    (\<forall>v d. zombie_on st' v d \<longleftrightarrow> (if v = u \<and> d = c then flags AND CHFL_ZOMBIE \<noteq> 0 else zombie_on st v d)) \<and>
    is_person st' = is_person st \<and> (\<forall>d. abandoned st' d \<longrightarrow> abandoned st d \<and> d \<noteq> c) \<and> destruct_event (channels st' c) = None"
proof -
  obtain M C G where inv: "net_inv st M C G" using assms(1) by (auto simp: net_ok_def)
  note i = net_invD [OF inv]
  have c: "c \<in> set G" using assms(3) chan_exists_iff [OF inv] by simp
  have new: "membership_of st M c u = None" using assms(4) on_chan_iff [OF i(1)] by (auto simp: membership_of_def find_None_iff)
  obtain st' m where a: "add_user_to_channel c u flags opl st = Some st'" "net_inv st' (M(c := m # M c)) (C(u := m # C u)) G"
    "\<And>d. m \<notin> set (M d)" "m_user (memb st' m) = u" "status (memb st' m) = flags"
    "\<And>x. x \<noteq> m \<Longrightarrow> m_user (memb st' x) = m_user (memb st x) \<and> status (memb st' x) = status (memb st x)"
    "destruct_event (channels st' c) = None" "\<And>d. d \<noteq> c \<Longrightarrow> destruct_event (channels st' d) = destruct_event (channels st d)"
    using add_user_ok [OF inv _ _ _ c new, of flags opl] assms(2) unfolding is_person_def by blast
  note i' = net_invD(1) [OF a(2)]
  have old: "m_user (memb st' x) = m_user (memb st x) \<and> has_status st' x = has_status st x" if "x \<in> set (M d)" for x d
  proof -
    have "x \<noteq> m" using a(3) [of d] that by auto
    from a(6) [OF this] show ?thesis by (simp add: has_status_def fun_eq_iff)
  qed
  have on: "on_chan st' v d \<longleftrightarrow> on_chan st v d \<or> v = u \<and> d = c" for v d
    unfolding on_chan_iff [OF i'] on_chan_iff [OF i(1)] using a(4) old [of _ d] by auto
  have "zombie_on st' v d \<longleftrightarrow> (if v = u \<and> d = c then flags AND CHFL_ZOMBIE \<noteq> 0 else zombie_on st v d)" for v d
  proof (cases "v = u \<and> d = c")
    case True
    have "x \<notin> set (M c)" if "m_user (memb st' x) = u" for x
      using that assms(4) old [of x c] on_chan_iff [OF i(1)] by auto
    then show ?thesis unfolding zombie_on_iff [OF i'] using True a(4,5) by (auto simp: has_status_def)
  next
    case False
    then have eq: "x \<in> set ((M(c := m # M c)) d) \<and> m_user (memb st' x) = v \<longleftrightarrow> x \<in> set (M d) \<and> m_user (memb st x) = v" for x
      using a(3) [of d] a(4) old [of x d] by auto
    show ?thesis unfolding zombie_on_iff [OF i'] zombie_on_iff [OF i(1)] Bex_def conj_assoc [symmetric] eq using False old [of _ d] by auto
  qed
  moreover have "abandoned st d \<and> d \<noteq> c" if "abandoned st' d" for d
  proof -
    have "d \<noteq> c" using that on by (auto simp: abandoned_def)
    then show ?thesis using that on a(8) chan_exists_iff [OF inv] chan_exists_iff [OF a(2)] by (auto simp: abandoned_def)
  qed
  moreover have "is_person st' = is_person st" using add_user_keeps_persons [OF a(1)] by blast
  ultimately show ?thesis using a(1,7) net_inv_ok [OF a(2)] on by blast
qed

lemma leave_ok:
  assumes "net_ok st" "is_person st u"
  shows "\<exists>st'. remove_user_from_channel ft now u c st = Some st' \<and> net_ok st' \<and>
    (\<forall>v d. on_chan st' v d \<longleftrightarrow> (if d = c then stays st u v c else on_chan st v d)) \<and>
    (\<forall>d. abandoned st' d \<longrightarrow> abandoned st d)"
proof -
  obtain M C G where inv: "net_inv st M C G" using assms(1) by (auto simp: net_ok_def)
  obtain st' C' G' where r: "remove_user_from_channel ft now u c st = Some st'" "net_inv st' (M(c := leave st u (M c))) C' G'"
    "idle st' G' \<subseteq> idle st G" "keeps st st'"
    using remove_user_from_channel_ok [OF inv, of u ft now c] assms(2) unfolding is_person_def by blast
  note o = leave_outcome [OF inv r(2,4,3), of "\<lambda>d. d = c" u]
  have o': "on_chan st' v d \<longleftrightarrow> (if d = c then stays st u v d else on_chan st v d)" for v d by (rule o(2)) simp
  have "net_ok st'" by (rule o(1)) simp
  moreover have "abandoned st' d \<longrightarrow> abandoned st d" for d by (rule o(3)) simp
  ultimately show ?thesis using r(1) o' by auto
qed

lemma leave_all_ok:
  assumes "net_ok st" "is_person st u"
  shows "\<exists>st'. remove_user_from_all_channels ft now u st = Some st' \<and> net_ok st' \<and>
    (\<forall>v c. on_chan st' v c \<longleftrightarrow> stays st u v c) \<and> (\<forall>c. \<not> on_chan st' u c) \<and> (\<forall>d. abandoned st' d \<longrightarrow> abandoned st d)"
proof -
  obtain M C G where inv: "net_inv st M C G" using assms(1) by (auto simp: net_ok_def)
  obtain st' C' G' where r: "remove_user_from_all_channels ft now u st = Some st'" "net_inv st' (\<lambda>c. leave st u (M c)) C' G'"
    "idle st' G' \<subseteq> idle st G" "keeps st st'"
    using remove_user_from_all_ok [OF inv, of u ft now] assms(2) unfolding is_person_def by blast
  note o = leave_outcome [OF inv r(2,4,3), of "\<lambda>_. True" u]
  have on: "on_chan st' v c \<longleftrightarrow> stays st u v c" for v c using o(2) [of v c] by simp
  moreover have "\<not> stays st u u c" for c by (auto simp: stays_def)
  moreover have "net_ok st'" by (rule o(1)) simp
  moreover have "abandoned st' d \<longrightarrow> abandoned st d" for d by (rule o(3)) simp
  ultimately show ?thesis using r(1) by auto
qed

text \<open>The events of a list in the order of their times, as a clock that does not go back leaves them.\<close>

definition in_order :: "net \<Rightarrow> bool" where
  "in_order st \<longleftrightarrow> sorted (map expires (minute_list st)) \<and> sorted (map expires (days_list st))"

lemma expired_suffix:
  assumes "sorted (map expires es)" "suffix es' es" "es' = [] \<or> now < expires (hd es')" "e \<in> set es'"
  shows "now < expires e"
proof -
  have "sorted (map expires es')" using assms(1,2) by (auto simp: suffix_def sorted_append)
  with assms(3,4) show ?thesis by (cases es') auto
qed

lemma expired_ok:
  assumes "net_ok st"
  shows "\<exists>st'. exec_expired_destruct_events now st = Some st' \<and> net_ok st' \<and> (\<forall>v c. on_chan st' v c \<longleftrightarrow> on_chan st v c) \<and>
    (\<forall>v c. on_chan st v c \<longrightarrow> chan_exists st' c) \<and>
    (\<forall>c. chan_exists st' c \<longrightarrow> chan_exists st c \<and> destruct_event (channels st' c) = destruct_event (channels st c)) \<and>
    (\<forall>c. chan_exists st c \<longrightarrow> \<not> chan_exists st' c \<longrightarrow> (\<exists>e. destruct_event (channels st c) = Some e \<and> expires e \<le> now)) \<and>
    (in_order st \<longrightarrow> (\<forall>c e. chan_exists st c \<longrightarrow> destruct_event (channels st c) = Some e \<longrightarrow> (chan_exists st' c \<longleftrightarrow> now < expires e)))"
proof -
  obtain M C G where inv: "net_inv st M C G" using assms by (auto simp: net_ok_def)
  obtain st' G' where r: "exec_expired_destruct_events now st = Some st'" "net_inv st' M C G'" "same_matrix st st'"
    "\<forall>es \<in> {minute_list st', days_list st'}. es = [] \<or> now < expires (hd es)"
    "suffix (minute_list st') (minute_list st)" "suffix (days_list st') (days_list st)" "set G' \<subseteq> set G"
    "\<And>d. d \<in> set G' \<Longrightarrow> destruct_event (channels st' d) = destruct_event (channels st d)"
    "\<And>d. d \<in> set G - set G' \<Longrightarrow> \<exists>e. destruct_event (channels st d) = Some e \<and> expires e \<le> now"
    using exec_expired_destruct_events_ok [OF inv, of now] by blast
  note i = net_invD [OF inv] and i' = net_invD [OF r(2)]
  have ce: "chan_exists st' c \<longleftrightarrow> c \<in> set G'" "chan_exists st c \<longleftrightarrow> c \<in> set G" for c using i'(2) i(2) by (auto simp: chan_exists_def ginv_def)
  have on: "on_chan st' v c \<longleftrightarrow> on_chan st v c" for v c
    unfolding on_chan_iff [OF i(1)] on_chan_iff [OF i'(1)] same_matrixD(1) [OF r(3)] ..
  have ex: "chan_exists st' c" if "on_chan st v c" for v c
    using that ce i'(4) [of c] on_chan_iff [OF i(1)] by force
  have ev: "now < expires e" if "in_order st" "chan_exists st' c" "destruct_event (channels st' c) = Some e" for c e
  proof -
    have "e \<in> set (minute_list st') \<or> e \<in> set (days_list st')" using that(2,3) ce i'(3) by (auto simp: einv_def)
    moreover have "minute_list st' = [] \<or> now < expires (hd (minute_list st'))" "days_list st' = [] \<or> now < expires (hd (days_list st'))"
      using r(4) by simp_all
    ultimately show ?thesis using expired_suffix [OF _ r(5)] expired_suffix [OF _ r(6)] that(1) unfolding in_order_def by blast
  qed
  have gone: "\<exists>e. destruct_event (channels st c) = Some e \<and> expires e \<le> now" if "chan_exists st c" "\<not> chan_exists st' c" for c
    by (rule r(9)) (use that ce in simp)
  have kept: "chan_exists st c" "destruct_event (channels st' c) = destruct_event (channels st c)" if "chan_exists st' c" for c
    using that ce r(7) r(8) [of c] by auto
  have "chan_exists st' c \<longleftrightarrow> now < expires e" if "in_order st" "chan_exists st c" "destruct_event (channels st c) = Some e" for c e
  proof
    show "chan_exists st' c \<Longrightarrow> now < expires e" using ev [of c e] kept(2) [of c] that by simp
    show "now < expires e \<Longrightarrow> chan_exists st' c" using gone [of c] that by fastforce
  qed
  then show ?thesis using r(1) net_inv_ok [OF r(2)] on ex gone kept by (intro exI [of _ st']) simp
qed

section \<open>Example networks\<close>

definition net0 :: net where
  "net0 = \<lparr>hashes = hash_example\<lparr>cli_status := \<lambda>_. STAT_USER\<rparr>,
     memb = \<lambda>_. \<lparr>m_user = 0, m_channel = 0, next_member = None, prev_member = None, next_channel = None, prev_channel = None, status = 0, oplevel = 0\<rparr>,
     membershipAllocCount = 0, membershipFreeList = [],
     clients = \<lambda>c. \<lparr>cli_from = c, cli_flags = {}, cli_ip = ip_zero, cli_user = Some \<lparr>u_server = 0, u_channel = None, invited = [],
       joined = 0, ninvites = 0, username = ''u'', host = ''h'', realhost = ''h'', account = []\<rparr>, cli_up = 0\<rparr>,
     channels = \<lambda>_. \<lparr>ch_next = None, ch_prev = None, destruct_event = None, creationtime = 0, users = 0, members = None,
       invites = [], banlist = [], chmode = \<lparr>mode = 0, limit = 0, key = [], upass = [], apass = []\<rparr>\<rparr>,
     GlobalChannelList = None, UserStats_channels = 0, chan_next = 0, bans_inuse = 0, free_bans = 0, minute_list = [], days_list = []\<rparr>"

lemma net0_inv: "net_inv net0 (\<lambda>_. []) (\<lambda>_. []) []"
  by (simp add: net_inv_def minv_def ginv_def iside_def iinv_def einv_def net0_def uchan_def channel_inv_def hash_example_def)

text \<open>A network of users with one channel and one member on it.\<close>

definition net1 :: net where
  "net1 = snd (the (get_channel 1000 True 1 ''#irc'' net0))"

definition chan1 :: nat where
  "chan1 = the (fst (the (get_channel 1000 True 1 ''#irc'' net0)))"

definition net2 :: net where
  "net2 = the (add_user_to_channel chan1 1 CHFL_CHANOP 0 net1)"

lemma net1_inv: "net_inv net1 (\<lambda>_. []) (\<lambda>_. []) [chan1]" "keeps net0 net1"
proof -
  obtain r st' G' where g: "get_channel 1000 True 1 ''#irc'' net0 = Some (r, st')" "net_inv st' (\<lambda>_. []) (\<lambda>_. []) G'" "keeps net0 st'"
    "case r of None \<Rightarrow> False | Some c \<Rightarrow> G' = [c]"
    using get_channel_ok [OF net0_inv _ _ refl, of "''#irc''" 1000 True 1] by (auto split: option.splits)
  then have "net1 = st'" "G' = [chan1]" by (auto simp: net1_def chan1_def split: option.splits)
  with g show "net_inv net1 (\<lambda>_. []) (\<lambda>_. []) [chan1]" "keeps net0 net1" by simp_all
qed

lemma get_channel_keeps_events: "get_channel now create u name st = Some (r, st') \<Longrightarrow> minute_list st' = minute_list st \<and> days_list st' = days_list st"
  by (auto simp: get_channel_def Let_def set_chan_def split: if_splits option.splits prod.splits)

text \<open>The channel, empty and with its destruction due in a minute.\<close>

definition net3 :: net where
  "net3 = schedule_destruct_event_1m 1000 chan1 net1"

lemma net3_ok: "net_ok net3" "chan_exists net3 chan1" "in_order net3" "\<exists>e. destruct_event (channels net3 chan1) = Some e \<and> expires e = 1060"
proof -
  note i = net_invD [OF net1_inv(1)]
  obtain r st' where "get_channel 1000 True 1 ''#irc'' net0 = Some (r, st')"
    using get_channel_ok [OF net0_inv _ _ refl, of "''#irc''" 1000 True 1] by auto
  from get_channel_keeps_events [OF this] this have l: "minute_list net1 = []" "days_list net1 = []" by (auto simp: net1_def net0_def)
  then have d: "destruct_event (channels net1 chan1) = None" using i(3) by (auto simp: einv_def)
  have m: "members (channels net1 chan1) = None" using minvD(1) [OF i(1), of chan1] dll_Nil by simp
  from schedule_ok [OF i(2,3) _ m d, of net3 1000] have s: "same_matrix net1 net3" "ginv net3 [chan1]" "einv net3 [chan1]" by (simp_all add: net3_def)
  have "net_inv net3 (\<lambda>_. []) (\<lambda>_. []) [chan1]" unfolding net_inv_def using same_matrix_minv [OF s(1)] i(1) s(2,3) by simp
  then show "net_ok net3" by (rule net_inv_ok)
  show "chan_exists net3 chan1" using s(2) by (auto simp: ginv_def chan_exists_def)
  show "in_order net3" "\<exists>e. destruct_event (channels net3 chan1) = Some e \<and> expires e = 1060"
    using l d by (simp_all add: net3_def schedule_destruct_event_1m_def in_order_def Let_def)
qed

lemma net0_person: "is_person net0 u"
  by (simp add: is_person_def net0_def IsServer_def IsMe_def STAT_USER_def STAT_SERVER_def STAT_ME_def)

lemma keeps_person: "keeps st st' \<Longrightarrow> is_person st' u = is_person st u"
  by (simp add: is_person_def keepsD)

lemma net1_ok: "net_ok net1" "is_person net1 u" "chan_exists net1 chan1" "\<not> on_chan net1 v c"
proof -
  show "net_ok net1" by (rule net_inv_ok [OF net1_inv(1)])
  show "is_person net1 u" using net0_person keeps_person [OF net1_inv(2)] by simp
  show "chan_exists net1 chan1" using net1_inv(1) by (auto simp: net_inv_def ginv_def chan_exists_def)
  show "\<not> on_chan net1 v c" using on_chan_iff [OF net_invD(1) [OF net1_inv(1)]] by simp
qed

lemma net2_ok: "net_ok net2" "is_person net2 u" "on_chan net2 v c \<longleftrightarrow> v = 1 \<and> c = chan1" "\<not> zombie_on net2 1 chan1"
proof -
  obtain st' where a: "add_user_to_channel chan1 1 CHFL_CHANOP 0 net1 = Some st'" "net_ok st'"
    "\<And>v d. on_chan st' v d \<longleftrightarrow> on_chan net1 v d \<or> v = 1 \<and> d = chan1" "zombie_on st' 1 chan1 \<longleftrightarrow> CHFL_CHANOP AND CHFL_ZOMBIE \<noteq> 0"
    using join_net [OF net1_ok(1,2,3) net1_ok(4), of 1 CHFL_CHANOP 0] by auto
  have "net2 = st'" using a(1) by (simp add: net2_def)
  with a show "net_ok net2" "on_chan net2 v c \<longleftrightarrow> v = 1 \<and> c = chan1" "\<not> zombie_on net2 1 chan1"
    by (simp_all add: net1_ok CHFL_CHANOP_def CHFL_ZOMBIE_def)
  show "is_person net2 u" using \<open>net2 = st'\<close> add_user_keeps_persons [OF a(1)] net1_ok(2) by simp
qed

end
