(* ===== verification/ChannelSteps.thy ===== *)
theory ChannelSteps
  imports ChannelNet
begin

text \<open>
  Invitations, kicks and the histories of a network: what \<open>add_invite\<close>, \<open>del_invite\<close> and
  \<open>make_zombie\<close> do to the invitations and to who is on which channel, the step relation
  \<open>net_step\<close> of the channel operations, and the invariant of its reachable states.
\<close>

section \<open>Creating, inviting and kicking\<close>

lemma zombie_keeps:
  assumes "net_inv st M C G" "net_inv st' M C G'" "keeps st st'"
  shows "on_chan st' v d \<longleftrightarrow> on_chan st v d" "zombie_on st' v d \<longleftrightarrow> zombie_on st v d"
  using on_chan_iff [OF net_invD(1) [OF assms(1)]] on_chan_iff [OF net_invD(1) [OF assms(2)]]
    zombie_on_iff [OF net_invD(1) [OF assms(1)]] zombie_on_iff [OF net_invD(1) [OF assms(2)]] keepsD(1,2) [OF assms(3)] by simp_all

definition alive :: "net \<Rightarrow> bool" where
  "alive st \<longleftrightarrow> (\<forall>c v. on_chan st v c \<longrightarrow> (\<exists>w. on_chan st w c \<and> \<not> zombie_on st w c))"

text \<open>A user invited to a channel that exists.\<close>

lemma invited_exists:
  assumes "net_ok st" "IsInvited st u c"
  shows "chan_exists st c" "u \<in> set (invites (channels st c))"
proof -
  obtain M C G where inv: "net_inv st M C G" using assms(1) by (auto simp: net_ok_def)
  then have s: "iside st G" by (simp add: net_inv_def ginv_def)
  obtain usr where usr: "cli_user (clients st u) = Some usr" "c \<in> set (invited usr)" using assms(2) by (auto simp: IsInvited_def split: option.splits)
  then show u: "u \<in> set (invites (channels st c))" using iinvD(5) [of st u usr c] s by (simp add: iside_def)
  then show "chan_exists st c" using s chan_exists_iff [OF inv] by (force simp: iside_def)
qed

lemma same_net:
  assumes "net_inv st M C G" "same_matrix st st'" "same_glob st st'"
  shows "net_inv st' M C G" "keeps st st'" "idle st' G = idle st G"
proof -
  show "idle st' G = idle st G" using same_matrixD(4) [OF assms(2)] same_globD(6) [OF assms(3)] by (simp add: idle_def)
  note i = net_invD [OF assms(1)]
  show "net_inv st' M C G" unfolding net_inv_def
    using same_matrix_minv [OF assms(2)] same_glob_ginv [OF assms(3) i(2)] same_glob_einv [OF assms(3) same_matrixD(4) [OF assms(2)]] i by blast
  show "keeps st st'" using same_matrixD(1,6,7) [OF assms(2)] same_matrix_None [OF assms(2)] by (simp add: keeps_def)
qed

lemma del_invite_ok:
  assumes inv: "net_inv st M C G" and u: "cli_user (clients st u) \<noteq> None"
  shows "\<exists>st'. del_invite u c st = Some st' \<and> net_inv st' M C G \<and> keeps st st' \<and> idle st' G = idle st G \<and>
    (\<forall>v d. IsInvited st' v d \<longleftrightarrow> IsInvited st v d \<and> \<not> (v = u \<and> d = c))"
proof -
  have ii: "iinv st" using inv by (simp add: net_inv_def ginv_def iside_def)
  obtain st' where st': "del_invite u c st = Some st'" using u by (auto simp: del_invite_def Let_def)
  note d = del_invite_iinv [OF ii st'] and s = del_invite_same [OF ii st']
  have "IsInvited st' v d \<longleftrightarrow> IsInvited st v d \<and> \<not> (v = u \<and> d = c)" for v d
    using d(3) [of v] iinvD(3) [OF ii] by (auto simp: IsInvited_def split: option.splits)
  with st' same_net [OF inv s(1,2)] show ?thesis by blast
qed

definition invitations :: "net \<Rightarrow> nat \<Rightarrow> nat list" where
  "invitations st u = (case cli_user (clients st u) of None \<Rightarrow> [] | Some usr \<Rightarrow> invited usr)"


lemma del_invite_invitations:
  assumes "iinv st" "del_invite u c st = Some st'"
  shows "invitations st' v = (if v = u then remove1 c (invitations st u) else invitations st v)"
  using del_invite_iinv(3) [OF assms, of v] by (auto simp: invitations_def split: option.splits)

lemma push_invite_ok:
  assumes inv: "net_inv st M C G" and u: "cli_user (clients st u) \<noteq> None" and c: "c \<in> set G" "c \<notin> set (invitations st u)"
    and st': "st' = set_user u (\<lambda>usr. usr\<lparr>invited := invited usr @ [c], ninvites := ninvites usr + 1\<rparr>)
                (set_chan c (\<lambda>ch. ch\<lparr>invites := u # invites ch\<rparr>) st)"
  shows "net_inv st' M C G" "keeps st st'" "invitations st' v = (if v = u then invitations st u @ [c] else invitations st v)"
    "idle st' G = idle st G"
proof -
  show "idle st' G = idle st G" using st' by (auto simp: idle_def)
  note i = net_invD [OF inv]
  have sd: "iside st G" using i(2) by (simp add: ginv_def)
  then have ii: "iinv st" by (simp add: iside_def)
  note D = iinvD [OF ii]
  have nu: "u \<notin> set (invites (channels st c))"
    using c(2) u D(5) by (auto simp: invitations_def)
  have "iinv st'" unfolding iinv_def
  proof (intro conjI allI ballI impI)
    fix d show "distinct (invites (channels st' d))" using D(1) nu st' by simp
    fix v assume "v \<in> set (invites (channels st' d))"
    then have "v = u \<or> v \<in> set (invites (channels st d))" using st' by (auto split: if_splits)
    with D(2) u show "cli_user (clients st' v) \<noteq> None" using st' by auto
  next
    fix v usr' assume v: "cli_user (clients st' v) = Some usr'"
    then obtain usr where us: "cli_user (clients st v) = Some usr"
      "usr' = (if v = u then usr\<lparr>invited := invited usr @ [c], ninvites := ninvites usr + 1\<rparr> else usr)"
      using st' by (auto split: if_splits)
    have "v = u \<Longrightarrow> c \<notin> set (invited usr)" using c(2) us(1) by (simp add: invitations_def)
    then show "distinct (invited usr')" "ninvites usr' = int (length (invited usr'))" using D(3,4) [OF us(1)] us(2) by simp_all
    fix d show "d \<in> set (invited usr') \<longleftrightarrow> v \<in> set (invites (channels st' d))"
      using D(5) [OF us(1)] us(2) st' by (auto split: if_splits)
  qed
  moreover have "invites (channels st' d) = []" if "d \<notin> set G" for d
    using that c(1) sd st' by (auto simp: iside_def)
  ultimately have "iside st' G" by (simp add: iside_def)
  moreover have "gn st' = gn st" "gp st' = gp st" using st' by (auto simp: gn_def gp_def fun_eq_iff)
  ultimately have "ginv st' G" using i(2) st' by (simp add: ginv_def)
  moreover have "destruct_event (channels st' d) = destruct_event (channels st d)" "members (channels st' d) = members (channels st d)"
    "minute_list st' = minute_list st" "days_list st' = days_list st" for d using st' by simp_all
  then have "einv st' G" using i(3) unfolding einv_def by simp
  moreover have sm: "same_matrix st st'" using st' by (simp add: same_matrix_def option.map_comp o_def)
  ultimately show "net_inv st' M C G" using i same_matrix_minv [OF sm] unfolding net_inv_def by blast
  show "keeps st st'" using same_matrixD(1,6,7) [OF sm] same_matrix_None [OF sm] by (simp add: keeps_def)
  show "invitations st' v = (if v = u then invitations st u @ [c] else invitations st v)"
    using st' u by (auto simp: invitations_def)
qed

lemma add_invite_ok:
  assumes inv: "net_inv st M C G" and u: "cli_user (clients st u) \<noteq> None" and c: "c \<in> set G" and ft: "0 < feat_maxchannels ft"
  shows "\<exists>st'. add_invite ft u c st = Some st' \<and> net_inv st' M C G \<and> keeps st st' \<and> idle st' G = idle st G \<and>
    invitations st' u = (let l = remove1 c (invitations st u) in (if feat_maxchannels ft \<le> int (length l) then tl l else l) @ [c]) \<and>
    (\<forall>v. v \<noteq> u \<longrightarrow> invitations st' v = invitations st v)"
proof -
  let ?l = "remove1 c (invitations st u)"
  have ii: "iinv st" using inv by (simp add: net_inv_def ginv_def iside_def)
  obtain st1 where r1: "del_invite u c st = Some st1" "net_inv st1 M C G" "keeps st st1" "idle st1 G = idle st G" using del_invite_ok [OF inv u] by blast
  have ii1: "iinv st1" using r1(2) by (simp add: net_inv_def ginv_def iside_def)
  obtain usr where usr: "cli_user (clients st1 u) = Some usr" using keepsD(5) [OF r1(3), of u] u by auto
  note iv1 = del_invite_invitations [OF ii r1(1)]
  have l: "invited usr = ?l" using iv1 [of u] usr by (simp add: invitations_def)
  have n: "ninvites usr = int (length ?l)" using iinvD(4) [OF ii1 usr] l by simp
  have "distinct (invitations st u)" using iinvD(3) [OF ii] by (auto simp: invitations_def split: option.splits)
  then have cl: "c \<notin> set ?l" by simp
  obtain st2 where r2: "(if ninvites usr \<ge> feat_maxchannels ft then (case invited usr of [] \<Rightarrow> None | d # _ \<Rightarrow> del_invite u d st1) else Some st1) = Some st2"
    "net_inv st2 M C G" "keeps st1 st2" "invitations st2 v = (if v = u \<and> feat_maxchannels ft \<le> int (length ?l) then tl ?l else invitations st1 v)" "idle st2 G = idle st1 G" for v
  proof (cases "ninvites usr \<ge> feat_maxchannels ft")
    case False
    then show ?thesis using that [of st1] r1(2) n by simp
  next
    case True
    then obtain d ds where ds: "?l = d # ds" using n ft by (cases ?l) auto
    obtain st2 where s: "del_invite u d st1 = Some st2" "net_inv st2 M C G" "keeps st1 st2" "idle st2 G = idle st1 G"
      using del_invite_ok [OF r1(2), of u d] usr by auto
    show ?thesis using that [of st2] s True ds n l iv1 del_invite_invitations [OF ii1 s(1)] by simp
  qed
  let ?st' = "set_user u (\<lambda>usr. usr\<lparr>invited := invited usr @ [c], ninvites := ninvites usr + 1\<rparr>)
                (set_chan c (\<lambda>ch. ch\<lparr>invites := u # invites ch\<rparr>) st2)"
  have "cli_user (clients st2 u) \<noteq> None" using keepsD(5) [OF r2(3)] usr by simp
  moreover have "c \<notin> set (invitations st2 u)"
    using cl r2(4) [of u] iv1 [of u] list.set_sel(2) [of ?l c] by (cases "?l = []") auto
  ultimately have p: "net_inv ?st' M C G" "keeps st2 ?st'" "\<And>v. invitations ?st' v = (if v = u then invitations st2 u @ [c] else invitations st2 v)"
    "idle ?st' G = idle st2 G"
    using push_invite_ok [OF r2(2) _ c _ refl] by blast+
  have "add_invite ft u c st = Some ?st'"
    unfolding add_invite_def r1(1) Option.bind.bind_lunit usr option.case r2(1) using l n by simp
  moreover have "keeps st ?st'" using keeps_trans [OF r1(3) keeps_trans [OF r2(3) p(2)]] .
  ultimately show ?thesis using p(1,3,4) r2(4,5) iv1 r1(4) by (auto simp: Let_def)
qed

lemma set_status_ok:
  assumes "net_inv st M C G"
  shows "net_inv (set_memb m (\<lambda>mb. mb\<lparr>status := s mb\<rparr>) st) M C G" (is "net_inv ?st' M C G")
    "idle (set_memb m (\<lambda>mb. mb\<lparr>status := s mb\<rparr>) st) G = idle st G"
proof -
  note i = net_invD [OF assms]
  have "same_glob st ?st'" by (rule same_globI) (simp_all add: same_invites_def)
  moreover have "minv ?st' M C"
    by (rule minv_cong [OF i(1)]) (auto simp: link_defs fun_eq_iff IsServer_def IsMe_def)
  ultimately show "net_inv ?st' M C G" unfolding net_inv_def
    using same_glob_ginv [OF _ i(2)] same_glob_einv [of st ?st' G] i by auto
  show "idle ?st' G = idle st G" by (simp add: idle_def)
qed

text \<open>
  \<open>reaches st me a\<close>: the uplinks lead from the server \<open>a\<close> to this server.  The kicker is
  a server or a user, and its server is on such a path.
\<close>

definition reaches :: "net \<Rightarrow> nat \<Rightarrow> nat \<Rightarrow> bool" where
  "reaches st me a \<longleftrightarrow> (\<exists>n. ((\<lambda>s. cli_up (clients st s)) ^^ n) a = me)"

definition routed :: "net \<Rightarrow> nat \<Rightarrow> nat \<Rightarrow> bool" where
  "routed st me s \<longleftrightarrow> (if IsServer st s then reaches st me s
     else case cli_user (clients st s) of None \<Rightarrow> False | Some usr \<Rightarrow> reaches st me (u_server usr))"

lemma up_passes_total: "reaches st me a \<Longrightarrow> \<exists>b. up_passes st me srv a = Some b"
proof -
  have "((\<lambda>s. cli_up (clients st s)) ^^ n) a = me \<Longrightarrow> \<exists>b. up_passes st me srv a = Some b" for n
  proof (induction n arbitrary: a)
    case (Suc n)
    have "((\<lambda>s. cli_up (clients st s)) ^^ n) (cli_up (clients st a)) = me" using Suc.prems unfolding funpow_Suc_right by simp
    from Suc.IH [OF this] obtain b where "up_passes st me srv (cli_up (clients st a)) = Some b" by blast
    then show ?case by (cases "a = me \<or> a = srv") (auto simp: up_passes.simps [of st me srv a])
  next
    case 0
    then have "up_passes st me srv a = Some False" by (simp add: up_passes.simps [of st me srv me])
    then show ?case by blast
  qed
  then show "reaches st me a \<Longrightarrow> \<exists>b. up_passes st me srv a = Some b" by (auto simp: reaches_def)
qed

lemma make_zombie_net:
  assumes inv: "net_inv st M C G" and m: "m \<in> set (M c)" "m_user (memb st m) = u" and r: "routed st me sptr"
    and st1: "st1 = set_memb m (\<lambda>mb. mb\<lparr>status := status mb OR CHFL_ZOMBIE\<rparr>) st"
  shows "\<exists>st' M' C' G'. make_zombie ft now me m u cptr sptr c st = Some st' \<and> net_inv st' M' C' G' \<and> idle st' G' \<subseteq> idle st G \<and> keeps st1 st' \<and>
    (M' = M(c := leave st1 u (M c)) \<or> M' = M \<and> \<not> MyUser st u \<and> (\<exists>k \<in> set (M c). \<not> IsZombie st1 k))"
proof -
  have inv1: "net_inv st1 M C G" "idle st1 G = idle st G" using set_status_ok [OF inv] st1 by simp_all
  note i1 = net_invD [OF inv1(1)]
  have u: "is_person st1 u" using member_is_person [OF i1(1) m(1)] m(2) st1 by simp
  obtain st' C' G' where rm: "remove_user_from_channel ft now u c st1 = Some st'" "net_inv st' (M(c := leave st1 u (M c))) C' G'"
    "idle st' G' \<subseteq> idle st1 G" "keeps st1 st'"
    using remove_user_from_channel_ok [OF inv1(1), of u ft now c] u unfolding is_person_def by blast
  have az: "channel_all_zombies st1 c = Some (\<forall>k \<in> set (M c). IsZombie st1 k)" by (rule channel_all_zombies_ok [OF minvD(1) [OF i1(1)]])
  have c1: "clients st1 = clients st" "IsServer st1 = IsServer st" "MyUser st1 = MyUser st"
    using st1 by (simp_all add: IsServer_def MyUser_def IsUser_def fun_eq_iff)
  obtain usr where usr: "cli_user (clients st1 u) = Some usr" using u by (auto simp: is_person_def)
  obtain b where b: "(if cli_from (clients st1 u) = cptr
      then (case cli_user (clients st1 u) of
          None \<Rightarrow> None
        | Some usr \<Rightarrow>
            if IsServer st1 sptr then up_passes st1 me (u_server usr) sptr
            else (case cli_user (clients st1 sptr) of
                None \<Rightarrow> None
              | Some susr \<Rightarrow> up_passes st1 me (u_server usr) (u_server susr)))
      else Some False) = Some b"
  proof (cases "IsServer st sptr")
    case True
    with r have "reaches st1 me sptr" by (simp add: routed_def reaches_def c1)
    from up_passes_total [OF this, of "u_server usr"] obtain b where b: "up_passes st1 me (u_server usr) sptr = Some b" by blast
    show ?thesis by (rule that [of "cli_from (clients st1 u) = cptr \<and> b"]) (use True b in \<open>simp add: c1(2) usr\<close>)
  next
    case False
    with r obtain susr where s: "cli_user (clients st1 sptr) = Some susr" "reaches st1 me (u_server susr)"
      by (auto simp: routed_def reaches_def c1 split: option.splits)
    from up_passes_total [OF s(2), of "u_server usr"] obtain b where b: "up_passes st1 me (u_server usr) (u_server susr) = Some b" by blast
    show ?thesis by (rule that [of "cli_from (clients st1 u) = cptr \<and> b"]) (use False b s(1) in \<open>simp add: c1(2) usr\<close>)
  qed
  show ?thesis
  proof (cases "MyUser st u \<or> b \<or> (\<forall>k \<in> set (M c). IsZombie st1 k)")
    case True
    then have "make_zombie ft now me m u cptr sptr c st = Some st'"
      unfolding make_zombie_def Let_def st1 [symmetric] c1(3) b az option.case rm(1) by (cases b) auto
    with rm inv1(2) show ?thesis by auto
  next
    case False
    then have "make_zombie ft now me m u cptr sptr c st = Some st1"
      unfolding make_zombie_def Let_def st1 [symmetric] c1(3) b az option.case by (cases b) auto
    with False inv1 show ?thesis by (intro exI [of _ st1] exI [of _ M] exI [of _ C] exI [of _ G]) auto
  qed
qed

lemma marked_zombie:
  "IsZombie (set_memb m (\<lambda>mb. mb\<lparr>status := status mb OR CHFL_ZOMBIE\<rparr>) st) k \<longleftrightarrow> k = m \<or> IsZombie st k"
proof -
  have "(x OR y) AND y = y" for x y :: u32 by (rule bit_eqI) (auto simp: bit_simps)
  then show ?thesis by (simp add: has_status_def) (simp add: CHFL_ZOMBIE_def)
qed

lemma kick_ok:
  assumes ok: "net_ok st" and m: "find_member_link st c u = Some (Some m)" and r: "routed st me sptr"
  shows "\<exists>st'. make_zombie ft now me m u cptr sptr c st = Some st' \<and> net_ok st' \<and>
    (\<forall>v d. d \<noteq> c \<longrightarrow> (on_chan st' v d \<longleftrightarrow> on_chan st v d)) \<and>
    (\<forall>v. v \<noteq> u \<longrightarrow> (on_chan st' v c \<longleftrightarrow> on_chan st v c \<and> (\<exists>w. w \<noteq> u \<and> on_chan st w c \<and> \<not> zombie_on st w c))) \<and>
    (on_chan st' u c \<longrightarrow> zombie_on st' u c \<and> \<not> MyUser st u \<and> (\<exists>w. w \<noteq> u \<and> on_chan st w c \<and> \<not> zombie_on st w c)) \<and>
    (\<forall>v d. (v, d) \<noteq> (u, c) \<longrightarrow> (zombie_on st' v d \<longleftrightarrow> on_chan st' v d \<and> zombie_on st v d)) \<and>
    (\<forall>d. abandoned st' d \<longrightarrow> abandoned st d) \<and> is_person st' = is_person st"
proof -
  obtain M C G where inv: "net_inv st M C G" using ok by (auto simp: net_ok_def)
  note i = net_invD [OF inv]
  define st1 where "st1 = set_memb m (\<lambda>mb. mb\<lparr>status := status mb OR CHFL_ZOMBIE\<rparr>) st"
  have m': "m \<in> set (M c)" "m_user (memb st m) = u" using m find_member_link_iff [OF i(1)] by auto
  obtain st' M' C' G' where z: "make_zombie ft now me m u cptr sptr c st = Some st'" "net_inv st' M' C' G'" "idle st' G' \<subseteq> idle st G" "keeps st1 st'"
    "M' = M(c := leave st1 u (M c)) \<or> M' = M \<and> \<not> MyUser st u \<and> (\<exists>k \<in> set (M c). \<not> IsZombie st1 k)"
    using make_zombie_net [OF inv m' r st1_def] by blast
  note i' = net_invD [OF z(2)]
  have mu: "m_user (memb st1 k) = m_user (memb st k)" and mz: "IsZombie st1 k \<longleftrightarrow> k = m \<or> IsZombie st k" for k
    by (simp_all add: st1_def marked_zombie)
  have us: "m_user (memb st' k) = m_user (memb st k)" for k using keepsD(1) [OF z(4)] mu by simp
  have zo: "IsZombie st' k \<longleftrightarrow> k = m \<or> IsZombie st k" for k using keepsD(2) [OF z(4)] mz by simp
  have one: "k = m" if "k \<in> set (M c)" "m_user (memb st k) = u" for k using minv_one_user [OF i(1) that(1) m'(1)] that(2) m'(2) by simp
  let ?w = "\<exists>w. w \<noteq> u \<and> on_chan st w c \<and> \<not> zombie_on st w c"
  have w: "?w \<longleftrightarrow> (\<exists>k \<in> set (M c). k \<noteq> m \<and> \<not> IsZombie st k)"
  proof
    assume ?w
    then show "\<exists>k \<in> set (M c). k \<noteq> m \<and> \<not> IsZombie st k" unfolding on_chan_iff [OF i(1)] zombie_on_iff [OF i(1)] using m'(2) by auto
  next
    assume "\<exists>k \<in> set (M c). k \<noteq> m \<and> \<not> IsZombie st k"
    then obtain k where k: "k \<in> set (M c)" "k \<noteq> m" "\<not> IsZombie st k" by blast
    then have "k' = k" if "k' \<in> set (M c)" "m_user (memb st k') = m_user (memb st k)" for k' using minv_one_user [OF i(1)] that by blast
    then show ?w unfolding on_chan_iff [OF i(1)] zombie_on_iff [OF i(1)] using k one by blast
  qed
  have lv: "set (leave st1 u (M c)) = (if ?w then {k \<in> set (M c). k \<noteq> m} else {})"
  proof -
    let ?F = "filter (\<lambda>k. m_user (memb st1 k) \<noteq> u) (M c)"
    have F: "set ?F = {k \<in> set (M c). k \<noteq> m}" using one m'(2) mu by auto
    have all: "(\<forall>k \<in> set ?F. IsZombie st1 k) = (\<not> ?w)" unfolding w F using mz by auto
    have ex: "\<exists>k \<in> set (M c). m_user (memb st1 k) = u" using m' mu by auto
    have "leave st1 u (M c) = (if \<not> ?w then [] else ?F)" unfolding leave_def Let_def if_P [OF ex] all ..
    then show ?thesis using F by (cases ?w) (simp_all only: if_True if_False simp_thms list.set)
  qed
  have M'1: "M' d = M d" if "d \<noteq> c" for d using z(5) that by auto
  have M'2: "set (M' c) = (if ?w then {k \<in> set (M c). k \<noteq> m} else {}) \<or> ?w \<and> M' = M \<and> \<not> MyUser st u"
    using z(5)
  proof
    assume "M' = M(c := leave st1 u (M c))"
    then show ?thesis using lv by simp
  next
    assume a: "M' = M \<and> \<not> MyUser st u \<and> (\<exists>k \<in> set (M c). \<not> IsZombie st1 k)"
    then have "?w" unfolding w mz by blast
    with a show ?thesis by blast
  qed
  have M'3: "set (M' d) \<subseteq> set (M d)" for d using M'1 [of d] M'2 by (cases "d = c") (auto split: if_splits)
  note on = on_chan_iff [OF i'(1), unfolded us] on_chan_iff [OF i(1)] and zs = zombie_on_iff [OF i'(1), unfolded us zo] zombie_on_iff [OF i(1)]
  have "on_chan st' v d \<longleftrightarrow> on_chan st v d" if "d \<noteq> c" for v d unfolding on M'1 [OF that] ..
  moreover have "on_chan st' v c \<longleftrightarrow> on_chan st v c \<and> ?w" if "v \<noteq> u" for v
  proof -
    have "k \<noteq> m" if "m_user (memb st k) = v" for k using that \<open>v \<noteq> u\<close> m'(2) by auto
    then show ?thesis using M'2 unfolding on(1) on(2) [of v] by (cases ?w) auto
  qed
  moreover have "zombie_on st' u c \<and> \<not> MyUser st u \<and> ?w" if "on_chan st' u c"
  proof -
    obtain k where k: "k \<in> set (M' c)" "m_user (memb st k) = u" using \<open>on_chan st' u c\<close> on(1) by blast
    then have "k = m" using one M'3 by blast
    then have "?w \<and> \<not> MyUser st u" using M'2 k(1) by (auto split: if_splits)
    then show ?thesis using \<open>k = m\<close> k unfolding zs(1) by blast
  qed
  moreover have "zombie_on st' v d \<longleftrightarrow> on_chan st' v d \<and> zombie_on st v d" if "(v, d) \<noteq> (u, c)" for v d
  proof -
    have "k = k'" if "k \<in> set (M' d)" "k' \<in> set (M d)" "m_user (memb st k) = v" "m_user (memb st k') = v" for k k'
      by (rule minv_one_user [OF i(1) subsetD [OF M'3 that(1)] that(2)]) (simp add: that)
    moreover have "k \<noteq> m" if "k \<in> set (M' d)" "m_user (memb st k) = v" for k
    proof
      assume "k = m"
      then have "m \<in> set (M d)" using that(1) M'3 [of d] by blast
      from minvD(3) [OF i(1) this] minvD(3) [OF i(1) m'(1)] have "d = c" by simp
      with that(2) \<open>k = m\<close> m'(2) \<open>(v, d) \<noteq> (u, c)\<close> show False by simp
    qed
    ultimately show ?thesis unfolding zs on(1) using M'3 [of d] by blast
  qed
  moreover have "abandoned st' d \<longrightarrow> abandoned st d" for d using abandoned_iff [OF inv] abandoned_iff [OF z(2)] z(3) by blast
  moreover have "is_person st' = is_person st" using keepsD(3-5) [OF z(4)] by (simp add: is_person_def IsServer_def IsMe_def fun_eq_iff st1_def)
  ultimately show ?thesis using z(1) net_inv_ok [OF z(2)] by blast
qed

lemma get_channel_events:
  "get_channel now create u name st = Some (r, st') \<Longrightarrow> r \<noteq> Some d \<Longrightarrow> destruct_event (channels st' d) = destruct_event (channels st d)"
  by (auto simp: get_channel_def Let_def split: if_splits option.splits prod.splits)

lemma get_net:
  assumes "net_ok st" "is_cstr name" "name \<noteq> []"
  shows "\<exists>r st'. get_channel now create u name st = Some (r, st') \<and> net_ok st' \<and> (\<forall>v d. on_chan st' v d \<longleftrightarrow> on_chan st v d) \<and>
    (\<forall>v d. zombie_on st' v d \<longleftrightarrow> zombie_on st v d) \<and> is_person st' = is_person st \<and>
    (\<forall>d. abandoned st' d \<longrightarrow> abandoned st d \<or> r = Some d) \<and>
    (case r of None \<Rightarrow> \<not> create | Some c \<Rightarrow> chan_exists st' c \<and>
       known_as c (if MyUser st u \<and> length name > CHANNELLEN then take CHANNELLEN name else name) st')"
proof -
  obtain M C G where inv: "net_inv st M C G" using assms(1) by (auto simp: net_ok_def)
  define n where "n = (if MyUser st u \<and> length name > CHANNELLEN then take CHANNELLEN name else name)"
  obtain r st' G' where g: "get_channel now create u name st = Some (r, st')" "net_inv st' M C G'" "keeps st st'"
    "case r of None \<Rightarrow> \<not> create \<and> G' = G \<and> (\<forall>c \<in> set G. \<not> known_as c n st)
     | Some c \<Rightarrow> known_as c n st' \<and> (c \<in> set G \<and> G' = G \<or> create \<and> G' = c # G \<and> c \<notin> set G \<and> (\<forall>d \<in> set G. \<not> known_as d n st))"
    using get_channel_ok [OF inv assms(2,3) n_def, of now create] by blast
  have sub: "d \<in> set G" if "d \<in> set G'" "r \<noteq> Some d" for d using g(4) that by (auto split: option.splits)
  have "abandoned st d" if "abandoned st' d" "r \<noteq> Some d" for d
    using that sub get_channel_events [OF g(1) that(2)] zombie_keeps(1) [OF inv g(2,3)] chan_exists_iff [OF inv] chan_exists_iff [OF g(2)]
    by (auto simp: abandoned_def)
  moreover have "case r of None \<Rightarrow> \<not> create | Some c \<Rightarrow> chan_exists st' c \<and> known_as c n st'"
    using g(4) chan_exists_iff [OF g(2)] by (auto split: option.splits)
  moreover have "is_person st' = is_person st" using keeps_person [OF g(3)] by blast
  ultimately show ?thesis using g(1) net_inv_ok [OF g(2)] zombie_keeps [OF inv g(2,3)] unfolding n_def by blast
qed

lemma zombie_sub:
  assumes "net_inv st M C G" "net_inv st' M' C' G'" "keeps st st'" "\<And>d. set (M' d) \<subseteq> set (M d)"
  shows "zombie_on st' v d \<longleftrightarrow> on_chan st' v d \<and> zombie_on st v d"
proof -
  note i = net_invD(1) [OF assms(1)] and i' = net_invD(1) [OF assms(2)]
  have one: "k = k'" if "k \<in> set (M' d)" "k' \<in> set (M d)" "m_user (memb st k) = m_user (memb st k')" for k k'
    by (rule minv_one_user [OF i subsetD [OF assms(4) that(1)] that(2,3)])
  show ?thesis unfolding zombie_on_iff [OF i'] zombie_on_iff [OF i] on_chan_iff [OF i'] keepsD(1,2) [OF assms(3)]
  proof (intro iffI conjI; (elim conjE)?)
    assume "\<exists>k \<in> set (M' d). m_user (memb st k) = v" "\<exists>k \<in> set (M d). m_user (memb st k) = v \<and> IsZombie st k"
    then obtain k k' where k: "k \<in> set (M' d)" "m_user (memb st k) = v" "k' \<in> set (M d)" "m_user (memb st k') = v" "IsZombie st k'" by auto
    with one [of k k'] show "\<exists>k \<in> set (M' d). m_user (memb st k) = v \<and> IsZombie st k" by auto
  qed (use assms(4) [of d] in auto)
qed

lemma leave_alive:
  assumes "alive st" "\<And>v d. on_chan st' v d \<longleftrightarrow> (if P d then stays st u v d else on_chan st v d)"
    "\<And>v d. zombie_on st' v d \<longleftrightarrow> on_chan st' v d \<and> zombie_on st v d"
  shows "alive st'"
  unfolding alive_def
proof (intro allI impI)
  fix c v assume v: "on_chan st' v c"
  have "\<exists>w. on_chan st' w c \<and> \<not> zombie_on st w c"
  proof (cases "P c \<and> on_chan st u c")
    case True
    with v assms(2) show ?thesis by (auto simp: stays_def)
  next
    case False
    then have "on_chan st' w c \<longleftrightarrow> on_chan st w c" for w using assms(2) by (auto simp: stays_def)
    with v assms(1) show ?thesis unfolding alive_def by blast
  qed
  then show "\<exists>w. on_chan st' w c \<and> \<not> zombie_on st' w c" using assms(3) by blast
qed

text \<open>What every operation keeps.\<close>

definition healthy :: "net \<Rightarrow> bool" where
  "healthy st \<longleftrightarrow> net_ok st \<and> alive st \<and> (\<forall>c. \<not> abandoned st c)"

lemma healthyD: "healthy st \<Longrightarrow> net_ok st" "healthy st \<Longrightarrow> alive st" "healthy st \<Longrightarrow> \<not> abandoned st c"
  by (auto simp: healthy_def)

lemma join_healthy:
  assumes h: "healthy st" and u: "is_person st u" and n: "is_cstr name" "name \<noteq> []" and g: "get_channel now True u name st = Some (Some c, st1)"
    and new: "\<not> on_chan st1 u c" and f: "flags AND CHFL_ZOMBIE = 0" and a: "add_user_to_channel c u flags opl st1 = Some st'"
  shows "healthy st'"
proof -
  obtain r s where "get_channel now True u name st = Some (r, s)" "net_ok s" "\<forall>v d. on_chan s v d \<longleftrightarrow> on_chan st v d"
    "\<forall>v d. zombie_on s v d \<longleftrightarrow> zombie_on st v d" "is_person s = is_person st" "\<forall>d. abandoned s d \<longrightarrow> abandoned st d \<or> r = Some d"
    "case r of None \<Rightarrow> \<not> True | Some c \<Rightarrow> chan_exists s c \<and>
       known_as c (if MyUser st u \<and> length name > CHANNELLEN then take CHANNELLEN name else name) s"
    using get_net [OF healthyD(1) [OF h] n, of now True u] by blast
  with g have g1: "net_ok st1" "\<And>v d. on_chan st1 v d \<longleftrightarrow> on_chan st v d" "\<And>v d. zombie_on st1 v d \<longleftrightarrow> zombie_on st v d"
    "is_person st1 u" "\<And>d. abandoned st1 d \<Longrightarrow> d = c" "chan_exists st1 c"
    using u healthyD(3) [OF h] by auto
  obtain s' where "add_user_to_channel c u flags opl st1 = Some s'" "net_ok s'" "\<forall>v d. on_chan s' v d \<longleftrightarrow> on_chan st1 v d \<or> v = u \<and> d = c"
    "\<forall>v d. zombie_on s' v d \<longleftrightarrow> (if v = u \<and> d = c then flags AND CHFL_ZOMBIE \<noteq> 0 else zombie_on st1 v d)"
    "\<forall>d. abandoned s' d \<longrightarrow> abandoned st1 d \<and> d \<noteq> c"
    using join_net [OF g1(1,4,6) new, of flags opl] by blast
  with a have a1: "net_ok st'" "\<And>v d. on_chan st' v d \<longleftrightarrow> on_chan st1 v d \<or> v = u \<and> d = c"
    "\<And>v d. zombie_on st' v d \<longleftrightarrow> \<not> (v = u \<and> d = c) \<and> zombie_on st1 v d" "\<And>d. \<not> abandoned st' d"
    using f g1(5) by auto
  have "alive st'" unfolding alive_def
  proof (intro allI impI)
    fix d v assume "on_chan st' v d"
    show "\<exists>w. on_chan st' w d \<and> \<not> zombie_on st' w d"
    proof (cases "d = c")
      case True
      have "on_chan st' u c" "\<not> zombie_on st' u c" using a1(2) [of u c] a1(3) [of u c] by simp_all
      with True show ?thesis by blast
    next
      case False
      then have "on_chan st v d" using \<open>on_chan st' v d\<close> a1(2) g1(2) by blast
      then obtain w where "on_chan st w d" "\<not> zombie_on st w d" using healthyD(2) [OF h] unfolding alive_def by blast
      then show ?thesis using a1(2) [of w d] a1(3) [of w d] g1(2) [of w d] g1(3) [of w d] by blast
    qed
  qed
  with a1 show ?thesis by (simp add: healthy_def)
qed

lemma part_healthy:
  assumes h: "healthy st" and u: "is_person st u" and r: "remove_user_from_channel ft now u c st = Some st'"
  shows "healthy st'"
proof -
  obtain M C G where inv: "net_inv st M C G" using healthyD(1) [OF h] by (auto simp: net_ok_def)
  obtain C' G' where s: "net_inv st' (M(c := leave st u (M c))) C' G'" "idle st' G' \<subseteq> idle st G" "keeps st st'"
    using remove_user_from_channel_ok [OF inv, of u ft now c] u r unfolding is_person_def by auto
  note o = leave_outcome [OF inv s(1,3,2), of "\<lambda>d. d = c" u]
  have z: "zombie_on st' v d \<longleftrightarrow> on_chan st' v d \<and> zombie_on st v d" for v d
    by (rule zombie_sub [OF inv s(1,3)]) (use leave_subset in auto)
  have "alive st'" by (rule leave_alive [OF healthyD(2) [OF h] o(2) z]) simp
  moreover have "net_ok st'" by (rule o(1)) simp
  moreover have "abandoned st' d \<longrightarrow> abandoned st d" for d by (rule o(3)) simp
  ultimately show ?thesis using healthyD(3) [OF h] by (simp add: healthy_def)
qed

lemma quit_healthy:
  assumes h: "healthy st" and u: "is_person st u" and r: "remove_user_from_all_channels ft now u st = Some st'"
  shows "healthy st'"
proof -
  obtain M C G where inv: "net_inv st M C G" using healthyD(1) [OF h] by (auto simp: net_ok_def)
  obtain C' G' where s: "net_inv st' (\<lambda>c. leave st u (M c)) C' G'" "idle st' G' \<subseteq> idle st G" "keeps st st'"
    using remove_user_from_all_ok [OF inv, of u ft now] u r unfolding is_person_def by auto
  note o = leave_outcome [OF inv s(1,3,2), of "\<lambda>_. True" u]
  have z: "zombie_on st' v d \<longleftrightarrow> on_chan st' v d \<and> zombie_on st v d" for v d
    by (rule zombie_sub [OF inv s(1,3)]) (rule leave_subset)
  have "alive st'" by (rule leave_alive [OF healthyD(2) [OF h] o(2) z]) simp
  moreover have "net_ok st'" by (rule o(1)) simp
  moreover have "abandoned st' d \<longrightarrow> abandoned st d" for d by (rule o(3)) simp
  ultimately show ?thesis using healthyD(3) [OF h] by (simp add: healthy_def)
qed

lemma kick_healthy:
  assumes h: "healthy st" and m: "find_member_link st c u = Some (Some m)" and r: "routed st me sptr"
    and k: "make_zombie ft now me m u cptr sptr c st = Some st'"
  shows "healthy st'"
proof -
  obtain s where "make_zombie ft now me m u cptr sptr c st = Some s" "net_ok s" and
    1: "\<And>v d. d \<noteq> c \<Longrightarrow> (on_chan s v d \<longleftrightarrow> on_chan st v d)" and
    2: "\<And>v. v \<noteq> u \<Longrightarrow> (on_chan s v c \<longleftrightarrow> on_chan st v c \<and> (\<exists>w. w \<noteq> u \<and> on_chan st w c \<and> \<not> zombie_on st w c))" and
    3: "on_chan s u c \<longrightarrow> zombie_on s u c \<and> \<not> MyUser st u \<and> (\<exists>w. w \<noteq> u \<and> on_chan st w c \<and> \<not> zombie_on st w c)" and
    4: "\<And>v d. (v, d) \<noteq> (u, c) \<Longrightarrow> (zombie_on s v d \<longleftrightarrow> on_chan s v d \<and> zombie_on st v d)" and
    5: "\<And>d. abandoned s d \<longrightarrow> abandoned st d"
    using kick_ok [OF healthyD(1) [OF h] m r, of ft now cptr] by blast
  have "alive s" unfolding alive_def
  proof (intro allI impI)
    fix d v assume v: "on_chan s v d"
    show "\<exists>w. on_chan s w d \<and> \<not> zombie_on s w d"
    proof (cases "d = c")
      case True
      then obtain w where "w \<noteq> u" "on_chan st w c" "\<not> zombie_on st w c" using v 2 3 by (cases "v = u") blast+
      then show ?thesis using 2 [of w] 4 [of w c] True by blast
    next
      case False
      then obtain w where "on_chan st w d" "\<not> zombie_on st w d" using v 1 healthyD(2) [OF h] unfolding alive_def by blast
      then show ?thesis using False 1 4 by blast
    qed
  qed
  moreover have "s = st'" using k \<open>make_zombie ft now me m u cptr sptr c st = Some s\<close> by simp
  ultimately show ?thesis using \<open>net_ok s\<close> 5 healthyD(3) [OF h] by (simp add: healthy_def)
qed

lemma keeps_healthy:
  assumes h: "healthy st" and inv: "net_inv st M C G" "net_inv st' M C G'" "keeps st st'" "idle st' G' \<subseteq> idle st G"
  shows "healthy st'"
proof -
  have "alive st'" using healthyD(2) [OF h] zombie_keeps [OF inv(1-3)] unfolding alive_def by simp
  moreover have "\<not> abandoned st' d" for d
    using healthyD(3) [OF h] abandoned_iff [OF inv(1)] abandoned_iff [OF inv(2)] inv(4) by blast
  ultimately show ?thesis using net_inv_ok [OF inv(2)] by (simp add: healthy_def)
qed

lemma uninvite_healthy:
  assumes h: "healthy st" and u: "is_person st u" and d: "del_invite u c st = Some st'"
  shows "healthy st'"
proof -
  obtain M C G where inv: "net_inv st M C G" using healthyD(1) [OF h] by (auto simp: net_ok_def)
  from del_invite_ok [OF inv, of u c] u d have "net_inv st' M C G" "keeps st st'" "idle st' G = idle st G" by (auto simp: is_person_def)
  from keeps_healthy [OF h inv this(1,2)] this(3) show ?thesis by blast
qed

lemma invite_healthy:
  assumes h: "healthy st" and u: "is_person st u" "chan_exists st c" "0 < feat_maxchannels ft" and a: "add_invite ft u c st = Some st'"
  shows "healthy st'"
proof -
  obtain M C G where inv: "net_inv st M C G" using healthyD(1) [OF h] by (auto simp: net_ok_def)
  from add_invite_ok [OF inv, of u c ft] u a chan_exists_iff [OF inv, of c] have "net_inv st' M C G" "keeps st st'" "idle st' G = idle st G"
    by (auto simp: is_person_def)
  from keeps_healthy [OF h inv this(1,2)] this(3) show ?thesis by blast
qed

lemma expire_healthy:
  assumes h: "healthy st" and e: "exec_expired_destruct_events now st = Some st'"
  shows "healthy st'"
proof -
  obtain M C G where inv: "net_inv st M C G" using healthyD(1) [OF h] by (auto simp: net_ok_def)
  from exec_expired_destruct_events_ok [OF inv, of now] e obtain G' where r: "net_inv st' M C G'" "set G' \<subseteq> set G" "same_matrix st st'"
    "\<And>d. d \<in> set G' \<Longrightarrow> destruct_event (channels st' d) = destruct_event (channels st d)" by auto
  have "idle st' G' \<subseteq> idle st G" using r(2,4) same_matrixD(4) [OF r(3)] by (auto simp: idle_def)
  moreover have "keeps st st'" using same_matrixD(1,6,7) [OF r(3)] same_matrix_None [OF r(3)] by (simp add: keeps_def)
  ultimately show ?thesis using keeps_healthy [OF h inv r(1)] by blast
qed

lemma revealed_zombie:
  "IsZombie (set_memb m (\<lambda>mb. mb\<lparr>status := status mb AND NOT CHFL_DELAYED\<rparr>) st) k \<longleftrightarrow> IsZombie st k"
proof -
  have "(x AND NOT CHFL_DELAYED) AND CHFL_ZOMBIE = x AND CHFL_ZOMBIE" for x :: u32
  proof -
    have "NOT CHFL_DELAYED AND CHFL_ZOMBIE = CHFL_ZOMBIE" by (simp add: CHFL_DELAYED_def CHFL_ZOMBIE_def)
    then show ?thesis by (simp add: and.assoc)
  qed
  then show ?thesis by (simp add: has_status_def)
qed

lemma RevealDelayedJoinIfNeeded_ok:
  assumes inv: "net_inv st M C G" and u: "is_person st u"
  shows "\<exists>st'. RevealDelayedJoinIfNeeded u c st = Some st' \<and> net_inv st' M C G \<and> idle st' G = idle st G \<and>
    (\<forall>k. m_user (memb st' k) = m_user (memb st k)) \<and> (\<forall>k. IsZombie st' k = IsZombie st k)"
proof -
  note i = net_invD [OF inv]
  have f: "find_member_link st c u = Some (membership_of st M c u)"
    using find_member_link_ok [OF i(1), of u c] u by (simp add: is_person_def)
  show ?thesis
  proof (cases "\<exists>m. membership_of st M c u = Some m \<and> IsDelayedJoin st m")
    case False
    then have "RevealDelayedJoinIfNeeded u c st = Some st" by (auto simp: RevealDelayedJoinIfNeeded_def f split: option.splits)
    with inv show ?thesis by blast
  next
    case True
    then obtain m where m: "membership_of st M c u = Some m" "IsDelayedJoin st m" by blast
    define st1 where "st1 = set_memb m (\<lambda>mb. mb\<lparr>status := status mb AND NOT CHFL_DELAYED\<rparr>) st"
    have i1: "net_inv st1 M C G" "idle st1 G = idle st G" using set_status_ok [OF inv] st1_def by simp_all
    have mc: "m_channel (memb st m) = c" using m(1) membership_of_iff [OF i(1)] minvD(3) [OF i(1)] by auto
    from CheckDelayedJoins_ok [OF minvD(1) [OF net_invD(1) [OF i1(1)]], of c] obtain st' where
      s: "CheckDelayedJoins c st1 = Some st'" "same_matrix st1 st'" "same_glob st1 st'" by blast
    note n = same_net [OF i1(1) s(2,3)]
    have "RevealDelayedJoinIfNeeded u c st = Some st'"
      using m mc s(1) by (simp add: RevealDelayedJoinIfNeeded_def f RevealDelayedJoin_def st1_def)
    moreover have "m_user (memb st' k) = m_user (memb st k)" "IsZombie st' k = IsZombie st k" for k
      using keepsD(1,2) [OF n(2)] revealed_zombie by (simp_all add: st1_def)
    ultimately show ?thesis using n(1,3) i1(2) by auto
  qed
qed

lemma reveal_healthy:
  assumes h: "healthy st" and u: "is_person st u" and r: "RevealDelayedJoinIfNeeded u c st = Some st'"
  shows "healthy st'"
proof -
  obtain M C G where inv: "net_inv st M C G" using healthyD(1) [OF h] by (auto simp: net_ok_def)
  from RevealDelayedJoinIfNeeded_ok [OF inv u, of c] r have s: "net_inv st' M C G" "idle st' G = idle st G"
    "\<And>k. m_user (memb st' k) = m_user (memb st k)" "\<And>k. IsZombie st' k = IsZombie st k" by auto
  have "on_chan st' v d = on_chan st v d" "zombie_on st' v d = zombie_on st v d" for v d
    using on_chan_iff [OF net_invD(1) [OF inv]] on_chan_iff [OF net_invD(1) [OF s(1)]]
      zombie_on_iff [OF net_invD(1) [OF inv]] zombie_on_iff [OF net_invD(1) [OF s(1)]] s(3,4) by simp_all
  then have "alive st'" using healthyD(2) [OF h] unfolding alive_def by simp
  moreover have "\<not> abandoned st' d" for d using healthyD(3) [OF h] abandoned_iff [OF inv] abandoned_iff [OF s(1)] s(2) by blast
  ultimately show ?thesis using net_inv_ok [OF s(1)] by (simp add: healthy_def)
qed

section \<open>Histories\<close>

text \<open>
  The steps of a network: a user joins a channel, which is created if it does not exist, leaves one,
  leaves all (the end of a connection), is kicked, is invited, loses an invitation, is revealed, or
  the timer destroys the channels whose time has come.  The users on the network are fixed.
\<close>

inductive net_step :: "chan_features \<Rightarrow> nat \<Rightarrow> net \<Rightarrow> net \<Rightarrow> bool" for ft me where
  join: "is_person st u \<Longrightarrow> is_cstr name \<Longrightarrow> name \<noteq> [] \<Longrightarrow> get_channel now True u name st = Some (Some c, st1) \<Longrightarrow>
    \<not> on_chan st1 u c \<Longrightarrow> flags AND CHFL_ZOMBIE = 0 \<Longrightarrow> add_user_to_channel c u flags opl st1 = Some st' \<Longrightarrow> net_step ft me st st'"
| part: "is_person st u \<Longrightarrow> remove_user_from_channel ft now u c st = Some st' \<Longrightarrow> net_step ft me st st'"
| quit: "is_person st u \<Longrightarrow> remove_user_from_all_channels ft now u st = Some st' \<Longrightarrow> net_step ft me st st'"
| kick: "find_member_link st c u = Some (Some m) \<Longrightarrow> routed st me sptr \<Longrightarrow> make_zombie ft now me m u cptr sptr c st = Some st' \<Longrightarrow>
    net_step ft me st st'"
| invite: "is_person st u \<Longrightarrow> chan_exists st c \<Longrightarrow> 0 < feat_maxchannels ft \<Longrightarrow> add_invite ft u c st = Some st' \<Longrightarrow> net_step ft me st st'"
| uninvite: "is_person st u \<Longrightarrow> del_invite u c st = Some st' \<Longrightarrow> net_step ft me st st'"
| reveal: "is_person st u \<Longrightarrow> RevealDelayedJoinIfNeeded u c st = Some st' \<Longrightarrow> net_step ft me st st'"
| expire: "exec_expired_destruct_events now st = Some st' \<Longrightarrow> net_step ft me st st'"

lemma net_step_healthy: "net_step ft me st st' \<Longrightarrow> healthy st \<Longrightarrow> healthy st'"
  by (induction rule: net_step.induct)
    (blast intro: join_healthy part_healthy quit_healthy kick_healthy invite_healthy uninvite_healthy reveal_healthy expire_healthy)+

lemma net_steps_healthy: "rtranclp (net_step ft me) st st' \<Longrightarrow> healthy st \<Longrightarrow> healthy st'"
  by (induction rule: rtranclp_induct) (blast intro: net_step_healthy)+

lemma no_channels_healthy:
  assumes "net_ok st" "\<And>c. \<not> chan_exists st c"
  shows "healthy st"
proof -
  obtain M C G where inv: "net_inv st M C G" using assms(1) by (auto simp: net_ok_def)
  have "\<not> on_chan st v c" for v c
    using assms(2) chan_exists_iff [OF inv] net_invD(4) [OF inv] on_chan_iff [OF net_invD(1) [OF inv]] by force
  then show ?thesis using assms by (auto simp: healthy_def alive_def abandoned_def)
qed

section \<open>Example histories\<close>

definition features1 :: chan_features where
  "features1 = \<lparr>feat_oplevels = False, feat_maxchannels = 20\<rparr>"

lemma net0_ok: "net_ok net0" "\<not> chan_exists net0 c"
  using net_inv_ok [OF net0_inv] chan_exists_iff [OF net0_inv] by simp_all

lemma net1_get: "get_channel 1000 True 1 ''#irc'' net0 = Some (Some chan1, net1)"
proof -
  obtain r st' G' where g: "get_channel 1000 True 1 ''#irc'' net0 = Some (r, st')"
    "case r of None \<Rightarrow> False | Some c \<Rightarrow> G' = [c]"
    using get_channel_ok [OF net0_inv _ _ refl, of "''#irc''" 1000 True 1] by (auto split: option.splits)
  then show ?thesis by (auto simp: net1_def chan1_def split: option.splits)
qed

lemma net2_join: "add_user_to_channel chan1 1 CHFL_CHANOP 0 net1 = Some net2"
  using join_net [OF net1_ok(1,2,3) net1_ok(4), of 1 CHFL_CHANOP 0] by (auto simp: net2_def)

lemma net2_step: "net_step ft me net0 net2"
  by (rule net_step.join [OF net0_person _ _ net1_get _ _ net2_join]) (simp_all add: net1_ok CHFL_CHANOP_def CHFL_ZOMBIE_def)

section \<open>Properties\<close>

text \<open>
  C1.  Whatever sequence of joins, parts, quits, kicks, invitations, revelations and timer runs follows an empty
  channel list, the memberships, the channel list and the destruction events stay consistent
  (\<open>net_ok\<close>), no channel is left with zombies only (\<open>alive\<close>), no channel without members lacks a
  scheduled destruction, and every invitation is to a channel that exists and lists the user.
\<close>

theorem channel_history:
  assumes "rtranclp (net_step ft me) st st'" "net_ok st" "\<forall>c. \<not> chan_exists st c"
  shows "net_ok st' \<and> alive st' \<and> (\<forall>c. \<not> abandoned st' c) \<and>
    (\<forall>u c. IsInvited st' u c \<longrightarrow> chan_exists st' c \<and> u \<in> set (invites (channels st' c)))"
proof -
  have "healthy st" by (rule no_channels_healthy) (use assms(2,3) in blast)+
  then have h: "healthy st'" using net_steps_healthy [OF assms(1)] by blast
  show ?thesis using healthyD [OF h] invited_exists [OF healthyD(1) [OF h]] by blast
qed

theorem channel_history_witness:
  "net_ok net2 \<and> alive net2 \<and> on_chan net2 1 chan1 \<and> \<not> abandoned net2 chan1"
  using channel_history [OF r_into_rtranclp [of "net_step features1 0", OF net2_step] net0_ok(1)] net0_ok(2) net2_ok(3) by simp

text \<open>
  C21.  A user who joins an existing channel is on it with the given status, nobody else's
  memberships change, and the destruction of the channel is called off.
\<close>

theorem channel_join:
  assumes "net_ok st" "is_person st u" "chan_exists st c" "\<not> on_chan st u c"
  shows "\<exists>st'. add_user_to_channel c u flags opl st = Some st' \<and> net_ok st' \<and>
    (\<forall>v d. on_chan st' v d \<longleftrightarrow> on_chan st v d \<or> v = u \<and> d = c) \<and>
    (\<forall>v d. zombie_on st' v d \<longleftrightarrow> (if v = u \<and> d = c then flags AND CHFL_ZOMBIE \<noteq> 0 else zombie_on st v d)) \<and>
    destruct_event (channels st' c) = None"
  using join_net [OF assms] by blast

theorem channel_join_witness: "\<exists>st'. add_user_to_channel chan1 2 0 0 net2 = Some st' \<and> on_chan st' 2 chan1 \<and> on_chan st' 1 chan1"
proof -
  have "chan_exists net2 chan1"
    using net2_ok(1,3) chan_exists_iff net_invD(4) on_chan_iff net_invD(1) unfolding net_ok_def by (metis empty_iff empty_set)
  with channel_join [OF net2_ok(1,2), of chan1 2 0 0] net2_ok(3) show ?thesis by auto
qed

text \<open>
  C12.  \<open>remove_user_from_channel\<close> ends: the user is off the channel, the others stay unless only zombies
  would be left, in which case all of them go; no other channel changes and no channel is abandoned.
\<close>

theorem channel_leave:
  assumes "net_ok st" "is_person st u"
  shows "\<exists>st'. remove_user_from_channel ft now u c st = Some st' \<and> net_ok st' \<and>
    (\<forall>v d. on_chan st' v d \<longleftrightarrow> (if d = c then stays st u v c else on_chan st v d)) \<and>
    (\<forall>d. abandoned st' d \<longrightarrow> abandoned st d)"
  by (rule leave_ok [OF assms])

theorem channel_leave_witness: "\<exists>st'. remove_user_from_channel features1 2000 1 chan1 net2 = Some st' \<and> (\<forall>v d. \<not> on_chan st' v d)"
  using channel_leave [OF net2_ok(1,2), of features1 2000 1 chan1] net2_ok(3) by (auto simp: stays_def)

text \<open>
  C13.  \<open>remove_user_from_all_channels\<close> ends and leaves the user on no channel; the others keep theirs
  unless only zombies would be left there.
\<close>

theorem channel_quit:
  assumes "net_ok st" "is_person st u"
  shows "\<exists>st'. remove_user_from_all_channels ft now u st = Some st' \<and> net_ok st' \<and>
    (\<forall>v c. on_chan st' v c \<longleftrightarrow> stays st u v c) \<and> (\<forall>c. \<not> on_chan st' u c) \<and> (\<forall>d. abandoned st' d \<longrightarrow> abandoned st d)"
  by (rule leave_all_ok [OF assms])

theorem channel_quit_witness: "\<exists>st'. remove_user_from_all_channels features1 2000 1 net2 = Some st' \<and> (\<forall>c. \<not> on_chan st' 1 c)"
  using channel_quit [OF net2_ok(1,2), of features1 2000 1] by blast

text \<open>
  C11.  A kicked user is off the channel or a zombie on it, and off it when local; the others keep their
  membership and their status, unless the channel had no other member but zombies, which then ends.
\<close>

theorem channel_kick:
  assumes "net_ok st" "find_member_link st c u = Some (Some m)" "routed st me sptr"
  shows "\<exists>st'. make_zombie ft now me m u cptr sptr c st = Some st' \<and> net_ok st' \<and>
    (on_chan st' u c \<longrightarrow> zombie_on st' u c \<and> \<not> MyUser st u) \<and>
    (\<forall>v. v \<noteq> u \<longrightarrow> (on_chan st' v c \<longleftrightarrow> on_chan st v c \<and> (\<exists>w. w \<noteq> u \<and> on_chan st w c \<and> \<not> zombie_on st w c))) \<and>
    (\<forall>v d. d \<noteq> c \<longrightarrow> (on_chan st' v d \<longleftrightarrow> on_chan st v d)) \<and>
    (\<forall>v d. (v, d) \<noteq> (u, c) \<longrightarrow> (zombie_on st' v d \<longleftrightarrow> on_chan st' v d \<and> zombie_on st v d))"
  using kick_ok [OF assms, of ft now cptr] by blast

theorem channel_kick_witness: "\<exists>me m st'. make_zombie features1 2000 me m 1 7 1 chan1 net2 = Some st' \<and> (\<forall>v. v \<noteq> 1 \<longrightarrow> \<not> on_chan st' v chan1)"
proof -
  obtain m where m: "find_member_link net2 chan1 1 = Some (Some m)" using net2_ok(3) [of 1 chan1] by (auto simp: on_chan_def)
  obtain usr where usr: "cli_user (clients net2 1) = Some usr" "\<not> IsServer net2 1" using net2_ok(2) [of 1] by (auto simp: is_person_def)
  have r: "routed net2 (u_server usr) 1" using usr by (auto simp: routed_def reaches_def intro: exI [of _ 0])
  obtain st' where "make_zombie features1 2000 (u_server usr) m 1 7 1 chan1 net2 = Some st'"
    "\<forall>v. v \<noteq> 1 \<longrightarrow> (on_chan st' v chan1 \<longleftrightarrow> on_chan net2 v chan1 \<and> (\<exists>w. w \<noteq> 1 \<and> on_chan net2 w chan1 \<and> \<not> zombie_on net2 w chan1))"
    using channel_kick [OF net2_ok(1) m r, of features1 2000 7] by blast
  then show ?thesis using net2_ok(3) by auto
qed



text \<open>
  C23.  The timer run ends: it destroys no channel that has a member, and only channels whose destruction is due by now.
  When the destruction events stand in the order of their times (\<open>in_order\<close>: events are appended, so this holds as long as
  the clock does not go back) it destroys every channel whose destruction is due.
\<close>

theorem channel_expiry:
  assumes "net_ok st"
  shows "\<exists>st'. exec_expired_destruct_events now st = Some st' \<and> net_ok st' \<and> (\<forall>v c. on_chan st' v c \<longleftrightarrow> on_chan st v c) \<and>
    (\<forall>v c. on_chan st v c \<longrightarrow> chan_exists st' c) \<and>
    (\<forall>c. chan_exists st' c \<longrightarrow> chan_exists st c \<and> destruct_event (channels st' c) = destruct_event (channels st c)) \<and>
    (\<forall>c. chan_exists st c \<longrightarrow> \<not> chan_exists st' c \<longrightarrow> (\<exists>e. destruct_event (channels st c) = Some e \<and> expires e \<le> now)) \<and>
    (in_order st \<longrightarrow> (\<forall>c e. chan_exists st c \<longrightarrow> destruct_event (channels st c) = Some e \<longrightarrow> (chan_exists st' c \<longleftrightarrow> now < expires e)))"
  by (rule expired_ok [OF assms])

theorem channel_expiry_witness:
  "chan_exists net3 chan1 \<and> (\<exists>st'. exec_expired_destruct_events 1059 net3 = Some st' \<and> chan_exists st' chan1) \<and>
   (\<exists>st'. exec_expired_destruct_events 1060 net3 = Some st' \<and> \<not> chan_exists st' chan1) \<and>
   (\<exists>st'. exec_expired_destruct_events 5000 net2 = Some st' \<and> on_chan st' 1 chan1 \<and> chan_exists st' chan1)"
proof (intro conjI)
  obtain e where e: "destruct_event (channels net3 chan1) = Some e" "expires e = 1060" using net3_ok(4) by blast
  from channel_expiry [OF net3_ok(1), of 1059] net3_ok(2,3) e show "\<exists>st'. exec_expired_destruct_events 1059 net3 = Some st' \<and> chan_exists st' chan1" by auto
  from channel_expiry [OF net3_ok(1), of 1060] net3_ok(2,3) e show "\<exists>st'. exec_expired_destruct_events 1060 net3 = Some st' \<and> \<not> chan_exists st' chan1" by auto
  show "\<exists>st'. exec_expired_destruct_events 5000 net2 = Some st' \<and> on_chan st' 1 chan1 \<and> chan_exists st' chan1"
    using channel_expiry [OF net2_ok(1), of 5000] net2_ok(3) by auto
qed (rule net3_ok(2))

text \<open>
  The search for a membership along the members of the channel (for channel services) and along the
  channels of the user (for others) give the same answer, and both end.
\<close>

lemma member_search_agrees:
  assumes "net_ok st" "is_person st u"
  shows "\<exists>r. \<forall>fl. find_member_link (st\<lparr>clients := (clients st)(u := (clients st u)\<lparr>cli_flags := fl\<rparr>)\<rparr>) c u = Some r"
  by (rule member_search_ok [OF assms])

end
