(* ===== verification/ChannelSpeak.thy ===== *)
theory ChannelSpeak
  imports BanLists ChannelSteps
begin

text \<open>
  Who may speak on a channel: the answers of \<open>member_can_send_to_channel\<close> and
  \<open>client_can_send_to_channel\<close> on a network whose lists are well formed, against the rule
  \<open>may_speak\<close>, and the ban cache that \<open>is_banned\<close> keeps in a membership and
  \<open>mode_ban_invalidate\<close> drops.
\<close>

section \<open>Who may speak\<close>

definition bans_wf :: "net \<Rightarrow> nat \<Rightarrow> bool" where
  "bans_wf st c \<longleftrightarrow> (\<forall>b \<in> set (banlist (channels st c)). ban_wf b)"

definition banned :: "string \<Rightarrow> net \<Rightarrow> nat \<Rightarrow> nat \<Rightarrow> bool" where
  "banned hh st u c = (case cli_user (clients st u) of
     None \<Rightarrow> False
   | Some usr \<Rightarrow> banned_by (names_of hh st u usr) (banlist (channels st c)))"

definition cache_ok :: "string \<Rightarrow> net \<Rightarrow> nat \<Rightarrow> bool" where
  "cache_ok hh st m \<longleftrightarrow> (has_status st m CHFL_BANVALID \<longrightarrow>
     (has_status st m CHFL_BANNED \<longleftrightarrow> banned hh st (m_user (memb st m)) (m_channel (memb st m))))"

lemma names_of_cong: "hashes st' = hashes st \<Longrightarrow> clients st' = clients st \<Longrightarrow> names_of hh st' u usr = names_of hh st u usr"
  by (simp add: names_of_def IsAccount_def HasFlag_def)

lemma flag_facts:
  "(x OR CHFL_BANVALID) AND CHFL_BANVALID \<noteq> (0 :: u32)" "(x OR CHFL_BANNED) AND CHFL_BANNED \<noteq> (0 :: u32)"
  "(x AND NOT CHFL_BANNED) AND CHFL_BANNED = (0 :: u32)"
proof -
  have 1: "(x OR y) AND y = y" "(x AND NOT y) AND y = 0" for x y :: u32 by (auto intro!: bit_eqI simp: bit_simps)
  show "(x OR CHFL_BANVALID) AND CHFL_BANVALID \<noteq> (0 :: u32)" "(x OR CHFL_BANNED) AND CHFL_BANNED \<noteq> (0 :: u32)"
    unfolding 1(1) by (simp_all add: CHFL_BANVALID_def CHFL_BANNED_def)
  show "(x AND NOT CHFL_BANNED) AND CHFL_BANNED = (0 :: u32)" by (rule 1(2))
qed

lemma set_same_banlist: "banlist (channels st c) = bl \<Longrightarrow> set_chan c (\<lambda>ch. ch\<lparr>banlist := bl\<rparr>) st = st"
proof -
  assume "banlist (channels st c) = bl"
  then have "(channels st c)\<lparr>banlist := bl\<rparr> = channels st c" by (cases "channels st c") simp
  then show ?thesis by (simp add: set_chan_def)
qed

lemma is_banned_ok:
  assumes "bans_wf st c" "m_channel (memb st m) = c" "m_user (memb st m) = u" "cli_user (clients st u) \<noteq> None" "cache_ok hh st m"
  shows "\<exists>s. is_banned hh m st = Some (banned hh st u c, set_memb m (\<lambda>mb. mb\<lparr>status := s mb\<rparr>) st) \<and>
    cache_ok hh (set_memb m (\<lambda>mb. mb\<lparr>status := s mb\<rparr>) st) m"
proof (cases "has_status st m CHFL_BANVALID")
  case True
  have "set_memb m (\<lambda>mb. mb\<lparr>status := status mb\<rparr>) st = st" by (simp add: set_memb_def)
  with True assms(2,3,5) show ?thesis by (intro exI [of _ status]) (simp add: is_banned_def cache_ok_def)
next
  case False
  define st1 where "st1 = set_memb m (\<lambda>mb. mb\<lparr>status := status mb OR CHFL_BANVALID\<rparr>) st"
  obtain usr where usr: "cli_user (clients st u) = Some usr" using assms(4) by blast
  have s1: "m_channel (memb st1 m) = c" "m_user (memb st1 m) = u" "channels st1 = channels st" "clients st1 = clients st" "hashes st1 = hashes st"
    using assms(2,3) by (simp_all add: st1_def)
  obtain r where r: "find_ban hh st1 u (banlist (channels st1 c)) = Some (r, banlist (channels st1 c))" "r \<noteq> None \<longleftrightarrow> banned hh st u c"
    using find_ban_ok [of "banlist (channels st1 c)" st1 u usr hh] assms(1) usr s1 names_of_cong [OF s1(5,4)]
    by (auto simp: bans_wf_def banned_def)
  have same: "set_chan c (\<lambda>ch. ch\<lparr>banlist := banlist (channels st1 c)\<rparr>) st1 = st1" by (rule set_same_banlist) simp
  have b: "banned hh (set_memb m f st) u c = banned hh st u c" for f
    using names_of_cong [of "set_memb m f st" st] by (simp add: banned_def split: option.split)
  let ?s = "\<lambda>mb. if banned hh st u c then (status mb OR CHFL_BANVALID) OR CHFL_BANNED else (status mb OR CHFL_BANVALID) AND NOT CHFL_BANNED"
  have "is_banned hh m st = Some (banned hh st u c, set_memb m (\<lambda>mb. mb\<lparr>status := ?s mb\<rparr>) st)"
    unfolding is_banned_def Let_def st1_def [symmetric] s1 using False r same
    by (auto simp: set_memb_def st1_def fun_upd_def fun_eq_iff intro!: net.equality)
  moreover have "cache_ok hh (set_memb m (\<lambda>mb. mb\<lparr>status := ?s mb\<rparr>) st) m"
    using b assms(2,3) flag_facts by (simp add: cache_ok_def has_status_def)
  ultimately show ?thesis by (intro exI [of _ ?s]) simp
qed

lemma reveal_member_ok:
  assumes inv: "net_inv st M C G" and m: "m \<in> set (M c)"
  shows "\<exists>st'. reveal_member reveal m st = Some (True, st') \<and> net_ok st'"
proof (cases "IsDelayedJoin st m \<and> reveal")
  case False
  with net_inv_ok [OF inv] show ?thesis by (auto simp: reveal_member_def)
next
  case True
  define st1 where "st1 = set_memb m (\<lambda>mb. mb\<lparr>status := status mb AND NOT CHFL_DELAYED\<rparr>) st"
  have i1: "net_inv st1 M C G" using set_status_ok [OF inv] st1_def by simp
  have mc: "m_channel (memb st m) = c" using minvD(3) [OF net_invD(1) [OF inv] m] .
  from CheckDelayedJoins_ok [OF minvD(1) [OF net_invD(1) [OF i1]], of c] obtain st' where
    s: "CheckDelayedJoins c st1 = Some st'" "same_matrix st1 st'" "same_glob st1 st'" by blast
  have "RevealDelayedJoin m st = Some st'" using s(1) mc by (simp add: RevealDelayedJoin_def st1_def)
  with True net_inv_ok [OF same_net(1) [OF i1 s(2,3)]] show ?thesis by (simp add: reveal_member_def)
qed

text \<open>The rule the code implements.\<close>

definition status_on :: "net \<Rightarrow> nat \<Rightarrow> nat \<Rightarrow> u32" where
  "status_on st u c = (case find_member_link st c u of Some (Some m) \<Rightarrow> status (memb st m) | _ \<Rightarrow> 0)"

text \<open>What the modes +M, +R, +W, +O and +Z ask of a user: an account, a web port or an account, an operator, SSL.\<close>

definition modes_admit :: "net \<Rightarrow> nat \<Rightarrow> nat \<Rightarrow> bool" where
  "modes_admit st u c \<longleftrightarrow>
    (IsAccount st u \<or> \<not> has_mode st c MODE_MODERATENOREG \<and> \<not> has_mode st c MODE_REGONLY \<and>
      (IsWebircPort st u \<or> \<not> has_mode st c MODE_MSGNONWEB)) \<and>
    (IsAnOper st u \<or> \<not> has_mode st c MODE_OPERONLY) \<and> (IsSSL st u \<or> \<not> has_mode st c MODE_SSLONLY)"

lemma modes_refuse_iff: "modes_refuse st u c \<longleftrightarrow> \<not> modes_admit st u c"
  unfolding modes_refuse_def modes_admit_def by blast

definition may_speak :: "string \<Rightarrow> net \<Rightarrow> nat \<Rightarrow> nat \<Rightarrow> bool" where
  "may_speak hh st u c \<longleftrightarrow> IsServer st u \<or> IsChannelService st u \<or>
    (let open_to = modes_admit st u c \<and> \<not> has_mode st c MODE_MODERATED \<and> \<not> banned hh st u c;
         s = status_on st u c
     in if on_chan st u c \<and> \<not> zombie_on st u c
        then \<not> MyUser st u \<or>
          \<not> (s AND CHFL_CHANNEL_MANAGER \<noteq> 0 \<and> apass (chmode (channels st c)) \<noteq> []) \<and>
          (s AND (CHFL_CHANOP OR CHFL_VOICE) \<noteq> 0 \<or> open_to)
        else open_to \<and> \<not> has_mode st c MODE_NOPRIVMSGS)"

lemma has_mode_or: "has_mode st c (f OR g) \<longleftrightarrow> has_mode st c f \<or> has_mode st c g"
  by (auto simp: has_mode_def bit.conj_disj_distrib or_eq_0_iff)

lemma member_speaks:
  assumes inv: "net_inv st M C G" and m: "m \<in> set (M c)" "m_user (memb st m) = u" and b: "bans_wf st c" "cache_ok hh st m"
  shows "\<exists>st'. member_can_send_to_channel hh m reveal st = Some (\<not> MyUser st u \<or>
      \<not> (has_status st m CHFL_CHANNEL_MANAGER \<and> apass (chmode (channels st c)) \<noteq> []) \<and>
      (has_status st m (CHFL_CHANOP OR CHFL_VOICE) \<or>
       \<not> has_mode st c MODE_MODERATED \<and> modes_admit st u c \<and> \<not> banned hh st u c), st') \<and> net_ok st'"
proof -
  note ok = net_inv_ok [OF inv]
  have mc: "m_channel (memb st m) = c" using minvD(3) [OF net_invD(1) [OF inv] m(1)] .
  have usr: "cli_user (clients st u) \<noteq> None" using member_is_person [OF net_invD(1) [OF inv] m(1)] m(2) by (simp add: is_person_def)
  obtain s where s: "is_banned hh m st = Some (banned hh st u c, set_memb m (\<lambda>mb. mb\<lparr>status := s mb\<rparr>) st)"
    using is_banned_ok [OF b(1) mc m(2) usr b(2)] by blast
  have inv': "net_inv (set_memb m (\<lambda>mb. mb\<lparr>status := s mb\<rparr>) st) M C G" by (rule set_status_ok(1) [OF inv])
  obtain st1 where r1: "reveal_member reveal m st = Some (True, st1)" "net_ok st1" using reveal_member_ok [OF inv m(1)] by blast
  obtain st2 where r2: "reveal_member reveal m (set_memb m (\<lambda>mb. mb\<lparr>status := s mb\<rparr>) st) = Some (True, st2)" "net_ok st2"
    using reveal_member_ok [OF inv' m(1)] by blast
  show ?thesis
    unfolding member_can_send_to_channel_def Let_def mc m(2) s option.case modes_refuse_iff
    using r1 r2 ok net_inv_ok [OF inv'] by (cases "banned hh st u c") auto
qed

lemma client_speaks:
  assumes "net_ok st" "is_person st u" "bans_wf st c" "\<And>m. find_member_link st c u = Some (Some m) \<Longrightarrow> cache_ok hh st m"
  shows "\<exists>st'. client_can_send_to_channel hh u c reveal st = Some (may_speak hh st u c, st') \<and> net_ok st'"
proof -
  obtain M C G where inv: "net_inv st M C G" using assms(1) by (auto simp: net_ok_def)
  note i = net_invD [OF inv]
  have f: "find_member_link st c u = Some (membership_of st M c u)"
    using find_member_link_ok [OF i(1), of u c] assms(2) by (simp add: is_person_def)
  obtain usr where usr: "cli_user (clients st u) = Some usr" using assms(2) by (auto simp: is_person_def)
  obtain r where r: "find_ban hh st u (banlist (channels st c)) = Some (r, banlist (channels st c))" "r \<noteq> None \<longleftrightarrow> banned hh st u c"
    using find_ban_ok [of "banlist (channels st c)" st u usr hh] assms(3) usr by (auto simp: bans_wf_def banned_def)
  have same: "set_chan c (\<lambda>ch. ch\<lparr>banlist := banlist (channels st c)\<rparr>) st = st" by (rule set_same_banlist) simp
  consider (op) "IsServer st u \<or> IsChannelService st u"
    | (off) "\<not> (IsServer st u \<or> IsChannelService st u)" "find_channel_member st u c = Some None" "\<not> (on_chan st u c \<and> \<not> zombie_on st u c)"
    | (on) m where "\<not> (IsServer st u \<or> IsChannelService st u)" "find_channel_member st u c = Some (Some m)" "on_chan st u c \<and> \<not> zombie_on st u c"
        "membership_of st M c u = Some m"
    using f by (cases "membership_of st M c u")
      (auto simp: find_channel_member_def on_chan_def zombie_on_def is_zombie_def member_test_def)
  then show ?thesis
  proof cases
    case op
    with assms(1) show ?thesis by (auto simp: client_can_send_to_channel_def may_speak_def)
  next
    case off
    then show ?thesis using assms(1) r same
      by (auto simp: client_can_send_to_channel_def may_speak_def Let_def has_mode_or modes_refuse_iff)
  next
    case on
    have m: "m \<in> set (M c)" "m_user (memb st m) = u" using on(4) membership_of_iff [OF i(1)] by auto
    have st: "status_on st u c = status (memb st m)" using f on(4) by (simp add: status_on_def)
    have "cache_ok hh st m" by (rule assms(4)) (use f on(4) in simp)
    from member_speaks [OF inv m assms(3) this, of reveal] on st show ?thesis
      by (auto simp: client_can_send_to_channel_def may_speak_def Let_def has_status_def)
  qed
qed

text \<open>A registered user never counts as a user of the web port.\<close>

lemma no_web_users: "IsUser st u \<Longrightarrow> \<not> IsWebircPort st u"
  by (simp add: IsUser_def IsWebircPort_def STAT_USER_def STAT_WEBIRC_def)

lemma invalidate_loop_ok:
  "dseg (nm st) (pm st) q p xs \<Longrightarrow> net_inv st M C G \<Longrightarrow> \<exists>st'. mode_ban_invalidate_loop p st = Some st' \<and> net_inv st' M C G \<and>
     (\<forall>m. status (memb st' m) = (if m \<in> set xs then status (memb st m) AND NOT CHFL_BANVALID else status (memb st m)))"
proof (induction xs arbitrary: st p q)
  case Nil
  then show ?case by (auto simp: mode_ban_invalidate_loop.simps)
next
  case (Cons x xs)
  let ?st1 = "set_memb x (\<lambda>mb. mb\<lparr>status := status mb AND NOT CHFL_BANVALID\<rparr>) st"
  have i1: "net_inv ?st1 M C G" by (rule set_status_ok(1) [OF Cons.prems(2)])
  have l: "nm ?st1 = nm st" "pm ?st1 = pm st" by (simp_all add: nm_def pm_def fun_eq_iff)
  have nx: "nm st x = next_member (memb st x)" by (simp add: nm_def)
  have p: "p = Some x" "dseg (nm ?st1) (pm ?st1) (Some x) (next_member (memb st x)) xs" using Cons.prems(1) nx unfolding l by simp_all
  from Cons.IH [OF p(2) i1] obtain st' where s: "mode_ban_invalidate_loop (next_member (memb st x)) ?st1 = Some st'" "net_inv st' M C G"
    "\<forall>m. status (memb st' m) = (if m \<in> set xs then status (memb ?st1 m) AND NOT CHFL_BANVALID else status (memb ?st1 m))" by blast
  have "mode_ban_invalidate_loop p st = Some st'" using s(1) p(1) by (simp add: mode_ban_invalidate_loop.simps [of "Some x" st] Let_def)
  moreover have "(y AND NOT CHFL_BANVALID) AND NOT CHFL_BANVALID = y AND NOT CHFL_BANVALID" for y :: u32 by (simp add: and.assoc)
  ultimately show ?case using s(2,3) by (auto simp del: and.assoc)
qed

lemma mode_ban_invalidate_ok:
  assumes inv: "net_inv st M C G"
  shows "\<exists>st'. mode_ban_invalidate c st = Some st' \<and> net_inv st' M C G \<and> (\<forall>m \<in> set (M c). cache_ok hh st' m)"
proof -
  have "dseg (nm st) (pm st) None (members (channels st c)) (M c)" using minvD(1) [OF net_invD(1) [OF inv], of c] by (simp add: dll_def)
  from invalidate_loop_ok [OF this inv] obtain st' where s: "mode_ban_invalidate c st = Some st'" "net_inv st' M C G"
    "\<And>m. m \<in> set (M c) \<Longrightarrow> status (memb st' m) = status (memb st m) AND NOT CHFL_BANVALID" by (auto simp: mode_ban_invalidate_def)
  have "(x AND NOT y) AND y = 0" for x y :: u32 by (auto intro!: bit_eqI simp: bit_simps)
  then have "\<not> has_status st' m CHFL_BANVALID" if "m \<in> set (M c)" for m unfolding has_status_def s(3) [OF that] by simp
  then have "\<forall>m \<in> set (M c). cache_ok hh st' m" by (simp add: cache_ok_def)
  with s(1,2) show ?thesis by blast
qed

lemma get_channel_bans:
  assumes "get_channel now create u name st = Some (r, st')"
  shows "banlist (channels st' c) \<in> {banlist (channels st c), []}"
  using assms by (auto simp: get_channel_def Let_def set_chan_def split: if_splits option.splits prod.splits)

lemma net1_bans: "bans_wf net1 c"
proof -
  obtain r st' where g: "get_channel 1000 True 1 ''#irc'' net0 = Some (r, st')"
    using get_channel_ok [OF net0_inv _ _ refl, of "''#irc''" 1000 True 1] by auto
  then have "net1 = st'" by (simp add: net1_def)
  with get_channel_bans [OF g, of c] show ?thesis by (auto simp: bans_wf_def net0_def)
qed

section \<open>Properties\<close>

text \<open>
  C25.  \<open>find_ban\<close> on a list of bans with an \<open>@\<close> in each terminates, leaves the list as it was and answers a ban
  exactly when some ban of the list hits the client and no exception does; the ban it answers is such a one.
\<close>

theorem find_ban_correct:
  assumes "\<forall>b \<in> set bl. ban_wf b" "cli_user (clients st u) = Some usr"
  shows "\<exists>r. find_ban hh st u bl = Some (r, bl) \<and> (r \<noteq> None \<longleftrightarrow> banned_by (names_of hh st u usr) bl) \<and>
    (\<forall>b. r = Some b \<longrightarrow> b \<in> set bl \<and> \<not> has_ban b BAN_EXCEPTION \<and> ban_hits (names_of hh st u usr) b)"
  using assms by (rule find_ban_ok)

definition bans1 :: "Ban list" where
  "bans1 = [ban_of ''*!*@*.example.net'', ban_of ''bob'']"

lemma bans1_wf: "\<forall>b \<in> set bans1. ban_wf b" by (simp add: bans1_def) code_simp

theorem find_ban_correct_witness:
  "\<exists>usr r. cli_user (clients net0 7) = Some usr \<and> find_ban ''users.net'' net0 7 bans1 = Some (r, bans1) \<and>
    (r \<noteq> None \<longleftrightarrow> banned_by (names_of ''users.net'' net0 7 usr) bans1)"
proof -
  obtain usr where usr: "cli_user (clients net0 7) = Some usr" by (simp add: net0_def)
  from find_ban_correct [OF bans1_wf usr, of "''users.net''"] usr show ?thesis by blast
qed

text \<open>
  C27.  When \<open>bmatch\<close> finds a ban covered by an older one, every client that the new ban hits is hit by the
  old one, under these conditions: a new ban that is an address mask is covered by an address mask
  (\<open>text_covers_address\<close> shows that a text that covers an address mask may miss clients); both texts have their \<open>@\<close> at
  \<open>nu_len\<close>, a part before it that is not empty, and no escaped wildcard directly behind a wildcard (\<open>ban_text_ok\<close>); and
  the names of the client are C strings without an \<open>@\<close>, its address well formed (\<open>names_ok\<close>).
\<close>

theorem ban_covers_clients:
  assumes "bmatch old new = Some 0" "ban_text_ok old" "ban_text_ok new" "names_ok nms"
    "has_ban new BAN_IPMASK \<longrightarrow> has_ban old BAN_IPMASK" "ban_hits nms new"
  shows "ban_hits nms old"
  using assms by (rule ban_covers)

definition names1 :: ban_names where
  "names1 = \<lparr>bn_nu = ''ann!u'', bn_host = ''a.example.net'', bn_iphost = ''10.1.2.3'', bn_sr = None, bn_ip = ip_zero\<rparr>"

theorem ban_covers_clients_witness:
  "bmatch (ban_of ''*!*@*.net'') (ban_of ''*!*@*.example.net'') = Some 0 \<and> ban_hits names1 (ban_of ''*!*@*.net'')"
proof -
  have b: "bmatch (ban_of ''*!*@*.net'') (ban_of ''*!*@*.example.net'') = Some 0" by code_simp
  have ok: "ban_text_ok (ban_of ''*!*@*.net'')" "ban_text_ok (ban_of ''*!*@*.example.net'')" unfolding ban_text_ok_def by code_simp+
  have n: "names_ok names1" by (auto simp: names_ok_def names1_def wf_addr_def ip_zero_def)
  have h: "ban_hits names1 (ban_of ''*!*@*.example.net'')" by code_simp
  have i: "has_ban (ban_of ''*!*@*.example.net'') BAN_IPMASK \<longrightarrow> has_ban (ban_of ''*!*@*.net'') BAN_IPMASK" by code_simp
  from ban_covers_clients [OF b ok n i h] b show ?thesis by blast
qed

text \<open>
  C26.  \<open>apply_ban\<close> always ends and keeps the list free of an active ban that another active one covers.  Adding
  a ban that is covered is refused with 1 and changes nothing; otherwise the bans it covers are marked and it is added.
  Removing a ban answers 3 exactly when no ban of the list is covered by the mask.
\<close>

theorem apply_ban_invariant:
  assumes "bans_named (newban # bl)" "no_overlap bl" "has_ban newban BAN_ADD \<or> has_ban newban BAN_DEL"
  shows "\<exists>res bl'. apply_ban bl newban = Some (res, bl') \<and> no_overlap bl' \<and>
    (if has_ban newban BAN_ADD
     then if \<exists>b \<in> set (active bl). bmatch b newban = Some 0 then res = 1 \<and> bl' = bl
          else res = 0 \<and> active bl' = filter (\<lambda>b. bmatch newban b \<noteq> Some 0) (active bl) @ active [newban]
     else (res = 0 \<longleftrightarrow> (\<exists>b \<in> set bl. bmatch newban b = Some 0)) \<and> res \<in> {0, 3} \<and>
       active bl' = filter (\<lambda>b. bmatch newban b \<noteq> Some 0) (active bl))"
  using assms by (rule apply_ban_ok)

theorem apply_ban_invariant_witness:
  "\<exists>bl'. apply_ban bans1 ((ban_of ''*!*@*.net'')\<lparr>bflags := BAN_ADD\<rparr>) = Some (0, bl') \<and> no_overlap bl'"
proof -
  let ?b = "(ban_of ''*!*@*.net'')\<lparr>bflags := BAN_ADD\<rparr>"
  have n: "bans_named (?b # bans1)" unfolding bans_named_def by code_simp
  have o: "no_overlap bans1" unfolding no_overlap_def by code_simp
  have a: "has_ban ?b BAN_ADD" by code_simp
  have c: "\<not> (\<exists>b \<in> set (active bans1). bmatch b ?b = Some 0)" by code_simp
  from apply_ban_invariant [OF n o] a c show ?thesis by auto
qed

text \<open>
  C29.  \<open>pretty_mask\<close> makes the five transformations of its comment: every text is one of \<open>nick\<close>, \<open>host\<close> (when it has a dot or
  a colon), \<open>nick!user\<close>, \<open>user@host\<close> and \<open>nick!user@host\<close> (\<open>mask_case\<close>), and the result is \<open>nick!user@host\<close> with \<open>*\<close> for the
  parts that are missing, the nick cut to its length and the user and the host cut at their start with a \<open>*\<close>.  The result is a
  fixed point of \<open>pretty_mask\<close>, fits its buffer, and the ban that \<open>set_ban_mask\<close> makes of it keeps the text and has its \<open>@\<close> where
  \<open>find_ban\<close> looks for it.
\<close>

theorem pretty_mask_canonical:
  "(\<exists>n u h. mask_case msk n u h) \<and>
   (\<forall>n u h. mask_case msk n u h \<longrightarrow>
     pretty_mask msk = take NICKLEN n @ ''!'' @ cut_start USERLEN u @ ''@'' @ cut_start HOSTLEN h \<and>
     length (cut_start USERLEN u) \<le> USERLEN \<and> length (cut_start HOSTLEN h) \<le> HOSTLEN) \<and>
   pretty_mask (pretty_mask msk) = pretty_mask msk \<and> length (pretty_mask msk) \<le> NICKLEN + USERLEN + HOSTLEN + 2 \<and>
   ban_wf (set_ban_mask b (pretty_mask msk)) \<and> banstr (set_ban_mask b (pretty_mask msk)) = pretty_mask msk"
proof -
  obtain n u h where p: "pretty_mask msk = n @ ''!'' @ u @ ''@'' @ h" "parts_ok (n, u, h)" "length n \<le> NICKLEN" "length u \<le> USERLEN" "length h \<le> HOSTLEN"
    using pretty_mask_parts by blast
  have "length (pretty_mask msk) \<le> NICKLEN + USERLEN + HOSTLEN + 2" using p by simp
  then show ?thesis using pretty_mask_of [OF p(2-5)] set_ban_mask_wf(1,2) [OF p(2-5) p(1)] mask_case_total [of msk] pretty_mask_case [of msk] p(1) by simp
qed

theorem pretty_mask_canonical_witness:
  "pretty_mask ''nick'' = ''nick!*@*'' \<and> pretty_mask ''irc.example.net'' = ''*!*@irc.example.net'' \<and> pretty_mask ''nick!user'' = ''nick!user@*'' \<and>
   pretty_mask ''averylongusername@host'' = ''*!*gusername@host''"
proof -
  have c: "mask_case ''nick'' ''nick'' ''*'' ''*''" "mask_case ''irc.example.net'' ''*'' ''*'' ''irc.example.net''"
    "mask_case ''nick!user'' ''nick'' ''user'' ''*''" "mask_case ''averylongusername@host'' ''*'' ''averylongusername'' ''host''"
    using mask_nick [of "''nick''"] mask_host [of "''irc.example.net''"] mask_nick_user [of "''nick''" "''user''"]
      mask_user_host [of "''averylongusername''" "''host''"] by simp_all
  show ?thesis
    using pretty_mask_canonical [of "''nick''"] pretty_mask_canonical [of "''irc.example.net''"] pretty_mask_canonical [of "''nick!user''"]
      pretty_mask_canonical [of "''averylongusername@host''"] c by (simp add: cut_start_def NICKLEN_def USERLEN_def HOSTLEN_def)
qed

text \<open>
  C24.  \<open>client_can_send_to_channel\<close> terminates on every network whose lists are well formed, keeps them so and
  answers by the rule \<open>may_speak\<close>: what the modes, the bans and the status of the member allow.  The cache of the bans in the
  member's status is up to date (\<open>cache_ok\<close>), as \<open>mode_ban_invalidate\<close> makes it.
\<close>

theorem speaking_rule:
  assumes "net_ok st" "is_person st u" "bans_wf st c" "\<forall>m. find_member_link st c u = Some (Some m) \<longrightarrow> cache_ok hh st m"
  shows "\<exists>st'. client_can_send_to_channel hh u c reveal st = Some (may_speak hh st u c, st') \<and> net_ok st'"
  using client_speaks [OF assms(1-3)] assms(4) by blast

lemma banlist_inv:
  assumes "net_inv st M C G"
  shows "net_inv (set_chan c (\<lambda>ch. ch\<lparr>banlist := bl\<rparr>) st) M C G"
proof (rule same_net(1) [OF assms])
  show "same_matrix st (set_chan c (\<lambda>ch. ch\<lparr>banlist := bl\<rparr>) st)" by (simp add: same_matrix_def)
  show "same_glob st (set_chan c (\<lambda>ch. ch\<lparr>banlist := bl\<rparr>) st)" by (rule same_globI) (simp_all add: same_invites_def)
qed

text \<open>A member without status on a channel with bans.\<close>

theorem speaking_rule_witness:
  "\<exists>st st'. on_chan st 1 chan1 \<and> banlist (channels st chan1) = bans1 \<and>
    client_can_send_to_channel ''users.net'' 1 chan1 True st = Some (may_speak ''users.net'' st 1 chan1, st') \<and> net_ok st'"
proof -
  obtain M C G where inv: "net_inv net2 M C G" using net2_ok(1) by (auto simp: net_ok_def)
  obtain m where m: "m \<in> set (M chan1)" "m_user (memb net2 m) = 1" using net2_ok(3) [of 1 chan1] on_chan_iff [OF net_invD(1) [OF inv]] by blast
  define st where "st = set_memb m (\<lambda>mb. mb\<lparr>status := 0\<rparr>) (set_chan chan1 (\<lambda>ch. ch\<lparr>banlist := bans1\<rparr>) net2)"
  have i: "net_inv st M C G" unfolding st_def by (rule set_status_ok(1) [OF banlist_inv [OF inv]])
  have on: "on_chan st 1 chan1" using m on_chan_iff [OF net_invD(1) [OF i]] by (auto simp: st_def)
  have b: "banlist (channels st chan1) = bans1" by (simp add: st_def)
  then have w: "bans_wf st chan1" using bans1_wf by (simp add: bans_wf_def)
  have p: "is_person st 1" using net2_ok(2) [of 1] by (simp add: st_def is_person_def IsServer_def IsMe_def)
  have "membership_of st M chan1 1 = Some m" unfolding membership_of_iff [OF net_invD(1) [OF i]] using m by (simp add: st_def)
  then have "\<forall>n. find_member_link st chan1 1 = Some (Some n) \<longrightarrow> cache_ok ''users.net'' st n"
    using find_member_link_ok [OF net_invD(1) [OF i], of 1 chan1] p by (auto simp: is_person_def cache_ok_def has_status_def st_def)
  from speaking_rule [OF net_inv_ok [OF i] p w this] on b show ?thesis by blast
qed

end
