(* ===== verification/MsgTree.thy ===== *)
theory MsgTree
  imports Chattr
begin

text \<open>
  The command table and the message trees of \<open>ircd/parse.c\<close>.  A \<open>Message\<close> is known by its index, the
  pointer \<open>&msgtab[i]\<close> or one that \<open>register_mapping\<close> allocates behind the table; a handler is known by its name.
  A node of a tree has a message and 32 children, one for each value of the low five bits of a character.
\<close>

definition MAXPARA :: u32 where "MAXPARA = 15"
definition MFLG_SLOW :: u32 where "MFLG_SLOW = 0x01"
definition MFLG_UNREG :: u32 where "MFLG_UNREG = 0x02"
definition MFLG_IGNORE :: u32 where "MFLG_IGNORE = 0x04"
definition MFLG_EXTRA :: u32 where "MFLG_EXTRA = 0x08"

datatype HandlerType = UNREGISTERED_HANDLER | CLIENT_HANDLER | SERVER_HANDLER | OPER_HANDLER | SERVICE_HANDLER

record Message =
  mcmd :: string
  mtok :: string
  mcount :: u32
  parameters :: u32
  mflags :: u32
  mbytes :: u32
  extra :: "nat option"
  handlers :: "HandlerType \<Rightarrow> string"

section \<open>The command table\<close>

fun five_handlers :: "string \<Rightarrow> string \<Rightarrow> string \<Rightarrow> string \<Rightarrow> string \<Rightarrow> HandlerType \<Rightarrow> string" where
  "five_handlers u c s p v UNREGISTERED_HANDLER = u"
| "five_handlers u c s p v CLIENT_HANDLER = c"
| "five_handlers u c s p v SERVER_HANDLER = s"
| "five_handlers u c s p v OPER_HANDLER = p"
| "five_handlers u c s p v SERVICE_HANDLER = v"

definition command :: "string \<Rightarrow> string \<Rightarrow> u32 \<Rightarrow> u32 \<Rightarrow> string \<Rightarrow> string \<Rightarrow> string \<Rightarrow> string \<Rightarrow> string \<Rightarrow> Message" where
  "command c t n f hu hc hs hp hv =
    \<lparr>mcmd = c, mtok = t, mcount = 0, parameters = n, mflags = f, mbytes = 0, extra = None, handlers = five_handlers hu hc hs hp hv\<rparr>"

definition msgtab_1 :: "Message list" where
  "msgtab_1 = [
    command ''PRIVMSG'' ''P'' MAXPARA MFLG_SLOW ''m_unregistered'' ''m_privmsg'' ''ms_privmsg'' ''mo_privmsg'' ''m_ignore'',
    command ''NICK'' ''N'' MAXPARA (MFLG_SLOW OR MFLG_UNREG) ''m_nick'' ''m_nick'' ''ms_nick'' ''m_nick'' ''m_ignore'',
    command ''NOTICE'' ''O'' MAXPARA (MFLG_SLOW OR MFLG_IGNORE) ''m_ignore'' ''m_notice'' ''ms_notice'' ''mo_notice'' ''m_ignore'',
    command ''WALLCHOPS'' ''WC'' MAXPARA MFLG_SLOW ''m_unregistered'' ''m_wallchops'' ''ms_wallchops'' ''m_wallchops'' ''m_ignore'',
    command ''WALLVOICES'' ''WV'' MAXPARA MFLG_SLOW ''m_unregistered'' ''m_wallvoices'' ''ms_wallvoices'' ''m_wallvoices'' ''m_ignore'',
    command ''CPRIVMSG'' ''CP'' MAXPARA MFLG_SLOW ''m_unregistered'' ''m_cprivmsg'' ''m_ignore'' ''m_cprivmsg'' ''m_ignore'',
    command ''CNOTICE'' ''CN'' MAXPARA MFLG_SLOW ''m_unregistered'' ''m_cnotice'' ''m_ignore'' ''m_cnotice'' ''m_ignore'',
    command ''JOIN'' ''J'' MAXPARA MFLG_SLOW ''m_unregistered'' ''m_join'' ''ms_join'' ''m_join'' ''m_ignore'',
    command ''MODE'' ''M'' MAXPARA MFLG_SLOW ''m_unregistered'' ''m_mode'' ''ms_mode'' ''m_mode'' ''m_ignore'',
    command ''BURST'' ''B'' MAXPARA MFLG_SLOW ''m_ignore'' ''m_ignore'' ''ms_burst'' ''m_ignore'' ''m_ignore'',
    command ''CREATE'' ''C'' MAXPARA MFLG_SLOW ''m_ignore'' ''m_ignore'' ''ms_create'' ''m_ignore'' ''m_ignore'',
    command ''DESTRUCT'' ''DE'' MAXPARA MFLG_SLOW ''m_ignore'' ''m_ignore'' ''ms_destruct'' ''m_ignore'' ''m_ignore'',
    command ''QUIT'' ''Q'' MAXPARA (MFLG_SLOW OR MFLG_UNREG) ''m_quit'' ''m_quit'' ''ms_quit'' ''m_quit'' ''m_ignore'',
    command ''PART'' ''L'' MAXPARA MFLG_SLOW ''m_unregistered'' ''m_part'' ''ms_part'' ''m_part'' ''m_ignore'',
    command ''TOPIC'' ''T'' MAXPARA MFLG_SLOW ''m_unregistered'' ''m_topic'' ''ms_topic'' ''m_topic'' ''m_ignore'',
    command ''INVITE'' ''I'' MAXPARA MFLG_SLOW ''m_unregistered'' ''m_invite'' ''ms_invite'' ''m_invite'' ''m_ignore'',
    command ''KICK'' ''K'' MAXPARA MFLG_SLOW ''m_unregistered'' ''m_kick'' ''ms_kick'' ''m_kick'' ''m_ignore'',
    command ''WALLOPS'' ''WA'' MAXPARA MFLG_SLOW ''m_unregistered'' ''m_not_oper'' ''ms_wallops'' ''mo_wallops'' ''m_ignore'',
    command ''WALLUSERS'' ''WU'' MAXPARA MFLG_SLOW ''m_unregistered'' ''m_not_oper'' ''ms_wallusers'' ''mo_wallusers'' ''m_ignore'',
    command ''DESYNCH'' ''DS'' MAXPARA MFLG_SLOW ''m_ignore'' ''m_ignore'' ''ms_desynch'' ''m_ignore'' ''m_ignore'',
    command ''PING'' ''G'' MAXPARA MFLG_SLOW ''m_unregistered'' ''m_ping'' ''ms_ping'' ''mo_ping'' ''m_ignore'']"

definition msgtab_2 :: "Message list" where
  "msgtab_2 = [
    command ''PONG'' ''Z'' MAXPARA (MFLG_SLOW OR MFLG_UNREG) ''mr_pong'' ''m_pong'' ''ms_pong'' ''m_pong'' ''m_ignore'',
    command ''ERROR'' ''Y'' MAXPARA (MFLG_SLOW OR MFLG_UNREG) ''mr_error'' ''m_ignore'' ''ms_error'' ''m_ignore'' ''m_ignore'',
    command ''KILL'' ''D'' MAXPARA MFLG_SLOW ''m_unregistered'' ''m_not_oper'' ''ms_kill'' ''mo_kill'' ''m_ignore'',
    command ''USER'' ''USER'' MAXPARA MFLG_SLOW ''m_user'' ''m_registered'' ''m_ignore'' ''m_registered'' ''m_ignore'',
    command ''AWAY'' ''A'' MAXPARA MFLG_SLOW ''m_unregistered'' ''m_away'' ''ms_away'' ''m_away'' ''m_ignore'',
    command ''ISON'' ''ISON'' 1 MFLG_SLOW ''m_unregistered'' ''m_ison'' ''m_ignore'' ''m_ison'' ''m_ignore'',
    command ''SERVER'' ''S'' MAXPARA (MFLG_SLOW OR MFLG_UNREG) ''mr_server'' ''m_registered'' ''ms_server'' ''m_registered'' ''m_ignore'',
    command ''SQUIT'' ''SQ'' MAXPARA MFLG_SLOW ''m_unregistered'' ''m_not_oper'' ''ms_squit'' ''mo_squit'' ''m_ignore'',
    command ''WHOIS'' ''W'' MAXPARA MFLG_SLOW ''m_unregistered'' ''m_whois'' ''ms_whois'' ''m_whois'' ''m_ignore'',
    command ''WHO'' ''H'' MAXPARA MFLG_SLOW ''m_unregistered'' ''m_who'' ''m_ignore'' ''m_who'' ''m_ignore'',
    command ''WHOWAS'' ''X'' MAXPARA MFLG_SLOW ''m_unregistered'' ''m_whowas'' ''m_whowas'' ''m_whowas'' ''m_ignore'',
    command ''LIST'' ''LIST'' MAXPARA MFLG_SLOW ''m_unregistered'' ''m_list'' ''m_ignore'' ''m_list'' ''m_ignore'',
    command ''NAMES'' ''E'' MAXPARA MFLG_SLOW ''m_unregistered'' ''m_names'' ''m_names'' ''m_names'' ''m_ignore'',
    command ''USERHOST'' ''USERHOST'' 1 MFLG_SLOW ''m_unregistered'' ''m_userhost'' ''m_ignore'' ''m_userhost'' ''m_ignore'',
    command ''USERIP'' ''USERIP'' 1 MFLG_SLOW ''m_unregistered'' ''m_userip'' ''m_ignore'' ''m_userip'' ''m_ignore'',
    command ''TRACE'' ''TR'' MAXPARA MFLG_SLOW ''m_unregistered'' ''m_trace'' ''ms_trace'' ''mo_trace'' ''m_ignore'',
    command ''PASS'' ''PA'' MAXPARA (MFLG_SLOW OR MFLG_UNREG) ''mr_pass'' ''m_registered'' ''m_ignore'' ''m_registered'' ''m_ignore'',
    command ''LUSERS'' ''LU'' MAXPARA MFLG_SLOW ''m_unregistered'' ''m_lusers'' ''ms_lusers'' ''m_lusers'' ''m_ignore'',
    command ''USERS'' ''US'' MAXPARA MFLG_SLOW ''m_unregistered'' ''m_users'' ''ms_users'' ''m_users'' ''m_ignore'',
    command ''TIME'' ''TI'' MAXPARA MFLG_SLOW ''m_unregistered'' ''m_time'' ''m_time'' ''m_time'' ''m_ignore'',
    command ''SETTIME'' ''SE'' MAXPARA MFLG_SLOW ''m_unregistered'' ''m_not_oper'' ''ms_settime'' ''mo_settime'' ''m_ignore'']"

definition msgtab_3 :: "Message list" where
  "msgtab_3 = [
    command ''RPING'' ''RI'' MAXPARA MFLG_SLOW ''m_unregistered'' ''m_not_oper'' ''ms_rping'' ''mo_rping'' ''m_ignore'',
    command ''RPONG'' ''RO'' MAXPARA MFLG_SLOW ''m_unregistered'' ''m_ignore'' ''ms_rpong'' ''m_ignore'' ''m_ignore'',
    command ''OPER'' ''OPER'' MAXPARA MFLG_SLOW ''m_unregistered'' ''m_oper'' ''ms_oper'' ''mo_oper'' ''m_ignore'',
    command ''CONNECT'' ''CO'' MAXPARA MFLG_SLOW ''m_unregistered'' ''m_not_oper'' ''ms_connect'' ''mo_connect'' ''m_ignore'',
    command ''MAP'' ''MAP'' MAXPARA MFLG_SLOW ''m_unregistered'' ''m_map'' ''m_ignore'' ''m_map'' ''m_ignore'',
    command ''VERSION'' ''V'' MAXPARA (MFLG_SLOW OR MFLG_UNREG) ''m_version'' ''m_version'' ''m_version'' ''m_version'' ''m_ignore'',
    command ''STATS'' ''R'' MAXPARA MFLG_SLOW ''m_unregistered'' ''m_stats'' ''m_stats'' ''m_stats'' ''m_ignore'',
    command ''LINKS'' ''LI'' MAXPARA MFLG_SLOW ''m_unregistered'' ''m_links'' ''ms_links'' ''m_links'' ''m_ignore'',
    command ''ADMIN'' ''AD'' MAXPARA (MFLG_SLOW OR MFLG_UNREG) ''m_admin'' ''m_admin'' ''ms_admin'' ''mo_admin'' ''m_ignore'',
    command ''HELP'' ''HELP'' MAXPARA MFLG_SLOW ''m_unregistered'' ''m_help'' ''m_ignore'' ''m_help'' ''m_ignore'',
    command ''INFO'' ''F'' MAXPARA MFLG_SLOW ''m_unregistered'' ''m_info'' ''ms_info'' ''mo_info'' ''m_ignore'',
    command ''MOTD'' ''MO'' MAXPARA MFLG_SLOW ''m_unregistered'' ''m_motd'' ''m_motd'' ''m_motd'' ''m_ignore'',
    command ''CLOSE'' ''CLOSE'' MAXPARA MFLG_SLOW ''m_unregistered'' ''m_not_oper'' ''m_ignore'' ''mo_close'' ''m_ignore'',
    command ''SILENCE'' ''U'' MAXPARA MFLG_SLOW ''m_unregistered'' ''m_silence'' ''ms_silence'' ''m_silence'' ''m_ignore'',
    command ''GLINE'' ''GL'' MAXPARA 0 ''m_unregistered'' ''m_gline'' ''ms_gline'' ''mo_gline'' ''m_ignore'',
    command ''JUPE'' ''JU'' MAXPARA MFLG_SLOW ''m_unregistered'' ''m_not_oper'' ''ms_jupe'' ''mo_jupe'' ''m_ignore'',
    command ''OPMODE'' ''OM'' MAXPARA MFLG_SLOW ''m_unregistered'' ''m_not_oper'' ''ms_opmode'' ''mo_opmode'' ''m_ignore'',
    command ''CLEARMODE'' ''CM'' MAXPARA MFLG_SLOW ''m_unregistered'' ''m_not_oper'' ''ms_clearmode'' ''mo_clearmode'' ''m_ignore'',
    command ''UPING'' ''UP'' MAXPARA MFLG_SLOW ''m_unregistered'' ''m_not_oper'' ''ms_uping'' ''mo_uping'' ''m_ignore'',
    command ''END_OF_BURST'' ''EB'' MAXPARA MFLG_SLOW ''m_ignore'' ''m_ignore'' ''ms_end_of_burst'' ''m_ignore'' ''m_ignore'',
    command ''EOB_ACK'' ''EA'' MAXPARA MFLG_SLOW ''m_ignore'' ''m_ignore'' ''ms_end_of_burst_ack'' ''m_ignore'' ''m_ignore'']"

definition msgtab_4 :: "Message list" where
  "msgtab_4 = [
    command ''HASH'' ''HASH'' MAXPARA MFLG_SLOW ''m_unregistered'' ''m_hash'' ''m_hash'' ''m_hash'' ''m_ignore'',
    command ''REHASH'' ''REHASH'' MAXPARA MFLG_SLOW ''m_unregistered'' ''m_not_oper'' ''m_ignore'' ''mo_rehash'' ''m_ignore'',
    command ''RESTART'' ''RESTART'' MAXPARA MFLG_SLOW ''m_unregistered'' ''m_not_oper'' ''m_ignore'' ''mo_restart'' ''m_ignore'',
    command ''DIE'' ''DIE'' MAXPARA MFLG_SLOW ''m_unregistered'' ''m_not_oper'' ''m_ignore'' ''mo_die'' ''m_ignore'',
    command ''PROTO'' ''PROTO'' MAXPARA MFLG_SLOW ''m_proto'' ''m_proto'' ''m_proto'' ''m_proto'' ''m_ignore'',
    command ''SET'' ''SET'' MAXPARA MFLG_SLOW ''m_unregistered'' ''m_not_oper'' ''m_ignore'' ''mo_set'' ''m_ignore'',
    command ''RESET'' ''RESET'' MAXPARA MFLG_SLOW ''m_unregistered'' ''m_not_oper'' ''m_ignore'' ''mo_reset'' ''m_ignore'',
    command ''GET'' ''GET'' MAXPARA MFLG_SLOW ''m_unregistered'' ''m_not_oper'' ''m_ignore'' ''mo_get'' ''m_ignore'',
    command ''PRIVS'' ''PR'' MAXPARA MFLG_SLOW ''m_unregistered'' ''m_not_oper'' ''ms_privs'' ''mo_privs'' ''m_ignore'',
    command ''ACCOUNT'' ''AC'' MAXPARA MFLG_SLOW ''m_ignore'' ''m_ignore'' ''ms_account'' ''m_ignore'' ''m_ignore'',
    command ''ASLL'' ''LL'' MAXPARA MFLG_SLOW ''m_ignore'' ''m_not_oper'' ''ms_asll'' ''mo_asll'' ''m_ignore'',
    command ''WEBIRC'' ''WEBIRC'' MAXPARA MFLG_SLOW ''m_webirc'' ''m_registered'' ''m_ignore'' ''m_registered'' ''m_ignore'',
    command ''PROXY'' ''PROXY'' MAXPARA MFLG_SLOW ''mr_proxy'' ''m_registered'' ''m_ignore'' ''m_registered'' ''m_ignore'',
    command ''XQUERY'' ''XQ'' MAXPARA MFLG_SLOW ''m_ignore'' ''m_ignore'' ''ms_xquery'' ''mo_xquery'' ''m_ignore'',
    command ''XREPLY'' ''XR'' MAXPARA MFLG_SLOW ''m_ignore'' ''m_ignore'' ''ms_xreply'' ''m_ignore'' ''m_ignore'',
    command ''CAP'' ''CAP'' MAXPARA 0 ''m_cap'' ''m_cap'' ''m_ignore'' ''m_cap'' ''m_ignore'']"

definition msgtab_ddb :: "Message list" where
  "msgtab_ddb = [
    command ''DB'' ''DB'' MAXPARA MFLG_SLOW ''m_ignore'' ''m_ignore'' ''ms_db'' ''m_ignore'' ''m_ignore'',
    command ''DBQ'' ''DBQ'' MAXPARA MFLG_SLOW ''m_unregistered'' ''m_not_oper'' ''ms_dbq'' ''mo_dbq'' ''m_ignore'',
    command ''BMODE'' ''BM'' MAXPARA MFLG_SLOW ''m_ignore'' ''m_ignore'' ''ms_bmode'' ''m_ignore'' ''m_ignore'',
    command ''GHOST'' ''GHOST'' MAXPARA MFLG_SLOW ''m_unregistered'' ''m_ghost'' ''m_ignore'' ''m_ghost'' ''m_ignore'',
    command ''SVSNICK'' ''SN'' MAXPARA MFLG_SLOW ''m_ignore'' ''m_ignore'' ''ms_svsnick'' ''m_ignore'' ''m_ignore'',
    command ''SVSMODE'' ''SM'' MAXPARA MFLG_SLOW ''m_ignore'' ''m_ignore'' ''ms_svsmode'' ''m_ignore'' ''m_ignore'',
    command ''SVSJOIN'' ''SJ'' MAXPARA MFLG_SLOW ''m_ignore'' ''m_ignore'' ''ms_svsjoin'' ''m_ignore'' ''m_ignore'',
    command ''SVSPART'' ''SL'' MAXPARA MFLG_SLOW ''m_ignore'' ''m_ignore'' ''ms_svspart'' ''m_ignore'' ''m_ignore'']"

definition msgtab_5 :: "Message list" where
  "msgtab_5 = [
    command ''POST'' ''POST'' MAXPARA MFLG_SLOW ''m_quit'' ''m_ignore'' ''m_ignore'' ''m_ignore'' ''m_ignore'',
    command ''FINGERPRINT'' ''FP'' MAXPARA 0 ''m_unregistered'' ''m_fingerprint'' ''m_ignore'' ''m_fingerprint'' ''m_ignore'',
    command ''STARTTLS'' ''STARTTLS'' MAXPARA 0 ''m_starttls'' ''m_registered'' ''m_ignore'' ''m_registered'' ''m_ignore'',
    command ''MONITOR'' ''MONITOR'' MAXPARA MFLG_SLOW ''m_unregistered'' ''m_monitor'' ''m_ignore'' ''m_monitor'' ''m_ignore'']"

text \<open>The table of a server that is built with the distributed database (\<open>DDB\<close>).\<close>

definition msgtab :: "Message list" where
  "msgtab = msgtab_1 @ msgtab_2 @ msgtab_3 @ msgtab_4 @ msgtab_ddb @ msgtab_5"

section \<open>The trees\<close>

definition MAXPTRLEN :: nat where "MAXPTRLEN = 32"

datatype MessageTree = MessageTree (tree_msg: "nat option") (pointers: "nat \<Rightarrow> MessageTree option")

definition empty_tree :: MessageTree where
  "empty_tree = MessageTree None (\<lambda>_. None)"

definition slot :: "char \<Rightarrow> nat" where
  "slot c = of_char c mod MAXPTRLEN"

fun add_msg_element :: "MessageTree \<Rightarrow> nat \<Rightarrow> string \<Rightarrow> MessageTree" where
  "add_msg_element t m [] = MessageTree (Some m) (pointers t)"
| "add_msg_element t m (c # cmd) = (case pointers t (slot c) of
     Some n \<Rightarrow> MessageTree (tree_msg t) ((pointers t)(slot c := Some (add_msg_element n m cmd)))
   | None \<Rightarrow> MessageTree (tree_msg t) ((pointers t)(slot c := Some (add_msg_element empty_tree m cmd))))"

definition node_used :: "MessageTree \<Rightarrow> bool" where
  "node_used t \<longleftrightarrow> \<not> Option.is_none (tree_msg t) \<or> list_ex (\<lambda>s. \<not> Option.is_none (pointers t s)) [0..<MAXPTRLEN]"

text \<open>
  \<open>del_msg_element\<close> gives the new contents of the node and whether the pointer it returns is not null; \<open>None\<close> is a
  step to a null child.  The root is never freed: its caller drops the returned pointer and keeps the contents.
\<close>

fun del_msg_element :: "MessageTree \<Rightarrow> string \<Rightarrow> (MessageTree \<times> bool) option" where
  "del_msg_element t [] = (let t' = MessageTree None (pointers t) in Some (t', node_used t'))"
| "del_msg_element t (c # cmd) = (case pointers t (slot c) of
     None \<Rightarrow> None
   | Some n \<Rightarrow> map_option (\<lambda>(n', used).
       let t' = MessageTree (tree_msg t) ((pointers t)(slot c := if used then Some n' else None))
       in (t', node_used t')) (del_msg_element n cmd))"

fun msg_tree_parse :: "string \<Rightarrow> MessageTree \<Rightarrow> nat option" where
  "msg_tree_parse [] t = tree_msg t"
| "msg_tree_parse (c # cmd) t =
    (if \<not> IsAlpha c then None
     else case pointers t (slot c) of None \<Rightarrow> None | Some n \<Rightarrow> msg_tree_parse cmd n)"

text \<open>The loop of \<open>initmsgtree\<close> over the entries from number \<open>i\<close> on.\<close>

fun init_loop :: "nat \<Rightarrow> Message list \<Rightarrow> MessageTree \<times> MessageTree \<Rightarrow> MessageTree \<times> MessageTree" where
  "init_loop i [] ts = ts"
| "init_loop i (m # ms) (mt, tt) = init_loop (i + 1) ms (add_msg_element mt i (mcmd m), add_msg_element tt i (mtok m))"

definition initmsgtree :: "MessageTree \<times> MessageTree" where
  "initmsgtree = init_loop 0 msgtab (empty_tree, empty_tree)"

section \<open>Service mappings\<close>

definition SMAP_FAST :: u32 where "SMAP_FAST = 1"

record s_map =
  smap_msg :: "nat option"
  smap_command :: string
  smap_flags :: u32

record parse_tables =
  msgs :: "nat \<Rightarrow> Message"
  next_msg :: nat
  msg_tree :: MessageTree
  tok_tree :: MessageTree
  smaps :: "nat \<Rightarrow> s_map"

definition register_mapping :: "nat \<Rightarrow> parse_tables \<Rightarrow> int \<times> parse_tables" where
  "register_mapping mp st =
    (let c = smap_command (smaps st mp)
     in if msg_tree_parse c (msg_tree st) \<noteq> None then (0, st)
        else
          let m = next_msg st;
              msg = \<lparr>mcmd = c, mtok = c, mcount = 0, parameters = 2,
                     mflags = (if smap_flags (smaps st mp) AND SMAP_FAST = 0 then MFLG_EXTRA OR MFLG_SLOW else MFLG_EXTRA),
                     mbytes = 0, extra = Some mp,
                     handlers = five_handlers ''m_ignore'' ''m_pseudo'' ''m_ignore'' ''m_pseudo'' ''m_ignore''\<rparr>
          in (1, st\<lparr>msgs := (msgs st)(m := msg), next_msg := m + 1, msg_tree := add_msg_element (msg_tree st) m (mcmd msg),
                   smaps := (smaps st)(mp := (smaps st mp)\<lparr>smap_msg := Some m\<rparr>)\<rparr>))"

text \<open>\<open>None\<close> is the use of a null \<open>map->msg\<close> or of a null child; a freed message keeps its last contents in \<open>msgs\<close>.\<close>

definition unregister_mapping :: "nat \<Rightarrow> parse_tables \<Rightarrow> (int \<times> parse_tables) option" where
  "unregister_mapping mp st =
    (if msg_tree_parse (smap_command (smaps st mp)) (msg_tree st) = None then Some (0, st)
     else case smap_msg (smaps st mp) of
       None \<Rightarrow> None
     | Some m \<Rightarrow> map_option (\<lambda>(t, _).
         (1, st\<lparr>msg_tree := t, msgs := (msgs st)(m := (msgs st m)\<lparr>extra := None\<rparr>),
                smaps := (smaps st)(mp := (smaps st mp)\<lparr>smap_msg := None\<rparr>)\<rparr>))
         (del_msg_element (msg_tree st) (mcmd (msgs st m))))"

section \<open>Lookup by command\<close>

text \<open>An index of commands: what a lookup gives after an insertion, for names that are compared by \<open>same\<close>.\<close>

lemma find_SomeD: "List.find P xs = Some x \<Longrightarrow> x \<in> set xs \<and> P x"
  by (induction xs) (auto split: if_splits)

locale command_index =
  fixes find :: "'k \<Rightarrow> 't \<Rightarrow> 'm option" and add :: "'t \<Rightarrow> 'm \<Rightarrow> 'k \<Rightarrow> 't" and none :: 't
    and same :: "'k \<Rightarrow> 'k \<Rightarrow> bool"
  assumes find_none: "find w none = None"
    and find_add: "find w (add t m k) = (if same w k then Some m else find w t)"
begin

lemma find_added: "find w (fold (\<lambda>(m, k) t. add t m k) xs t) =
    (case List.find (\<lambda>(m, k). same w k) (rev xs) of Some (m, k) \<Rightarrow> Some m | None \<Rightarrow> find w t)"
proof (induction xs rule: rev_induct)
  case (snoc x xs)
  then show ?case by (cases x) (simp add: find_add split: option.splits)
qed simp

lemma find_in_table:
  assumes "\<And>m k m' k'. (m, k) \<in> set xs \<Longrightarrow> (m', k') \<in> set xs \<Longrightarrow> same w k \<Longrightarrow> same w k' \<Longrightarrow> m = m'"
  shows "find w (fold (\<lambda>(m, k) t. add t m k) xs none) = Some m \<longleftrightarrow> (\<exists>k. (m, k) \<in> set xs \<and> same w k)"
proof (cases "List.find (\<lambda>(m, k). same w k) (rev xs)")
  case None
  then have "\<not> (\<exists>k. (m, k) \<in> set xs \<and> same w k)" by (auto simp: find_None_iff)
  then show ?thesis using None by (simp add: find_added find_none)
next
  case (Some p)
  then obtain m' k' where p: "p = (m', k')" "(m', k') \<in> set xs" "same w k'" using find_SomeD [OF Some] by (cases p) auto
  then show ?thesis using Some assms by (auto simp: find_added)
qed

end

lemma find_empty_tree [simp]: "msg_tree_parse w empty_tree = None"
  by (cases w) (auto simp: empty_tree_def)

lemma find_add_element:
  "msg_tree_parse w (add_msg_element t m cmd) = (if list_all IsAlpha w \<and> map slot w = map slot cmd then Some m else msg_tree_parse w t)"
proof (induction cmd arbitrary: t w)
  case Nil
  then show ?case by (cases w) auto
next
  case (Cons c cmd)
  then show ?case by (cases w) (auto split: option.splits)
qed


interpretation mtree: command_index msg_tree_parse add_msg_element empty_tree
    "\<lambda>w k. list_all IsAlpha w \<and> map slot w = map slot k"
  by unfold_locales (simp_all add: find_add_element)

lemma init_loop_fold:
  "init_loop i ms (mt, tt) =
    (fold (\<lambda>(m, k) t. add_msg_element t m k) (zip [i..<i + length ms] (map mcmd ms)) mt,
     fold (\<lambda>(m, k) t. add_msg_element t m k) (zip [i..<i + length ms] (map mtok ms)) tt)"
proof (induction ms arbitrary: i mt tt)
  case (Cons m ms)
  have "[i..<i + length (m # ms)] = i # [i + 1..<i + 1 + length ms]" by (simp add: upt_rec)
  then show ?case using Cons by simp
qed simp

lemma find_in_list:
  assumes "distinct (map (map slot) ks)"
  shows "msg_tree_parse w (fold (\<lambda>(m, k) t. add_msg_element t m k) (zip [0..<length ks] ks) empty_tree) = Some i \<longleftrightarrow>
    i < length ks \<and> list_all IsAlpha w \<and> map slot w = map slot (ks ! i)"
proof -
  have z: "(m, k) \<in> set (zip [0..<length ks] ks) \<longleftrightarrow> m < length ks \<and> k = ks ! m" for m k
    by (auto simp: set_zip intro!: exI [of _ m])
  have "m = m'" if "m < length ks" "m' < length ks" "map slot (ks ! m) = map slot (ks ! m')" for m m'
    using assms that by (auto simp: distinct_conv_nth)
  then show ?thesis by (subst mtree.find_in_table) (auto simp: z)
qed

text \<open>Five bits tell the letters apart up to their case.\<close>

lemma alpha_slot:
  assumes "IsAlpha c"
  shows "of_char (ToLower c) = 96 + slot c"
proof -
  let ?n = "of_char c :: nat"
  consider "65 \<le> ?n" "?n \<le> 94" | "97 \<le> ?n" "?n \<le> 126"
    using assms by (auto simp: IsAlpha_iff in_range_def)
  then show ?thesis
  proof cases
    case 1
    then have n: "?n = 64 + (?n - 64)" "?n - 64 < 32" by simp_all
    then have "?n mod 32 = ?n - 64" by (intro mod_nat_eqI) (use 1 in presburger)+
    with n 1 show ?thesis by (simp add: ToLower_eq slot_def MAXPTRLEN_def)
  next
    case 2
    then have "?n mod 32 = ?n - 96" by (intro mod_nat_eqI) presburger+
    with 2 show ?thesis by (simp add: ToLower_eq slot_def MAXPTRLEN_def)
  qed
qed

lemma slot_eq: "IsAlpha c \<Longrightarrow> IsAlpha d \<Longrightarrow> slot c = slot d \<longleftrightarrow> ToLower c = ToLower d"
  using alpha_slot [of c] alpha_slot [of d] by (metis add_left_cancel of_char_eq_iff)

lemma msgtab_distinct: "distinct (map (map slot) (map mcmd msgtab))" "distinct (map (map slot) (map mtok msgtab))"
  by code_simp+

lemma msgtab_alpha: "list_all (\<lambda>m. list_all IsAlpha (mtok m)) msgtab"
  by code_simp

lemma alpha_code: "IsAlpha c \<longleftrightarrow> (let n = of_char c :: nat in 65 \<le> n \<and> n \<le> 94 \<or> 97 \<le> n \<and> n \<le> 126)"
proof
  assume "let n = of_char c :: nat in 65 \<le> n \<and> n \<le> 94 \<or> 97 \<le> n \<and> n \<le> 126"
  then consider "in_range (CHR ''A'') (CHR ''Z'') c \<or> in_range (CHR ''a'') (CHR ''z'') c"
    | n where "of_char c = n" "n \<in> {91, 92, 93, 94, 123, 124, 125, 126 :: nat}"
    unfolding in_range_def Let_def by (cases "of_char c \<in> {91, 92, 93, 94, 123, 124, 125, 126 :: nat}") auto
  then show "IsAlpha c"
  proof cases
    case 2
    have "c = d \<longleftrightarrow> of_char c = (of_char d :: nat)" for d by simp
    then have "\<exists>d \<in> {CHR ''{'', CHR ''|'', CHR ''}'', CHR ''~'', CHR ''['', CHR 0x5C, CHR '']'', CHR 0x5E}. c = d"
      by (rule iffD2 [OF bex_cong, OF refl]) (use 2 in auto)
    then show ?thesis by (auto simp: IsAlpha_iff)
  qed (unfold IsAlpha_iff, blast)
qed (auto simp: IsAlpha_iff in_range_def)

lemma IsAlpha_lower: "IsAlpha (ToLower c) \<longleftrightarrow> IsAlpha c"
  unfolding alpha_code ToLower_eq Let_def by auto

lemma slots_eq: "list_all IsAlpha w \<Longrightarrow> list_all IsAlpha k \<Longrightarrow> map slot w = map slot k \<longleftrightarrow> map ToLower w = map ToLower k"
proof (induction w arbitrary: k)
  case (Cons c w)
  then show ?case by (cases k) (auto simp: slot_eq)
qed simp

lemma lower_alpha: "map ToLower w = map ToLower k \<Longrightarrow> list_all IsAlpha w \<longleftrightarrow> list_all IsAlpha k"
proof (induction w arbitrary: k)
  case (Cons c w)
  then obtain d k' where k: "k = d # k'" "ToLower c = ToLower d" "map ToLower w = map ToLower k'" by (cases k) auto
  then have "IsAlpha c \<longleftrightarrow> IsAlpha d" using IsAlpha_lower by metis
  with Cons.IH [OF k(3)] k show ?case by simp
qed simp

lemma initmsgtree_find:
  "msg_tree_parse w (fst initmsgtree) = Some i \<longleftrightarrow> i < length msgtab \<and> list_all IsAlpha w \<and> map slot w = map slot (mcmd (msgtab ! i))"
  "msg_tree_parse w (snd initmsgtree) = Some i \<longleftrightarrow> i < length msgtab \<and> list_all IsAlpha w \<and> map slot w = map slot (mtok (msgtab ! i))"
  using find_in_list [OF msgtab_distinct(1), of w i] find_in_list [OF msgtab_distinct(2), of w i]
  by (auto simp: initmsgtree_def init_loop_fold)

text \<open>The slots of the underscore and of the characters below the letters are not those of a letter.\<close>

lemma msgtab_names: "list_all (\<lambda>m. list_all (\<lambda>c. IsAlpha c \<or> c = CHR ''_'') (mcmd m)) msgtab"
  by code_simp

lemma slots_alpha:
  assumes "list_all IsAlpha w" "list_all (\<lambda>c. IsAlpha c \<or> c = CHR ''_'') k" "map slot w = map slot k"
  shows "list_all IsAlpha k"
  using assms
proof (induction w arbitrary: k)
  case (Cons c w)
  then obtain d k' where k: "k = d # k'" "slot c = slot d" "map slot w = map slot k'" by (cases k) auto
  have "slot c \<noteq> slot (CHR ''_'')"
  proof
    assume "slot c = slot (CHR ''_'')"
    then have "slot c = 31" by (simp add: slot_def MAXPTRLEN_def)
    with alpha_slot [of c] Cons.prems(1) have "of_char (ToLower c) = (127 :: nat)" "IsAlpha (ToLower c)" by (simp_all add: IsAlpha_lower)
    then show False by (auto simp: IsAlpha_iff in_range_def)
  qed
  with Cons k show ?case by auto
qed simp


lemma eob_long_unknown: "msg_tree_parse ''END_OF_BURST'' (fst initmsgtree) = None" "msg_tree_parse ''EOB_ACK'' (fst initmsgtree) = None"
  by code_simp+

section \<open>Removal\<close>

lemma slot_less: "slot c < MAXPTRLEN"
  by (simp add: slot_def MAXPTRLEN_def)

lemma unused_node: "\<not> node_used t \<Longrightarrow> msg_tree_parse w t = None"
  using slot_less by (cases w) (auto simp: node_used_def list_ex_iff Option.is_none_def split: option.splits)

lemma del_element:
  "del_msg_element t cmd = Some (t', used) \<Longrightarrow>
    msg_tree_parse w t' = (if map slot w = map slot cmd then None else msg_tree_parse w t) \<and> (used \<longleftrightarrow> node_used t')"
proof (induction cmd arbitrary: t t' used w)
  case Nil
  then show ?case by (cases w) (auto simp: Let_def)
next
  case (Cons c cmd)
  then obtain n n' u where n: "pointers t (slot c) = Some n" "del_msg_element n cmd = Some (n', u)"
    "t' = MessageTree (tree_msg t) ((pointers t)(slot c := if u then Some n' else None))" "used \<longleftrightarrow> node_used t'"
    by (auto simp: Let_def split: option.splits)
  note IH = Cons.IH [OF n(2)]
  have u: "(case if u then Some n' else None of None \<Rightarrow> None | Some n \<Rightarrow> msg_tree_parse v n) = msg_tree_parse v n'" for v
    using IH [of v] unused_node [of n' v] by auto
  show ?case
  proof (cases w)
    case (Cons d v)
    then show ?thesis using IH [of v] n u [of v] by (cases "slot d = slot c") (simp_all del: option.case_eq_if)
  qed (simp add: n)
qed

lemma find_not_alpha: "\<not> list_all IsAlpha w \<Longrightarrow> msg_tree_parse w t = None"
  by (induction w t rule: msg_tree_parse.induct) (auto split: option.splits)

lemma find_same: "list_all IsAlpha w \<Longrightarrow> list_all IsAlpha k \<Longrightarrow> map slot w = map slot k \<Longrightarrow> msg_tree_parse w t = msg_tree_parse k t"
proof (induction w arbitrary: k t)
  case (Cons c w)
  then obtain d k' where "k = d # k'" "slot c = slot d" "map slot w = map slot k'" by (cases k) auto
  with Cons show ?case by (auto split: option.splits)
qed simp

lemma del_defined: "msg_tree_parse cmd t \<noteq> None \<Longrightarrow> \<exists>r. del_msg_element t cmd = Some r"
proof (induction cmd arbitrary: t)
  case (Cons c cmd)
  then obtain n where n: "pointers t (slot c) = Some n" "msg_tree_parse cmd n \<noteq> None" by (auto split: if_splits option.splits)
  from Cons.IH [OF n(2)] obtain r where "del_msg_element n cmd = Some r" by blast
  with n(1) show ?case by simp
qed (simp add: Let_def)

section \<open>Properties\<close>

text \<open>
  C20.  The tree that \<open>initmsgtree\<close> builds of the command table answers, for a word of letters in any case, exactly
  the command with that name, and the tree of tokens the command with that token.
\<close>

theorem command_lookup:
  "(msg_tree_parse w (fst initmsgtree) = Some i \<longleftrightarrow>
     i < length msgtab \<and> list_all IsAlpha w \<and> map ToLower w = map ToLower (mcmd (msgtab ! i))) \<and>
   (msg_tree_parse w (snd initmsgtree) = Some i \<longleftrightarrow>
     i < length msgtab \<and> list_all IsAlpha w \<and> map ToLower w = map ToLower (mtok (msgtab ! i)))"
proof -
  have a: "list_all IsAlpha (mtok (msgtab ! i))" "list_all (\<lambda>c. IsAlpha c \<or> c = CHR ''_'') (mcmd (msgtab ! i))" if "i < length msgtab"
    using msgtab_alpha msgtab_names that by (auto simp: list_all_length)
  have "map slot w = map slot (mcmd (msgtab ! i)) \<longleftrightarrow> map ToLower w = map ToLower (mcmd (msgtab ! i))" if "i < length msgtab" "list_all IsAlpha w"
    using slots_alpha [OF that(2) a(2) [OF that(1)]] slots_eq [OF that(2)] lower_alpha that(2) by blast
  then show ?thesis unfolding initmsgtree_find using slots_eq a(1) by auto
qed

text \<open>
  C34.  Registering a service mapping under a name of letters that no command uses makes that name, in any case, find
  the new message and changes no other lookup; while it is registered, no mapping with that name, in any case, can be registered, and the attempt
  changes nothing; removing the mapping restores every lookup.
\<close>

theorem mapping_roundtrip:
  assumes "msg_tree_parse (smap_command (smaps st mp)) (msg_tree st) = None" "list_all IsAlpha (smap_command (smaps st mp))"
  shows "\<exists>st1 st2. register_mapping mp st = (1, st1) \<and> unregister_mapping mp st1 = Some (1, st2) \<and>
    (\<forall>w. msg_tree_parse w (msg_tree st1) =
       (if list_all IsAlpha w \<and> map ToLower w = map ToLower (smap_command (smaps st mp)) then Some (next_msg st)
        else msg_tree_parse w (msg_tree st))) \<and>
    (\<forall>mp'. list_all IsAlpha (smap_command (smaps st1 mp')) \<longrightarrow> map ToLower (smap_command (smaps st1 mp')) = map ToLower (smap_command (smaps st mp)) \<longrightarrow>
       register_mapping mp' st1 = (0, st1)) \<and>
    (\<forall>w. msg_tree_parse w (msg_tree st2) = msg_tree_parse w (msg_tree st)) \<and>
    extra (msgs st1 (next_msg st)) = Some mp \<and> smap_msg (smaps st2 mp) = None"
proof -
  let ?c = "smap_command (smaps st mp)"
  define st1 where "st1 = snd (register_mapping mp st)"
  have r: "register_mapping mp st = (1, st1)" "msg_tree st1 = add_msg_element (msg_tree st) (next_msg st) ?c"
    "smap_msg (smaps st1 mp) = Some (next_msg st)" "mcmd (msgs st1 (next_msg st)) = ?c" "smap_command (smaps st1 mp) = ?c"
    "extra (msgs st1 (next_msg st)) = Some mp"
    using assms(1) by (simp_all add: register_mapping_def st1_def Let_def)
  have f: "msg_tree_parse w (msg_tree st1) = (if list_all IsAlpha w \<and> map slot w = map slot ?c then Some (next_msg st) else msg_tree_parse w (msg_tree st))" for w
    by (simp add: r(2) find_add_element)
  obtain t used where d: "del_msg_element (msg_tree st1) ?c = Some (t, used)" using del_defined [of ?c "msg_tree st1"] f [of ?c] assms(2) by auto
  define st2 where "st2 = snd (the (unregister_mapping mp st1))"
  have u: "unregister_mapping mp st1 = Some (1, st2)" "msg_tree st2 = t" "smap_msg (smaps st2 mp) = None"
    using f [of ?c] assms(2) d r by (simp_all add: unregister_mapping_def st2_def)
  have "msg_tree_parse w (msg_tree st) = None" if "map slot w = map slot ?c" for w
    using that assms find_not_alpha find_same by (cases "list_all IsAlpha w") metis+
  then have "msg_tree_parse w t = msg_tree_parse w (msg_tree st)" for w
    using del_element [OF d, of w] f [of w] by auto
  moreover have f2: "msg_tree_parse w (msg_tree st1) = (if list_all IsAlpha w \<and> map ToLower w = map ToLower ?c then Some (next_msg st) else msg_tree_parse w (msg_tree st))" for w
    using f [of w] slots_eq [OF _ assms(2), of w] by auto
  moreover have "register_mapping mp' st1 = (0, st1)"
    if "list_all IsAlpha (smap_command (smaps st1 mp'))" "map ToLower (smap_command (smaps st1 mp')) = map ToLower ?c" for mp'
    using f2 [of "smap_command (smaps st1 mp')"] that by (simp add: register_mapping_def)
  ultimately show ?thesis using r u by blast
qed

definition tables1 :: parse_tables where
  "tables1 = \<lparr>msgs = (\<lambda>i. msgtab ! i), next_msg = length msgtab, msg_tree = fst initmsgtree, tok_tree = snd initmsgtree,
     smaps = (\<lambda>_. \<lparr>smap_msg = None, smap_command = ''ChanServ'', smap_flags = 0\<rparr>)\<rparr>"

theorem mapping_roundtrip_witness:
  "\<exists>st1 st2. register_mapping 3 tables1 = (1, st1) \<and> unregister_mapping 3 st1 = Some (1, st2) \<and> register_mapping 3 st1 = (0, st1) \<and>
    msg_tree_parse ''CHANSERV'' (msg_tree st1) = Some (next_msg tables1) \<and> msg_tree_parse ''CHANSERV'' (msg_tree st2) = None"
proof -
  have n: "msg_tree_parse w (fst initmsgtree) = None" if "w \<in> {''ChanServ'', ''CHANSERV''}" for w
    using that by (elim insertE emptyE; hypsubst) code_simp+
  have a: "list_all IsAlpha ''ChanServ''" by code_simp
  have h: "msg_tree_parse (smap_command (smaps tables1 3)) (msg_tree tables1) = None" "list_all IsAlpha (smap_command (smaps tables1 3))"
    using n a by (simp_all add: tables1_def del: msg_tree_parse.simps list.pred_inject)
  have e: "list_all IsAlpha ''CHANSERV'' \<and> map ToLower ''CHANSERV'' = map ToLower ''ChanServ''" by code_simp
  from mapping_roundtrip [OF h] obtain st1 st2 where r: "register_mapping 3 tables1 = (1, st1)" "unregister_mapping 3 st1 = Some (1, st2)"
    "\<forall>w. msg_tree_parse w (msg_tree st1) = (if list_all IsAlpha w \<and> map ToLower w = map ToLower (smap_command (smaps tables1 3)) then Some (next_msg tables1) else msg_tree_parse w (msg_tree tables1))"
    "\<forall>mp'. list_all IsAlpha (smap_command (smaps st1 mp')) \<longrightarrow> map ToLower (smap_command (smaps st1 mp')) = map ToLower (smap_command (smaps tables1 3)) \<longrightarrow> register_mapping mp' st1 = (0, st1)"
    "\<forall>w. msg_tree_parse w (msg_tree st2) = msg_tree_parse w (msg_tree tables1)" by blast
  have "msg_tree_parse ''CHANSERV'' (msg_tree st1) = Some (next_msg tables1)" using r(3) e by (simp add: tables1_def del: msg_tree_parse.simps list.pred_inject list.map)
  moreover have "msg_tree_parse ''CHANSERV'' (msg_tree st2) = None" using r(5) n by (simp add: tables1_def del: msg_tree_parse.simps)
  moreover have "smap_command (smaps st1 3) = smap_command (smaps tables1 3)"
    using r(1) by (auto simp: register_mapping_def Let_def split: if_splits)
  then have "register_mapping 3 st1 = (0, st1)" using r(4) h(2) by (simp del: list.pred_inject list.map)
  ultimately show ?thesis using r(1,2) by blast
qed

end
