(* ===== verification/Parse.thy ===== *)
theory Parse
  imports MsgTree Hash Numnicks
begin

text \<open>
  The parsers of \<open>ircd/parse.c\<close>, \<open>parse_client\<close> and \<open>parse_server\<close>, up to the call of the handler.

  A pointer into the line is the suffix of the line it points to.  A character that a parser reads behind the
  terminator of the line is not defined by the line: \<open>at\<close> is \<open>None\<close> there, and so is the parser.  The result of a
  parser is the action it ends with: a return value, the call of a handler with its arguments, or the call of
  \<open>do_numeric\<close>.  The replies and messages it sends are collected in \<open>sent_out\<close>.
\<close>

section \<open>Parameters\<close>

text \<open>
  The loop that splits the rest of a line: \<open>i\<close> parameters are there already, \<open>colon\<close> says whether the colon of the
  last parameter is kept.
\<close>

function split_params :: "nat \<Rightarrow> bool \<Rightarrow> nat \<Rightarrow> string \<Rightarrow> string list" where
  "split_params paramcount colon i s =
    (let s1 = dropWhile (\<lambda>c. c = CHR '' '') s
     in if s1 = [] then []
        else if hd s1 = CHR '':'' then [if colon then s1 else tl s1]
        else if i + 1 \<ge> paramcount then [s1]
        else takeWhile (\<lambda>c. c \<noteq> CHR '' '') s1 # split_params paramcount colon (i + 1) (dropWhile (\<lambda>c. c \<noteq> CHR '' '') s1))"
  by pat_completeness auto
termination by (relation "measure (\<lambda>(paramcount, colon, i, s). paramcount - i)") auto

declare split_params.simps [simp del]

section \<open>State and actions\<close>

text \<open>A parameter is a part of the line or the \<open>extra\<close> pointer of the message.\<close>

datatype param = Text string | Extra "nat option"

datatype action =
    Return int
  | Handler string nat nat string "param list"
  | Do_numeric int bool nat nat string "string list"

datatype sending =
    Unknown_command nat string
  | Kill_unknown nat string
  | Protocol_violation nat string

record conn =
  cfrom :: nat
  dead :: bool
  is_user :: bool
  is_oper :: bool
  chandler :: HandlerType
  since :: int
  last :: int

record parse_state = parse_tables +
  ptables :: hash_state
  pnumerics :: nn_state
  conns :: "nat \<Rightarrow> conn"
  is_empt :: u32
  is_unco :: u32
  is_unpf :: u32
  is_wrdi :: u32
  is_num :: u32
  sent_out :: "sending list"

definition at :: "string \<Rightarrow> nat \<Rightarrow> char option" where
  "at s i = (if i < length s then Some (s ! i) else if i = length s then Some NUL else None)"

definition skip_blanks :: "string \<Rightarrow> string" where
  "skip_blanks s = dropWhile (\<lambda>c. c = CHR '' '') s"

definition to_blank :: "string \<Rightarrow> string" where
  "to_blank s = dropWhile (\<lambda>c. c \<noteq> CHR '' '') s"

definition word_of :: "string \<Rightarrow> string" where
  "word_of s = takeWhile (\<lambda>c. c \<noteq> CHR '' '') s"

definition pname :: "('a) parse_state_scheme \<Rightarrow> nat \<Rightarrow> string" where
  "pname st c = hash_state.cli_name (ptables st) c"

text \<open>The command word and, when a blank follows it, what comes after that blank.\<close>

definition cut_command :: "string \<Rightarrow> string \<times> string option" where
  "cut_command ch = (word_of ch, if CHR '' '' \<in> set ch then Some (tl (to_blank ch)) else None)"

definition paramcount_of :: "u32 \<Rightarrow> nat" where
  "paramcount_of n = (if n > MAXPARA then unat MAXPARA else unat n)"

section \<open>Lines of clients\<close>

text \<open>\<open>bufend - ((s) ? s : ch)\<close> for a buffer of \<open>len\<close> bytes.\<close>

definition rest_bytes :: "string \<Rightarrow> nat \<Rightarrow> string \<Rightarrow> int" where
  "rest_bytes buffer len p = int len - int (length buffer - length p)"

definition parse_client :: "int \<Rightarrow> bool \<Rightarrow> nat \<Rightarrow> string \<Rightarrow> nat \<Rightarrow> parse_state \<Rightarrow> action \<times> parse_state" where
  "parse_client now idle_from_msg cptr buffer len st =
    (if dead (conns st cptr) then (Return 0, st)
     else
       let ch0 = skip_blanks buffer;
           ch = (if deref ch0 = CHR '':'' then skip_blanks (to_blank (tl ch0)) else ch0)
       in if ch = [] then (Return (-1), st\<lparr>is_empt := is_empt st + 1\<rparr>)
          else
            let (cmd, s) = cut_command ch
            in case msg_tree_parse cmd (msg_tree st) of
                 None \<Rightarrow>
                   (Return (-1), st\<lparr>is_unco := is_unco st + 1,
                      sent_out := (if buffer \<noteq> [] \<and> is_user (conns st cptr) then sent_out st @ [Unknown_command cptr cmd] else sent_out st)\<rparr>)
               | Some m \<Rightarrow>
                   let mptr = msgs st m;
                       i = rest_bytes buffer len (case s of Some p \<Rightarrow> p | None \<Rightarrow> ch);
                       cl = conns st cptr;
                       cl1 = (if mflags mptr AND MFLG_SLOW \<noteq> 0 \<or> \<not> is_oper cl then cl\<lparr>since := since cl + (2 + i div 120)\<rparr> else cl);
                       first = (if mflags mptr AND MFLG_EXTRA \<noteq> 0 then [Extra (extra mptr)] else []);
                       rest = (case s of None \<Rightarrow> []
                               | Some p \<Rightarrow> split_params (paramcount_of (parameters mptr)) False (length first) p);
                       handler = handlers mptr (chandler cl);
                       cl2 = (if \<not> idle_from_msg \<and> is_user cl \<and> handler \<noteq> ''m_ping'' \<and> handler \<noteq> ''m_ignore''
                              then cl1\<lparr>last := now\<rparr> else cl1)
                   in (Handler handler cptr cptr (pname st cptr) (first @ map Text rest),
                       st\<lparr>conns := (conns st)(cptr := cl2),
                          msgs := (msgs st)(m := mptr\<lparr>mbytes := mbytes mptr + of_int i, mcount := mcount mptr + 1\<rparr>)\<rparr>))"

section \<open>Lines of servers\<close>

text \<open>
  The sender of a line: \<open>Inl\<close> is an early return; \<open>Inr\<close> has the sender, \<open>para[0]\<close> and the text behind the prefix.
  First the prefix of protocol 9 (\<open>ch\<close> starts with a colon), then the numeric prefix.
\<close>

definition find_client :: "string \<Rightarrow> parse_state \<Rightarrow> (nat option \<times> parse_state) option" where
  "find_client name st =
    (if name = [] then Some (None, st)
     else map_option (\<lambda>(h, r). (r, st\<lparr>ptables := h\<rparr>)) (hSeekClient (ptables st) name (NOT 0)))"

definition name_prefix :: "nat \<Rightarrow> string \<Rightarrow> parse_state \<Rightarrow> ((action + nat \<times> string \<times> string) \<times> parse_state) option" where
  "name_prefix cptr ch st =
    (if CHR '' '' \<notin> set ch then Some (Inl (Return (-1)), st)
     else
       let p0 = word_of (tl ch);
           ch1 = tl (to_blank ch)
       in case find_client p0 st of
            None \<Rightarrow> None
          | Some (None, st1) \<Rightarrow>
              let ch2 = skip_blanks ch1; st2 = st1\<lparr>is_unpf := is_unpf st1 + 1\<rparr>
              in map_option (\<lambda>c. if c = CHR ''Q'' then (Inr (cptr, pname st2 cptr, ch2), st2) else (Inl (Return 0), st2)) (at ch2 1)
          | Some (Some from, st1) \<Rightarrow>
              if cfrom (conns st1 from) \<noteq> cptr then Some (Inl (Return 0), st1\<lparr>is_wrdi := is_wrdi st1 + 1\<rparr>)
              else Some (Inr (from, p0, ch1), st1))"

text \<open>May a message of an unknown sender travel on?  An SQUIT, a DB message and a KILL may.\<close>

definition may_travel :: "string \<Rightarrow> bool option" where
  "may_travel ch = Option.bind (at ch 1) (\<lambda>c1.
     if c1 = CHR ''Q'' \<or> deref ch = CHR ''D'' \<and> c1 = CHR '' '' then Some True
     else if deref ch = CHR ''K'' then map_option (\<lambda>c2. c2 = CHR ''L'') (at ch 2)
     else Some False)"

definition numeric_prefix :: "nat \<Rightarrow> string \<Rightarrow> parse_state \<Rightarrow> ((action + nat \<times> string \<times> string) \<times> parse_state) option" where
  "numeric_prefix cptr ch st =
    (let pfx = word_of (take 5 ch)
     in case (if pfx = [] then Some (Some cptr, st\<lparr>sent_out := sent_out st @ [Protocol_violation cptr ''Missing Prefix'']\<rparr>)
              else if at ch 1 = Some (CHR '' '') then Some (FindNServer (pnumerics st) pfx, st)
              else map_option (\<lambda>c2. (if c2 = CHR '' '' then FindNServer (pnumerics st) pfx else findNUser (pnumerics st) pfx, st)) (at ch 2)) of
          None \<Rightarrow> None
        | Some (sender, st1) \<Rightarrow>
            if ch = [] then None
            else
              let ch1 = to_blank (tl ch)
              in case sender of
                   Some from \<Rightarrow>
                     if cfrom (conns st1 from) \<noteq> cptr then Some (Inl (Return 0), st1\<lparr>is_wrdi := is_wrdi st1 + 1\<rparr>)
                     else Some (Inr (from, pname st1 from, ch1), st1)
                 | None \<Rightarrow>
                     let ch2 = skip_blanks ch1;
                         nick = (deref ch2 = CHR ''N'' \<and> (deref (tl ch2) = CHR '' '' \<or> deref (tl ch2) = CHR ''I''));
                         kill = (nick \<and> (case FindNServer (pnumerics st1) pfx of
                                            Some server \<Rightarrow> cfrom (conns st1 server) = cptr | None \<Rightarrow> False));
                         st2 = st1\<lparr>is_unpf := is_unpf st1 + 1,
                                   sent_out := (if kill then sent_out st1 @ [Kill_unknown cptr pfx] else sent_out st1)\<rparr>
                     in case may_travel ch2 of
                          None \<Rightarrow> None
                        | Some False \<Rightarrow> Some (Inl (Return 0), st2)
                        | Some True \<Rightarrow>
                            if cfrom (conns st2 cptr) \<noteq> cptr then Some (Inl (Return 0), st2\<lparr>is_wrdi := is_wrdi st2 + 1\<rparr>)
                            else Some (Inr (cptr, pname st2 cptr, ch2), st2))"

text \<open>\<open>*ch - '0'\<close> for a signed \<open>char\<close>.\<close>

definition digit :: "char \<Rightarrow> int" where
  "digit c = (let n = of_char c in if n < 128 then n else n - 256) - 48"

text \<open>
  The command of a server's line: a numeric, or a message found by its token or else its name.  A numeric that
  amounts to 0 leads to the use of the null \<open>mptr\<close>.
\<close>

definition server_command :: "nat \<Rightarrow> string \<Rightarrow> nat \<Rightarrow> nat \<Rightarrow> string \<Rightarrow> string \<Rightarrow> parse_state \<Rightarrow> (action \<times> parse_state) option" where
  "server_command cptr buffer len from para0 ch st =
    (if ch = [] then Some (Return (-1), st\<lparr>is_empt := is_empt st + 1\<rparr>)
     else
       let (cmd, s) = cut_command ch
       in if s \<noteq> None \<and> length cmd = 3 \<and> IsDigit (hd cmd) then
            let numeric = digit (cmd ! 0) * 100 + digit (cmd ! 1) * 10 + digit (cmd ! 2)
            in if numeric = 0 then None
               else Some (Do_numeric numeric (deref buffer \<noteq> CHR '':'') cptr from para0 (split_params 2 True 0 (the s)),
                          st\<lparr>is_num := is_num st + 1\<rparr>)
          else
            case (case msg_tree_parse cmd (tok_tree st) of Some m \<Rightarrow> Some m | None \<Rightarrow> msg_tree_parse cmd (msg_tree st)) of
              None \<Rightarrow> Some (Return (-1), st\<lparr>is_unco := is_unco st + 1\<rparr>)
            | Some m \<Rightarrow>
                let mptr = msgs st m;
                    i = rest_bytes buffer len (case s of Some p \<Rightarrow> p | None \<Rightarrow> ch);
                    params = (case s of None \<Rightarrow> [] | Some p \<Rightarrow> split_params (paramcount_of (parameters mptr)) False 0 p)
                in Some (Handler (handlers mptr (chandler (conns st cptr))) cptr from para0 (map Text params),
                         st\<lparr>msgs := (msgs st)(m := mptr\<lparr>mbytes := mbytes mptr + of_int i, mcount := mcount mptr + 1\<rparr>)\<rparr>))"

definition parse_server :: "nat \<Rightarrow> string \<Rightarrow> nat \<Rightarrow> parse_state \<Rightarrow> (action \<times> parse_state) option" where
  "parse_server cptr buffer len st =
    (if dead (conns st cptr) then Some (Return 0, st)
     else
       case (if deref buffer = CHR '':'' then name_prefix cptr buffer st else numeric_prefix cptr buffer st) of
         None \<Rightarrow> None
       | Some (Inl a, st1) \<Rightarrow> Some (a, st1)
       | Some (Inr (from, para0, ch), st1) \<Rightarrow> server_command cptr buffer len from para0 (skip_blanks ch) st1)"

section \<open>Parameters\<close>

definition middle :: "string \<Rightarrow> bool" where
  "middle p \<longleftrightarrow> p \<noteq> [] \<and> hd p \<noteq> CHR '':'' \<and> CHR '' '' \<notin> set p"

text \<open>The text of the parameters of a message, the last one behind a colon.\<close>

definition param_text :: "string list \<Rightarrow> string \<Rightarrow> string" where
  "param_text ps trailing = concat (map (\<lambda>p. p @ '' '') ps) @ CHR '':'' # trailing"

lemma split_bounded: "length (split_params n colon i s) \<le> max 1 (n - i)"
proof (induction n colon i s rule: split_params.induct)
  case (1 n colon i s)
  let ?s1 = "dropWhile (\<lambda>c. c = CHR '' '') s"
  show ?case
  proof (cases "?s1 = [] \<or> hd ?s1 = CHR '':'' \<or> i + 1 \<ge> n")
    case True
    then show ?thesis by (subst split_params.simps) (auto simp: Let_def)
  next
    case False
    with 1 [OF refl] show ?thesis by (subst split_params.simps) (simp add: Let_def)
  qed
qed

lemma blank_scan:
  assumes "middle p"
  shows "dropWhile (\<lambda>c. c = CHR '' '') (p @ s) = p @ s" "takeWhile (\<lambda>c. c \<noteq> CHR '' '') (p @ CHR '' '' # s) = p"
    "dropWhile (\<lambda>c. c \<noteq> CHR '' '') (p @ CHR '' '' # s) = CHR '' '' # s"
proof -
  show "dropWhile (\<lambda>c. c = CHR '' '') (p @ s) = p @ s" using assms by (cases p) (auto simp: middle_def)
  have "\<And>c. c \<in> set p \<Longrightarrow> c \<noteq> CHR '' ''" using assms by (auto simp: middle_def)
  then show "takeWhile (\<lambda>c. c \<noteq> CHR '' '') (p @ CHR '' '' # s) = p" "dropWhile (\<lambda>c. c \<noteq> CHR '' '') (p @ CHR '' '' # s) = CHR '' '' # s"
    by (auto simp: takeWhile_append2 dropWhile_append2)
qed

lemma split_skips: "split_params n colon i (CHR '' '' # s) = split_params n colon i s"
  by (subst (1 2) split_params.simps) simp

lemma split_text:
  "list_all middle ps \<Longrightarrow> i + length ps < n \<Longrightarrow> split_params n False i (param_text ps trailing) = ps @ [trailing]"
proof (induction ps arbitrary: i)
  case Nil
  then show ?case by (simp add: param_text_def split_params.simps [of n])
next
  case (Cons p ps)
  then have m: "middle p" by simp
  then have p: "p \<noteq> []" "hd (p @ t) \<noteq> CHR '':''" for t by (auto simp: middle_def)
  have e: "param_text (p # ps) trailing = p @ CHR '' '' # param_text ps trailing" by (simp add: param_text_def)
  have "split_params n False i (param_text (p # ps) trailing) = p # split_params n False (i + 1) (param_text ps trailing)"
    unfolding e using Cons.prems p by (subst split_params.simps) (simp add: blank_scan [OF m] Let_def split_skips)
  with Cons show ?case by simp
qed

lemma split_at_limit:
  "list_all middle ps \<Longrightarrow> i + length ps + 1 = n \<Longrightarrow> middle p \<Longrightarrow>
    split_params n False i (concat (map (\<lambda>p. p @ '' '') ps) @ p @ s) = ps @ [p @ s]"
proof (induction ps arbitrary: i)
  case Nil
  then have "p \<noteq> []" "hd (p @ s) \<noteq> CHR '':''" by (auto simp: middle_def)
  with Nil show ?case by (subst split_params.simps) (simp add: blank_scan Let_def)
next
  case (Cons q ps)
  then have m: "middle q" by simp
  then have q: "q \<noteq> []" "hd (q @ t) \<noteq> CHR '':''" for t by (auto simp: middle_def)
  have "split_params n False i (q @ CHR '' '' # concat (map (\<lambda>p. p @ '' '') ps) @ p @ s) =
      q # split_params n False (i + 1) (concat (map (\<lambda>p. p @ '' '') ps) @ p @ s)"
    using Cons.prems q by (subst split_params.simps) (simp add: blank_scan [OF m] Let_def split_skips)
  with Cons show ?case by simp
qed

lemma paramcount_bound: "paramcount_of n \<le> 15"
  by (simp add: paramcount_of_def MAXPARA_def word_less_nat_alt unat_arith_simps)

section \<open>Senders\<close>

lemma name_prefix_sender:
  assumes "name_prefix cptr ch st = Some (Inr (from, p0, r), st')" "cfrom (conns st cptr) = cptr"
  shows "cfrom (conns st from) = cptr \<and> conns st' = conns st"
  using assms by (auto simp: name_prefix_def find_client_def Let_def split: if_splits option.splits)

lemma numeric_prefix_sender:
  assumes "numeric_prefix cptr ch st = Some (Inr (from, p0, r), st')" "cfrom (conns st cptr) = cptr"
  shows "cfrom (conns st from) = cptr \<and> conns st' = conns st"
  using assms by (auto simp: numeric_prefix_def Let_def split: if_splits option.splits bool.splits)

lemma prefix_never_calls:
  "name_prefix cptr ch st = Some (Inl a, st') \<Longrightarrow> \<exists>r. a = Return r"
  "numeric_prefix cptr ch st = Some (Inl a, st') \<Longrightarrow> \<exists>r. a = Return r"
  by (auto simp: name_prefix_def numeric_prefix_def Let_def split: if_splits option.splits bool.splits)

lemma server_command_calls:
  assumes "server_command cptr buffer len from p0 ch st = Some (a, st')"
  shows "(\<exists>r. a = Return r) \<or> (\<exists>h ps. a = Handler h cptr from p0 (map Text ps) \<and> length ps \<le> 15) \<or>
    (\<exists>n b ps. a = Do_numeric n b cptr from p0 ps \<and> length ps \<le> 2)"
proof -
  have l: "length (split_params (paramcount_of n) False 0 s) \<le> 15" "length (split_params 2 True 0 s) \<le> 2" for n s
    using split_bounded [of "paramcount_of n" False 0 s] paramcount_bound [of n] split_bounded [of 2 True 0 s] by auto
  show ?thesis using assms l unfolding server_command_def cut_command_def Let_def
    by (auto split: if_splits option.splits)
qed

text \<open>
  C4.  Whatever a linked server sends, a handler or \<open>do_numeric\<close> is called only for a sender that is reached through the
  link the line came from, and with at most \<open>MAXPARA\<close> parameters, so that \<open>para\<close> is not overrun.
\<close>

theorem server_sender_behind_link:
  assumes "cfrom (conns st cptr) = cptr" "parse_server cptr buffer len st = Some (a, st')"
  shows "(\<exists>r. a = Return r) \<or>
    (\<exists>h from p0 ps. a = Handler h cptr from p0 (map Text ps) \<and> cfrom (conns st from) = cptr \<and> length ps \<le> 15) \<or>
    (\<exists>n b from p0 ps. a = Do_numeric n b cptr from p0 ps \<and> cfrom (conns st from) = cptr \<and> length ps \<le> 2)"
proof (cases "dead (conns st cptr)")
  case True
  with assms show ?thesis by (auto simp: parse_server_def)
next
  case False
  then obtain r st1 where r: "(if deref buffer = CHR '':'' then name_prefix cptr buffer st else numeric_prefix cptr buffer st) = Some (r, st1)"
    using assms(2) by (auto simp: parse_server_def split: option.splits if_splits)
  show ?thesis
  proof (cases r)
    case (Inl x)
    with r False assms(2) have "a = x" unfolding parse_server_def by simp
    with r Inl prefix_never_calls show ?thesis by (metis (no_types))
  next
    case (Inr y)
    obtain src p0 ch where y: "y = (src, p0, ch)" by (cases y)
    from r Inr y assms(1) have "cfrom (conns st src) = cptr" using name_prefix_sender numeric_prefix_sender by (metis (no_types))
    moreover have c: "server_command cptr buffer len src p0 (skip_blanks ch) st1 = Some (a, st')"
      using r Inr y False assms(2) unfolding parse_server_def by simp
    ultimately show ?thesis using server_command_calls [OF c] by auto
  qed
qed

section \<open>Whole lines\<close>

lemma alpha_word: "list_all IsAlpha cmd \<Longrightarrow> CHR '' '' \<notin> set cmd \<and> CHR '':'' \<notin> set cmd"
  by (auto simp: list_all_iff IsAlpha_iff in_range_def)

lemma found_alpha: "msg_tree_parse cmd t = Some m \<Longrightarrow> list_all IsAlpha cmd"
  using find_not_alpha by fastforce

lemma to_blank_append: "CHR '' '' \<notin> set p \<Longrightarrow> to_blank (p @ CHR '' '' # s) = CHR '' '' # s"
  unfolding to_blank_def by (induction p) auto

lemma cut_word: "CHR '' '' \<notin> set cmd \<Longrightarrow> cut_command (cmd @ CHR '' '' # s) = (cmd, Some s)"
proof -
  assume "CHR '' '' \<notin> set cmd"
  then have "\<And>c. c \<in> set cmd \<Longrightarrow> c \<noteq> CHR '' ''" by auto
  then show ?thesis by (simp add: cut_command_def word_of_def to_blank_def takeWhile_append2 dropWhile_append2)
qed

lemma line_start: "list_all IsAlpha cmd \<Longrightarrow> cmd \<noteq> [] \<Longrightarrow> skip_blanks (cmd @ s) = cmd @ s \<and> deref (cmd @ s) \<noteq> CHR '':'' \<and> hd cmd \<noteq> CHR '' ''"
  using alpha_word [of cmd] by (cases cmd) (auto simp: skip_blanks_def)

text \<open>
  C17.  A line of a client with a known command in any case, middle parameters and a last one behind a colon calls the
  command's handler for the client's state with exactly these parameters, counts the message and charges the client.
\<close>

theorem client_line_parsed:
  assumes "\<not> dead (conns st cptr)" "cmd \<noteq> []" "msg_tree_parse cmd (msg_tree st) = Some m" "mflags (msgs st m) AND MFLG_EXTRA = 0"
    "list_all middle ps" "length ps < paramcount_of (parameters (msgs st m))" "line = cmd @ CHR '' '' # param_text ps trailing"
  shows "\<exists>st'. parse_client now idle cptr line (length line) st =
      (Handler (handlers (msgs st m) (chandler (conns st cptr))) cptr cptr (pname st cptr) (map Text (ps @ [trailing])), st') \<and>
    mcount (msgs st' m) = mcount (msgs st m) + 1 \<and> sent_out st' = sent_out st \<and>
    since (conns st' cptr) = since (conns st cptr) +
      (if mflags (msgs st m) AND MFLG_SLOW \<noteq> 0 \<or> \<not> is_oper (conns st cptr)
       then 2 + int (length (param_text ps trailing)) div 120 else 0)"
proof -
  note a = found_alpha [OF assms(3)]
  have b: "CHR '' '' \<notin> set cmd" using alpha_word [OF a] by simp
  have n: "line \<noteq> []" using assms(2,7) by simp
  have l: "skip_blanks line = line" "deref line \<noteq> CHR '':''" using line_start [OF a assms(2)] assms(7) by simp_all
  have r: "rest_bytes line (length line) (param_text ps trailing) = int (length (param_text ps trailing))"
    by (simp add: rest_bytes_def assms(7))
  show ?thesis
    unfolding parse_client_def l(1) Let_def using assms(1) l(2) n
    by (simp add: assms(3,4) cut_word [OF b] assms(7) [symmetric] flip: assms(7)) (simp add: assms(7) cut_word [OF b] assms(3,4) split_text assms(5,6) rest_bytes_def)
qed

lemma numeric_prefix_known:
  assumes "CHR '' '' \<notin> set pfx" "pfx \<noteq> []" "length pfx \<le> 5"
    "(if length pfx \<le> 2 then FindNServer (pnumerics st) pfx else findNUser (pnumerics st) pfx) = Some u"
    "cfrom (conns st u) = cptr"
  shows "numeric_prefix cptr (pfx @ CHR '' '' # s) st = Some (Inr (u, pname st u, CHR '' '' # s), st)"
proof -
  let ?ch = "pfx @ CHR '' '' # s"
  have b: "\<And>c. c \<in> set pfx \<Longrightarrow> c \<noteq> CHR '' ''" using assms(1) by auto
  have w: "word_of (take 5 ?ch) = pfx"
  proof (cases "length pfx = 5")
    case True
    then have "take 5 ?ch = pfx" by simp
    then show ?thesis using b by (simp add: word_of_def takeWhile_eq_all_conv)
  next
    case False
    then have "take 5 ?ch = pfx @ CHR '' '' # take (4 - length pfx) s" using assms(3) by (simp add: take_Cons' numeral_eq_Suc)
    then show ?thesis using b by (simp add: word_of_def takeWhile_append2)
  qed
  have t: "to_blank (tl ?ch) = CHR '' '' # s"
    using assms(1,2) to_blank_append by (cases pfx) auto
  have a: "at ?ch i = Some (CHR '' '') \<longleftrightarrow> i = length pfx" if "i \<le> length pfx" for i
    using that b nth_mem [of i pfx] by (auto simp: at_def nth_append)
  have d: "\<exists>c. at ?ch i = Some c" if "i \<le> length pfx" for i using that by (simp add: at_def)
  have 1: "at ?ch 1 = Some (CHR '' '') \<longleftrightarrow> length pfx = 1" using a [of 1] assms(2) by (cases pfx) auto
  show ?thesis
  proof (cases "length pfx = 1")
    case True
    then show ?thesis using assms 1 w t unfolding numeric_prefix_def by (simp add: Let_def)
  next
    case False
    then have l: "2 \<le> length pfx" using assms(2) by (cases pfx) (auto simp: Suc_le_eq)
    obtain c2 where c2: "at ?ch 2 = Some c2" using d [OF l] by blast
    have "c2 = CHR '' '' \<longleftrightarrow> length pfx = 2" using a [OF l] c2 by auto
    then show ?thesis using assms 1 w t c2 False l unfolding numeric_prefix_def by (simp add: Let_def)
  qed
qed

text \<open>
  C16.  A line of a server with the numeric of a known sender behind that link, a token, middle parameters and a last one
  calls the handler for servers with that sender and exactly these parameters.
\<close>

theorem server_line_parsed:
  assumes "\<not> dead (conns st cptr)" "CHR '' '' \<notin> set pfx" "pfx \<noteq> []" "hd pfx \<noteq> CHR '':''" "length pfx \<le> 5"
    "(if length pfx \<le> 2 then FindNServer (pnumerics st) pfx else findNUser (pnumerics st) pfx) = Some u" "cfrom (conns st u) = cptr"
    "cmd \<noteq> []" "msg_tree_parse cmd (tok_tree st) = Some m"
    "list_all middle ps" "length ps < paramcount_of (parameters (msgs st m))"
    "line = pfx @ CHR '' '' # cmd @ CHR '' '' # param_text ps trailing"
  shows "\<exists>st'. parse_server cptr line (length line) st =
      Some (Handler (handlers (msgs st m) (chandler (conns st cptr))) cptr u (pname st u) (map Text (ps @ [trailing])), st') \<and>
    mcount (msgs st' m) = mcount (msgs st m) + 1 \<and> sent_out st' = sent_out st"
proof -
  note a = found_alpha [OF assms(9)]
  have b: "CHR '' '' \<notin> set cmd" using alpha_word [OF a] by simp
  let ?r = "cmd @ CHR '' '' # param_text ps trailing"
  have p: "numeric_prefix cptr line st = Some (Inr (u, pname st u, CHR '' '' # ?r), st)"
    unfolding assms(12) by (rule numeric_prefix_known [OF assms(2,3,5,6,7)])
  have c: "deref line \<noteq> CHR '':''" using assms(3,4,12) by (cases pfx) auto
  have s: "skip_blanks (CHR '' '' # ?r) = ?r" using line_start [OF a assms(8)] by (simp add: skip_blanks_def)
  have n: "?r \<noteq> []" "\<not> IsDigit (hd cmd)" using a assms(8) by (cases cmd; auto simp: IsAlpha_iff IsDigit_iff in_range_def)+
  have "\<exists>st'. server_command cptr line (length line) u (pname st u) ?r st =
      Some (Handler (handlers (msgs st m) (chandler (conns st cptr))) cptr u (pname st u) (map Text (ps @ [trailing])), st') \<and>
    mcount (msgs st' m) = mcount (msgs st m) + 1 \<and> sent_out st' = sent_out st"
    unfolding server_command_def Let_def cut_word [OF b] using n assms(9-11) by (simp add: split_text)
  then show ?thesis unfolding parse_server_def using assms(1) p c s by simp
qed

definition pstate0 :: parse_state where
  "pstate0 = \<lparr>msgs = (\<lambda>i. msgtab ! i), next_msg = 91, msg_tree = empty_tree, tok_tree = add_msg_element empty_tree 0 ''P'',
     smaps = (\<lambda>_. \<lparr>smap_msg = None, smap_command = ''ChanServ'', smap_flags = 0\<rparr>),
     ptables = \<lparr>crc32hash = [], clientTable = \<lparr>heads = (\<lambda>_. None), hnext = (\<lambda>n. Some n)\<rparr>,
       channelTable = \<lparr>heads = (\<lambda>_. None), hnext = (\<lambda>n. Some n)\<rparr>, monitorTable = \<lparr>heads = (\<lambda>_. None), hnext = (\<lambda>n. Some n)\<rparr>,
       cli_name = (\<lambda>_. ''Bob''), cli_status = (\<lambda>_. 32), chname = (\<lambda>_. ''#irc''), mo_nick = (\<lambda>_. ''Bob'')\<rparr>,
     pnumerics = \<lparr>server_list = [Some 1], lastNNServer = 1, last_nn = 0,
       servers = [1 \<mapsto> \<lparr>cli_name = ''irc.example.net'', cli_yxx = ''AA'', nn_capacity = ''AAB'', nn_mask = 1, client_list = [None, Some 9]\<rparr>],
       user_yxx = (\<lambda>_. ''AAB'')\<rparr>,
     conns = (\<lambda>_. \<lparr>cfrom = 5, dead = False, is_user = False, is_oper = False, chandler = SERVER_HANDLER, since = 0, last = 0\<rparr>),
     is_empt = 0, is_unco = 0, is_unpf = 0, is_wrdi = 0, is_num = 0, sent_out = []\<rparr>"

definition pstate1 :: parse_state where
  "pstate1 = pstate0\<lparr>msg_tree := fst initmsgtree, tok_tree := snd initmsgtree\<rparr>"

lemma pstate1_simps:
  "findNUser (pnumerics pstate1) ''AAAAB'' = Some 9" "conns pstate1 c = \<lparr>cfrom = 5, dead = False, is_user = False, is_oper = False, chandler = SERVER_HANDLER, since = 0, last = 0\<rparr>"
  "msg_tree_parse ''P'' (tok_tree pstate1) = Some 0" "parameters (msgs pstate1 0) = 15" "handlers (msgs pstate1 0) SERVER_HANDLER = ''ms_privmsg''"
  "msg_tree_parse ''privmsg'' (msg_tree pstate1) = Some 0" "mflags (msgs pstate1 0) AND MFLG_EXTRA = 0"
proof -
  have 0: "msgs pstate1 0 = command ''PRIVMSG'' ''P'' MAXPARA MFLG_SLOW ''m_unregistered'' ''m_privmsg'' ''ms_privmsg'' ''mo_privmsg'' ''m_ignore''"
    by (simp only: pstate1_def pstate0_def parse_tables.simps msgtab_def msgtab_1_def append_Cons nth_Cons_0)
  have "findNUser (pnumerics pstate0) ''AAAAB'' = Some 9" by code_simp
  then show "findNUser (pnumerics pstate1) ''AAAAB'' = Some 9" by (simp add: pstate1_def)
  have t: "tok_tree pstate1 = snd initmsgtree" "msg_tree pstate1 = fst initmsgtree" by (simp_all add: pstate1_def)
  show "msg_tree_parse ''P'' (tok_tree pstate1) = Some 0" unfolding t by code_simp
  show "msg_tree_parse ''privmsg'' (msg_tree pstate1) = Some 0" unfolding t by code_simp
  show "parameters (msgs pstate1 0) = 15" "handlers (msgs pstate1 0) SERVER_HANDLER = ''ms_privmsg''" "mflags (msgs pstate1 0) AND MFLG_EXTRA = 0"
    unfolding 0 by (simp_all add: command_def MAXPARA_def MFLG_SLOW_def MFLG_EXTRA_def)
qed (simp add: pstate1_def pstate0_def)

theorem client_line_parsed_witness:
  "\<exists>st'. parse_client 0 False 5 ''privmsg #irc :hello all'' (length ''privmsg #irc :hello all'') pstate1 =
      (Handler ''ms_privmsg'' 5 5 (pname pstate1 5) [Text ''#irc'', Text ''hello all''], st')"
proof -
  have l: "''privmsg #irc :hello all'' = ''privmsg'' @ CHR '' '' # param_text [''#irc''] ''hello all''" by (simp add: param_text_def)
  have m: "list_all middle [''#irc'']" "length [''#irc''] < paramcount_of (parameters (msgs pstate1 0))"
    by (simp_all add: middle_def pstate1_simps paramcount_of_def MAXPARA_def)
  have d: "\<not> dead (conns pstate1 5)" "''privmsg'' \<noteq> []" by (simp_all add: pstate1_simps)
  from client_line_parsed [OF d pstate1_simps(6,7) m l, of 0 False] show ?thesis by (auto simp: pstate1_simps)
qed

theorem server_line_parsed_witness:
  "\<exists>st'. parse_server 5 ''AAAAB P #irc :hello all'' (length ''AAAAB P #irc :hello all'') pstate1 =
      Some (Handler ''ms_privmsg'' 5 9 (pname pstate1 9) [Text ''#irc'', Text ''hello all''], st')"
proof -
  have l: "''AAAAB P #irc :hello all'' = ''AAAAB'' @ CHR '' '' # ''P'' @ CHR '' '' # param_text [''#irc''] ''hello all''" by (simp add: param_text_def)
  have m: "list_all middle [''#irc'']" "length [''#irc''] < paramcount_of (parameters (msgs pstate1 0))"
    by (simp_all add: middle_def pstate1_simps paramcount_of_def MAXPARA_def)
  have d: "\<not> dead (conns pstate1 5)" "CHR '' '' \<notin> set ''AAAAB''" "''AAAAB'' \<noteq> []" "hd ''AAAAB'' \<noteq> CHR '':''" "length ''AAAAB'' \<le> 5"
    "(if length ''AAAAB'' \<le> 2 then FindNServer (pnumerics pstate1) ''AAAAB'' else findNUser (pnumerics pstate1) ''AAAAB'') = Some 9"
    "cfrom (conns pstate1 9) = 5" "''P'' \<noteq> []"
    by (simp_all add: pstate1_simps)
  from server_line_parsed [OF d pstate1_simps(3) m l] show ?thesis by (auto simp: pstate1_simps)
qed

theorem server_sender_behind_link_witness:
  "\<exists>a st'. parse_server 5 ''AAAAB P #irc :hello all'' (length ''AAAAB P #irc :hello all'') pstate0 = Some (a, st') \<and>
    ((\<exists>r. a = Return r) \<or> (\<exists>h src p0 ps. a = Handler h 5 src p0 (map Text ps) \<and> cfrom (conns pstate0 src) = 5 \<and> length ps \<le> 15) \<or>
     (\<exists>n b src p0 ps. a = Do_numeric n b 5 src p0 ps \<and> cfrom (conns pstate0 src) = 5 \<and> length ps \<le> 2))"
proof -
  have d: "cfrom (conns pstate0 5) = 5" by (simp add: pstate0_def)
  have "parse_server 5 ''AAAAB P #irc :hello all'' (length ''AAAAB P #irc :hello all'') pstate0 \<noteq> None" by code_simp
  then obtain a st' where p: "parse_server 5 ''AAAAB P #irc :hello all'' (length ''AAAAB P #irc :hello all'') pstate0 = Some (a, st')" by auto
  from server_sender_behind_link [OF d p] p show ?thesis by auto
qed

text \<open>The numeric 000 of a server, and a line that is only a prefix of one character.\<close>

lemma numeric_zero_crashes: "parse_server 5 ''AAAAB 000 Bob :x'' 16 pstate0 = None"
  by code_simp

lemma short_prefix_overread: "parse_server 5 ''A'' 1 pstate0 = None"
  by code_simp

section \<open>Lines that call no handler\<close>














end
