(* ===== verification/Packet.thy ===== *)
theory Packet
  imports Chattr
begin

text \<open>
  The splitting of received data into lines, from \<open>ircd/packet.c\<close>.

  \<open>pbuf\<close> holds the bytes of \<open>con_buffer\<close> before \<open>cli_count\<close>, and a store behind its \<open>con_buffer_size\<close> bytes is \<open>None\<close>.
  What parsing a line does to the rest of the server is the argument \<open>parse\<close>: it takes the bytes of the line and the
  state of the server to what has become of the connection and the new state.
\<close>

definition con_buffer_size :: nat where "con_buffer_size = 512"

text \<open>
  What has become of the connection after a line: \<open>parse_client\<close> or \<open>parse_server\<close> returned \<open>CPTR_KILLED\<close>, the
  connection is dead, it has become a server, or it goes on.
\<close>

datatype fate = Killed | Dead | Now_server | Alive

text \<open>The end of a packet: \<open>CPTR_KILLED\<close>, the result of \<open>exit_client\<close>, or 1.\<close>

datatype packet_end = Cptr_killed | Exit_client | Done

record 's connection =
  pbuf :: string
  world :: 's
  receiveB :: "64 word"
  receiveB_me :: "64 word"
  receiveM :: u32
  receiveM_me :: u32

definition update_bytes_received :: "nat \<Rightarrow> 's connection \<Rightarrow> 's connection" where
  "update_bytes_received len p = p\<lparr>receiveB_me := receiveB_me p + of_nat len, receiveB := receiveB p + of_nat len\<rparr>"

definition update_messages_received :: "'s connection \<Rightarrow> 's connection" where
  "update_messages_received p = p\<lparr>receiveM_me := receiveM_me p + 1, receiveM := receiveM p + 1\<rparr>"

text \<open>One line is parsed: it counts as a message and the parser runs on the state of the server.\<close>

definition parse_line :: "(string \<Rightarrow> 's \<Rightarrow> fate \<times> 's) \<Rightarrow> 's connection \<Rightarrow> fate \<times> 's connection" where
  "parse_line parse p = (case parse (pbuf p) (world p) of (f, s) \<Rightarrow> (f, (update_messages_received p)\<lparr>world := s\<rparr>))"

fun server_loop :: "(string \<Rightarrow> 's \<Rightarrow> fate \<times> 's) \<Rightarrow> string \<Rightarrow> 's connection \<Rightarrow> (packet_end \<times> 's connection) option" where
  "server_loop parse [] p = Some (Done, p)"
| "server_loop parse (c # src) p =
    (if length (pbuf p) \<ge> con_buffer_size then None
     else if IsEol c then
       if pbuf p = [] then server_loop parse src p
       else (case parse_line parse p of
               (Killed, p1) \<Rightarrow> Some (Cptr_killed, p1)
             | (Dead, p1) \<Rightarrow> Some (Exit_client, p1)
             | (_, p1) \<Rightarrow> server_loop parse src (p1\<lparr>pbuf := []\<rparr>))
     else server_loop parse src (p\<lparr>pbuf := pbuf p @ [c]\<rparr>))"

definition server_dopacket :: "(string \<Rightarrow> 's \<Rightarrow> fate \<times> 's) \<Rightarrow> string \<Rightarrow> 's connection \<Rightarrow> (packet_end \<times> 's connection) option" where
  "server_dopacket parse_server buffer p = server_loop parse_server buffer (update_bytes_received (length buffer) p)"

fun connect_loop :: "(string \<Rightarrow> 's \<Rightarrow> fate \<times> 's) \<Rightarrow> (string \<Rightarrow> 's \<Rightarrow> fate \<times> 's) \<Rightarrow> string \<Rightarrow> 's connection \<Rightarrow> (packet_end \<times> 's connection) option" where
  "connect_loop parse_client parse_server [] p = Some (Done, p)"
| "connect_loop parse_client parse_server (c # src) p =
    (if length (pbuf p) \<ge> con_buffer_size then None
     else if IsEol c then
       if pbuf p = [] then connect_loop parse_client parse_server src p
       else (case parse_line parse_client p of
               (Killed, p1) \<Rightarrow> Some (Cptr_killed, p1)
             | (Dead, p1) \<Rightarrow> Some (Exit_client, p1)
             | (Now_server, p1) \<Rightarrow> server_dopacket parse_server src (p1\<lparr>pbuf := []\<rparr>)
             | (Alive, p1) \<Rightarrow> connect_loop parse_client parse_server src (p1\<lparr>pbuf := []\<rparr>))
     else connect_loop parse_client parse_server src (p\<lparr>pbuf := pbuf p @ [c]\<rparr>))"

definition connect_dopacket :: "(string \<Rightarrow> 's \<Rightarrow> fate \<times> 's) \<Rightarrow> (string \<Rightarrow> 's \<Rightarrow> fate \<times> 's) \<Rightarrow> string \<Rightarrow> 's connection \<Rightarrow> (packet_end \<times> 's connection) option" where
  "connect_dopacket parse_client parse_server buffer p =
    connect_loop parse_client parse_server buffer (update_bytes_received (length buffer) p)"

text \<open>\<open>client_dopacket\<close> finds its line in the buffer, where \<open>dbuf_getmsg\<close> has put it.\<close>

definition client_dopacket :: "(string \<Rightarrow> 's \<Rightarrow> fate \<times> 's) \<Rightarrow> nat \<Rightarrow> 's connection \<Rightarrow> packet_end \<times> 's connection" where
  "client_dopacket parse_client len p = (case parse_line parse_client (update_bytes_received len p) of
     (Killed, p1) \<Rightarrow> (Cptr_killed, p1)
   | (Dead, p1) \<Rightarrow> (Exit_client, p1)
   | (_, p1) \<Rightarrow> (Done, p1))"

section \<open>Lines\<close>

text \<open>The lines of a text: what stands between its line ends, the last one being still open.\<close>

fun split_lines :: "string \<Rightarrow> string list" where
  "split_lines [] = [[]]"
| "split_lines (c # s) = (if IsEol c then [] # split_lines s else (c # hd (split_lines s)) # tl (split_lines s))"

lemma split_lines_nonempty [simp]: "split_lines s \<noteq> []"
  by (cases s) auto

lemma split_lines_append: "list_all (\<lambda>c. \<not> IsEol c) b \<Longrightarrow> split_lines (b @ s) = (b @ hd (split_lines s)) # tl (split_lines s)"
  by (induction b) auto

lemma server_loop_append:
  "server_loop parse (xs @ ys) p = Option.bind (server_loop parse xs p) (\<lambda>(r, p'). if r = Done then server_loop parse ys p' else Some (r, p'))"
  by (induction parse xs p rule: server_loop.induct) (auto split: fate.splits prod.splits)

lemma server_loop_bytes:
  "server_loop parse src (update_bytes_received n p) = map_option (\<lambda>(r, p'). (r, update_bytes_received n p')) (server_loop parse src p)"
proof (induction parse src p rule: server_loop.induct)
  case (2 parse c src p)
  have [simp]: "parse_line parse (update_bytes_received n p) = (case parse_line parse p of (f, p') \<Rightarrow> (f, update_bytes_received n p'))"
    "(update_bytes_received n p)\<lparr>pbuf := b\<rparr> = update_bytes_received n (p\<lparr>pbuf := b\<rparr>)"
    "pbuf (update_bytes_received n p) = pbuf p" for n b and p :: "'a connection"
    by (auto simp: parse_line_def update_bytes_received_def update_messages_received_def split: prod.splits)
  show ?case using 2 by (auto split: fate.splits prod.splits)
qed simp

lemma server_loop_open:
  "list_all (\<lambda>c. \<not> IsEol c) l \<Longrightarrow> length (pbuf p) + length l \<le> con_buffer_size \<Longrightarrow> server_loop parse l p = Some (Done, p\<lparr>pbuf := pbuf p @ l\<rparr>)"
proof (induction l arbitrary: p)
  case (Cons c l)
  from Cons.IH [of "p\<lparr>pbuf := pbuf p @ [c]\<rparr>"] Cons.prems show ?case by simp
qed simp

text \<open>The parsing of the lines one after the other, while the connection goes on.\<close>

definition run_lines :: "(string \<Rightarrow> 's \<Rightarrow> fate \<times> 's) \<Rightarrow> string list \<Rightarrow> 's \<Rightarrow> 's" where
  "run_lines parse ls s = fold (\<lambda>l s. snd (parse l s)) (filter (\<lambda>l. l \<noteq> []) ls) s"

lemma server_loop_lines:
  assumes "\<And>l s. fst (parse l s) = Alive" "list_all (\<lambda>c. \<not> IsEol c) (pbuf p)" "\<forall>l \<in> set (split_lines (pbuf p @ src)). length l < con_buffer_size"
  shows "\<exists>p'. server_loop parse src p = Some (Done, p') \<and> pbuf p' = List.last (split_lines (pbuf p @ src)) \<and>
    world p' = run_lines parse (butlast (split_lines (pbuf p @ src))) (world p) \<and>
    receiveM p' = receiveM p + of_nat (length (filter (\<lambda>l. l \<noteq> []) (butlast (split_lines (pbuf p @ src))))) \<and>
    receiveB p' = receiveB p"
  using assms(2,3)
proof (induction src arbitrary: p)
  case Nil
  then show ?case using split_lines_append [OF Nil(1), of "[]"] by (simp add: run_lines_def)
next
  case (Cons c src)
  have l: "length (pbuf p) < con_buffer_size" using Cons.prems split_lines_append [OF Cons.prems(1), of "c # src"] by auto
  show ?case
  proof (cases "IsEol c")
    case False
    let ?p = "p\<lparr>pbuf := pbuf p @ [c]\<rparr>"
    from Cons.IH [of ?p] Cons.prems False l show ?thesis by simp
  next
    case True
    have s: "split_lines (pbuf p @ c # src) = pbuf p # split_lines src" using split_lines_append [OF Cons.prems(1)] True by simp
    obtain s' where f: "parse (pbuf p) (world p) = (Alive, s')" using assms(1) by (metis prod.collapse)
    show ?thesis
    proof (cases "pbuf p = []")
      case e: True
      from Cons.IH [of p] Cons.prems True e s show ?thesis using l by (simp add: run_lines_def)
    next
      case False
      let ?p = "(update_messages_received p)\<lparr>world := s', pbuf := []\<rparr>"
      from Cons.IH [of ?p] Cons.prems(2) s obtain p' where p': "server_loop parse src ?p = Some (Done, p')" "pbuf p' = List.last (split_lines src)"
        "world p' = run_lines parse (butlast (split_lines src)) s'"
        "receiveM p' = receiveM p + 1 + of_nat (length (filter (\<lambda>l. l \<noteq> []) (butlast (split_lines src))))" "receiveB p' = receiveB p"
        by (auto simp: update_messages_received_def)
      then show ?thesis using s f False True l by (simp add: parse_line_def run_lines_def)
    qed
  qed
qed

section \<open>Properties\<close>

text \<open>
  C30.  While the connection lives and no line is longer than 511 bytes, \<open>server_dopacket\<close> parses the nonempty lines
  of the pending bytes and the packet in order, each once, counts them, and keeps the open line at the end.
\<close>

theorem packet_lines:
  assumes "\<forall>l s. fst (parse l s) = Alive" "list_all (\<lambda>c. \<not> IsEol c) (pbuf p)" "\<forall>l \<in> set (split_lines (pbuf p @ src)). length l < con_buffer_size"
  shows "\<exists>p'. server_dopacket parse src p = Some (Done, p') \<and> pbuf p' = List.last (split_lines (pbuf p @ src)) \<and>
    world p' = run_lines parse (butlast (split_lines (pbuf p @ src))) (world p) \<and>
    receiveM p' = receiveM p + of_nat (length (filter (\<lambda>l. l \<noteq> []) (butlast (split_lines (pbuf p @ src))))) \<and>
    receiveB p' = receiveB p + of_nat (length src)"
  using server_loop_lines [of parse "update_bytes_received (length src) p" src] assms
  by (auto simp: server_dopacket_def update_bytes_received_def)

theorem packet_lines_witness:
  "\<exists>p' :: string list connection. server_dopacket (\<lambda>l s. (Alive, s @ [l])) (''K :x'' @ [CHR 0x0A, CHR 0x0A] @ ''AB'') \<lparr>pbuf = ''PI'', world = [], receiveB = 0, receiveB_me = 0, receiveM = 0, receiveM_me = 0\<rparr> = Some (Done, p') \<and>
    pbuf p' = ''AB'' \<and> world p' = [''PIK :x''] \<and> receiveM p' = 1"
proof -
  let ?p = "\<lparr>pbuf = ''PI'', world = [], receiveB = 0, receiveB_me = 0, receiveM = 0, receiveM_me = 0\<rparr> :: string list connection"
  let ?parse = "\<lambda>l s. (Alive, s @ [l])"
  have s: "split_lines (''PI'' @ (''K :x'' @ [CHR 0x0A, CHR 0x0A] @ ''AB'')) = [''PIK :x'', [], ''AB'']" by code_simp
  have a: "\<forall>l s. fst (?parse l s) = Alive" by simp
  have e: "list_all (\<lambda>c. \<not> IsEol c) (pbuf ?p)" by simp code_simp
  have l: "\<forall>l \<in> set (split_lines (pbuf ?p @ (''K :x'' @ [CHR 0x0A, CHR 0x0A] @ ''AB''))). length l < con_buffer_size"
    unfolding connection.simps s by (simp add: con_buffer_size_def)
  from packet_lines [OF a e l] show ?thesis unfolding connection.simps s by (auto simp: run_lines_def)
qed

text \<open>
  C31.  How the network cuts the data into packets does not matter: two packets, one after the other, are
  handled like the one made of both, as long as the first does not end the connection.
\<close>

theorem packet_boundaries:
  assumes "server_dopacket parse xs p = Some (Done, p')"
  shows "server_dopacket parse ys p' = server_dopacket parse (xs @ ys) p"
proof -
  have u: "update_bytes_received (m + n) q = update_bytes_received n (update_bytes_received m q)" for m n and q :: "'a connection"
    by (simp add: update_bytes_received_def)
  have "server_loop parse xs (update_bytes_received (length (xs @ ys)) p) = Some (Done, update_bytes_received (length ys) p')"
    using assms unfolding server_dopacket_def length_append u server_loop_bytes [of _ _ "length ys"] by simp
  then show ?thesis by (simp add: server_dopacket_def server_loop_append)
qed

theorem packet_boundaries_witness:
  "\<exists>p'. server_dopacket (\<lambda>l s. (Alive, s @ [l])) ''PI'' \<lparr>pbuf = [], world = [], receiveB = 0, receiveB_me = 0, receiveM = 0, receiveM_me = 0\<rparr> = Some (Done, p') \<and>
    server_dopacket (\<lambda>l s. (Alive, s @ [l])) (''NG'' @ [CHR 0x0A]) p' =
      server_dopacket (\<lambda>l s. (Alive, s @ [l])) (''PI'' @ ''NG'' @ [CHR 0x0A]) \<lparr>pbuf = [], world = [], receiveB = 0, receiveB_me = 0, receiveM = 0, receiveM_me = 0\<rparr>"
proof -
  let ?p = "\<lparr>pbuf = [], world = [], receiveB = 0, receiveB_me = 0, receiveM = 0, receiveM_me = 0\<rparr> :: string list connection"
  have "list_all (\<lambda>c. \<not> IsEol c) ''PI''" by code_simp
  then have d: "server_dopacket (\<lambda>l s. (Alive, s @ [l])) ''PI'' ?p = Some (Done, (update_bytes_received 2 ?p)\<lparr>pbuf := ''PI''\<rparr>)"
    unfolding server_dopacket_def by (subst server_loop_open) (simp_all add: con_buffer_size_def update_bytes_received_def)
  from packet_boundaries [OF d, of "''NG'' @ [CHR 0x0A]"] d show ?thesis by blast
qed

text \<open>A line of 512 bytes makes the loop store its end behind the buffer.\<close>

lemma long_line_overruns:
  assumes "length l = con_buffer_size" "list_all (\<lambda>c. \<not> IsEol c) l" "pbuf p = []"
  shows "server_dopacket parse (l @ [c]) p = None"
  using server_loop_open [OF assms(2), of "update_bytes_received (length (l @ [c])) p" parse] assms(1,3)
  by (simp add: server_dopacket_def server_loop_append update_bytes_received_def)

end
