(* ===== verification/Whowas.thy ===== *)
theory Whowas
  imports IrcdString Dlink
begin

text \<open>
  The nick history of \<open>ircd/whowas.c\<close>.

  An entry is known by its address.  Its data are in \<open>info\<close>; its links are kept field by field: \<open>hash_chain\<close> holds
  \<open>whowashash\<close>, \<open>hnext\<close> and \<open>hprevnextp\<close>, \<open>client_chain\<close> holds \<open>cli_whowas\<close>, \<open>cnext\<close> and \<open>cprevnextp\<close>, and \<open>wnext\<close>,
  \<open>wprev\<close> link the list of all entries.  A pointer to a pointer (\<open>hprevnextp\<close>, \<open>cprevnextp\<close>) is the place it points
  to: a list head or the next field of an entry.  Following a null pointer is \<open>None\<close>.
\<close>

section \<open>Chains with pointers to the previous next field\<close>

datatype cell = Head nat | Next nat

record chains =
  heads :: "nat \<Rightarrow> nat option"
  nexts :: "nat \<Rightarrow> nat option"
  prevnextp :: "nat \<Rightarrow> cell option"

definition store :: "cell \<Rightarrow> nat option \<Rightarrow> chains \<Rightarrow> chains" where
  "store p v c = (case p of Head h \<Rightarrow> c\<lparr>heads := (heads c)(h := v)\<rparr> | Next y \<Rightarrow> c\<lparr>nexts := (nexts c)(y := v)\<rparr>)"

definition chain_unlink :: "nat \<Rightarrow> chains \<Rightarrow> chains option" where
  "chain_unlink w c =
    (let c1 = (case nexts c w of Some y \<Rightarrow> c\<lparr>prevnextp := (prevnextp c)(y := prevnextp c w)\<rparr> | None \<Rightarrow> c)
     in map_option (\<lambda>p. store p (nexts c1 w) c1) (prevnextp c1 w))"

definition chain_link :: "nat \<Rightarrow> nat \<Rightarrow> chains \<Rightarrow> chains" where
  "chain_link h w c =
    (let c1 = c\<lparr>nexts := (nexts c)(w := heads c h)\<rparr>;
         c2 = (case heads c h of Some y \<Rightarrow> c1\<lparr>prevnextp := (prevnextp c1)(y := Some (Next w))\<rparr> | None \<Rightarrow> c1)
     in c2\<lparr>prevnextp := (prevnextp c2)(w := Some (Head h)), heads := (heads c2)(h := Some w)\<rparr>)"

definition chain_zero :: "nat \<Rightarrow> chains \<Rightarrow> chains" where
  "chain_zero w c = c\<lparr>nexts := (nexts c)(w := None), prevnextp := (prevnextp c)(w := None)\<rparr>"

section \<open>The history\<close>

record entry =
  hashv :: nat
  name :: string
  username :: string
  hostname :: string
  realhost :: "string option"
  servername :: string
  realname :: string
  away :: "string option"
  logoff :: int
  online :: "nat option"

record history =
  info :: "nat \<Rightarrow> entry"
  hash_chain :: chains
  client_chain :: chains
  wnext :: "nat \<Rightarrow> nat option"
  wprev :: "nat \<Rightarrow> nat option"
  ww_list :: "nat option"
  ww_tail :: "nat option"
  ww_alloc :: u32
  fresh :: nat

definition zero_entry :: entry where
  "zero_entry = \<lparr>hashv = 0, name = [], username = [], hostname = [], realhost = None, servername = [], realname = [],
     away = None, logoff = 0, online = None\<rparr>"

definition WW_MAX :: nat where "WW_MAX = 128"

text \<open>An empty name is outside the domain: the loop steps over its terminator.\<close>

fun whowas_hash_loop :: "u32 \<Rightarrow> u32 \<Rightarrow> string \<Rightarrow> u32 \<times> u32" where
  "whowas_hash_loop h h2 [] = (h, h2)"
| "whowas_hash_loop h h2 (c # n) =
    (let lower = of_char (ToLower c) in whowas_hash_loop (push_bit 1 h + lower) (drop_bit 1 h2 + lower) n)"

definition hash_whowas_name :: "string \<Rightarrow> nat" where
  "hash_whowas_name n = (case whowas_hash_loop 0 0 n of (h, h2) \<Rightarrow> unat (push_bit 3 (h AND 15) + (h2 AND 7)))"

definition unlink_list :: "nat \<Rightarrow> history \<Rightarrow> history" where
  "unlink_list w st =
    (let st1 = (case wnext st w of Some n \<Rightarrow> st\<lparr>wprev := (wprev st)(n := wprev st w)\<rparr> | None \<Rightarrow> st);
         st2 = (case wprev st1 w of Some p \<Rightarrow> st1\<lparr>wnext := (wnext st1)(p := wnext st1 w)\<rparr> | None \<Rightarrow> st1)
     in if ww_tail st2 = Some w then st2\<lparr>ww_tail := wprev st2 w\<rparr> else st2)"

definition whowas_clean :: "nat \<Rightarrow> history \<Rightarrow> history option" where
  "whowas_clean w st =
    Option.bind (if online (info st w) \<noteq> None then chain_unlink w (client_chain st) else Some (client_chain st)) (\<lambda>cc.
    Option.bind (chain_unlink w (hash_chain st)) (\<lambda>hc.
      Some (unlink_list w (st\<lparr>client_chain := cc, hash_chain := hc\<rparr>))))"

definition whowas_free :: "nat \<Rightarrow> history \<Rightarrow> history option" where
  "whowas_free w st = map_option (\<lambda>st1. st1\<lparr>ww_alloc := ww_alloc st1 - 1\<rparr>) (whowas_clean w st)"

text \<open>\<open>len\<close> is the setting \<open>FEAT_NICKNAMEHISTORYLENGTH\<close>; without an entry to reclaim the assertion fails.\<close>

definition whowas_alloc :: "u32 \<Rightarrow> history \<Rightarrow> (nat \<times> history) option" where
  "whowas_alloc len st =
    map_option (\<lambda>(w, st1). (w, st1\<lparr>info := (info st1)(w := zero_entry), hash_chain := chain_zero w (hash_chain st1),
        client_chain := chain_zero w (client_chain st1), wnext := (wnext st1)(w := None), wprev := (wprev st1)(w := None)\<rparr>))
      (if ww_alloc st \<ge> len
       then (case ww_tail st of None \<Rightarrow> None | Some w \<Rightarrow> map_option (\<lambda>st1. (w, st1)) (whowas_clean w st))
       else Some (fresh st, st\<lparr>ww_alloc := ww_alloc st + 1, fresh := fresh st + 1\<rparr>))"

partial_function (option) whowas_realloc :: "u32 \<Rightarrow> history \<Rightarrow> history option" where
  "whowas_realloc len st =
    (if ww_alloc st > len
     then (case ww_tail st of None \<Rightarrow> Some st | Some w \<Rightarrow> Option.bind (whowas_free w st) (whowas_realloc len))
     else Some st)"

text \<open>The fields of the client that \<open>add_history\<close> copies; \<open>crealhost\<close> is given when the client has a hidden host.\<close>

record client_info =
  cname :: string
  cusername :: string
  chost :: string
  crealhost :: "string option"
  cservername :: string
  cinfo :: string
  caway :: "string option"

definition entry_of :: "int \<Rightarrow> nat option \<Rightarrow> client_info \<Rightarrow> entry" where
  "entry_of now on ci = \<lparr>hashv = hash_whowas_name (cname ci), name = cname ci, username = cusername ci, hostname = chost ci,
     realhost = crealhost ci, servername = cservername ci, realname = cinfo ci, away = caway ci, logoff = now, online = on\<rparr>"

definition link_list :: "nat \<Rightarrow> history \<Rightarrow> history" where
  "link_list w st =
    (let st1 = st\<lparr>wnext := (wnext st)(w := ww_list st)\<rparr>;
         st2 = (case ww_list st1 of Some n \<Rightarrow> st1\<lparr>wprev := (wprev st1)(n := Some w)\<rparr> | None \<Rightarrow> st1);
         st3 = st2\<lparr>ww_list := Some w\<rparr>
     in if ww_tail st3 = None then st3\<lparr>ww_tail := Some w\<rparr> else st3)"

definition add_history :: "u32 \<Rightarrow> int \<Rightarrow> client_info \<Rightarrow> nat \<Rightarrow> bool \<Rightarrow> history \<Rightarrow> history option" where
  "add_history len now ci cptr still_on st =
    map_option (\<lambda>(w, st1).
      let st2 = st1\<lparr>info := (info st1)(w := entry_of now (if still_on then Some cptr else None) ci)\<rparr>;
          st3 = (if still_on then st2\<lparr>client_chain := chain_link cptr w (client_chain st2)\<rparr> else st2);
          st4 = link_list w st3
      in st4\<lparr>hash_chain := chain_link (hash_whowas_name (cname ci)) w (hash_chain st4)\<rparr>)
      (whowas_alloc len st)"

partial_function (option) off_loop :: "nat option \<Rightarrow> history \<Rightarrow> history option" where
  "off_loop p st = (case p of
     None \<Rightarrow> Some st
   | Some w \<Rightarrow> off_loop (nexts (client_chain st) w) (st\<lparr>info := (info st)(w := (info st w)\<lparr>online := None\<rparr>)\<rparr>))"

definition off_history :: "nat \<Rightarrow> history \<Rightarrow> history option" where
  "off_history cptr st = off_loop (heads (client_chain st) cptr) st"

text \<open>\<open>limit\<close> is the setting \<open>FEAT_KILLCHASETIMELIMIT\<close>.\<close>

definition get_history :: "int \<Rightarrow> int \<Rightarrow> string \<Rightarrow> history \<Rightarrow> nat option option" where
  "get_history now limit nick st =
    (let timelimit = now - limit
     in map_option (\<lambda>r. Option.bind r (\<lambda>w. online (info st w)))
          (walk (\<lambda>w. Some (ircd_strcmp nick (name (info st w)) = 0 \<and> logoff (info st w) > timelimit))
             (nexts (hash_chain st)) (heads (hash_chain st) (hash_whowas_name nick))))"

definition initwhowas :: "history \<Rightarrow> history" where
  "initwhowas st = st\<lparr>hash_chain := (hash_chain st)\<lparr>heads := (\<lambda>h. if h < WW_MAX then None else heads (hash_chain st) h)\<rparr>\<rparr>"

section \<open>Chains as lists\<close>

definition before :: "chains \<Rightarrow> nat \<Rightarrow> nat option" where
  "before c w = (case prevnextp c w of Some (Next y) \<Rightarrow> Some y | _ \<Rightarrow> None)"

definition chain :: "chains \<Rightarrow> nat \<Rightarrow> nat list \<Rightarrow> bool" where
  "chain c h xs \<longleftrightarrow> dll (nexts c) (before c) (heads c h) xs \<and>
    (\<forall>x \<in> set xs. prevnextp c x \<noteq> None \<and> (\<forall>k. prevnextp c x = Some (Head k) \<longrightarrow> k = h))"

lemma chain_cong:
  assumes "heads c' h = heads c h" "\<And>x. x \<in> set xs \<Longrightarrow> nexts c' x = nexts c x \<and> prevnextp c' x = prevnextp c x"
  shows "chain c' h xs \<longleftrightarrow> chain c h xs"
proof -
  have "dll (nexts c') (before c') (heads c' h) xs \<longleftrightarrow> dll (nexts c) (before c) (heads c h) xs"
    unfolding assms(1) by (rule dll_cong) (simp add: before_def assms(2))
  then show ?thesis using assms(2) by (auto simp: chain_def)
qed

lemma dseg_no_self: "dseg nx pv p h xs \<Longrightarrow> distinct xs \<Longrightarrow> x \<in> set xs \<Longrightarrow> nx x \<noteq> Some x"
proof (induction xs arbitrary: p h)
  case (Cons y ys)
  then show ?case by (cases ys) auto
qed simp

lemma chain_unlink_ok:
  assumes c: "chain c h xs" and w: "w \<in> set xs"
  shows "\<exists>c'. chain_unlink w c = Some c' \<and> chain c' h (remove1 w xs) \<and>
    (\<forall>k. k \<noteq> h \<longrightarrow> heads c' k = heads c k) \<and> (\<forall>x. x \<notin> set xs \<longrightarrow> nexts c' x = nexts c x \<and> prevnextp c' x = prevnextp c x)"
proof -
  have d: "dll (nexts c) (before c) (heads c h) xs" and r: "\<And>x. x \<in> set xs \<Longrightarrow> prevnextp c x \<noteq> None"
    "\<And>x k. x \<in> set xs \<Longrightarrow> prevnextp c x = Some (Head k) \<Longrightarrow> k = h" using c by (auto simp: chain_def)
  obtain p where p: "prevnextp c w = Some p" using r(1) [OF w] by auto
  have nw: "nexts c w \<noteq> Some w" using dseg_no_self [of "nexts c" "before c" None "heads c h" xs w] d w by (simp add: dll_def)
  define c1 where "c1 = (case nexts c w of Some y \<Rightarrow> c\<lparr>prevnextp := (prevnextp c)(y := prevnextp c w)\<rparr> | None \<Rightarrow> c)"
  have c1: "nexts c1 = nexts c" "heads c1 = heads c" "prevnextp c1 x = (if nexts c w = Some x then Some p else prevnextp c x)" for x
    by (auto simp: c1_def p split: option.splits)
  define c' where "c' = store p (nexts c w) c1"
  have u: "chain_unlink w c = Some c'" using nw by (simp add: chain_unlink_def c1_def [symmetric] Let_def c1 p c'_def)
  have c': "prevnextp c' = prevnextp c1" "nexts c' = unlink_next (nexts c) (before c) w" "heads c' h = unlink_head (nexts c) (before c) (heads c h) w"
    "\<And>k. k \<noteq> h \<Longrightarrow> heads c' k = heads c k"
    using p r(2) [OF w] by (cases p; auto simp: c'_def store_def c1 unlink_next_def unlink_head_def before_def link_prev_def)+
  have b: "before c' = unlink_prev (nexts c) (before c) w"
    by (rule ext) (auto simp: before_def c' c1 unlink_prev_def p)
  have n: "nexts c w = Some y \<Longrightarrow> y \<in> set xs" for y using dseg_next [of "nexts c" "before c" None "heads c h" xs w] d w by (auto simp: dll_def)
  have v: "before c w = Some y \<Longrightarrow> y \<in> set xs" for y using dseg_prev [of "nexts c" "before c" None "heads c h" xs w] d w by (auto simp: dll_def)
  have "chain c' h (remove1 w xs)"
    unfolding chain_def b c'(2,3) using dll_unlink [OF d w] r p w by (auto simp: c' c1 dest: notin_set_remove1 split: if_splits)
  moreover have "nexts c' x = nexts c x \<and> prevnextp c' x = prevnextp c x" if "x \<notin> set xs" for x
    using that n v by (auto simp: c' c1 unlink_next_def)
  ultimately show ?thesis using u c'(4) by blast
qed

lemma chain_link_ok:
  assumes c: "chain c h xs" and w: "w \<notin> set xs"
  shows "chain (chain_link h w c) h (w # xs) \<and> (\<forall>k. k \<noteq> h \<longrightarrow> heads (chain_link h w c) k = heads c k) \<and>
    (\<forall>x. x \<notin> set (w # xs) \<longrightarrow> nexts (chain_link h w c) x = nexts c x \<and> prevnextp (chain_link h w c) x = prevnextp c x)"
proof -
  have d: "dll (nexts c) (before c) (heads c h) xs" using c by (simp add: chain_def)
  have f: "nexts (chain_link h w c) = (nexts c)(w := heads c h)" "heads (chain_link h w c) = (heads c)(h := Some w)"
    "prevnextp (chain_link h w c) x = (if x = w then Some (Head h) else if heads c h = Some x then Some (Next w) else prevnextp c x)" for x
    by (auto simp: chain_link_def Let_def split: option.splits)
  have b: "before (chain_link h w c) = (link_prev (before c) (heads c h) (Some w))(w := None)"
    by (rule ext) (auto simp: before_def f)
  have hx: "heads c h = Some y \<Longrightarrow> y \<in> set xs" for y using d by (cases xs) (auto simp: dll_def)
  have "chain (chain_link h w c) h (w # xs)"
    unfolding chain_def b f(1,2) using dll_push [OF d w] c by (auto simp: chain_def f)
  then show ?thesis using hx by (auto simp: f)
qed

section \<open>A family of chains over one list\<close>

definition family :: "nat set \<Rightarrow> chains \<Rightarrow> (nat \<Rightarrow> nat option) \<Rightarrow> nat list \<Rightarrow> bool" where
  "family K c f W \<longleftrightarrow> (\<forall>h \<in> K. chain c h (filter (\<lambda>w. f w = Some h) W))"

lemma filter_remove1: "filter P (remove1 x xs) = (if P x then remove1 x (filter P xs) else filter P xs)"
  by (induction xs) auto

lemma family_unlink:
  assumes "family K c f W" "w \<in> set W" "f w = Some h" "h \<in> K"
  shows "\<exists>c'. chain_unlink w c = Some c' \<and> family K c' f (remove1 w W)"
proof -
  let ?L = "\<lambda>h. filter (\<lambda>w. f w = Some h) W"
  have "chain c h (?L h)" "w \<in> set (?L h)" using assms by (auto simp: family_def)
  from chain_unlink_ok [OF this] obtain c' where c': "chain_unlink w c = Some c'" "chain c' h (remove1 w (?L h))"
    "\<And>k. k \<noteq> h \<Longrightarrow> heads c' k = heads c k" "\<And>x. x \<notin> set (?L h) \<Longrightarrow> nexts c' x = nexts c x \<and> prevnextp c' x = prevnextp c x" by blast
  have "chain c' k (filter (\<lambda>w. f w = Some k) (remove1 w W))" if "k \<in> K" for k
  proof (cases "k = h")
    case True
    with c'(2) assms(3) show ?thesis by (simp add: filter_remove1)
  next
    case False
    then have "chain c' k (?L k) \<longleftrightarrow> chain c k (?L k)" by (intro chain_cong) (use c'(3,4) in auto)
    with False that assms(1,3) show ?thesis by (auto simp: family_def filter_remove1)
  qed
  with c'(1) show ?thesis by (auto simp: family_def)
qed

lemma family_link:
  assumes "family K c f W" "w \<notin> set W" "f' w = Some h" "h \<in> K" "\<And>x. x \<in> set W \<Longrightarrow> f' x = f x"
  shows "family K (chain_link h w c) f' (w # W)"
proof -
  have e: "filter (\<lambda>x. f' x = Some k) W = filter (\<lambda>x. f x = Some k) W" for k using assms(5) by (simp cong: filter_cong)
  have "chain c h (filter (\<lambda>x. f x = Some h) W)" "w \<notin> set (filter (\<lambda>x. f x = Some h) W)" using assms by (auto simp: family_def)
  note l = chain_link_ok [OF this]
  have "chain (chain_link h w c) k (filter (\<lambda>x. f' x = Some k) (w # W))" if "k \<in> K" for k
  proof (cases "k = h")
    case True
    with l assms(3) show ?thesis by (simp add: e)
  next
    case False
    then have "chain (chain_link h w c) k (filter (\<lambda>x. f x = Some k) W) \<longleftrightarrow> chain c k (filter (\<lambda>x. f x = Some k) W)"
      by (intro chain_cong) (use l assms(2) in auto)
    with False that assms(1,3) show ?thesis by (simp add: e family_def)
  qed
  then show ?thesis by (simp add: family_def)
qed

lemma family_cong:
  assumes "family K c f W" "heads c' = heads c" "\<And>x. x \<in> set W \<Longrightarrow> nexts c' x = nexts c x \<and> prevnextp c' x = prevnextp c x \<and> f' x = f x"
  shows "family K c' f' W"
proof -
  have e: "filter (\<lambda>x. f' x = Some k) W = filter (\<lambda>x. f x = Some k) W" for k using assms(3) by (simp cong: filter_cong)
  have "chain c' k (filter (\<lambda>x. f x = Some k) W) \<longleftrightarrow> chain c k (filter (\<lambda>x. f x = Some k) W)" for k
    by (rule chain_cong) (use assms in auto)
  with assms(1) show ?thesis by (simp add: family_def e)
qed

section \<open>The state\<close>

text \<open>
  \<open>W\<close> lists the entries, the newest first, and \<open>A\<close> is the set of clients that are online.  All the links are
  determined by \<open>W\<close>: the chain of a hash value or of a client has the entries of \<open>W\<close> that belong to it, in the same order.
\<close>

definition wrep :: "history \<Rightarrow> nat set \<Rightarrow> nat list \<Rightarrow> bool" where
  "wrep st A W \<longleftrightarrow> dll (wnext st) (wprev st) (ww_list st) W \<and> ww_tail st = (if W = [] then None else Some (last W)) \<and>
    unat (ww_alloc st) = length W \<and> (\<forall>w \<in> set W. w < fresh st) \<and>
    family UNIV (hash_chain st) (\<lambda>w. Some (hashv (info st w))) W \<and> family A (client_chain st) (\<lambda>w. online (info st w)) W \<and>
    (\<forall>w \<in> set W. hashv (info st w) = hash_whowas_name (name (info st w)) \<and> is_cstr (name (info st w)) \<and> (\<forall>c. online (info st w) = Some c \<longrightarrow> c \<in> A))"

definition view :: "history \<Rightarrow> nat list \<Rightarrow> entry list" where
  "view st W = map (info st) W"

lemma dll_last:
  assumes "dll nx pv h (xs @ [y, w])"
  shows "nx w = None \<and> pv w = Some y"
proof -
  have "dseg nx pv p h (xs @ [y, w]) \<Longrightarrow> nx w = None \<and> pv w = Some y" for p by (induction xs arbitrary: p h) auto
  with assms show ?thesis by (auto simp: dll_def)
qed

lemma unlink_list_ok:
  assumes "dll (wnext st) (wprev st) (ww_list st) (xs @ [y, w])" "ww_tail st = Some w"
  shows "dll (wnext (unlink_list w st)) (wprev (unlink_list w st)) (ww_list (unlink_list w st)) (xs @ [y])"
    "ww_tail (unlink_list w st) = Some y" "info (unlink_list w st) = info st" "hash_chain (unlink_list w st) = hash_chain st"
    "client_chain (unlink_list w st) = client_chain st" "ww_alloc (unlink_list w st) = ww_alloc st" "fresh (unlink_list w st) = fresh st"
proof -
  note l = dll_last [OF assms(1)]
  have d: "distinct (xs @ [y, w])" using assms(1) by (simp add: dll_def)
  have "dll (unlink_next (wnext st) (wprev st) w) (unlink_prev (wnext st) (wprev st) w) (unlink_head (wnext st) (wprev st) (ww_list st) w) (remove1 w (xs @ [y, w]))"
    by (rule dll_unlink [OF assms(1)]) simp
  moreover have "remove1 w (xs @ [y, w]) = xs @ [y]" using d by (auto simp: remove1_append)
  ultimately show "dll (wnext (unlink_list w st)) (wprev (unlink_list w st)) (ww_list (unlink_list w st)) (xs @ [y])"
    "ww_tail (unlink_list w st) = Some y" "info (unlink_list w st) = info st" "hash_chain (unlink_list w st) = hash_chain st"
    "client_chain (unlink_list w st) = client_chain st" "ww_alloc (unlink_list w st) = ww_alloc st" "fresh (unlink_list w st) = fresh st"
    using l assms(2) by (simp_all add: unlink_list_def unlink_next_def unlink_prev_def unlink_head_def link_prev_def)
qed

lemma whowas_clean_last:
  assumes r: "wrep st A (V @ [y, w])"
  shows "\<exists>st'. whowas_clean w st = Some st' \<and> info st' = info st \<and> ww_alloc st' = ww_alloc st \<and> fresh st' = fresh st \<and>
    wrep (st'\<lparr>ww_alloc := ww_alloc st - 1\<rparr>) A (V @ [y])"
proof -
  let ?W = "V @ [y, w]"
  have d: "dll (wnext st) (wprev st) (ww_list st) ?W" "ww_tail st = Some w" "unat (ww_alloc st) = length ?W"
    and fam: "family UNIV (hash_chain st) (\<lambda>w. Some (hashv (info st w))) ?W" "family A (client_chain st) (\<lambda>w. online (info st w)) ?W"
    and rest: "\<forall>w \<in> set ?W. w < fresh st" "\<forall>w \<in> set ?W. hashv (info st w) = hash_whowas_name (name (info st w)) \<and> is_cstr (name (info st w)) \<and> (\<forall>c. online (info st w) = Some c \<longrightarrow> c \<in> A)"
    using r by (auto simp: wrep_def)
  have dis: "distinct ?W" using d(1) by (simp add: dll_def)
  then have r1: "remove1 w ?W = V @ [y]" by (auto simp: remove1_append)
  obtain hc where hc: "chain_unlink w (hash_chain st) = Some hc" "family UNIV hc (\<lambda>w. Some (hashv (info st w))) (V @ [y])"
    using family_unlink [OF fam(1), of w] r1 by auto
  obtain cc where cc: "(if online (info st w) \<noteq> None then chain_unlink w (client_chain st) else Some (client_chain st)) = Some cc"
    "family A cc (\<lambda>w. online (info st w)) (V @ [y])"
  proof (cases "online (info st w)")
    case None
    then have "filter (\<lambda>w. online (info st w) = Some h) (V @ [y]) = filter (\<lambda>w. online (info st w) = Some h) ?W" for h by auto
    then have "family A (client_chain st) (\<lambda>w. online (info st w)) (V @ [y])" using fam(2) by (auto simp: family_def simp del: filter_append)
    with None that show ?thesis by simp
  next
    case (Some c)
    then obtain c' where "chain_unlink w (client_chain st) = Some c'" "family A c' (\<lambda>w. online (info st w)) (V @ [y])"
      using family_unlink [OF fam(2), of w c] r1 rest(2) by auto
    with Some that show ?thesis by simp
  qed
  let ?s = "st\<lparr>client_chain := cc, hash_chain := hc\<rparr>"
  have dd: "dll (wnext ?s) (wprev ?s) (ww_list ?s) (V @ [y, w])" "ww_tail ?s = Some w" using d by simp_all
  note u = unlink_list_ok [OF dd]
  have "whowas_clean w st = Some (unlink_list w ?s)" by (simp only: whowas_clean_def cc(1) hc(1) bind.bind_lunit)
  moreover have "unat (ww_alloc st - 1) = length (V @ [y])" using d(3) by (simp add: unat_sub word_le_nat_alt)
  ultimately show ?thesis using u hc(2) cc(2) rest by (auto simp: wrep_def)
qed

text \<open>A new entry is cleared; it is on no chain.\<close>

definition cleared :: "nat \<Rightarrow> history \<Rightarrow> history" where
  "cleared w st = st\<lparr>info := (info st)(w := zero_entry), hash_chain := chain_zero w (hash_chain st),
     client_chain := chain_zero w (client_chain st), wnext := (wnext st)(w := None), wprev := (wprev st)(w := None)\<rparr>"

lemma cleared_alloc: "cleared w (st\<lparr>ww_alloc := k\<rparr>) = (cleared w st)\<lparr>ww_alloc := k\<rparr>"
  by (cases st) (simp add: cleared_def)

lemma cleared_ok:
  assumes "wrep st A W" "w \<notin> set W"
  shows "wrep (cleared w st) A W"
proof -
  have "dll ((wnext st)(w := None)) ((wprev st)(w := None)) (ww_list st) W \<longleftrightarrow> dll (wnext st) (wprev st) (ww_list st) W"
    by (rule dll_cong) (use assms(2) in auto)
  moreover have "family UNIV (hash_chain (cleared w st)) (\<lambda>x. Some (hashv (info (cleared w st) x))) W"
    by (rule family_cong [of _ "hash_chain st" "\<lambda>x. Some (hashv (info st x))"]) (use assms in \<open>auto simp: wrep_def cleared_def chain_zero_def\<close>)
  moreover have "family A (client_chain (cleared w st)) (\<lambda>x. online (info (cleared w st) x)) W"
    by (rule family_cong [of _ "client_chain st" "\<lambda>x. online (info st x)"]) (use assms in \<open>auto simp: wrep_def cleared_def chain_zero_def\<close>)
  ultimately show ?thesis using assms by (auto simp: wrep_def cleared_def)
qed

lemma wrep_alloc: "wrep st A W \<Longrightarrow> length W < 2 ^ 32" "wrep st A W \<Longrightarrow> of_nat (length W) = ww_alloc st"
  using unsigned_less [of "ww_alloc st", where 'a = nat] by (auto simp: wrep_def) (metis of_nat_unat ucast_id)

lemma whowas_alloc_ok:
  assumes r: "wrep st A W" and len: "2 \<le> unat len" "length W \<le> unat len"
  defines "W' \<equiv> take (unat len - 1) W"
  shows "\<exists>w st'. whowas_alloc len st = Some (w, st') \<and> w \<notin> set W' \<and> w < fresh st' \<and> (\<forall>v \<in> set W'. info st' v = info st v) \<and>
    unat (ww_alloc st') = length W' + 1 \<and> wprev st' w = None \<and> wrep (st'\<lparr>ww_alloc := of_nat (length W')\<rparr>) A W'"
proof (cases "length W < unat len")
  case True
  then have W': "W' = W" by (simp add: W'_def)
  let ?w = "fresh st" and ?s = "st\<lparr>ww_alloc := ww_alloc st + 1, fresh := fresh st + 1\<rparr>"
  have w: "?w \<notin> set W" using r by (auto simp: wrep_def)
  have a: "unat (ww_alloc st) = length W" using r by (simp add: wrep_def)
  have "wrep (?s\<lparr>ww_alloc := ww_alloc st\<rparr>) A W" using r by (auto simp: wrep_def)
  from cleared_ok [OF this w] have "wrep ((cleared ?w ?s)\<lparr>ww_alloc := of_nat (length W)\<rparr>) A W"
    unfolding wrep_alloc(2) [OF r] cleared_alloc .
  moreover have "\<not> ww_alloc st \<ge> len" using True a by (simp add: word_le_nat_alt)
  then have "whowas_alloc len st = Some (?w, cleared ?w ?s)" by (simp add: whowas_alloc_def cleared_def)
  moreover have "unat (ww_alloc st + 1) = length W + 1"
    using True a unsigned_less [of len, where 'a = nat] by (simp add: unat_word_ariths)
  ultimately show ?thesis unfolding W' using w by (intro exI [of _ ?w] exI [of _ "cleared ?w ?s"]) (auto simp: cleared_def)
next
  case False
  then have l: "length W = unat len" using len(2) by simp
  define V y w where "V = butlast (butlast W)" and "y = last (butlast W)" and "w = last W"
  have "W \<noteq> []" "butlast W \<noteq> []" using l len(1) by (auto simp: butlast_conv_take)
  then have W: "W = V @ [y, w]" by (metis V_def y_def w_def append.assoc append_Cons append_Nil append_butlast_last_id)
  have "unat len - 1 = length (V @ [y])" using l by (simp add: W)
  then have W': "W' = V @ [y]" unfolding W'_def W by simp
  obtain st1 where c: "whowas_clean w st = Some st1" "info st1 = info st" "ww_alloc st1 = ww_alloc st" "fresh st1 = fresh st"
    "wrep (st1\<lparr>ww_alloc := ww_alloc st - 1\<rparr>) A (V @ [y])" using whowas_clean_last [of st A V y w] r W by blast
  have w: "w \<notin> set (V @ [y])" "w < fresh st" using r W by (auto simp: wrep_def dll_def)
  have a: "ww_alloc st \<ge> len" "ww_tail st = Some w" using r l W by (auto simp: wrep_def word_le_nat_alt)
  have "whowas_alloc len st = Some (w, cleared w st1)" using a c(1) by (simp add: whowas_alloc_def cleared_def)
  moreover have "wrep ((cleared w st1)\<lparr>ww_alloc := of_nat (length (V @ [y]))\<rparr>) A (V @ [y])"
    unfolding wrep_alloc(2) [OF c(5)] using cleared_ok [OF c(5) w(1)] unfolding cleared_alloc by simp
  moreover have "unat (ww_alloc st) = length (V @ [y]) + 1" using r W by (simp add: wrep_def)
  ultimately show ?thesis unfolding W' using w c by (intro exI [of _ w] exI [of _ "cleared w st1"]) (auto simp: cleared_def)
qed

section \<open>The operations on the history\<close>

lemma link_list_fields:
  "info (link_list w st) = info st" "hash_chain (link_list w st) = hash_chain st" "client_chain (link_list w st) = client_chain st"
  "ww_alloc (link_list w st) = ww_alloc st" "fresh (link_list w st) = fresh st" "ww_list (link_list w st) = Some w"
  "ww_tail (link_list w st) = (if ww_tail st = None then Some w else ww_tail st)"
  by (simp_all add: link_list_def Let_def split: option.splits)

lemma link_list_ok:
  assumes "dll (wnext st) (wprev st) (ww_list st) W" "w \<notin> set W" "wprev st w = None"
  shows "dll (wnext (link_list w st)) (wprev (link_list w st)) (Some w) (w # W)"
proof -
  have "ww_list st \<noteq> Some w" using assms(1,2) by (cases W) (auto simp: dll_def)
  then have "wprev (link_list w st) = (link_prev (wprev st) (ww_list st) (Some w))(w := None)" "wnext (link_list w st) = (wnext st)(w := ww_list st)"
    using assms(3) by (auto simp: link_list_def Let_def link_prev_def fun_eq_iff split: option.splits)
  then show ?thesis using dll_push [OF assms(1,2)] by simp
qed

lemma entry_of_fields [simp]:
  "hashv (entry_of now on ci) = hash_whowas_name (cname ci)" "online (entry_of now on ci) = on" "name (entry_of now on ci) = cname ci"
  by (simp_all add: entry_of_def)

lemma add_history_ok:
  assumes r: "wrep st A W" and len: "2 \<le> unat len" "length W \<le> unat len" and c: "still_on \<longrightarrow> cptr \<in> A" "is_cstr (cname ci)"
  shows "\<exists>st' w. add_history len now ci cptr still_on st = Some st' \<and> wrep st' A (w # take (unat len - 1) W) \<and>
    view st' (w # take (unat len - 1) W) = entry_of now (if still_on then Some cptr else None) ci # take (unat len - 1) (view st W)"
proof -
  define W' where "W' = take (unat len - 1) W"
  obtain w st1 where a: "whowas_alloc len st = Some (w, st1)" "w \<notin> set W'" "w < fresh st1" "\<forall>v \<in> set W'. info st1 v = info st v"
    "unat (ww_alloc st1) = length W' + 1" "wprev st1 w = None" "wrep (st1\<lparr>ww_alloc := of_nat (length W')\<rparr>) A W'"
    using whowas_alloc_ok [OF r len] unfolding W'_def by blast
  have r1: "dll (wnext st1) (wprev st1) (ww_list st1) W'" "ww_tail st1 = (if W' = [] then None else Some (last W'))" "\<forall>w \<in> set W'. w < fresh st1"
    "family UNIV (hash_chain st1) (\<lambda>w. Some (hashv (info st1 w))) W'" "family A (client_chain st1) (\<lambda>w. online (info st1 w)) W'"
    "\<forall>w \<in> set W'. hashv (info st1 w) = hash_whowas_name (name (info st1 w)) \<and> is_cstr (name (info st1 w)) \<and> (\<forall>c. online (info st1 w) = Some c \<longrightarrow> c \<in> A)"
    using a(7) by (auto simp: wrep_def)
  let ?e = "entry_of now (if still_on then Some cptr else None) ci"
  define i2 where "i2 = (info st1)(w := ?e)"
  define st3 where "st3 = (if still_on then st1\<lparr>info := i2, client_chain := chain_link cptr w (client_chain st1)\<rparr> else st1\<lparr>info := i2\<rparr>)"
  define st4 where "st4 = link_list w st3"
  define st5 where "st5 = st4\<lparr>hash_chain := chain_link (hash_whowas_name (cname ci)) w (hash_chain st4)\<rparr>"
  have s3: "wnext st3 = wnext st1" "wprev st3 = wprev st1" "ww_list st3 = ww_list st1" "ww_tail st3 = ww_tail st1" "info st3 = i2"
    "hash_chain st3 = hash_chain st1" "ww_alloc st3 = ww_alloc st1" "fresh st3 = fresh st1"
    "client_chain st3 = (if still_on then chain_link cptr w (client_chain st1) else client_chain st1)"
    by (simp_all add: st3_def)
  have i2: "i2 w = ?e" "\<And>x. x \<in> set W' \<Longrightarrow> i2 x = info st1 x" using a(2) by (auto simp: i2_def)
  have hf: "family UNIV (chain_link (hash_whowas_name (cname ci)) w (hash_chain st1)) (\<lambda>w. Some (hashv (i2 w))) (w # W')"
    by (rule family_link [OF r1(4) a(2)]) (simp_all add: i2)
  have cf: "family A (client_chain st3) (\<lambda>w. online (i2 w)) (w # W')"
  proof (cases still_on)
    case True
    have "family A (chain_link cptr w (client_chain st1)) (\<lambda>w. online (i2 w)) (w # W')"
      by (rule family_link [OF r1(5) a(2)]) (use True c in \<open>simp_all add: i2\<close>)
    with True show ?thesis by (simp add: s3)
  next
    case False
    have "family A (client_chain st1) (\<lambda>w. online (i2 w)) W'" by (rule family_cong [OF r1(5)]) (simp_all add: i2)
    with False show ?thesis by (simp add: s3 family_def i2)
  qed
  have d: "dll (wnext st4) (wprev st4) (Some w) (w # W')"
    unfolding st4_def by (rule link_list_ok) (use r1(1) a(2,6) in \<open>simp_all add: s3\<close>)
  have "add_history len now ci cptr still_on st = Some st5"
    by (simp add: add_history_def a(1) st5_def st4_def st3_def i2_def Let_def)
  moreover have "wrep st5 A (w # W')"
    using d r1(2,3,6) hf cf a(3,5) c by (auto simp: wrep_def st5_def st4_def link_list_fields s3 i2)
  moreover have "view st5 (w # W') = ?e # take (unat len - 1) (view st W)"
    using a(4) by (simp add: view_def st5_def st4_def link_list_fields s3 i2 W'_def take_map)
  ultimately show ?thesis unfolding W'_def by blast
qed

lemma chain_walk:
  assumes "chain c h xs"
  shows "walk (\<lambda>w. Some (Q w)) (nexts c) (heads c h) = Some (find Q xs)"
  by (rule walk_dll [of _ "before c"]) (use assms in \<open>auto simp: chain_def\<close>)

lemma find_filter: "(\<And>x. x \<in> set xs \<Longrightarrow> Q x \<Longrightarrow> P x) \<Longrightarrow> find Q (filter P xs) = find Q xs"
  by (induction xs) auto

lemma find_map_entry: "find Q (map f xs) = map_option f (find (\<lambda>x. Q (f x)) xs)"
  by (induction xs) auto

lemma hash_lower: "map ToLower n = map ToLower k \<Longrightarrow> whowas_hash_loop h h2 n = whowas_hash_loop h h2 k"
proof (induction n arbitrary: h h2 k)
  case (Cons c n)
  then obtain d k' where "k = d # k'" "ToLower c = ToLower d" "map ToLower n = map ToLower k'" by (cases k) auto
  with Cons.IH show ?case by (simp add: Let_def)
qed simp

lemma hash_name_lower: "map ToLower n = map ToLower k \<Longrightarrow> hash_whowas_name n = hash_whowas_name k"
  unfolding hash_whowas_name_def by (drule hash_lower [of n k 0 0]) simp

lemma get_history_ok:
  assumes r: "wrep st A W" and nick: "is_cstr nick"
  shows "get_history now limit nick st =
    Some (Option.bind (find (\<lambda>e. ircd_strcmp nick (name e) = 0 \<and> logoff e > now - limit) (view st W)) online)"
proof -
  let ?h = "hash_whowas_name nick" and ?Q = "\<lambda>w. ircd_strcmp nick (name (info st w)) = 0 \<and> logoff (info st w) > now - limit"
  have ch: "chain (hash_chain st) ?h (filter (\<lambda>w. Some (hashv (info st w)) = Some ?h) W)" using r by (auto simp: wrep_def family_def)
  have "find ?Q (filter (\<lambda>w. Some (hashv (info st w)) = Some ?h) W) = find ?Q W"
  proof (rule find_filter)
    fix w assume w: "w \<in> set W" "?Q w"
    then have "hashv (info st w) = hash_whowas_name (name (info st w))" "is_cstr (name (info st w))" using r by (auto simp: wrep_def)
    moreover from ircd_strcmp_0_iff [OF nick this(2)] w(2) have "map ToLower nick = map ToLower (name (info st w))"
      by (simp only: fold_eq_def simp_thms)
    ultimately show "Some (hashv (info st w)) = Some ?h" using hash_name_lower [of nick "name (info st w)"] by (simp only:)
  qed
  then have 1: "walk (\<lambda>w. Some (?Q w)) (nexts (hash_chain st)) (heads (hash_chain st) ?h) = Some (find ?Q W)"
    using chain_walk [OF ch, of ?Q] by (simp only:)
  have 2: "find (\<lambda>e. ircd_strcmp nick (name e) = 0 \<and> logoff e > now - limit) (view st W) = map_option (info st) (find ?Q W)"
    unfolding view_def find_map_entry ..
  show ?thesis unfolding get_history_def Let_def 1 2 by (cases "find ?Q W") (simp_all only: option.map bind.simps)
qed

lemma off_loop_ok:
  "dseg nx pv q p xs \<Longrightarrow> nx = nexts (client_chain st) \<Longrightarrow>
    off_loop p st = Some (st\<lparr>info := (\<lambda>w. if w \<in> set xs then (info st w)\<lparr>online := None\<rparr> else info st w)\<rparr>)"
proof (induction xs arbitrary: p q st)
  case Nil
  then show ?case by (simp add: off_loop.simps)
next
  case (Cons x xs)
  let ?s = "st\<lparr>info := (info st)(x := (info st x)\<lparr>online := None\<rparr>)\<rparr>"
  have p: "p = Some x" "dseg nx pv (Some x) (nx x) xs" "nx = nexts (client_chain ?s)" using Cons.prems by auto
  have "off_loop p st = off_loop (nx x) ?s" unfolding p(1) using Cons.prems(2) by (simp add: off_loop.simps [of "Some x"])
  also have "\<dots> = Some (?s\<lparr>info := (\<lambda>w. if w \<in> set xs then (info ?s w)\<lparr>online := None\<rparr> else info ?s w)\<rparr>)" by (rule Cons.IH [OF p(2,3)])
  also have "?s\<lparr>info := (\<lambda>w. if w \<in> set xs then (info ?s w)\<lparr>online := None\<rparr> else info ?s w)\<rparr> =
      st\<lparr>info := (\<lambda>w. if w \<in> set (x # xs) then (info st w)\<lparr>online := None\<rparr> else info st w)\<rparr>"
    by (simp add: fun_eq_iff)
  finally show ?case .
qed

definition went_off :: "nat \<Rightarrow> entry \<Rightarrow> entry" where
  "went_off c e = (if online e = Some c then e\<lparr>online := None\<rparr> else e)"

lemma off_history_ok:
  assumes r: "wrep st A W" and c: "c \<in> A"
  shows "\<exists>st'. off_history c st = Some st' \<and> wrep st' (A - {c}) W \<and> view st' W = map (went_off c) (view st W)"
proof -
  let ?L = "filter (\<lambda>w. online (info st w) = Some c) W"
  define i where "i = (\<lambda>w. if w \<in> set ?L then (info st w)\<lparr>online := None\<rparr> else info st w)"
  have ch: "chain (client_chain st) c ?L" using r c by (auto simp: wrep_def family_def)
  have off: "off_history c st = Some (st\<lparr>info := i\<rparr>)" unfolding off_history_def i_def
    by (rule off_loop_ok [of _ "before (client_chain st)"]) (use ch in \<open>auto simp: chain_def dll_def\<close>)
  have n: "hashv (i w) = hashv (info st w)" "name (i w) = name (info st w)" "i w = went_off c (info st w)"
    "online (i w) = Some k \<longleftrightarrow> k \<noteq> c \<and> online (info st w) = Some k" if "w \<in> set W" for w k
    using that by (auto simp: i_def went_off_def)
  have "family (A - {c}) (client_chain st) (\<lambda>w. online (i w)) W"
    unfolding family_def
  proof
    fix k assume k: "k \<in> A - {c}"
    have "filter (\<lambda>w. online (i w) = Some k) W = filter (\<lambda>w. online (info st w) = Some k) W"
      using k n(4) by (intro filter_cong) auto
    with r k show "chain (client_chain st) k (filter (\<lambda>w. online (i w) = Some k) W)" by (simp add: wrep_def family_def)
  qed
  moreover have "family UNIV (hash_chain st) (\<lambda>w. Some (hashv (i w))) W"
    by (rule family_cong [of _ "hash_chain st" "\<lambda>w. Some (hashv (info st w))"]) (use r n(1) in \<open>auto simp: wrep_def\<close>)
  moreover have "\<forall>w \<in> set W. hashv (i w) = hash_whowas_name (name (i w)) \<and> is_cstr (name (i w)) \<and> (\<forall>k. online (i w) = Some k \<longrightarrow> k \<in> A - {c})"
  proof
    fix w assume w: "w \<in> set W"
    have "hashv (info st w) = hash_whowas_name (name (info st w)) \<and> is_cstr (name (info st w)) \<and> (\<forall>k. online (info st w) = Some k \<longrightarrow> k \<in> A)"
      using r w unfolding wrep_def by blast
    then show "hashv (i w) = hash_whowas_name (name (i w)) \<and> is_cstr (name (i w)) \<and> (\<forall>k. online (i w) = Some k \<longrightarrow> k \<in> A - {c})"
      unfolding n(1,2) [OF w] using n(4) [OF w] by blast
  qed
  ultimately have "wrep (st\<lparr>info := i\<rparr>) (A - {c}) W" using r by (simp add: wrep_def)
  moreover have "view (st\<lparr>info := i\<rparr>) W = map (went_off c) (view st W)" unfolding view_def by (simp add: n(3))
  ultimately show ?thesis using off by blast
qed

lemma whowas_realloc_ok:
  assumes "1 \<le> unat len" "wrep st A W"
  shows "\<exists>st'. whowas_realloc len st = Some st' \<and> wrep st' A (take (unat len) W) \<and> view st' (take (unat len) W) = take (unat len) (view st W)"
  using assms(2)
proof (induction "length W" arbitrary: st W rule: less_induct)
  case less
  have a: "unat (ww_alloc st) = length W" using less.prems by (simp add: wrep_def)
  show ?case
  proof (cases "length W \<le> unat len")
    case True
    then have "\<not> ww_alloc st > len" using a by (simp add: word_less_nat_alt)
    with True less.prems show ?thesis by (simp add: whowas_realloc.simps [of len st] view_def)
  next
    case False
    define V y w where "V = butlast (butlast W)" and "y = last (butlast W)" and "w = last W"
    have "W \<noteq> []" "butlast W \<noteq> []" using False assms(1) by (auto simp: butlast_conv_take)
    then have W: "W = V @ [y, w]" by (metis V_def y_def w_def append.assoc append_Cons append_Nil append_butlast_last_id)
    obtain st1 where c: "whowas_clean w st = Some st1" "info st1 = info st" "ww_alloc st1 = ww_alloc st"
      "wrep (st1\<lparr>ww_alloc := ww_alloc st - 1\<rparr>) A (V @ [y])" using whowas_clean_last [of st A V y w] less.prems W by blast
    let ?s = "st1\<lparr>ww_alloc := ww_alloc st - 1\<rparr>"
    have t: "ww_tail st = Some w" "ww_alloc st > len" using less.prems W False a by (auto simp: wrep_def word_less_nat_alt)
    have f: "whowas_realloc len st = whowas_realloc len ?s" using t c(1,3) by (simp add: whowas_realloc.simps [of len st] whowas_free_def)
    have "length (V @ [y]) < length W" by (simp add: W)
    from less.hyps [OF this c(4)] obtain st' where s: "whowas_realloc len ?s = Some st'" "wrep st' A (take (unat len) (V @ [y]))"
      "view st' (take (unat len) (V @ [y])) = take (unat len) (view ?s (V @ [y]))" by blast
    have "W = (V @ [y]) @ [w]" "unat len \<le> length (V @ [y])" using False W by simp_all
    then have tk: "take (unat len) W = take (unat len) (V @ [y])" by (metis take_append append_Nil2 diff_is_0_eq take_0)
    have "take (unat len) (view ?s (V @ [y])) = take (unat len) (view st W)"
      unfolding view_def take_map tk by (simp add: c(2))
    with s f tk show ?thesis by simp
  qed
qed

section \<open>Histories of operations\<close>

definition history0 :: history where
  "history0 = \<lparr>info = (\<lambda>_. zero_entry), hash_chain = \<lparr>heads = (\<lambda>_. None), nexts = (\<lambda>_. None), prevnextp = (\<lambda>_. None)\<rparr>,
     client_chain = \<lparr>heads = (\<lambda>_. None), nexts = (\<lambda>_. None), prevnextp = (\<lambda>_. None)\<rparr>, wnext = (\<lambda>_. None), wprev = (\<lambda>_. None),
     ww_list = None, ww_tail = None, ww_alloc = 0, fresh = 0\<rparr>"

text \<open>A new client structure starts with an empty \<open>cli_whowas\<close>.\<close>

definition new_client :: "nat \<Rightarrow> history \<Rightarrow> history" where
  "new_client c st = st\<lparr>client_chain := (client_chain st)\<lparr>heads := (heads (client_chain st))(c := None)\<rparr>\<rparr>"

text \<open>
  The states that sequences of operations reach, with the clients that are online and the list of entries an
  observer writes down: a new entry in front, as many old ones as the setting allows.
\<close>

inductive ww_run :: "u32 \<Rightarrow> history \<Rightarrow> nat set \<Rightarrow> entry list \<Rightarrow> bool" where
  start: "2 \<le> unat len \<Longrightarrow> ww_run len history0 {} []"
| came: "ww_run len st A E \<Longrightarrow> c \<notin> A \<Longrightarrow> ww_run len (new_client c st) (insert c A) E"
| renamed: "ww_run len st A E \<Longrightarrow> c \<in> A \<Longrightarrow> is_cstr (cname ci) \<Longrightarrow> add_history len now ci c True st = Some st' \<Longrightarrow>
    ww_run len st' A (entry_of now (Some c) ci # take (unat len - 1) E)"
| left: "ww_run len st A E \<Longrightarrow> c \<in> A \<Longrightarrow> is_cstr (cname ci) \<Longrightarrow> add_history len now ci c False st = Some st1 \<Longrightarrow> off_history c st1 = Some st' \<Longrightarrow>
    ww_run len st' (A - {c}) (map (went_off c) (entry_of now None ci # take (unat len - 1) E))"
| resized: "ww_run len st A E \<Longrightarrow> 2 \<le> unat len' \<Longrightarrow> whowas_realloc len' st = Some st' \<Longrightarrow> ww_run len' st' A (take (unat len') E)"

lemma new_client_ok:
  assumes "wrep st A W" "c \<notin> A"
  shows "wrep (new_client c st) (insert c A) W"
proof -
  let ?cc = "(client_chain st)\<lparr>heads := (heads (client_chain st))(c := None)\<rparr>"
  have "chain ?cc k (filter (\<lambda>w. online (info st w) = Some k) W)" if "k \<in> insert c A" for k
  proof (cases "k = c")
    case True
    have "filter (\<lambda>w. online (info st w) = Some c) W = []" using assms by (auto simp: wrep_def filter_empty_conv)
    with True show ?thesis by (simp add: chain_def)
  next
    case False
    have "chain ?cc k (filter (\<lambda>w. online (info st w) = Some k) W) \<longleftrightarrow> chain (client_chain st) k (filter (\<lambda>w. online (info st w) = Some k) W)"
      by (rule chain_cong) (use False in auto)
    with False that assms(1) show ?thesis by (auto simp: wrep_def family_def)
  qed
  with assms(1) show ?thesis by (auto simp: wrep_def new_client_def family_def)
qed

lemma ww_run_ok: "ww_run len st A E \<Longrightarrow> 2 \<le> unat len \<and> (\<exists>W. wrep st A W \<and> view st W = E \<and> length W \<le> unat len)"
proof (induction rule: ww_run.induct)
  case (start len)
  then show ?case by (auto simp: wrep_def history0_def view_def family_def chain_def)
next
  case (came len st A E c)
  then obtain W where W: "wrep st A W" "view st W = E" "length W \<le> unat len" by blast
  from new_client_ok [OF W(1) came(2)] W(2,3) came.IH show ?case by (auto simp: view_def new_client_def)
next
  case (renamed len st A E c ci now st')
  then obtain W where W: "wrep st A W" "view st W = E" "length W \<le> unat len" "2 \<le> unat len" by blast
  obtain w where w: "wrep st' A (w # take (unat len - 1) W)" "view st' (w # take (unat len - 1) W) = entry_of now (Some c) ci # take (unat len - 1) E"
    using add_history_ok [OF W(1,4,3), of True c ci now] renamed.hyps W(2) by auto
  then show ?case using W(4) by (auto intro!: exI [of _ "w # take (unat len - 1) W"])
next
  case (left len st A E c ci now st1 st')
  then obtain W where W: "wrep st A W" "view st W = E" "length W \<le> unat len" "2 \<le> unat len" by blast
  obtain w where w: "wrep st1 A (w # take (unat len - 1) W)" "view st1 (w # take (unat len - 1) W) = entry_of now None ci # take (unat len - 1) E"
    using add_history_ok [OF W(1,4,3), of False c ci now] left.hyps W(2) by auto
  from off_history_ok [OF w(1) left.hyps(2)] left.hyps w(2) W(4) show ?case
    by (auto intro!: exI [of _ "w # take (unat len - 1) W"])
next
  case (resized len st A E len' st')
  then obtain W where W: "wrep st A W" "view st W = E" by blast
  from whowas_realloc_ok [OF _ W(1), of len'] resized W(2) show ?case by (auto intro!: exI [of _ "take (unat len') W"])
qed

text \<open>
  C7.  In every state that clients coming, changing their nick and leaving and changes of the history length reach, the
  nick history behaves as the list of entries of an observer: a lookup finds the newest entry of that nick in any case within the
  time limit and answers its client if it is still online, there are at most as many entries as configured, and no operation
  fails or runs on, with a history length of at least two.
\<close>

theorem whowas_refines:
  assumes "ww_run len st A E"
  shows "length E \<le> unat len \<and>
    (\<forall>now limit nick. is_cstr nick \<longrightarrow> get_history now limit nick st =
       Some (Option.bind (find (\<lambda>e. ircd_strcmp nick (name e) = 0 \<and> logoff e > now - limit) E) online)) \<and>
    (\<forall>now ci c still_on. is_cstr (cname ci) \<longrightarrow> (still_on \<longrightarrow> c \<in> A) \<longrightarrow> add_history len now ci c still_on st \<noteq> None) \<and>
    (\<forall>c \<in> A. off_history c st \<noteq> None) \<and> (\<forall>len'. 1 \<le> unat len' \<longrightarrow> whowas_realloc len' st \<noteq> None)"
proof -
  obtain W where W: "wrep st A W" "view st W = E" "length W \<le> unat len" "2 \<le> unat len" using ww_run_ok [OF assms] by blast
  have 1: "length E \<le> unat len" using W(2,3) by (auto simp: view_def)
  have 2: "get_history now limit nick st = Some (Option.bind (find (\<lambda>e. ircd_strcmp nick (name e) = 0 \<and> logoff e > now - limit) E) online)"
    if "is_cstr nick" for now limit nick unfolding get_history_ok [OF W(1) that] W(2) ..
  have 3: "add_history len now ci c still_on st \<noteq> None" if "is_cstr (cname ci)" "still_on \<longrightarrow> c \<in> A" for now ci c still_on
    using add_history_ok [OF W(1,4,3) that(2,1)] by blast
  have 4: "off_history c st \<noteq> None" if "c \<in> A" for c using off_history_ok [OF W(1) that] by blast
  have 5: "whowas_realloc len' st \<noteq> None" if "1 \<le> unat len'" for len' using whowas_realloc_ok [OF that W(1)] by blast
  show ?thesis using 1 2 3 4 5 by blast
qed

definition ann :: client_info where
  "ann = \<lparr>cname = ''Ann'', cusername = ''a'', chost = ''h'', crealhost = None, cservername = ''s'', cinfo = ''Ann'', caway = None\<rparr>"

theorem whowas_refines_witness:
  "\<exists>st'. add_history 2 100 ann 7 True (new_client 7 history0) = Some st' \<and> get_history 110 90 ''ANN'' st' = Some (Some 7)"
proof -
  have r: "ww_run 2 (new_client 7 history0) (insert 7 {}) []" by (rule ww_run.came [OF ww_run.start]) simp_all
  have c: "is_cstr (cname ann)" by (simp add: ann_def)
  from whowas_refines [OF r] c obtain st' where a: "add_history 2 100 ann 7 True (new_client 7 history0) = Some st'" by blast
  from whowas_refines [OF ww_run.renamed [OF r _ c a]]
  have "get_history 110 90 ''ANN'' st' = Some (Option.bind (find (\<lambda>e. ircd_strcmp ''ANN'' (name e) = 0 \<and> logoff e > 110 - 90)
      (entry_of 100 (Some 7) ann # take (unat (2 :: u32) - 1) [])) online)" by simp
  moreover have "ircd_strcmp ''ANN'' (cname ann) = 0" by code_simp
  ultimately have "get_history 110 90 ''ANN'' st' = Some (Some 7)" by (simp add: entry_of_def)
  with a show ?thesis by blast
qed

text \<open>With a history of one entry the entry that is reclaimed stays the head of the list and comes to link to itself.\<close>

lemma one_entry_loops:
  "Option.bind (add_history 1 100 ann 7 False history0) (\<lambda>st. map_option (\<lambda>st'. wnext st' 0) (add_history 1 101 ann 7 False st)) = Some (Some 0)"
  by (simp add: add_history_def whowas_alloc_def whowas_clean_def chain_unlink_def chain_link_def chain_zero_def store_def
      link_list_def unlink_list_def history0_def Let_def entry_of_def zero_entry_def)

lemma no_entry_fails: "add_history 0 100 ann 7 False history0 = None"
  by (simp add: add_history_def whowas_alloc_def history0_def)

end
