(* ===== verification/Monitor.thy ===== *)
theory Monitor
  imports Hash
begin

text \<open>
  The monitored nicks of \<open>ircd/monitor.c\<close>: who is told when a nick comes or goes.

  A \<open>Monitor\<close> is known by its address; its nick and its place in the hash table are in \<open>mtables\<close>.  The two lists of
  links, \<open>mo_monitor\<close> of a monitor and \<open>monitor\<close> of a user, belong to their owner alone and are lists of what they link
  to.  The loops over the hash table are those of \<open>Hash\<close>; a failed assertion is \<open>None\<close>.
\<close>

record mon_state =
  mtables :: hash_state
  mo_monitor :: "nat \<Rightarrow> nat list"
  user_monitor :: "nat \<Rightarrow> nat list"
  user_monitors :: "nat \<Rightarrow> u32"
  monitorCount :: int
  mon_next :: nat

definition FindMonitor :: "string \<Rightarrow> mon_state \<Rightarrow> (nat option \<times> mon_state) option" where
  "FindMonitor nick st =
    (if nick = [] then Some (None, st)
     else map_option (\<lambda>(h, r). (r, st\<lparr>mtables := h\<rparr>)) (hSeekMonitor (mtables st) nick))"

definition make_monitor :: "string \<Rightarrow> mon_state \<Rightarrow> nat \<times> mon_state" where
  "make_monitor nick st =
    (let m = mon_next st; h = mtables st
     in (m, st\<lparr>mtables := hAddMonitor (h\<lparr>mo_nick := (mo_nick h)(m := nick)\<rparr>) m, mo_monitor := (mo_monitor st)(m := []),
               monitorCount := monitorCount st + 1, mon_next := m + 1\<rparr>))"

definition free_monitor :: "nat \<Rightarrow> mon_state \<Rightarrow> mon_state option" where
  "free_monitor m st = map_option (\<lambda>(h, _). st\<lparr>mtables := h, monitorCount := monitorCount st - 1\<rparr>) (hRemMonitor (mtables st) m)"

text \<open>The clients \<open>monitor_notify\<close> sends its message to, in the order of the list.\<close>

definition monitor_notify :: "string \<Rightarrow> mon_state \<Rightarrow> (nat list \<times> mon_state) option" where
  "monitor_notify name st = map_option (\<lambda>(r, st1). (case r of None \<Rightarrow> [] | Some m \<Rightarrow> mo_monitor st1 m, st1)) (FindMonitor name st)"

definition monitor_add_nick :: "nat \<Rightarrow> string \<Rightarrow> mon_state \<Rightarrow> mon_state option" where
  "monitor_add_nick cptr nick st = map_option (\<lambda>(r, st1).
     let (m, st2) = (case r of Some m \<Rightarrow> (m, st1) | None \<Rightarrow> make_monitor nick st1)
     in if cptr \<in> set (mo_monitor st2 m) then st2
        else st2\<lparr>mo_monitor := (mo_monitor st2)(m := cptr # mo_monitor st2 m),
                 user_monitor := (user_monitor st2)(cptr := m # user_monitor st2 cptr),
                 user_monitors := (user_monitors st2)(cptr := user_monitors st2 cptr + 1)\<rparr>) (FindMonitor nick st)"

definition monitor_del_nick :: "nat \<Rightarrow> string \<Rightarrow> mon_state \<Rightarrow> mon_state option" where
  "monitor_del_nick cptr nick st = Option.bind (FindMonitor nick st) (\<lambda>(r, st1). case r of
     None \<Rightarrow> Some st1
   | Some m \<Rightarrow>
       if cptr \<notin> set (mo_monitor st1 m) then Some st1
       else if m \<notin> set (user_monitor st1 cptr) then None
       else
         let st2 = st1\<lparr>mo_monitor := (mo_monitor st1)(m := remove1 cptr (mo_monitor st1 m)),
                       user_monitor := (user_monitor st1)(cptr := remove1 m (user_monitor st1 cptr))\<rparr>
         in map_option (\<lambda>st3. st3\<lparr>user_monitors := (user_monitors st3)(cptr := user_monitors st3 cptr - 1)\<rparr>)
              (if mo_monitor st2 m = [] then free_monitor m st2 else Some st2))"

text \<open>The loop of \<open>monitor_list_clean\<close> over the links of the user.\<close>

fun clean_loop :: "nat \<Rightarrow> nat list \<Rightarrow> mon_state \<Rightarrow> mon_state option" where
  "clean_loop cptr [] st = Some st"
| "clean_loop cptr (m # ms) st =
    (if cptr \<notin> set (mo_monitor st m) then None
     else
       let st1 = st\<lparr>mo_monitor := (mo_monitor st)(m := remove1 cptr (mo_monitor st m))\<rparr>
       in Option.bind (if mo_monitor st1 m = [] then free_monitor m st1 else Some st1) (clean_loop cptr ms))"

definition monitor_list_clean :: "nat \<Rightarrow> mon_state \<Rightarrow> mon_state option" where
  "monitor_list_clean cptr st =
    (if user_monitor st cptr = [] then Some st
     else map_option (\<lambda>st1. st1\<lparr>user_monitor := (user_monitor st1)(cptr := []), user_monitors := (user_monitors st1)(cptr := 0)\<rparr>)
       (clean_loop cptr (user_monitor st cptr) st))"

section \<open>The invariant\<close>

abbreviation table :: "mon_state \<Rightarrow> nat set" where
  "table st \<equiv> tmem (monitorTable (mtables st))"

abbreviation nick_of :: "mon_state \<Rightarrow> nat \<Rightarrow> string" where
  "nick_of st m \<equiv> mo_nick (mtables st) m"

text \<open>
  \<open>S m\<close> and \<open>U c\<close> are the two lists.  A monitor of the table has watchers, and none has the nick of another; the lists are
  the two sides of one relation.
\<close>

definition links_ok :: "nat set \<Rightarrow> (nat \<Rightarrow> nat list) \<Rightarrow> (nat \<Rightarrow> nat list) \<Rightarrow> bool" where
  "links_ok T S U \<longleftrightarrow> (\<forall>m \<in> T. distinct (S m)) \<and> (\<forall>c. distinct (U c) \<and> set (U c) \<subseteq> T) \<and>
    (\<forall>m \<in> T. \<forall>c. c \<in> set (S m) \<longleftrightarrow> m \<in> set (U c))"

definition mon_ok :: "mon_state \<Rightarrow> bool" where
  "mon_ok st \<longleftrightarrow> monitor_inv (mtables st) \<and> links_ok (table st) (mo_monitor st) (user_monitor st) \<and>
    (\<forall>m \<in> table st. mo_monitor st m \<noteq> [] \<and> nick_of st m \<noteq> [] \<and> m < mon_next st) \<and>
    (\<forall>m \<in> table st. \<forall>d \<in> table st. fold_eq (nick_of st m) (nick_of st d) \<longrightarrow> m = d) \<and>
    finite (table st) \<and> monitorCount st = int (card (table st)) \<and> (\<forall>c. user_monitors st c = of_nat (length (user_monitor st c)))"

definition watches :: "mon_state \<Rightarrow> nat \<Rightarrow> string \<Rightarrow> bool" where
  "watches st c nick \<longleftrightarrow> (\<exists>m \<in> table st. fold_eq nick (nick_of st m) \<and> c \<in> set (mo_monitor st m))"

section \<open>The operations\<close>

lemma hash_monitor_fields:
  "hSeekMonitor h k = Some (h', r) \<Longrightarrow> mo_nick h' = mo_nick h" "hRemMonitor h m = Some (h', i) \<Longrightarrow> mo_nick h' = mo_nick h"
  "mo_nick (hAddMonitor h m) = mo_nick h"
  by (auto simp: hSeekMonitor_def hRemMonitor_def hAddMonitor_def)

text \<open>Only the hash table may change, and only in the order of its chains.\<close>

definition same_links :: "mon_state \<Rightarrow> mon_state \<Rightarrow> bool" where
  "same_links st st' \<longleftrightarrow> mo_monitor st' = mo_monitor st \<and> user_monitor st' = user_monitor st \<and> user_monitors st' = user_monitors st \<and>
    monitorCount st' = monitorCount st \<and> mon_next st' = mon_next st \<and> table st' = table st \<and> mo_nick (mtables st') = mo_nick (mtables st)"

lemma same_links_ok: "same_links st st' \<Longrightarrow> mon_ok st \<Longrightarrow> monitor_inv (mtables st') \<Longrightarrow> mon_ok st'"
  by (simp add: same_links_def mon_ok_def)

lemma same_links_watches: "same_links st st' \<Longrightarrow> watches st' = watches st"
  by (auto simp: same_links_def watches_def fun_eq_iff)

lemma fold_eq_trans: "fold_eq a b \<Longrightarrow> fold_eq a c \<longleftrightarrow> fold_eq b c" "fold_eq a b \<Longrightarrow> fold_eq c a \<longleftrightarrow> fold_eq c b" "fold_eq a a"
  by (auto simp: fold_eq_def)

lemma fold_eq_Nil: "fold_eq [] b \<longleftrightarrow> b = []" by (auto simp: fold_eq_def)

lemma FindMonitor_ok:
  assumes "mon_ok st" "is_cstr nick"
  shows "\<exists>r st'. FindMonitor nick st = Some (r, st') \<and> same_links st st' \<and> mon_ok st' \<and>
    (r = None \<and> (\<forall>m \<in> table st. \<not> fold_eq nick (nick_of st m)) \<or> (\<exists>m \<in> table st. r = Some m \<and> fold_eq nick (nick_of st m)))"
proof (cases "nick = []")
  case True
  have "\<forall>m \<in> table st. \<not> fold_eq nick (nick_of st m)" using assms(1) True by (auto simp: mon_ok_def fold_eq_Nil)
  with True assms(1) show ?thesis by (simp add: FindMonitor_def same_links_def)
next
  case False
  have "monitor_inv (mtables st)" using assms(1) by (simp add: mon_ok_def)
  from mo.seek_cases [OF this assms(2)] obtain h r where s: "hSeekMonitor (mtables st) nick = Some (h, r)" "monitor_inv h"
    "tmem (monitorTable h) = table st"
    "r = None \<and> (\<forall>c \<in> table st. \<not> monitor_hit (mtables st) nick c) \<or> (\<exists>c \<in> table st. r = Some c \<and> monitor_hit (mtables st) nick c)"
    by (elim exE conjE) simp
  let ?st = "st\<lparr>mtables := h\<rparr>"
  have sl: "same_links st ?st" using s(1,3) hash_monitor_fields(1) by (simp add: same_links_def)
  have "mon_ok ?st" by (rule same_links_ok [OF sl assms(1)]) (simp add: s(2))
  moreover have "FindMonitor nick st = Some (r, ?st)" using False s(1) by (simp add: FindMonitor_def)
  ultimately show ?thesis using sl s(4) unfolding monitor_hit_def by blast
qed

lemma table_unique: "mon_ok st \<Longrightarrow> m \<in> table st \<Longrightarrow> d \<in> table st \<Longrightarrow> fold_eq k (nick_of st m) \<Longrightarrow> fold_eq k (nick_of st d) \<Longrightarrow> m = d"
  unfolding mon_ok_def using fold_eq_trans by blast

lemma watches_at: "mon_ok st \<Longrightarrow> m \<in> table st \<Longrightarrow> fold_eq k (nick_of st m) \<Longrightarrow> watches st c k \<longleftrightarrow> c \<in> set (mo_monitor st m)"
  unfolding watches_def using table_unique by blast

lemma monitor_notify_ok:
  assumes "mon_ok st" "is_cstr nick"
  shows "\<exists>ls st'. monitor_notify nick st = Some (ls, st') \<and> mon_ok st' \<and> watches st' = watches st \<and> distinct ls \<and> set ls = {c. watches st c nick}"
proof -
  obtain r st' where f: "FindMonitor nick st = Some (r, st')" "same_links st st'" "mon_ok st'"
    "r = None \<and> (\<forall>m \<in> table st. \<not> fold_eq nick (nick_of st m)) \<or> (\<exists>m \<in> table st. r = Some m \<and> fold_eq nick (nick_of st m))"
    using FindMonitor_ok [OF assms] by blast
  note w = same_links_watches [OF f(2)]
  from f(4) show ?thesis
  proof (elim disjE conjE bexE)
    assume "r = None" "\<forall>m \<in> table st. \<not> fold_eq nick (nick_of st m)"
    then show ?thesis using f(1,3) w by (auto simp: monitor_notify_def watches_def)
  next
    fix m assume m: "m \<in> table st" "r = Some m" "fold_eq nick (nick_of st m)"
    have "mo_monitor st' = mo_monitor st" using f(2) by (simp add: same_links_def)
    moreover have "distinct (mo_monitor st m)" using assms(1) m(1) by (auto simp: mon_ok_def links_ok_def)
    ultimately show ?thesis using f(1,3) w m(2) watches_at [OF assms(1) m(1,3)] by (auto simp: monitor_notify_def)
  qed
qed

text \<open>A link is put on both lists.\<close>

definition put_link :: "nat \<Rightarrow> nat \<Rightarrow> mon_state \<Rightarrow> mon_state" where
  "put_link c m st = st\<lparr>mo_monitor := (mo_monitor st)(m := c # mo_monitor st m), user_monitor := (user_monitor st)(c := m # user_monitor st c),
     user_monitors := (user_monitors st)(c := user_monitors st c + 1)\<rparr>"

lemma links_put:
  assumes "links_ok T S U" "m \<in> T" "c \<notin> set (S m)"
  shows "links_ok T (S(m := c # S m)) (U(c := m # U c))"
  using assms by (auto simp: links_ok_def)

lemma put_link_ok:
  assumes "mon_ok st" "m \<in> table st" "c \<notin> set (mo_monitor st m)"
  shows "mon_ok (put_link c m st)" "watches (put_link c m st) d k \<longleftrightarrow> watches st d k \<or> d = c \<and> fold_eq k (nick_of st m)"
proof -
  have "links_ok (table st) ((mo_monitor st)(m := c # mo_monitor st m)) ((user_monitor st)(c := m # user_monitor st c))"
    by (rule links_put) (use assms in \<open>auto simp: mon_ok_def\<close>)
  then show ok: "mon_ok (put_link c m st)" using assms(1) by (auto simp: mon_ok_def put_link_def)
  show "watches (put_link c m st) d k \<longleftrightarrow> watches st d k \<or> d = c \<and> fold_eq k (nick_of st m)"
    using assms(2) by (auto simp: watches_def put_link_def)
qed

lemma make_monitor_ok:
  assumes "mon_ok st" "is_cstr nick" "nick \<noteq> []" "\<forall>m \<in> table st. \<not> fold_eq nick (nick_of st m)"
  defines "m \<equiv> mon_next st" and "st' \<equiv> snd (make_monitor nick st)"
  shows "make_monitor nick st = (m, st')" "mon_ok (put_link c m st')" "watches (put_link c m st') d k \<longleftrightarrow> watches st d k \<or> d = c \<and> fold_eq k nick"
    "mo_monitor st' m = []"
proof -
  have i: "monitor_inv (mtables st)" "links_ok (table st) (mo_monitor st) (user_monitor st)" "finite (table st)"
    "monitorCount st = int (card (table st))" "\<forall>c. user_monitors st c = of_nat (length (user_monitor st c))"
    "\<And>x. x \<in> table st \<Longrightarrow> mo_monitor st x \<noteq> [] \<and> nick_of st x \<noteq> [] \<and> x < m"
    "\<And>x y. x \<in> table st \<Longrightarrow> y \<in> table st \<Longrightarrow> fold_eq (nick_of st x) (nick_of st y) \<Longrightarrow> x = y" using assms(1) by (auto simp: mon_ok_def m_def)
  let ?h = "(mtables st)\<lparr>mo_nick := (mo_nick (mtables st))(m := nick)\<rparr>"
  have m: "m \<notin> table st" using i(6) by blast
  have "tinv (\<lambda>d. strhash (crc32hash (mtables st)) (mo_nick ?h d)) (monitorTable (mtables st))"
    by (rule tinv_cong [of "\<lambda>d. strhash (crc32hash (mtables st)) (mo_nick (mtables st) d)"]) (use i(1) m in \<open>auto simp: monitor_inv_def\<close>)
  then have "monitor_inv ?h" using i(1) m by (auto simp: monitor_inv_def)
  from mo.add_ok [OF this, of m] m assms(2) have h: "monitor_inv (hAddMonitor ?h m)" "tmem (monitorTable (hAddMonitor ?h m)) = insert m (table st)" by auto
  have s: "mtables st' = hAddMonitor ?h m" "mo_monitor st' = (mo_monitor st)(m := [])" "user_monitor st' = user_monitor st" "user_monitors st' = user_monitors st"
    "monitorCount st' = monitorCount st + 1" "mon_next st' = m + 1" "make_monitor nick st = (m, st')"
    by (simp_all add: st'_def make_monitor_def Let_def m_def)
  have t: "table st' = insert m (table st)" "nick_of st' x = (if x = m then nick else nick_of st x)" for x
    using h(2) by (simp_all add: s(1) hash_monitor_fields)
  show "make_monitor nick st = (m, st')" "mo_monitor st' m = []" by (simp_all add: s)
  have "c' \<notin> set (mo_monitor st x) \<or> x \<noteq> m" if "x \<in> table st" for c' x using that m by auto
  have l: "links_ok (insert m (table st)) ((mo_monitor st)(m := [c])) ((user_monitor st)(c := m # user_monitor st c))"
    using i(2) m by (auto simp: links_ok_def)
  show "mon_ok (put_link c m st')"
    using i h l m assms(3,4) fold_eq_trans(3) unfolding mon_ok_def
    by (auto simp: put_link_def s t(1) hash_monitor_fields card_insert_if less_Suc_eq fold_eq_def)
  show "watches (put_link c m st') d k \<longleftrightarrow> watches st d k \<or> d = c \<and> fold_eq k nick"
    unfolding watches_def using m by (auto simp: put_link_def s(2) t)
qed

lemma monitor_add_nick_ok:
  assumes "mon_ok st" "is_cstr nick" "nick \<noteq> []"
  shows "\<exists>st'. monitor_add_nick c nick st = Some st' \<and> mon_ok st' \<and> (\<forall>d k. watches st' d k \<longleftrightarrow> watches st d k \<or> d = c \<and> fold_eq k nick)"
proof -
  obtain r st1 where f: "FindMonitor nick st = Some (r, st1)" "same_links st st1" "mon_ok st1"
    "r = None \<and> (\<forall>m \<in> table st. \<not> fold_eq nick (nick_of st m)) \<or> (\<exists>m \<in> table st. r = Some m \<and> fold_eq nick (nick_of st m))"
    using FindMonitor_ok [OF assms(1,2)] by blast
  have s: "table st1 = table st" "mo_nick (mtables st1) = mo_nick (mtables st)" using f(2) by (simp_all add: same_links_def)
  note w = same_links_watches [OF f(2)]
  from f(4) show ?thesis
  proof (elim disjE conjE bexE)
    assume r: "r = None" "\<forall>m \<in> table st. \<not> fold_eq nick (nick_of st m)"
    have r2: "\<forall>m \<in> table st1. \<not> fold_eq nick (nick_of st1 m)" using r(2) unfolding s .
    note m = make_monitor_ok [OF f(3) assms(2,3) r2]
    have "monitor_add_nick c nick st = Some (put_link c (mon_next st1) (snd (make_monitor nick st1)))"
    proof -
      define st2 where "st2 = snd (make_monitor nick st1)"
      have "make_monitor nick st1 = (mon_next st1, st2)" "mo_monitor st2 (mon_next st1) = []" using m(1,4) by (simp_all add: st2_def)
      then show ?thesis unfolding st2_def [symmetric] using f(1) r(1) by (simp add: monitor_add_nick_def put_link_def)
    qed
    with m(2,3) show ?thesis by (auto simp: w)
  next
    fix m assume m: "m \<in> table st" "r = Some m" "fold_eq nick (nick_of st m)"
    have m1: "m \<in> table st1" "fold_eq nick (nick_of st1 m)" using m s by simp_all
    have k: "fold_eq k nick \<longleftrightarrow> fold_eq k (nick_of st1 m)" for k using fold_eq_trans(2) [OF m1(2)] .
    show ?thesis
    proof (cases "c \<in> set (mo_monitor st1 m)")
      case True
      then have "monitor_add_nick c nick st = Some st1" using f(1) m(2) by (simp add: monitor_add_nick_def)
      moreover have "fold_eq k nick \<Longrightarrow> watches st1 c k" for k using True watches_at [OF f(3) m1(1)] k by blast
      ultimately show ?thesis using f(3) w by auto
    next
      case False
      then have "monitor_add_nick c nick st = Some (put_link c m st1)" using f(1) m(2) by (simp add: monitor_add_nick_def put_link_def)
      with put_link_ok [OF f(3) m1(1) False] show ?thesis by (auto simp: w k)
    qed
  qed
qed

text \<open>A link is taken off both lists, and a monitor without links off the table.\<close>

definition cut_link :: "nat \<Rightarrow> nat \<Rightarrow> mon_state \<Rightarrow> mon_state" where
  "cut_link c m st = st\<lparr>mo_monitor := (mo_monitor st)(m := remove1 c (mo_monitor st m)), user_monitor := (user_monitor st)(c := remove1 m (user_monitor st c)),
     user_monitors := (user_monitors st)(c := user_monitors st c - 1)\<rparr>"

definition drop_if_unused :: "nat \<Rightarrow> mon_state \<Rightarrow> mon_state option" where
  "drop_if_unused m st = (if mo_monitor st m = [] then free_monitor m st else Some st)"

lemma cut_link_ok:
  assumes ok: "mon_ok st" and m: "m \<in> table st" and c: "c \<in> set (mo_monitor st m)"
  shows "\<exists>st'. drop_if_unused m (cut_link c m st) = Some st' \<and> mon_ok st' \<and> user_monitor st' = (user_monitor st)(c := remove1 m (user_monitor st c)) \<and>
    mo_nick (mtables st') = mo_nick (mtables st) \<and> (\<forall>d k. watches st' d k \<longleftrightarrow> watches st d k \<and> \<not> (d = c \<and> fold_eq k (nick_of st m)))"
proof -
  let ?st = "cut_link c m st"
  have i: "monitor_inv (mtables st)" "links_ok (table st) (mo_monitor st) (user_monitor st)" "finite (table st)"
    "monitorCount st = int (card (table st))" "\<And>c. user_monitors st c = of_nat (length (user_monitor st c))"
    "\<And>x. x \<in> table st \<Longrightarrow> mo_monitor st x \<noteq> [] \<and> nick_of st x \<noteq> [] \<and> x < mon_next st"
    "\<And>x y. x \<in> table st \<Longrightarrow> y \<in> table st \<Longrightarrow> fold_eq (nick_of st x) (nick_of st y) \<Longrightarrow> x = y" using ok by (auto simp: mon_ok_def)
  have mc: "m \<in> set (user_monitor st c)" "distinct (user_monitor st c)" "distinct (mo_monitor st m)" using i(2) m c by (auto simp: links_ok_def)
  have "length (user_monitor st c) = Suc (length (remove1 m (user_monitor st c)))"
    using mc(1) length_pos_if_in_set [OF mc(1)] by (simp add: length_remove1)
  then have cnt: "user_monitors ?st x = of_nat (length (user_monitor ?st x))" for x
    using i(5) [of x] i(5) [of c] by (simp add: cut_link_def)
  have l: "links_ok (table st) (mo_monitor ?st) (user_monitor ?st)"
    using i(2) m c mc by (auto simp: links_ok_def cut_link_def)
  have sm: "set (mo_monitor ?st x) = (if x = m then set (mo_monitor st m) - {c} else set (mo_monitor st x))" for x
    using mc(3) by (simp add: cut_link_def)
  have w: "(\<exists>x \<in> table st. fold_eq k (nick_of st x) \<and> d \<in> set (mo_monitor ?st x)) \<longleftrightarrow> watches st d k \<and> \<not> (d = c \<and> fold_eq k (nick_of st m))" for d k
  proof
    assume "\<exists>x \<in> table st. fold_eq k (nick_of st x) \<and> d \<in> set (mo_monitor ?st x)"
    then obtain x where x: "x \<in> table st" "fold_eq k (nick_of st x)" "d \<in> set (mo_monitor ?st x)" by blast
    have "x = m" if "fold_eq k (nick_of st m)" using table_unique [OF ok x(1) m x(2) that] .
    with x show "watches st d k \<and> \<not> (d = c \<and> fold_eq k (nick_of st m))" unfolding watches_def sm by (auto split: if_splits)
  next
    assume "watches st d k \<and> \<not> (d = c \<and> fold_eq k (nick_of st m))"
    then obtain x where x: "x \<in> table st" "fold_eq k (nick_of st x)" "d \<in> set (mo_monitor st x)" "\<not> (d = c \<and> fold_eq k (nick_of st m))" unfolding watches_def by blast
    then show "\<exists>x \<in> table st. fold_eq k (nick_of st x) \<and> d \<in> set (mo_monitor ?st x)" unfolding sm by (intro bexI [of _ x]) auto
  qed
  show ?thesis
  proof (cases "mo_monitor ?st m = []")
    case False
    then have "mon_ok ?st" using i l cnt by (auto simp: mon_ok_def cut_link_def)
    with False w show ?thesis by (auto simp: drop_if_unused_def watches_def cut_link_def)
  next
    case True
    from mo.rem_ok [OF i(1) m] obtain h where h: "hRemMonitor (mtables st) m = Some (h, 0)" "monitor_inv h" "tmem (monitorTable h) = table st - {m}" by blast
    note n = hash_monitor_fields(2) [OF h(1)]
    let ?s = "?st\<lparr>mtables := h, monitorCount := monitorCount st - 1\<rparr>"
    have dr: "drop_if_unused m ?st = Some ?s" using True h(1) by (simp add: drop_if_unused_def free_monitor_def cut_link_def)
    have l2: "links_ok (table st - {m}) (mo_monitor ?st) (user_monitor ?st)" using l True m by (auto simp: links_ok_def)
    have "mo_monitor ?st x = mo_monitor st x" if "x \<noteq> m" for x using that by (simp add: cut_link_def)
    moreover have "int (card (table st)) - 1 = int (card (table st - {m}))"
      using card_Suc_Diff1 [OF i(3) m] by simp
    ultimately have "mon_ok ?s"
      using i h n l2 cnt m unfolding mon_ok_def by (auto simp: cut_link_def simp del: card_Diff_insert card_Diff_singleton)
    moreover have "watches ?s d k \<longleftrightarrow> (\<exists>x \<in> table st. fold_eq k (nick_of st x) \<and> d \<in> set (mo_monitor ?st x))" for d k
      using True h(3) n by (auto simp: watches_def)
    ultimately show ?thesis using dr w n by (auto simp: cut_link_def)
  qed
qed

lemma monitor_del_nick_ok:
  assumes "mon_ok st" "is_cstr nick"
  shows "\<exists>st'. monitor_del_nick c nick st = Some st' \<and> mon_ok st' \<and> (\<forall>d k. watches st' d k \<longleftrightarrow> watches st d k \<and> \<not> (d = c \<and> fold_eq k nick))"
proof -
  obtain r st1 where f: "FindMonitor nick st = Some (r, st1)" "same_links st st1" "mon_ok st1"
    "r = None \<and> (\<forall>m \<in> table st. \<not> fold_eq nick (nick_of st m)) \<or> (\<exists>m \<in> table st. r = Some m \<and> fold_eq nick (nick_of st m))"
    using FindMonitor_ok [OF assms(1,2)] by blast
  have s: "table st1 = table st" "mo_nick (mtables st1) = mo_nick (mtables st)" using f(2) by (simp_all add: same_links_def)
  note w = same_links_watches [OF f(2)]
  from f(4) show ?thesis
  proof (elim disjE conjE bexE)
    assume r: "r = None" "\<forall>m \<in> table st. \<not> fold_eq nick (nick_of st m)"
    then have "\<not> watches st d k" if "fold_eq k nick" for d k using that fold_eq_trans(1) [of k nick] by (auto simp: watches_def)
    with r f(1,3) show ?thesis by (auto simp: monitor_del_nick_def w)
  next
    fix m assume m: "m \<in> table st" "r = Some m" "fold_eq nick (nick_of st m)"
    have m1: "m \<in> table st1" "fold_eq nick (nick_of st1 m)" using m s by simp_all
    have k: "fold_eq k nick \<longleftrightarrow> fold_eq k (nick_of st1 m)" for k using fold_eq_trans(2) [OF m1(2)] .
    show ?thesis
    proof (cases "c \<in> set (mo_monitor st1 m)")
      case False
      then have "monitor_del_nick c nick st = Some st1" using f(1) m(2) by (simp add: monitor_del_nick_def)
      moreover have "fold_eq k nick \<Longrightarrow> \<not> watches st1 c k" for k using False watches_at [OF f(3) m1(1)] k by blast
      ultimately show ?thesis using f(3) w by auto
    next
      case True
      have mc: "m \<in> set (user_monitor st1 c)" using f(3) m1(1) True by (auto simp: mon_ok_def links_ok_def)
      obtain st' where st': "drop_if_unused m (cut_link c m st1) = Some st'" "mon_ok st'"
        "\<forall>d k. watches st' d k \<longleftrightarrow> watches st1 d k \<and> \<not> (d = c \<and> fold_eq k (nick_of st1 m))" using cut_link_ok [OF f(3) m1(1) True] by blast
      have "monitor_del_nick c nick st = drop_if_unused m (cut_link c m st1)"
        using f(1) m(2) True mc by (cases "hRemMonitor (mtables st1) m") (auto simp: monitor_del_nick_def drop_if_unused_def cut_link_def free_monitor_def)
      with st' show ?thesis by (auto simp: w k)
    qed
  qed
qed

text \<open>The state in which the user is left with the links \<open>ms\<close>.\<close>

definition left_with :: "nat \<Rightarrow> nat list \<Rightarrow> mon_state \<Rightarrow> mon_state" where
  "left_with c ms st = st\<lparr>user_monitor := (user_monitor st)(c := ms), user_monitors := (user_monitors st)(c := of_nat (length ms))\<rparr>"

lemma clean_loop_ok:
  "mon_ok (left_with c ms st) \<Longrightarrow> \<exists>st'. clean_loop c ms st = Some st' \<and> mon_ok (left_with c [] st') \<and>
    (\<forall>d k. watches (left_with c [] st') d k \<longleftrightarrow> d \<noteq> c \<and> watches (left_with c ms st) d k)"
proof (induction ms arbitrary: st)
  case Nil
  have "\<not> watches (left_with c [] st) c k" for k using Nil by (auto simp: mon_ok_def links_ok_def watches_def left_with_def)
  with Nil show ?case by auto
next
  case (Cons m ms)
  let ?v = "left_with c (m # ms) st"
  have "links_ok (table ?v) (mo_monitor ?v) (user_monitor ?v)" "m \<in> set (user_monitor ?v c)" using Cons.prems by (simp_all add: mon_ok_def left_with_def)
  then have m: "m \<in> table ?v" "c \<in> set (mo_monitor ?v m)" unfolding links_ok_def by blast+
  obtain s where s: "drop_if_unused m (cut_link c m ?v) = Some s" "mon_ok s" "user_monitor s = (user_monitor ?v)(c := remove1 m (user_monitor ?v c))"
    "\<forall>d k. watches s d k \<longleftrightarrow> watches ?v d k \<and> \<not> (d = c \<and> fold_eq k (nick_of ?v m))" using cut_link_ok [OF Cons.prems m] by blast
  let ?st1 = "st\<lparr>mo_monitor := (mo_monitor st)(m := remove1 c (mo_monitor st m))\<rparr>"
  have v: "cut_link c m ?v = left_with c ms ?st1" by (cases st) (simp add: cut_link_def left_with_def)
  have "\<exists>st2. (if mo_monitor ?st1 m = [] then free_monitor m ?st1 else Some ?st1) = Some st2 \<and> s = left_with c ms st2"
  proof (cases "mo_monitor ?st1 m = []")
    case True
    then have "free_monitor m (left_with c ms ?st1) = Some s" using s(1) v by (simp add: drop_if_unused_def left_with_def)
    then obtain h i where "hRemMonitor (mtables st) m = Some (h, i)" "s = (left_with c ms ?st1)\<lparr>mtables := h, monitorCount := monitorCount st - 1\<rparr>"
      by (auto simp: free_monitor_def left_with_def)
    with True show ?thesis by (auto simp: free_monitor_def left_with_def)
  next
    case False
    then show ?thesis using s(1) v by (simp add: drop_if_unused_def left_with_def)
  qed
  then obtain st2 where st2: "(if mo_monitor ?st1 m = [] then free_monitor m ?st1 else Some ?st1) = Some st2" "s = left_with c ms st2" by blast
  have "clean_loop c (m # ms) st = clean_loop c ms st2"
    using m(2) st2(1) by (simp add: left_with_def)
  moreover obtain st' where "clean_loop c ms st2 = Some st'" "mon_ok (left_with c [] st')"
    "\<forall>d k. watches (left_with c [] st') d k \<longleftrightarrow> d \<noteq> c \<and> watches s d k" using Cons.IH [of st2] s(2) st2(2) by blast
  ultimately show ?case using s(4) by auto
qed

lemma monitor_list_clean_ok:
  assumes "mon_ok st"
  shows "\<exists>st'. monitor_list_clean c st = Some st' \<and> mon_ok st' \<and> (\<forall>d k. watches st' d k \<longleftrightarrow> d \<noteq> c \<and> watches st d k)"
proof -
  have v: "left_with c (user_monitor st c) st = st" using assms by (cases st) (auto simp: left_with_def mon_ok_def fun_eq_iff)
  show ?thesis
  proof (cases "user_monitor st c = []")
    case True
    then have "\<not> watches st c k" for k using assms by (auto simp: mon_ok_def links_ok_def watches_def)
    with True assms show ?thesis by (auto simp: monitor_list_clean_def)
  next
    case False
    from clean_loop_ok [of c "user_monitor st c" st] assms v obtain st' where c: "clean_loop c (user_monitor st c) st = Some st'"
      "mon_ok (left_with c [] st')" "\<forall>d k. watches (left_with c [] st') d k \<longleftrightarrow> d \<noteq> c \<and> watches st d k" by auto
    have "monitor_list_clean c st = Some (left_with c [] st')" using False c(1) by (simp add: monitor_list_clean_def left_with_def)
    with c show ?thesis by blast
  qed
qed

section \<open>Histories\<close>

definition mon0 :: "u32 list \<Rightarrow> mon_state" where
  "mon0 crc = \<lparr>mtables = \<lparr>crc32hash = crc, clientTable = \<lparr>heads = (\<lambda>_. None), hnext = (\<lambda>n. Some n)\<rparr>,
       channelTable = \<lparr>heads = (\<lambda>_. None), hnext = (\<lambda>n. Some n)\<rparr>, monitorTable = \<lparr>heads = (\<lambda>_. None), hnext = (\<lambda>n. Some n)\<rparr>,
       cli_name = (\<lambda>_. []), cli_status = (\<lambda>_. 0), chname = (\<lambda>_. []), mo_nick = (\<lambda>_. [])\<rparr>,
     mo_monitor = (\<lambda>_. []), user_monitor = (\<lambda>_. []), user_monitors = (\<lambda>_. 0), monitorCount = 0, mon_next = 0\<rparr>"

text \<open>
  The states that sequences of the operations reach, with the relation an observer keeps of who watches which nick,
  a nick being known by its folded text.
\<close>

inductive mon_run :: "mon_state \<Rightarrow> (nat \<times> string) set \<Rightarrow> bool" where
  start: "mon_run (mon0 crc) {}"
| add: "mon_run st R \<Longrightarrow> is_cstr nick \<Longrightarrow> nick \<noteq> [] \<Longrightarrow> monitor_add_nick c nick st = Some st' \<Longrightarrow> mon_run st' (insert (c, map ToLower nick) R)"
| del: "mon_run st R \<Longrightarrow> is_cstr nick \<Longrightarrow> monitor_del_nick c nick st = Some st' \<Longrightarrow> mon_run st' (R - {(c, map ToLower nick)})"
| clean: "mon_run st R \<Longrightarrow> monitor_list_clean c st = Some st' \<Longrightarrow> mon_run st' {p \<in> R. fst p \<noteq> c}"
| notify: "mon_run st R \<Longrightarrow> is_cstr nick \<Longrightarrow> monitor_notify nick st = Some (ls, st') \<Longrightarrow> mon_run st' R"

lemma mon_run_ok: "mon_run st R \<Longrightarrow> mon_ok st \<and> (\<forall>c k. watches st c k \<longleftrightarrow> (c, map ToLower k) \<in> R)"
proof (induction rule: mon_run.induct)
  case (start crc)
  then show ?case by (simp add: mon0_def mon_ok_def links_ok_def monitor_inv_def watches_def)
next
  case (add st R nick c st')
  then obtain "mon_ok st" "\<forall>c k. watches st c k \<longleftrightarrow> (c, map ToLower k) \<in> R" by blast
  with monitor_add_nick_ok [of st nick c] add.hyps show ?case by (auto simp: fold_eq_def)
next
  case (del st R nick c st')
  then obtain "mon_ok st" "\<forall>c k. watches st c k \<longleftrightarrow> (c, map ToLower k) \<in> R" by blast
  with monitor_del_nick_ok [of st nick c] del.hyps show ?case by (auto simp: fold_eq_def)
next
  case (clean st R c st')
  then obtain "mon_ok st" "\<forall>c k. watches st c k \<longleftrightarrow> (c, map ToLower k) \<in> R" by blast
  with monitor_list_clean_ok [of st c] clean.hyps show ?case by auto
next
  case (notify st R nick ls st')
  then obtain "mon_ok st" "\<forall>c k. watches st c k \<longleftrightarrow> (c, map ToLower k) \<in> R" by blast
  with monitor_notify_ok [of st nick] notify.hyps show ?case by auto
qed

text \<open>
  C8.  In every state that additions, removals, departures and notifications reach, the links between monitors and users are
  consistent, and a notification for a nick in any case goes to exactly the clients an observer has noted as watching it, each
  once; no operation fails.
\<close>

theorem monitor_refines:
  assumes "mon_run st R"
  shows "mon_ok st \<and>
    (\<forall>nick. is_cstr nick \<longrightarrow> (\<exists>ls st'. monitor_notify nick st = Some (ls, st') \<and> distinct ls \<and> set ls = {c. (c, map ToLower nick) \<in> R})) \<and>
    (\<forall>c nick. is_cstr nick \<longrightarrow> nick \<noteq> [] \<longrightarrow> monitor_add_nick c nick st \<noteq> None \<and> monitor_del_nick c nick st \<noteq> None) \<and>
    (\<forall>c. monitor_list_clean c st \<noteq> None)"
proof -
  note r = mon_run_ok [OF assms]
  then have ok: "mon_ok st" by blast
  have "\<exists>ls st'. monitor_notify nick st = Some (ls, st') \<and> distinct ls \<and> set ls = {c. (c, map ToLower nick) \<in> R}" if "is_cstr nick" for nick
    using monitor_notify_ok [OF ok that] r by auto
  moreover have "monitor_add_nick c nick st \<noteq> None" "monitor_del_nick c nick st \<noteq> None" if "is_cstr nick" "nick \<noteq> []" for c nick
    using monitor_add_nick_ok [OF ok that, of c] monitor_del_nick_ok [OF ok that(1), of c] by auto
  moreover have "monitor_list_clean c st \<noteq> None" for c using monitor_list_clean_ok [OF ok] by (metis option.distinct(1))
  ultimately show ?thesis using ok by blast
qed

theorem monitor_refines_witness:
  "\<exists>st'. monitor_add_nick 4 ''Bob'' (mon0 crc_table) = Some st' \<and> (\<exists>ls st''. monitor_notify ''BOB'' st' = Some (ls, st'') \<and> distinct ls \<and> set ls = {4})"
proof -
  have r: "mon_run (mon0 crc_table) {}" by (rule mon_run.start)
  have n: "is_cstr ''Bob''" "''Bob'' \<noteq> []" "is_cstr ''BOB''" by simp_all
  from monitor_refines [OF r] n obtain st' where a: "monitor_add_nick 4 ''Bob'' (mon0 crc_table) = Some st'" by blast
  have "map ToLower ''BOB'' = map ToLower ''Bob''" by code_simp
  then have "{c. (c, map ToLower ''BOB'') \<in> insert (4 :: nat, map ToLower ''Bob'') {}} = {4}" by auto
  moreover from monitor_refines [OF mon_run.add [OF r n(1,2) a]] n(3) obtain ls st'' where "monitor_notify ''BOB'' st' = Some (ls, st'')" "distinct ls"
    "set ls = {c. (c, map ToLower ''BOB'') \<in> insert (4, map ToLower ''Bob'') {}}" by blast
  ultimately show ?thesis using a by auto
qed

end
