(* ===== verification/Events.thy ===== *)
theory Events
  imports Prelude
begin

text \<open>
  The timers of \<open>ircd/ircd_events.c\<close> and the execution of events, in the build without threads.

  A timer is known by its address.  The queue \<open>g_timer\<close> is the list of the timers on it: a timer has a null
  \<open>gh_prev_p\<close> when it is not on the list.  A callback is a number, and \<open>call\<close> says what it does: it takes the type
  of the event, the timer and the state to the new state.  A failed assertion is \<open>None\<close>.
\<close>

datatype EventType = ET_READ | ET_WRITE | ET_ACCEPT | ET_CONNECT | ET_EOF | ET_ERROR | ET_SIGNAL | ET_EXPIRE | ET_DESTROY

datatype TimerType = TT_ABSOLUTE | TT_RELATIVE | TT_PERIODIC

definition GEN_DESTROY :: u32 where "GEN_DESTROY = 0x0001"
definition GEN_MARKED :: u32 where "GEN_MARKED = 0x0002"
definition GEN_ACTIVE :: u32 where "GEN_ACTIVE = 0x0004"
definition GEN_READD :: u32 where "GEN_READD = 0x0008"
definition GEN_ERROR :: u32 where "GEN_ERROR = 0x0010"

lemmas GEN_defs = GEN_DESTROY_def GEN_MARKED_def GEN_ACTIVE_def GEN_READD_def GEN_ERROR_def

record Timer =
  gh_flags :: u32
  gh_ref :: u32
  gh_call :: nat
  t_type :: TimerType
  t_value :: int
  t_expire :: int

record 's events =
  timers :: "nat \<Rightarrow> Timer"
  g_timer :: "nat list"
  events_free :: nat
  events_alloc :: u32
  world :: 's

type_synonym 's callback = "nat \<Rightarrow> EventType \<Rightarrow> nat \<Rightarrow> 's events \<Rightarrow> 's events option"

definition flag :: "'s events \<Rightarrow> nat \<Rightarrow> u32 \<Rightarrow> bool" where
  "flag st t f \<longleftrightarrow> gh_flags (timers st t) AND f \<noteq> 0"

definition set_timer :: "nat \<Rightarrow> (Timer \<Rightarrow> Timer) \<Rightarrow> 's events \<Rightarrow> 's events" where
  "set_timer t f st = st\<lparr>timers := (timers st)(t := f (timers st t))\<rparr>"

definition raise_flags :: "nat \<Rightarrow> u32 \<Rightarrow> 's events \<Rightarrow> 's events" where
  "raise_flags t f = set_timer t (\<lambda>x. x\<lparr>gh_flags := gh_flags x OR f\<rparr>)"

definition clear_flags :: "nat \<Rightarrow> u32 \<Rightarrow> 's events \<Rightarrow> 's events" where
  "clear_flags t f = set_timer t (\<lambda>x. x\<lparr>gh_flags := gh_flags x AND NOT f\<rparr>)"

section \<open>Events\<close>

definition gen_dequeue :: "nat \<Rightarrow> 's events \<Rightarrow> 's events" where
  "gen_dequeue t st = st\<lparr>g_timer := remove1 t (g_timer st)\<rparr>"

text \<open>An event structure is taken off the free list or allocated, and put on the free list when the event is done.\<close>

definition take_event :: "nat \<Rightarrow> 's events \<Rightarrow> 's events" where
  "take_event t st = set_timer t (\<lambda>x. x\<lparr>gh_ref := gh_ref x + 1\<rparr>)
     (if events_free st > 0 then st\<lparr>events_free := events_free st - 1\<rparr> else st\<lparr>events_alloc := events_alloc st + 1\<rparr>)"

definition give_event :: "'s events \<Rightarrow> 's events" where
  "give_event st = st\<lparr>events_free := events_free st + 1\<rparr>"

definition destroy_event :: "'s callback \<Rightarrow> nat \<Rightarrow> 's events \<Rightarrow> 's events option" where
  "destroy_event call t st =
    (let st1 = take_event t st
     in if \<not> flag st1 t GEN_ACTIVE then None
        else map_option give_event (call (gh_call (timers st1 t)) ET_DESTROY t (clear_flags t GEN_ACTIVE st1)))"

definition gen_ref_dec :: "'s callback \<Rightarrow> nat \<Rightarrow> 's events \<Rightarrow> 's events option" where
  "gen_ref_dec call t st =
    (let st1 = set_timer t (\<lambda>x. x\<lparr>gh_ref := gh_ref x - 1\<rparr>) st
     in if gh_ref (timers st1 t) = 0 \<and> flag st1 t GEN_DESTROY then destroy_event call t (gen_dequeue t st1) else Some st1)"

definition event_generate :: "'s callback \<Rightarrow> EventType \<Rightarrow> nat \<Rightarrow> 's events \<Rightarrow> 's events option" where
  "event_generate call type t st =
    (if type = ET_DESTROY then destroy_event call t st
     else if flag st t GEN_DESTROY then Some st
     else
       let st1 = take_event t st
       in if \<not> flag st1 t GEN_ACTIVE then None
          else
            let st2 = (if type = ET_ERROR then raise_flags t GEN_ERROR st1 else st1)
            in Option.bind (call (gh_call (timers st2 t)) type t st2) (\<lambda>st3. map_option give_event (gen_ref_dec call t st3)))"

section \<open>Timers\<close>

fun insert_timer :: "(nat \<Rightarrow> int) \<Rightarrow> nat \<Rightarrow> nat list \<Rightarrow> nat list" where
  "insert_timer ex t [] = [t]"
| "insert_timer ex t (x # xs) = (if ex t < ex x then t # x # xs else x # insert_timer ex t xs)"

definition timer_enqueue :: "int \<Rightarrow> nat \<Rightarrow> 's events \<Rightarrow> 's events option" where
  "timer_enqueue now t st =
    (if t \<in> set (g_timer st) \<or> \<not> flag st t GEN_ACTIVE then None
     else
       let st1 = set_timer t (\<lambda>x. x\<lparr>t_expire := (case t_type x of TT_ABSOLUTE \<Rightarrow> t_value x | _ \<Rightarrow> t_value x + now)\<rparr>) st
       in Some (st1\<lparr>g_timer := insert_timer (\<lambda>x. t_expire (timers st1 x)) t (g_timer st1)\<rparr>))"

text \<open>
  \<open>gen_init\<close> clears the links of the timer without unlinking it: to initialise a timer that is on the queue would lose the
  timers behind it, and is \<open>None\<close>.
\<close>

definition timer_init :: "nat \<Rightarrow> 's events \<Rightarrow> 's events option" where
  "timer_init t st = (if t \<in> set (g_timer st) then None else Some (set_timer t (\<lambda>x. x\<lparr>gh_flags := 0, gh_ref := 0, gh_call := 0\<rparr>) st))"

definition timer_add :: "int \<Rightarrow> nat \<Rightarrow> nat \<Rightarrow> TimerType \<Rightarrow> int \<Rightarrow> 's events \<Rightarrow> 's events option" where
  "timer_add now t c type value st =
    (let st1 = raise_flags t GEN_ACTIVE st;
         st2 = (if flag st1 t GEN_MARKED then raise_flags t GEN_READD st1 else st1);
         st3 = set_timer t (\<lambda>x. x\<lparr>gh_ref := 0, gh_call := c, t_type := type, t_value := value, t_expire := 0\<rparr>) st2
     in if flag st3 t GEN_MARKED then Some st3 else timer_enqueue now t st3)"

definition timer_del :: "'s callback \<Rightarrow> nat \<Rightarrow> 's events \<Rightarrow> 's events option" where
  "timer_del call t st =
    (let st1 = clear_flags t GEN_READD st
     in if flag st1 t GEN_MARKED then Some st1 else event_generate call ET_DESTROY t (gen_dequeue t st1))"

definition timer_chg :: "int \<Rightarrow> nat \<Rightarrow> TimerType \<Rightarrow> int \<Rightarrow> 's events \<Rightarrow> 's events option" where
  "timer_chg now t type value st =
    (if value = 0 \<or> t_type (timers st t) = TT_PERIODIC \<or> type = TT_PERIODIC then None
     else
       let st1 = set_timer t (\<lambda>x. x\<lparr>t_type := type, t_value := value, t_expire := 0\<rparr>) st
       in if flag st1 t GEN_MARKED then Some (raise_flags t GEN_READD st1)
          else timer_enqueue now t (gen_dequeue t st1))"

text \<open>One turn of the loop of \<open>timer_run\<close>, for the expired timer at the head of the queue.\<close>

definition run_timer :: "'s callback \<Rightarrow> int \<Rightarrow> nat \<Rightarrow> 's events \<Rightarrow> 's events option" where
  "run_timer call now t st =
    (let st1 = raise_flags t (GEN_MARKED OR (if t_type (timers st t) = TT_PERIODIC then GEN_READD else 0)) (gen_dequeue t st)
     in Option.bind (event_generate call ET_EXPIRE t st1) (\<lambda>st2.
          let st3 = clear_flags t GEN_MARKED st2
          in if \<not> flag st3 t GEN_READD then event_generate call ET_DESTROY t st3
             else map_option (clear_flags t GEN_READD) (timer_enqueue now t st3)))"

partial_function (option) timer_run :: "'s callback \<Rightarrow> int \<Rightarrow> 's events \<Rightarrow> 's events option" where
  "timer_run call now st = (case g_timer st of
     [] \<Rightarrow> Some st
   | t # _ \<Rightarrow> if now < t_expire (timers st t) then Some st else Option.bind (run_timer call now t st) (timer_run call now))"

definition timer_next :: "'s events \<Rightarrow> int" where
  "timer_next st = (case g_timer st of [] \<Rightarrow> 0 | t # _ \<Rightarrow> t_expire (timers st t))"

section \<open>Flags\<close>

lemma and_not_disjoint: "f AND g = 0 \<Longrightarrow> (a AND NOT f) AND g = a AND (g :: u32)"
proof -
  assume fg: "f AND g = 0"
  have b: "\<not> (bit f n \<and> bit g n)" for n using arg_cong [OF fg, of "\<lambda>w. bit w n"] by (simp add: bit_and_iff)
  show ?thesis by (rule bit_eqI) (use b in \<open>auto simp: bit_simps\<close>)
qed

lemma and_not_same: "(a AND NOT f) AND f = (0 :: u32)"
  by (rule bit_eqI) (auto simp: bit_simps)

lemma set_timer_fields [simp]:
  "g_timer (set_timer t f st) = g_timer st" "world (set_timer t f st) = world st"
  "timers (set_timer t f st) x = (if x = t then f (timers st t) else timers st x)"
  by (simp_all add: set_timer_def)

lemma raise_flags_fields [simp]:
  "g_timer (raise_flags t f st) = g_timer st" "world (raise_flags t f st) = world st"
  "t_expire (timers (raise_flags t f st) x) = t_expire (timers st x)" "t_type (timers (raise_flags t f st) x) = t_type (timers st x)"
  "t_value (timers (raise_flags t f st) x) = t_value (timers st x)" "gh_call (timers (raise_flags t f st) x) = gh_call (timers st x)"
  "flag (raise_flags t f st) x g \<longleftrightarrow> flag st x g \<or> x = t \<and> f AND g \<noteq> 0"
  by (auto simp: raise_flags_def flag_def bit.conj_disj_distrib2 or_eq_0_iff)

lemma clear_flags_fields [simp]:
  "g_timer (clear_flags t f st) = g_timer st" "world (clear_flags t f st) = world st"
  "t_expire (timers (clear_flags t f st) x) = t_expire (timers st x)" "t_type (timers (clear_flags t f st) x) = t_type (timers st x)"
  "t_value (timers (clear_flags t f st) x) = t_value (timers st x)" "gh_call (timers (clear_flags t f st) x) = gh_call (timers st x)"
  by (simp_all add: clear_flags_def)

lemma flag_clear [simp]:
  "flag (clear_flags t f st) x f \<longleftrightarrow> x \<noteq> t \<and> flag st x f"
  "f AND g = 0 \<Longrightarrow> flag (clear_flags t f st) x g \<longleftrightarrow> flag st x g"
  by (auto simp: clear_flags_def flag_def and_not_same and_not_disjoint)

lemma GEN_disjoint [simp]:
  "GEN_ACTIVE AND GEN_MARKED = 0" "GEN_ACTIVE AND GEN_READD = 0" "GEN_ACTIVE AND GEN_DESTROY = 0" "GEN_ACTIVE AND GEN_ACTIVE \<noteq> 0"
  "GEN_MARKED AND GEN_ACTIVE = 0" "GEN_MARKED AND GEN_READD = 0" "GEN_MARKED AND GEN_DESTROY = 0" "GEN_MARKED AND GEN_MARKED \<noteq> 0"
  "GEN_READD AND GEN_ACTIVE = 0" "GEN_READD AND GEN_MARKED = 0" "GEN_READD AND GEN_DESTROY = 0" "GEN_READD AND GEN_READD \<noteq> 0"
  "GEN_ACTIVE \<noteq> 0" "GEN_MARKED \<noteq> 0" "GEN_READD \<noteq> 0"
  by (simp_all add: GEN_defs)

section \<open>The queue\<close>

definition ev_ok :: "'s events \<Rightarrow> bool" where
  "ev_ok st \<longleftrightarrow> distinct (g_timer st) \<and> sorted (map (\<lambda>t. t_expire (timers st t)) (g_timer st)) \<and>
    (\<forall>t \<in> set (g_timer st). flag st t GEN_ACTIVE \<and> \<not> flag st t GEN_MARKED) \<and>
    (\<forall>t. (flag st t GEN_MARKED \<longrightarrow> flag st t GEN_ACTIVE) \<and> (flag st t GEN_READD \<longrightarrow> flag st t GEN_MARKED) \<and> \<not> flag st t GEN_DESTROY)"

definition marks :: "'s events \<Rightarrow> nat set" where
  "marks st = {t. flag st t GEN_MARKED}"

lemma insert_timer_set: "set (insert_timer ex t xs) = insert t (set xs)"
  by (induction xs) auto

lemma insert_timer_distinct: "distinct xs \<Longrightarrow> t \<notin> set xs \<Longrightarrow> distinct (insert_timer ex t xs)"
  by (induction xs) (auto simp: insert_timer_set)

lemma insert_timer_sorted: "sorted (map ex xs) \<Longrightarrow> sorted (map ex (insert_timer ex t xs))"
  by (induction xs) (auto simp: insert_timer_set)

text \<open>A change that concerns neither the flags nor the order of the queue.\<close>

lemma ev_ok_cong:
  assumes "ev_ok st" "g_timer st' = g_timer st" "\<And>t f. flag st' t f = flag st t f" "\<And>t. t \<in> set (g_timer st) \<Longrightarrow> t_expire (timers st' t) = t_expire (timers st t)"
  shows "ev_ok st'"
proof -
  have e: "map (\<lambda>t. t_expire (timers st' t)) (g_timer st) = map (\<lambda>t. t_expire (timers st t)) (g_timer st)" using assms(4) by simp
  show ?thesis using assms(1) unfolding ev_ok_def assms(2,3) e .
qed

lemma take_event_fields [simp]:
  "g_timer (take_event t st) = g_timer st" "world (take_event t st) = world st" "flag (take_event t st) x f = flag st x f"
  "t_expire (timers (take_event t st) x) = t_expire (timers st x)" "t_type (timers (take_event t st) x) = t_type (timers st x)"
  "t_value (timers (take_event t st) x) = t_value (timers st x)" "gh_call (timers (take_event t st) x) = gh_call (timers st x)"
  by (auto simp: take_event_def flag_def)

lemma give_event_fields [simp]:
  "g_timer (give_event st) = g_timer st" "world (give_event st) = world st" "flag (give_event st) x f = flag st x f" "timers (give_event st) = timers st"
  by (simp_all add: give_event_def flag_def)

lemma gen_dequeue_fields [simp]:
  "g_timer (gen_dequeue t st) = remove1 t (g_timer st)" "world (gen_dequeue t st) = world st" "flag (gen_dequeue t st) x f = flag st x f"
  "timers (gen_dequeue t st) = timers st"
  by (simp_all add: gen_dequeue_def flag_def)

lemma dequeue_ok: "ev_ok st \<Longrightarrow> ev_ok (gen_dequeue t st)"
  by (auto simp: ev_ok_def sorted_remove1 sorted_map_remove1 dest: notin_set_remove1)

lemma timer_enqueue_ok:
  assumes "ev_ok st" "t \<notin> set (g_timer st)" "flag st t GEN_ACTIVE" "\<not> flag st t GEN_MARKED"
  shows "\<exists>st'. timer_enqueue now t st = Some st' \<and> ev_ok st' \<and> marks st' = marks st \<and> set (g_timer st') = insert t (set (g_timer st)) \<and>
    (\<forall>x f. flag st' x f = flag st x f) \<and> world st' = world st \<and>
    (\<forall>x. timers st' x = (if x = t then (timers st t)\<lparr>t_expire := (case t_type (timers st t) of TT_ABSOLUTE \<Rightarrow> t_value (timers st t) | _ \<Rightarrow> t_value (timers st t) + now)\<rparr> else timers st x))"
proof -
  let ?st1 = "set_timer t (\<lambda>x. x\<lparr>t_expire := (case t_type x of TT_ABSOLUTE \<Rightarrow> t_value x | _ \<Rightarrow> t_value x + now)\<rparr>) st"
  let ?ex = "\<lambda>x. t_expire (timers ?st1 x)"
  let ?st' = "?st1\<lparr>g_timer := insert_timer ?ex t (g_timer ?st1)\<rparr>"
  have f: "flag ?st' x g = flag st x g" for x g by (simp add: flag_def)
  have e: "map ?ex (g_timer st) = map (\<lambda>t. t_expire (timers st t)) (g_timer st)" using assms(2) by auto
  have "sorted (map ?ex (g_timer st))" unfolding e using assms(1) by (simp add: ev_ok_def)
  then have "sorted (map ?ex (g_timer ?st'))" using insert_timer_sorted [of ?ex "g_timer st" t] by simp
  then have "ev_ok ?st'" using assms f insert_timer_set [of ?ex t "g_timer st"] insert_timer_distinct [of "g_timer st" t ?ex] by (auto simp: ev_ok_def)
  moreover have "timer_enqueue now t st = Some ?st'" using assms by (simp add: timer_enqueue_def)
  ultimately show ?thesis using f insert_timer_set [of ?ex t "g_timer st"] by (auto simp: marks_def)
qed

lemma enqueue_clear:
  assumes "f AND GEN_ACTIVE = 0"
  shows "map_option (clear_flags t f) (timer_enqueue now t st) = timer_enqueue now t (clear_flags t f st)"
proof -
  let ?g = "\<lambda>x. x\<lparr>t_expire := (case t_type x of TT_ABSOLUTE \<Rightarrow> t_value x | _ \<Rightarrow> t_value x + now)\<rparr>"
  have s: "set_timer t ?g (clear_flags t f st) = clear_flags t f (set_timer t ?g st)"
    by (cases st; cases "timers st t"; cases "t_type (timers st t)") (simp_all add: clear_flags_def set_timer_def)
  have "clear_flags t f (st\<lparr>g_timer := q\<rparr>) = (clear_flags t f st)\<lparr>g_timer := q\<rparr>" for q and st :: "'a events"
    by (cases st) (simp add: clear_flags_def set_timer_def)
  then show ?thesis using assms unfolding timer_enqueue_def Let_def s by simp
qed

section \<open>Callbacks\<close>

text \<open>
  What the queue needs of a callback: when it is called (for an expired timer, which is marked at that time, or for one that
  is destroyed) it returns, it leaves the queue in order, and it neither marks a timer nor takes the mark off one.
\<close>

locale callbacks =
  fixes call :: "'s callback"
  assumes call_ok: "ev_ok st \<Longrightarrow> (type = ET_EXPIRE \<Longrightarrow> flag st t GEN_MARKED) \<Longrightarrow> \<exists>st'. call c type t st = Some st' \<and> ev_ok st' \<and> marks st' = marks st"
begin

lemma destroy_event_ok:
  assumes "ev_ok st" "t \<notin> set (g_timer st)" "flag st t GEN_ACTIVE" "\<not> flag st t GEN_MARKED"
  shows "\<exists>st'. destroy_event call t st = Some st' \<and> ev_ok st' \<and> marks st' = marks st"
proof -
  let ?st = "clear_flags t GEN_ACTIVE (take_event t st)"
  have "ev_ok ?st" using assms by (auto simp: ev_ok_def)
  moreover have "marks ?st = marks st" by (simp add: marks_def)
  ultimately obtain st' where "call (gh_call (timers st t)) ET_DESTROY t ?st = Some st'" "ev_ok st'" "marks st' = marks st" using call_ok [of ?st ET_DESTROY] by (metis EventType.distinct(71))
  moreover from this(2) have "ev_ok (give_event st')" by (rule ev_ok_cong) simp_all
  ultimately show ?thesis using assms(3) by (auto simp: destroy_event_def marks_def)
qed

lemma expire_event_ok:
  assumes "ev_ok st" "flag st t GEN_MARKED"
  shows "\<exists>st'. event_generate call ET_EXPIRE t st = Some st' \<and> ev_ok st' \<and> marks st' = marks st"
proof -
  have a: "flag st t GEN_ACTIVE" "\<not> flag st t GEN_DESTROY" using assms by (auto simp: ev_ok_def)
  have "ev_ok (take_event t st)" by (rule ev_ok_cong [OF assms(1)]) simp_all
  then obtain st3 where c: "call (gh_call (timers st t)) ET_EXPIRE t (take_event t st) = Some st3" "ev_ok st3" "marks st3 = marks st"
    using call_ok [of "take_event t st" ET_EXPIRE t] assms(2) by (auto simp: marks_def)
  let ?st4 = "set_timer t (\<lambda>x. x\<lparr>gh_ref := gh_ref x - 1\<rparr>) st3"
  have f: "flag ?st4 x g = flag st3 x g" for x g by (simp add: flag_def)
  have "\<not> flag ?st4 t GEN_DESTROY" using c(2) f by (auto simp: ev_ok_def)
  then have g: "gen_ref_dec call t st3 = Some ?st4" by (simp add: gen_ref_dec_def)
  have "ev_ok (give_event ?st4)" by (rule ev_ok_cong [OF c(2)]) (simp_all add: f)
  moreover have "marks (give_event ?st4) = marks st" using c(3) by (simp add: marks_def f)
  moreover have "event_generate call ET_EXPIRE t st = Some (give_event ?st4)" using a c(1) g by (simp add: event_generate_def)
  ultimately show ?thesis by blast
qed

lemma run_timer_ok:
  assumes "ev_ok st" "t \<in> set (g_timer st)"
  shows "\<exists>st'. run_timer call now t st = Some st' \<and> ev_ok st' \<and> marks st' = marks st"
proof -
  let ?st1 = "raise_flags t (GEN_MARKED OR (if t_type (timers st t) = TT_PERIODIC then GEN_READD else 0)) (gen_dequeue t st)"
  have q: "t \<notin> set (remove1 t (g_timer st))" "flag st t GEN_ACTIVE" "\<not> flag st t GEN_MARKED" using assms by (auto simp: ev_ok_def)
  have o: "(GEN_MARKED OR (if b then GEN_READD else 0)) AND GEN_ACTIVE = 0" "(GEN_MARKED OR (if b then GEN_READD else 0)) AND GEN_DESTROY = 0"
    "(GEN_MARKED OR (if b then GEN_READD else 0)) AND GEN_MARKED \<noteq> 0" for b by (simp_all add: GEN_defs)
  have 1: "ev_ok ?st1" using dequeue_ok [OF assms(1), of t] q o by (auto simp: ev_ok_def)
  have m1: "marks ?st1 = insert t (marks st)" using o by (auto simp: marks_def)
  obtain st2 where 2: "event_generate call ET_EXPIRE t ?st1 = Some st2" "ev_ok st2" "marks st2 = insert t (marks st)"
    using expire_event_ok [OF 1, of t] o m1 by auto
  let ?st3 = "clear_flags t GEN_MARKED st2"
  have t2: "flag st2 t GEN_MARKED" using 2(3) by (auto simp: marks_def)
  then have a: "t \<notin> set (g_timer st2)" "flag st2 t GEN_ACTIVE" using 2(2) by (auto simp: ev_ok_def)
  have m3: "marks ?st3 = marks st" using 2(3) q(3) by (auto simp: marks_def)
  have run: "run_timer call now t st = (if \<not> flag ?st3 t GEN_READD then event_generate call ET_DESTROY t ?st3
      else map_option (clear_flags t GEN_READD) (timer_enqueue now t ?st3))"
    unfolding run_timer_def Let_def 2(1) bind.simps ..
  show ?thesis
  proof (cases "flag st2 t GEN_READD")
    case False
    then have "ev_ok ?st3" using 2(2) a by (auto simp: ev_ok_def)
    from destroy_event_ok [OF this, of t] a False m3 show ?thesis by (simp add: run event_generate_def)
  next
    case True
    let ?st4 = "clear_flags t GEN_READD ?st3"
    have 4: "ev_ok ?st4" using 2(2) a by (auto simp: ev_ok_def)
    obtain st5 where 5: "timer_enqueue now t ?st4 = Some st5" "ev_ok st5" "marks st5 = marks ?st4" using timer_enqueue_ok [OF 4, of t now] a by auto
    have "map_option (clear_flags t GEN_READD) (timer_enqueue now t ?st3) = timer_enqueue now t ?st4" by (rule enqueue_clear) simp
    then have "run_timer call now t st = Some st5" unfolding run using True 5(1) by (simp only: flag_clear GEN_disjoint simp_thms if_False)
    moreover have "marks st5 = marks st" using 5(3) m3 by (simp add: marks_def)
    ultimately show ?thesis using 5(2) by blast
  qed
qed

lemma timer_run_ok:
  assumes "timer_run call now st = Some st'" "ev_ok st"
  shows "ev_ok st' \<and> marks st' = marks st \<and> (\<forall>t \<in> set (g_timer st'). now < t_expire (timers st' t))"
proof -
  let ?P = "\<lambda>s s'. ev_ok s \<longrightarrow> ev_ok s' \<and> marks s' = marks s \<and> (\<forall>t \<in> set (g_timer s'). now < t_expire (timers s' t))"
  have "call = call \<longrightarrow> now = now \<longrightarrow> ?P st st'"
  proof (rule timer_run.raw_induct [where P = "\<lambda>c n s s'. c = call \<longrightarrow> n = now \<longrightarrow> ?P s s'", OF _ assms(1)], intro impI)
    fix rec :: "'s callback \<Rightarrow> int \<Rightarrow> 's events \<Rightarrow> 's events option" and c n and s s' :: "'s events"
    assume IH: "\<And>c n s s'. rec c n s = Some s' \<Longrightarrow> c = call \<longrightarrow> n = now \<longrightarrow> ?P s s'"
      and step: "(case g_timer s of [] \<Rightarrow> Some s | t # _ \<Rightarrow> if n < t_expire (timers s t) then Some s else Option.bind (run_timer c n t s) (rec c n)) = Some s'"
      and c: "c = call" "n = now" and ok: "ev_ok s"
    show "ev_ok s' \<and> marks s' = marks s \<and> (\<forall>t \<in> set (g_timer s'). now < t_expire (timers s' t))"
    proof (cases "g_timer s")
      case Nil
      with step ok show ?thesis by auto
    next
      case (Cons t q)
      show ?thesis
      proof (cases "n < t_expire (timers s t)")
        case True
        then have "s' = s" using step Cons by simp
        moreover have "\<forall>x \<in> set q. t_expire (timers s t) \<le> t_expire (timers s x)" using ok Cons by (auto simp: ev_ok_def)
        ultimately show ?thesis using ok True c Cons by fastforce
      next
        case False
        obtain s1 where s1: "run_timer call now t s = Some s1" "ev_ok s1" "marks s1 = marks s" using run_timer_ok [OF ok, of t now] Cons by auto
        then have "rec call now s1 = Some s'" using step Cons False c by simp
        from IH [OF this] s1 show ?thesis by simp
      qed
    qed
  qed
  with assms(2) show ?thesis by blast
qed

lemma timer_del_ok:
  assumes "ev_ok st" "t \<in> set (g_timer st) \<or> flag st t GEN_MARKED"
  shows "\<exists>st'. timer_del call t st = Some st' \<and> ev_ok st' \<and> marks st' = marks st"
proof -
  let ?st1 = "clear_flags t GEN_READD st"
  have 1: "ev_ok ?st1" "marks ?st1 = marks st" using assms(1) by (auto simp: ev_ok_def marks_def)
  show ?thesis
  proof (cases "flag st t GEN_MARKED")
    case True
    with 1 show ?thesis by (simp add: timer_del_def)
  next
    case False
    have d: "ev_ok (gen_dequeue t ?st1)" by (rule dequeue_ok [OF 1(1)])
    have a: "flag st t GEN_ACTIVE" "t \<notin> set (remove1 t (g_timer st))" using assms False by (auto simp: ev_ok_def)
    have "marks (gen_dequeue t ?st1) = marks st" by (simp add: marks_def)
    with destroy_event_ok [OF d, of t] a False show ?thesis by (simp add: timer_del_def event_generate_def)
  qed
qed

end

section \<open>Operations that call nothing\<close>

lemma timer_add_ok:
  assumes "ev_ok st" "t \<notin> set (g_timer st)"
  shows "\<exists>st'. timer_add now t c type value st = Some st' \<and> ev_ok st' \<and> marks st' = marks st \<and>
    (\<not> flag st t GEN_MARKED \<longrightarrow> t \<in> set (g_timer st') \<and> t_expire (timers st' t) = (if type = TT_ABSOLUTE then value else value + now))"
proof -
  let ?st2 = "if flag (raise_flags t GEN_ACTIVE st) t GEN_MARKED then raise_flags t GEN_READD (raise_flags t GEN_ACTIVE st) else raise_flags t GEN_ACTIVE st"
  let ?st3 = "set_timer t (\<lambda>x. x\<lparr>gh_ref := 0, gh_call := c, t_type := type, t_value := value, t_expire := 0\<rparr>) ?st2"
  have f: "flag ?st3 x g = flag ?st2 x g" for x g by (simp add: flag_def)
  have f2: "flag ?st2 x g \<longleftrightarrow> flag st x g \<or> x = t \<and> (GEN_ACTIVE AND g \<noteq> 0 \<or> flag st t GEN_MARKED \<and> GEN_READD AND g \<noteq> 0)" for x g
    by auto
  have g: "g_timer ?st3 = g_timer st" "\<And>x. x \<in> set (g_timer st) \<Longrightarrow> timers ?st3 x = timers st x" using assms(2) by (auto simp: raise_flags_def)
  have e: "map (\<lambda>x. t_expire (timers ?st3 x)) (g_timer st) = map (\<lambda>x. t_expire (timers st x)) (g_timer st)" using g(2) by simp
  have 3: "ev_ok ?st3" using assms(1) unfolding ev_ok_def g(1) e f f2 by auto
  have m: "marks ?st3 = marks st" unfolding marks_def f f2 by auto
  have add: "timer_add now t c type value st = (if flag ?st3 t GEN_MARKED then Some ?st3 else timer_enqueue now t ?st3)"
    by (simp only: timer_add_def Let_def)
  show ?thesis
  proof (cases "flag st t GEN_MARKED")
    case True
    then have "flag ?st3 t GEN_MARKED" unfolding f f2 by simp
    with True add 3 m show ?thesis by simp
  next
    case False
    then have n: "\<not> flag ?st3 t GEN_MARKED" "flag ?st3 t GEN_ACTIVE" unfolding f f2 by simp_all
    have t3: "t_type (timers ?st3 t) = type" "t_value (timers ?st3 t) = value" by simp_all
    from timer_enqueue_ok [OF 3 _ n(2,1), of now] g(1) assms(2) obtain st' where "timer_enqueue now t ?st3 = Some st'" "ev_ok st'" "marks st' = marks ?st3"
      "t \<in> set (g_timer st')" "t_expire (timers st' t) = (case type of TT_ABSOLUTE \<Rightarrow> value | _ \<Rightarrow> value + now)"
      unfolding t3 by (auto simp del: set_timer_fields(3))
    then show ?thesis using add n(1) m by (auto split: TimerType.splits)
  qed
qed

lemma timer_chg_ok:
  assumes "ev_ok st" "t \<in> set (g_timer st) \<or> flag st t GEN_MARKED" "value \<noteq> 0" "t_type (timers st t) \<noteq> TT_PERIODIC" "type \<noteq> TT_PERIODIC"
  shows "\<exists>st'. timer_chg now t type value st = Some st' \<and> ev_ok st' \<and> marks st' = marks st \<and>
    (\<not> flag st t GEN_MARKED \<longrightarrow> t \<in> set (g_timer st') \<and> t_expire (timers st' t) = (if type = TT_ABSOLUTE then value else value + now))"
proof -
  let ?st1 = "set_timer t (\<lambda>x. x\<lparr>t_type := type, t_value := value, t_expire := 0\<rparr>) st"
  have f: "flag ?st1 x g = flag st x g" for x g by (simp add: flag_def)
  have chg: "timer_chg now t type value st = (if flag ?st1 t GEN_MARKED then Some (raise_flags t GEN_READD ?st1) else timer_enqueue now t (gen_dequeue t ?st1))"
    using assms(3-5) by (simp only: timer_chg_def Let_def simp_thms if_False)
  show ?thesis
  proof (cases "flag st t GEN_MARKED")
    case True
    then have "t \<notin> set (g_timer st)" using assms(1) by (auto simp: ev_ok_def)
    then have "ev_ok ?st1" by (intro ev_ok_cong [OF assms(1)]) (auto simp: f)
    then have "ev_ok (raise_flags t GEN_READD ?st1)" using True f [of t GEN_MARKED] by (auto simp: ev_ok_def)
    with True chg f show ?thesis by (auto simp: marks_def)
  next
    case False
    let ?st2 = "gen_dequeue t ?st1"
    have t: "t \<notin> set (remove1 t (g_timer st))" "flag st t GEN_ACTIVE" using assms(1,2) False by (auto simp: ev_ok_def)
    have 2: "ev_ok ?st2"
      by (rule ev_ok_cong [OF dequeue_ok [OF assms(1), of t]]) (use t(1) in \<open>auto simp: f\<close>)
    have "t_type (timers ?st2 t) = type" "t_value (timers ?st2 t) = value" by simp_all
    with timer_enqueue_ok [OF 2, of t now] t False f obtain st' where "timer_enqueue now t ?st2 = Some st'" "ev_ok st'" "marks st' = marks ?st2"
      "t \<in> set (g_timer st')" "t_expire (timers st' t) = (case type of TT_ABSOLUTE \<Rightarrow> value | _ \<Rightarrow> value + now)" by (cases type) auto
    then show ?thesis using chg False f by (auto simp: marks_def split: TimerType.splits)
  qed
qed

section \<open>The jobs of the server\<close>

text \<open>
  The jobs that timers start change the rest of the server, and some put their own timer back (\<open>check_pings\<close> and
  \<open>try_connections\<close> call \<open>timer_add\<close> on it with the time of the next check).  A job \<open>f\<close> takes the callback, the type of the
  event, the timer and the rest of the server to what becomes of the latter, and to the type and value with which
  the timer is put back when it has expired.
\<close>

type_synonym 's job = "nat \<Rightarrow> EventType \<Rightarrow> nat \<Rightarrow> 's \<Rightarrow> 's \<times> (TimerType \<times> int) option"

definition job_call :: "int \<Rightarrow> 's job \<Rightarrow> 's callback" where
  "job_call now f c type t st = (case f c type t (world st) of
     (w, Some (tt, v)) \<Rightarrow> if type = ET_EXPIRE then timer_add now t c tt v (st\<lparr>world := w\<rparr>) else Some (st\<lparr>world := w\<rparr>)
   | (w, None) \<Rightarrow> Some (st\<lparr>world := w\<rparr>))"

definition expiry :: "int \<Rightarrow> TimerType \<Rightarrow> int \<Rightarrow> int" where
  "expiry now tt v = (if tt = TT_ABSOLUTE then v else v + now)"

lemma ev_ok_world: "ev_ok st \<Longrightarrow> ev_ok (st\<lparr>world := w\<rparr>)"
  by (rule ev_ok_cong) (simp_all add: flag_def)

lemma world_fields [simp]: "flag (st\<lparr>world := w\<rparr>) x g = flag st x g" "marks (st\<lparr>world := w\<rparr>) = marks st"
  by (simp_all add: flag_def marks_def)

interpretation jobs: callbacks "job_call now f"
proof
  fix st :: "'a events" and c type t
  assume ok: "ev_ok st" and m: "type = ET_EXPIRE \<Longrightarrow> flag st t GEN_MARKED"
  have q: "t \<notin> set (g_timer (st\<lparr>world := w\<rparr>))" if "type = ET_EXPIRE" for w using m [OF that] ok by (auto simp: ev_ok_def)
  have "ev_ok (st\<lparr>world := w\<rparr>) \<and> marks (st\<lparr>world := w\<rparr>) = marks st" for w using ev_ok_world [OF ok] by simp
  then show "\<exists>st'. job_call now f c type t st = Some st' \<and> ev_ok st' \<and> marks st' = marks st"
    using timer_add_ok [OF ev_ok_world [OF ok] q] by (auto simp: job_call_def split: prod.split option.split) metis
qed

text \<open>
  What an expired timer does to the server, and when it expires again: it fires, and unless it is periodic or put back it
  is destroyed.  \<open>fire_all\<close> does so for a list of timers, one after the other.
\<close>

definition fire :: "int \<Rightarrow> 's job \<Rightarrow> (nat \<Rightarrow> Timer) \<Rightarrow> nat \<Rightarrow> 's \<Rightarrow> 's \<times> int option" where
  "fire now f ts t w = (case f (gh_call (ts t)) ET_EXPIRE t w of
     (w1, Some (tt, v)) \<Rightarrow> (w1, Some (expiry now tt v))
   | (w1, None) \<Rightarrow> if t_type (ts t) = TT_PERIODIC then (w1, Some (t_value (ts t) + now)) else (fst (f (gh_call (ts t)) ET_DESTROY t w1), None))"

fun fire_all :: "int \<Rightarrow> 's job \<Rightarrow> (nat \<Rightarrow> Timer) \<Rightarrow> nat list \<Rightarrow> 's \<Rightarrow> 's \<times> (nat \<times> int) list" where
  "fire_all now f ts [] w = (w, [])"
| "fire_all now f ts (t # q) w = (let (w1, e) = fire now f ts t w; (w2, es) = fire_all now f ts q w1
     in (w2, case e of None \<Rightarrow> es | Some x \<Rightarrow> (t, x) # es))"

lemma fire_all_cong: "(\<And>t. t \<in> set q \<Longrightarrow> ts' t = ts t) \<Longrightarrow> fire_all now f ts' q w = fire_all now f ts q w"
proof (induction q arbitrary: w)
  case (Cons t q)
  then have "ts' t = ts t" by simp
  then have "fire now f ts' t w = fire now f ts t w" for w by (simp only: fire_def)
  with Cons show ?case by simp
qed simp

lemma insert_timer_filter: "t \<notin> set q \<Longrightarrow> filter (\<lambda>x. x \<noteq> t) (insert_timer ex t q) = q"
  by (induction q) (auto simp: filter_id_conv)

text \<open>The timers other than \<open>t\<close> are the same in two states.\<close>

definition same_but :: "nat \<Rightarrow> 's events \<Rightarrow> 's events \<Rightarrow> bool" where
  "same_but t st st' \<longleftrightarrow> (\<forall>x. x \<noteq> t \<longrightarrow> timers st' x = timers st x)"

lemma timer_add_marked:
  assumes "flag st t GEN_MARKED"
  shows "timer_add now t c tt v st = Some (set_timer t (\<lambda>x. x\<lparr>gh_ref := 0, gh_call := c, t_type := tt, t_value := v, t_expire := 0\<rparr>)
    (raise_flags t GEN_READD (raise_flags t GEN_ACTIVE st)))"
proof -
  have "flag (set_timer t (\<lambda>x. x\<lparr>gh_ref := 0, gh_call := c, t_type := tt, t_value := v, t_expire := 0\<rparr>) s) t GEN_MARKED = flag s t GEN_MARKED"
    for s :: "'a events" by (simp add: flag_def)
  then show ?thesis using assms by (simp add: timer_add_def Let_def)
qed

text \<open>The event of an expired timer: whether the timer is put back, and with which type and value, is what the job says.\<close>

lemma expire_job:
  assumes m: "flag st t GEN_MARKED" and a: "flag st t GEN_ACTIVE" "\<not> flag st t GEN_DESTROY" and j: "f (gh_call (timers st t)) ET_EXPIRE t (world st) = (w, r)"
  shows "\<exists>st'. event_generate (job_call now f) ET_EXPIRE t st = Some st' \<and> g_timer st' = g_timer st \<and> world st' = w \<and> same_but t st st' \<and>
    gh_call (timers st' t) = gh_call (timers st t) \<and> (flag st' t GEN_READD \<longleftrightarrow> flag st t GEN_READD \<or> r \<noteq> None) \<and> flag st' t GEN_ACTIVE \<and>
    (t_type (timers st' t), t_value (timers st' t)) = (case r of None \<Rightarrow> (t_type (timers st t), t_value (timers st t)) | Some p \<Rightarrow> p)"
proof -
  let ?s2 = "(take_event t st)\<lparr>world := w\<rparr>"
  let ?dec = "set_timer t (\<lambda>x. x\<lparr>gh_ref := gh_ref x - 1\<rparr>)"
  have take: "timers ?s2 x = timers st x" if "x \<noteq> t" for x using that by (simp add: take_event_def)
  have dec: "gen_ref_dec (job_call now f) t s = Some (?dec s)" if "\<not> flag s t GEN_DESTROY" for s
    using that by (simp add: gen_ref_dec_def Let_def flag_def)
  have gen: "event_generate (job_call now f) ET_EXPIRE t st = Some (give_event (?dec s3))"
    if "job_call now f (gh_call (timers st t)) ET_EXPIRE t (take_event t st) = Some s3" "\<not> flag s3 t GEN_DESTROY" for s3
    using that a dec by (simp add: event_generate_def)
  have fd: "flag (?dec s) x g = flag s x g" for s :: "'a events" and x g by (simp add: flag_def)
  show ?thesis
  proof (cases r)
    case None
    have "job_call now f (gh_call (timers st t)) ET_EXPIRE t (take_event t st) = Some ?s2" using j None by (simp add: job_call_def)
    from gen [OF this] a show ?thesis using None take by (simp add: fd same_but_def)
  next
    case (Some p)
    obtain tt v where p: "p = (tt, v)" by (cases p)
    let ?s3 = "set_timer t (\<lambda>x. x\<lparr>gh_ref := 0, gh_call := gh_call (timers st t), t_type := tt, t_value := v, t_expire := 0\<rparr>)
      (raise_flags t GEN_READD (raise_flags t GEN_ACTIVE ?s2))"
    have f3: "flag ?s3 x g = flag (raise_flags t GEN_READD (raise_flags t GEN_ACTIVE ?s2)) x g" for x g by (simp add: flag_def)
    have "job_call now f (gh_call (timers st t)) ET_EXPIRE t (take_event t st) = Some ?s3"
      using j Some p m timer_add_marked [of ?s2 t] by (simp add: job_call_def)
    moreover have "\<not> flag ?s3 t GEN_DESTROY" unfolding f3 using a(2) by simp
    ultimately have g: "event_generate (job_call now f) ET_EXPIRE t st = Some (give_event (?dec ?s3))" by (rule gen)
    have "same_but t st (give_event (?dec ?s3))" using take by (simp add: same_but_def raise_flags_def)
    moreover have "flag (give_event (?dec ?s3)) t GEN_READD" "flag (give_event (?dec ?s3)) t GEN_ACTIVE" unfolding give_event_fields fd f3 by simp_all
    ultimately show ?thesis using g Some p by simp
  qed
qed

lemma destroy_job:
  assumes "flag st t GEN_ACTIVE"
  shows "\<exists>st'. event_generate (job_call now f) ET_DESTROY t st = Some st' \<and> g_timer st' = g_timer st \<and>
    world st' = fst (f (gh_call (timers st t)) ET_DESTROY t (world st)) \<and> same_but t st st'"
proof -
  let ?st = "clear_flags t GEN_ACTIVE (take_event t st)" and ?w = "fst (f (gh_call (timers st t)) ET_DESTROY t (world st))"
  have "job_call now f (gh_call (timers st t)) ET_DESTROY t ?st = Some (?st\<lparr>world := ?w\<rparr>)" by (simp add: job_call_def split: prod.split option.split)
  then have "event_generate (job_call now f) ET_DESTROY t st = Some (give_event (?st\<lparr>world := ?w\<rparr>))"
    using assms by (simp add: event_generate_def destroy_event_def)
  moreover have "same_but t st (give_event (?st\<lparr>world := ?w\<rparr>))" by (simp add: same_but_def clear_flags_def take_event_def)
  ultimately show ?thesis by simp
qed

lemma run_timer_job:
  assumes ok: "ev_ok st" and q: "g_timer st = t # q" and j: "fire now f (timers st) t (world st) = (w, e)"
  shows "\<exists>st'. run_timer (job_call now f) now t st = Some st' \<and> ev_ok st' \<and> world st' = w \<and> same_but t st st' \<and> filter (\<lambda>x. x \<noteq> t) (g_timer st') = q \<and>
    set (g_timer st') = (if e = None then set q else insert t (set q)) \<and>
    (\<forall>x. e = Some x \<longrightarrow> t_expire (timers st' t) = x \<and> x = expiry now (t_type (timers st' t)) (t_value (timers st' t)))"
proof -
  let ?c = "gh_call (timers st t)" and ?r = "GEN_MARKED OR (if t_type (timers st t) = TT_PERIODIC then GEN_READD else 0)"
  let ?st1 = "raise_flags t ?r (gen_dequeue t st)"
  obtain w1 r where r: "f ?c ET_EXPIRE t (world st) = (w1, r)" by fastforce
  have o: "?r AND GEN_ACTIVE = 0" "?r AND GEN_DESTROY = 0" "?r AND GEN_MARKED \<noteq> 0" "?r AND GEN_READD \<noteq> 0 \<longleftrightarrow> t_type (timers st t) = TT_PERIODIC"
    by (simp_all add: GEN_defs)
  have b: "flag st t GEN_ACTIVE" "\<not> flag st t GEN_DESTROY" "\<not> flag st t GEN_READD" "t \<notin> set q" using ok q by (auto simp: ev_ok_def)
  have a: "flag ?st1 t GEN_MARKED" "flag ?st1 t GEN_ACTIVE" "\<not> flag ?st1 t GEN_DESTROY" "flag ?st1 t GEN_READD \<longleftrightarrow> t_type (timers st t) = TT_PERIODIC"
    using b o by simp_all
  have raised: "timers ?st1 x = timers st x" if "x \<noteq> t" for x using that by (simp add: raise_flags_def)
  obtain st2 where 2: "event_generate (job_call now f) ET_EXPIRE t ?st1 = Some st2" "g_timer st2 = q" "world st2 = w1" "same_but t st st2"
    "gh_call (timers st2 t) = ?c" "flag st2 t GEN_READD \<longleftrightarrow> t_type (timers st t) = TT_PERIODIC \<or> r \<noteq> None" "flag st2 t GEN_ACTIVE"
    "(t_type (timers st2 t), t_value (timers st2 t)) = (case r of None \<Rightarrow> (t_type (timers st t), t_value (timers st t)) | Some p \<Rightarrow> p)"
    using expire_job [OF a(1-3), of f w1 r now] r q a(4) raised unfolding same_but_def raise_flags_fields(4,5) gen_dequeue_fields(4) by auto
  let ?st3 = "clear_flags t GEN_MARKED st2"
  have run: "run_timer (job_call now f) now t st = (if \<not> flag ?st3 t GEN_READD then event_generate (job_call now f) ET_DESTROY t ?st3
      else map_option (clear_flags t GEN_READD) (timer_enqueue now t ?st3))"
    unfolding run_timer_def Let_def 2(1) bind.simps ..
  obtain st' where st': "run_timer (job_call now f) now t st = Some st'" "ev_ok st'" using jobs.run_timer_ok [OF ok, of t now f now] q by auto
  have s3: "same_but t st ?st3" using 2(4) by (auto simp: same_but_def clear_flags_def)
  show ?thesis
  proof (cases "t_type (timers st t) = TT_PERIODIC \<or> r \<noteq> None")
    case False
    then have "r = None" by blast
    with j r False have e: "e = None" "w = fst (f ?c ET_DESTROY t w1)" by (auto simp: fire_def)
    have "event_generate (job_call now f) ET_DESTROY t ?st3 = Some st'" using run st'(1) 2(6) False by simp
    moreover have "filter (\<lambda>x. x \<noteq> t) q = q" using b(4) by (auto simp: filter_id_conv)
    ultimately show ?thesis using destroy_job [of ?st3 t now f] 2 e s3 st' by (auto simp: same_but_def)
  next
    case True
    then obtain st4 where 4: "timer_enqueue now t ?st3 = Some st4" "st' = clear_flags t GEN_READD st4"
      using run st'(1) 2(6) by (cases "timer_enqueue now t ?st3") auto
    have e: "w = w1" "e = Some (expiry now (t_type (timers st2 t)) (t_value (timers st2 t)))"
      using j r True 2(8) by (auto simp: fire_def expiry_def split: option.splits)
    have "set (g_timer st4) = insert t (set q)" "filter (\<lambda>x. x \<noteq> t) (g_timer st4) = q" "world st4 = world st2"
      "\<And>x. timers st4 x = (if x = t then (timers ?st3 t)\<lparr>t_expire := expiry now (t_type (timers st2 t)) (t_value (timers st2 t))\<rparr> else timers ?st3 x)"
      using 4(1) 2(2) b(4) by (auto simp: timer_enqueue_def Let_def insert_timer_set insert_timer_filter expiry_def split: if_splits TimerType.split)
    with 4(2) e st' 2(3) s3 show ?thesis by (auto simp: same_but_def clear_flags_def)
  qed
qed

section \<open>Properties\<close>

text \<open>
  C32.  For callbacks that keep the queue in order and the marks as they are, adding a timer, removing one and changing one
  always succeed and keep the queue of timers free of duplicates, active and sorted by expiry, and a run of the timers that returns
  leaves it so, with no timer that has expired.
\<close>

theorem timers_in_order:
  assumes "callbacks call" "ev_ok st"
  shows "(\<forall>t now c type value. t \<notin> set (g_timer st) \<longrightarrow> (\<exists>st'. timer_add now t c type value st = Some st' \<and> ev_ok st')) \<and>
    (\<forall>t. t \<in> set (g_timer st) \<longrightarrow> (\<exists>st'. timer_del call t st = Some st' \<and> ev_ok st')) \<and>
    (\<forall>t now type value. t \<in> set (g_timer st) \<longrightarrow> value \<noteq> 0 \<longrightarrow> t_type (timers st t) \<noteq> TT_PERIODIC \<longrightarrow> type \<noteq> TT_PERIODIC \<longrightarrow>
       (\<exists>st'. timer_chg now t type value st = Some st' \<and> ev_ok st')) \<and>
    (\<forall>now st'. timer_run call now st = Some st' \<longrightarrow> ev_ok st' \<and> (\<forall>t \<in> set (g_timer st'). now < t_expire (timers st' t)))"
proof (intro conjI allI impI)
  show "\<exists>st'. timer_add now t c type v st = Some st' \<and> ev_ok st'" if "t \<notin> set (g_timer st)" for t now c type v
    using timer_add_ok [OF assms(2) that] by blast
  show "\<exists>st'. timer_del call t st = Some st' \<and> ev_ok st'" if "t \<in> set (g_timer st)" for t
    using callbacks.timer_del_ok [OF assms] that by blast
  show "\<exists>st'. timer_chg now t type v st = Some st' \<and> ev_ok st'"
    if "t \<in> set (g_timer st)" "v \<noteq> 0" "t_type (timers st t) \<noteq> TT_PERIODIC" "type \<noteq> TT_PERIODIC" for t now type v
    using timer_chg_ok [OF assms(2), of t v type] that by blast
  show "ev_ok st'" "\<forall>t \<in> set (g_timer st'). now < t_expire (timers st' t)" if "timer_run call now st = Some st'" for now st'
    using callbacks.timer_run_ok [OF assms(1) that assms(2)] by blast+
qed

lemma due_split:
  assumes "sorted (map ex xs)"
  shows "filter (\<lambda>t. ex t \<le> now) xs = takeWhile (\<lambda>t. ex t \<le> (now :: int)) xs"
  using assms
proof (induction xs)
  case (Cons x xs)
  then have "filter (\<lambda>t. ex t \<le> now) xs = []" if "\<not> ex x \<le> now" using that unfolding filter_empty_conv by fastforce
  with Cons show ?case by auto
qed simp

definition due :: "int \<Rightarrow> 's events \<Rightarrow> nat list" where
  "due now st = takeWhile (\<lambda>t. t_expire (timers st t) \<le> now) (g_timer st)"

lemma due_filter: "ev_ok st \<Longrightarrow> due now st = filter (\<lambda>t. t_expire (timers st t) \<le> now) (g_timer st)"
  unfolding due_def by (rule due_split [symmetric]) (simp add: ev_ok_def)

text \<open>A timer that is put back expires later than now, whatever the state of the server.\<close>

definition later :: "int \<Rightarrow> 's job \<Rightarrow> bool" where
  "later now f \<longleftrightarrow> (\<forall>c t w tt v. snd (f c ET_EXPIRE t w) = Some (tt, v) \<longrightarrow> now < expiry now tt v)"

lemma fire_later:
  assumes "later now f" "t_type (ts t) = TT_PERIODIC \<longrightarrow> 0 < t_value (ts t)" "fire now f ts t w = (w', Some x)"
  shows "now < x"
proof -
  obtain w1 r where r: "f (gh_call (ts t)) ET_EXPIRE t w = (w1, r)" by fastforce
  moreover from this have "r = Some (tt, v) \<Longrightarrow> now < expiry now tt v" for tt v using assms(1) unfolding later_def by (metis snd_conv)
  ultimately show ?thesis using assms(2,3) by (auto simp: fire_def split: option.splits if_splits)
qed

lemma timer_run_all:
  assumes "ev_ok st" "\<forall>t \<in> set (g_timer st). t_type (timers st t) = TT_PERIODIC \<longrightarrow> 0 < t_value (timers st t)" "later now f"
    "fire_all now f (timers st) (due now st) (world st) = (w, es)"
  shows "\<exists>st'. timer_run (job_call now f) now st = Some st' \<and> world st' = w \<and> set (g_timer st') = (set (g_timer st) - set (due now st)) \<union> fst ` set es \<and>
    (\<forall>(t, e) \<in> set es. t_expire (timers st' t) = e) \<and> (\<forall>t. t \<notin> set (due now st) \<longrightarrow> timers st' t = timers st t)"
  using assms
proof (induction "due now st" arbitrary: st es)
  case Nil
  then have "g_timer st = [] \<or> (\<exists>t q. g_timer st = t # q \<and> now < t_expire (timers st t))" by (cases "g_timer st") (auto simp: due_def split: if_splits)
  then show ?case using Nil.prems(4) Nil.hyps [symmetric] by (auto simp: timer_run.simps [of _ _ st])
next
  case (Cons t ds)
  then obtain q where q: "g_timer st = t # q" "\<not> now < t_expire (timers st t)" "ds = takeWhile (\<lambda>t. t_expire (timers st t) \<le> now) q"
    by (cases "g_timer st") (auto simp: due_def split: if_splits)
  obtain w1 e where f: "fire now f (timers st) t (world st) = (w1, e)" by fastforce
  obtain es1 where g: "fire_all now f (timers st) ds w1 = (w, es1)" "es = (case e of None \<Rightarrow> es1 | Some x \<Rightarrow> (t, x) # es1)"
    using Cons.prems(4) f unfolding Cons.hyps(2) [symmetric] by (auto simp: Let_def split: prod.splits)
  obtain st1 where r: "run_timer (job_call now f) now t st = Some st1" "ev_ok st1" "world st1 = w1" "same_but t st st1" "filter (\<lambda>x. x \<noteq> t) (g_timer st1) = q"
    "set (g_timer st1) = (if e = None then set q else insert t (set q))"
    "\<And>x. e = Some x \<Longrightarrow> t_expire (timers st1 t) = x \<and> x = expiry now (t_type (timers st1 t)) (t_value (timers st1 t))"
    using run_timer_job [OF Cons.prems(1) q(1) f] by blast
  have s: "timers st1 x = timers st x" if "x \<noteq> t" for x using r(4) that by (auto simp: same_but_def)
  have tq: "t \<notin> set q" "sorted (map (\<lambda>x. t_expire (timers st x)) q)" using Cons.prems(1) q(1) by (auto simp: ev_ok_def)
  have x: "now < x" if "e = Some x" for x using fire_later [OF Cons.prems(3) _ f [unfolded that]] Cons.prems(2) q(1) by simp
  have late: "\<not> t_expire (timers st1 t) \<le> now" if "t \<in> set (g_timer st1)" using that r(6,7) tq(1) x by (auto split: if_splits)
  have "due now st1 = filter (\<lambda>x. t_expire (timers st1 x) \<le> now) (filter (\<lambda>x. x \<noteq> t) (g_timer st1))"
    unfolding due_filter [OF r(2)] filter_filter by (rule filter_cong) (use late in auto)
  also have "\<dots> = filter (\<lambda>x. t_expire (timers st x) \<le> now) q" unfolding r(5) by (rule filter_cong) (use s tq(1) in metis)+
  finally have d: "ds = due now st1" unfolding q(3) using due_split [OF tq(2), of now] by simp
  have tds: "t \<notin> set ds" using tq(1) q(3) by (auto dest: set_takeWhileD)
  have "0 < t_value (timers st1 y)" if "y \<in> set (g_timer st1)" "t_type (timers st1 y) = TT_PERIODIC" for y
  proof (cases "y = t")
    case True
    then have "e \<noteq> None" using that(1) r(6) tq(1) by (auto split: if_splits)
    then obtain z where "e = Some z" by blast
    with r(7) x that(2) True show ?thesis by (force simp: expiry_def)
  next
    case False
    with that r(6) Cons.prems(2) q(1) s show ?thesis by (auto split: if_splits)
  qed
  moreover have "fire_all now f (timers st1) (due now st1) (world st1) = (w, es1)"
    using fire_all_cong [of ds "timers st1" "timers st" now f w1] s tds g(1) unfolding d [symmetric] r(3) by metis
  ultimately obtain st' where st': "timer_run (job_call now f) now st1 = Some st'" "world st' = w"
    "set (g_timer st') = (set (g_timer st1) - set ds) \<union> fst ` set es1" "\<forall>(t, e) \<in> set es1. t_expire (timers st' t) = e"
    "\<forall>t. t \<notin> set ds \<longrightarrow> timers st' t = timers st1 t" using Cons.hyps(1) [OF d r(2) _ Cons.prems(3)] unfolding d by blast
  have "timer_run (job_call now f) now st = Some st'" using q r(1) st'(1) by (simp add: timer_run.simps [of _ _ st])
  moreover have "set (g_timer st') = (set (g_timer st) - set (t # ds)) \<union> fst ` set es"
    using st'(3) r(6) q(1) tds tq(1) g(2) by (auto split: option.splits)
  moreover have "\<forall>(t, e) \<in> set es. t_expire (timers st' t) = e" using st'(4,5) r(7) tds g(2) by (auto split: option.splits)
  moreover have "\<forall>x. x \<notin> set (t # ds) \<longrightarrow> timers st' x = timers st x" using st'(5) s by auto
  ultimately show ?case using st'(2) unfolding Cons.hyps(2) [symmetric] by blast
qed

text \<open>
  C9.  The callbacks are jobs: they change the rest of the server, and each may put back its own timer with \<open>timer_add\<close>, as
  \<open>check_pings\<close> and \<open>try_connections\<close> do.  When no job puts its timer back for a time that has already passed and periodic timers
  have a positive period, \<open>timer_run\<close> ends; it runs the callback of every timer that has expired, each once and in the order
  of expiry, destroys those that are neither periodic nor put back, queues the periodic ones for one period from now and those put
  back for the time they ask for, and leaves the timers that have not expired as they are.
\<close>

theorem timer_run_fires:
  assumes "ev_ok st" "\<forall>t \<in> set (g_timer st). t_type (timers st t) = TT_PERIODIC \<longrightarrow> 0 < t_value (timers st t)" "later now f"
    "fire_all now f (timers st) (due now st) (world st) = (w, es)"
  shows "\<exists>st'. timer_run (job_call now f) now st = Some st' \<and> ev_ok st' \<and> world st' = w \<and>
    set (g_timer st') = (set (g_timer st) - set (due now st)) \<union> fst ` set es \<and> (\<forall>t \<in> set (g_timer st'). now < t_expire (timers st' t)) \<and>
    (\<forall>(t, e) \<in> set es. t_expire (timers st' t) = e) \<and> (\<forall>t. t \<notin> set (due now st) \<longrightarrow> timers st' t = timers st t)"
  using timer_run_all [OF assms] jobs.timer_run_ok [OF _ assms(1), of now f now] by blast

text \<open>Timer 0 is periodic, timer 1 puts itself back 90 seconds from now, timer 2 fires once and timer 3 has not expired.\<close>

definition clocks :: "nat list events" where
  "clocks = \<lparr>timers = (\<lambda>t. \<lparr>gh_flags = (if t < 4 then GEN_ACTIVE else 0), gh_ref = 0, gh_call = t, t_type = (if t = 0 then TT_PERIODIC else TT_ABSOLUTE),
     t_value = 60, t_expire = 50 + int t\<rparr>), g_timer = [0, 1, 2, 3], events_free = 0, events_alloc = 0, world = []\<rparr>"

definition job_log :: "nat list job" where
  "job_log c type t w = (if type = ET_EXPIRE then (w @ [t], if c = 1 then Some (TT_RELATIVE, 90) else None) else (w @ [100 + t], None))"

lemma clocks_ok: "ev_ok clocks" by (auto simp: ev_ok_def clocks_def flag_def GEN_defs)

theorem timer_run_fires_witness:
  "\<exists>st'. timer_run (job_call 52 job_log) 52 clocks = Some st' \<and> world st' = [0, 1, 2, 102] \<and> set (g_timer st') = {0, 1, 3} \<and>
    t_expire (timers st' 0) = 112 \<and> t_expire (timers st' 1) = 142"
proof -
  have p: "\<forall>t \<in> set (g_timer clocks). t_type (timers clocks t) = TT_PERIODIC \<longrightarrow> 0 < t_value (timers clocks t)" by (simp add: clocks_def)
  have l: "later 52 job_log" by (auto simp: later_def job_log_def expiry_def)
  have d: "due 52 clocks = [0, 1, 2]" by (simp add: due_def clocks_def)
  have f: "fire_all 52 job_log (timers clocks) (due 52 clocks) (world clocks) = ([0, 1, 2, 102], [(0, 112), (1, 142)])"
    unfolding d by (simp add: clocks_def fire_def job_log_def expiry_def)
  have "set (g_timer clocks) - set (due 52 clocks) = {3}" unfolding d by (auto simp: clocks_def)
  with timer_run_fires [OF clocks_ok p l f] show ?thesis by auto
qed

theorem timers_in_order_witness:
  "\<exists>st'. timer_add 55 7 3 TT_RELATIVE 2 clocks = Some st' \<and> ev_ok st'"
proof -
  have "7 \<notin> set (g_timer clocks)" by (simp add: clocks_def)
  with timers_in_order [OF jobs.callbacks_axioms clocks_ok] show ?thesis by blast
qed

end
