(* ===== verification/Jupe.thy ===== *)
theory Jupe
  imports Numnicks Channel
begin

text \<open>
  Juped servers, from \<open>ircd/jupe.c\<close>, and the handlers of the JUPE message, from \<open>ircd/m_jupe.c\<close>.

  A jupe is known by its address, and the list \<open>GlobalJupeList\<close> is the list of the addresses on it; removing a jupe through
  its pointer to the pointer before it is removing its address.  What is sent, the replies and the notices to operators
  are collected in \<open>jout\<close>.  The last act of an operation may be the call of \<open>exit_client_msg\<close>: it is a value of
  \<open>jupe_result\<close>.  \<open>jenv\<close> holds what the operations read and do not change: the clock, settings and properties of clients.
\<close>

section \<open>State\<close>

definition JUPE_MAX_EXPIRE :: int where "JUPE_MAX_EXPIRE = 604800"

record Jupe =
  ju_server :: string
  ju_reason :: string
  ju_expire :: int
  ju_lastmod :: int
  ju_flags :: u32

definition JUPE_ACTIVE :: u32 where "JUPE_ACTIVE = 0x0001"
definition JUPE_LOCAL :: u32 where "JUPE_LOCAL = 0x0002"
definition JUPE_LDEACT :: u32 where "JUPE_LDEACT = 0x0004"
definition JUPE_MASK :: u32 where "JUPE_MASK = JUPE_ACTIVE OR JUPE_LOCAL"
definition JUPE_ACTMASK :: u32 where "JUPE_ACTMASK = JUPE_ACTIVE OR JUPE_LDEACT"

definition JupeIsActive :: "Jupe \<Rightarrow> bool" where "JupeIsActive j \<longleftrightarrow> ju_flags j AND JUPE_ACTMASK = JUPE_ACTIVE"
definition JupeIsRemActive :: "Jupe \<Rightarrow> bool" where "JupeIsRemActive j \<longleftrightarrow> ju_flags j AND JUPE_ACTIVE \<noteq> 0"
definition JupeIsLocal :: "Jupe \<Rightarrow> bool" where "JupeIsLocal j \<longleftrightarrow> ju_flags j AND JUPE_LOCAL \<noteq> 0"

text \<open>
  Messages: a JUPE to all servers but one, to one server, a JUPE passed on as it came or set up for another server,
  a notice to operators, and the replies.
\<close>

datatype jupe_out =
    Jupe_butone nat nat bool string int int string
  | Jupe_one nat bool string int int string
  | Jupe_forward nat nat string string string string string
  | Jupe_remote nat nat bool string string int string
  | Jupe_notice string nat string int string
  | Err_badexpire nat int
  | Err_nosuchjupe nat string
  | Rpl_jupelist nat string int bool bool string
  | Rpl_endofjupelist nat
  | Err_needmoreparams nat string
  | Err_disabled nat string
  | Err_nosuchserver nat string
  | Err_noprivileges nat

datatype jupe_result = Ret int | Exit_client_msg nat nat string

record jupe_state =
  jupes :: "nat \<Rightarrow> Jupe"
  GlobalJupeList :: "nat list"
  jupe_next :: nat
  jtables :: hash_state
  jnumerics :: nn_state
  jout :: "jupe_out list"

record jenv =
  CurrentTime :: int
  TSoffset :: int
  MyConnect :: "nat \<Rightarrow> bool"
  IsBurstOrBurstAck :: "nat \<Rightarrow> bool"
  HasJupe :: "nat \<Rightarrow> bool"
  HasLocalJupe :: "nat \<Rightarrow> bool"
  config_opercmds :: bool

definition say :: "jupe_out \<Rightarrow> jupe_state \<Rightarrow> jupe_state" where
  "say m st = st\<lparr>jout := jout st @ [m]\<rparr>"

definition set_jupe :: "nat \<Rightarrow> (Jupe \<Rightarrow> Jupe) \<Rightarrow> jupe_state \<Rightarrow> jupe_state" where
  "set_jupe j f st = st\<lparr>jupes := (jupes st)(j := f (jupes st j))\<rparr>"

definition TStime :: "jenv \<Rightarrow> int" where "TStime e = CurrentTime e + TSoffset e"

section \<open>The list of jupes\<close>

definition make_jupe :: "string \<Rightarrow> string \<Rightarrow> int \<Rightarrow> int \<Rightarrow> u32 \<Rightarrow> jupe_state \<Rightarrow> nat \<times> jupe_state" where
  "make_jupe server reason expire lastmod flags st =
    (let a = jupe_next st
     in (a, st\<lparr>jupes := (jupes st)(a := \<lparr>ju_server = server, ju_reason = reason, ju_expire = expire, ju_lastmod = lastmod,
                                         ju_flags = flags AND JUPE_MASK\<rparr>),
               GlobalJupeList := a # GlobalJupeList st, jupe_next := a + 1\<rparr>))"

definition jupe_free :: "nat \<Rightarrow> jupe_state \<Rightarrow> jupe_state" where
  "jupe_free j st = st\<lparr>GlobalJupeList := remove1 j (GlobalJupeList st)\<rparr>"

definition find_server :: "string \<Rightarrow> jupe_state \<Rightarrow> (nat option \<times> jupe_state) option" where
  "find_server name st =
    (if name = [] then Some (None, st)
     else map_option (\<lambda>(h, r). (r, st\<lparr>jtables := h\<rparr>)) (hSeekClient (jtables st) name (STAT_ME OR STAT_SERVER)))"

definition do_jupe :: "jenv \<Rightarrow> nat \<Rightarrow> nat \<Rightarrow> jupe_state \<Rightarrow> (jupe_result \<times> jupe_state) option" where
  "do_jupe e cptr j st =
    (if \<not> JupeIsActive (jupes st j) then Some (Ret 0, st)
     else map_option (\<lambda>(r, st1). case r of
         None \<Rightarrow> (Ret 0, st1)
       | Some acptr \<Rightarrow>
           if \<not> MyConnect e acptr \<or> cli_status (jtables st1) acptr = STAT_ME then (Ret 0, st1)
           else (Exit_client_msg cptr acptr (ju_reason (jupes st1 j)), st1))
       (find_server (ju_server (jupes st j)) st))"

definition propagate_jupe :: "jenv \<Rightarrow> nat \<Rightarrow> nat \<Rightarrow> nat \<Rightarrow> jupe_state \<Rightarrow> jupe_state" where
  "propagate_jupe e cptr sptr j st =
    (let ju = jupes st j
     in if JupeIsLocal ju then st
        else say (Jupe_butone sptr cptr (JupeIsRemActive ju) (ju_server ju) (ju_expire ju - CurrentTime e) (ju_lastmod ju) (ju_reason ju)) st)"

definition jupe_add :: "jenv \<Rightarrow> nat \<Rightarrow> nat \<Rightarrow> string \<Rightarrow> string \<Rightarrow> int \<Rightarrow> int \<Rightarrow> u32 \<Rightarrow> jupe_state \<Rightarrow> (jupe_result \<times> jupe_state) option" where
  "jupe_add e cptr sptr server reason expire lastmod flags st =
    (if expire \<le> 0 \<or> expire > JUPE_MAX_EXPIRE
     then Some (Ret 0, if cli_status (jtables st) cptr \<noteq> STAT_SERVER \<and> MyConnect e cptr then say (Err_badexpire cptr expire) st else st)
     else
       let expire = expire + CurrentTime e;
           st1 = say (Jupe_notice (if flags AND JUPE_LOCAL \<noteq> 0 then ''adding local '' else ''adding '') sptr server (expire + TSoffset e) reason) st;
           (j, st2) = make_jupe server reason expire lastmod flags st1
       in do_jupe e cptr j (propagate_jupe e cptr sptr j st2))"

text \<open>The last modification time must increase.\<close>

definition modified :: "int \<Rightarrow> Jupe \<Rightarrow> Jupe" where
  "modified lastmod ju = (if ju_lastmod ju \<ge> lastmod then ju\<lparr>ju_lastmod := ju_lastmod ju + 1\<rparr> else ju\<lparr>ju_lastmod := lastmod\<rparr>)"

definition jupe_activate :: "jenv \<Rightarrow> nat \<Rightarrow> nat \<Rightarrow> nat \<Rightarrow> int \<Rightarrow> u32 \<Rightarrow> jupe_state \<Rightarrow> (jupe_result \<times> jupe_state) option" where
  "jupe_activate e cptr sptr j lastmod flags st =
    (let saveflags = ju_flags (jupes st j);
         st1 = (if flags AND JUPE_LOCAL \<noteq> 0 then set_jupe j (\<lambda>ju. ju\<lparr>ju_flags := ju_flags ju AND NOT JUPE_LDEACT\<rparr>) st
                else set_jupe j (\<lambda>ju. modified lastmod (ju\<lparr>ju_flags := ju_flags ju OR JUPE_ACTIVE\<rparr>)) st)
     in if saveflags AND JUPE_ACTMASK = JUPE_ACTIVE then Some (Ret 0, st1)
        else
          let ju = jupes st1 j;
              st2 = say (Jupe_notice ''activating '' sptr (ju_server ju) (ju_expire ju + TSoffset e) (ju_reason ju)) st1;
              st3 = (if flags AND JUPE_LOCAL = 0 then propagate_jupe e cptr sptr j st2 else st2)
          in do_jupe e cptr j st3)"

definition jupe_deactivate :: "jenv \<Rightarrow> nat \<Rightarrow> nat \<Rightarrow> nat \<Rightarrow> int \<Rightarrow> u32 \<Rightarrow> jupe_state \<Rightarrow> jupe_result \<times> jupe_state" where
  "jupe_deactivate e cptr sptr j lastmod flags st =
    (let saveflags = ju_flags (jupes st j);
         local = JupeIsLocal (jupes st j);
         st1 = (if local then st
                else if flags AND JUPE_LOCAL \<noteq> 0 then set_jupe j (\<lambda>ju. ju\<lparr>ju_flags := ju_flags ju OR JUPE_LDEACT\<rparr>) st
                else set_jupe j (\<lambda>ju. modified lastmod (ju\<lparr>ju_flags := ju_flags ju AND NOT JUPE_ACTIVE\<rparr>)) st)
     in if \<not> local \<and> saveflags AND JUPE_ACTMASK \<noteq> JUPE_ACTIVE then (Ret 0, st1)
        else
          let ju = jupes st1 j;
              st2 = say (Jupe_notice (if JupeIsLocal ju then ''removing local '' else ''deactivating '') sptr (ju_server ju) (ju_expire ju + TSoffset e) (ju_reason ju)) st1
          in (Ret 0, if JupeIsLocal ju then jupe_free j st2
                     else if flags AND JUPE_LOCAL = 0 then propagate_jupe e cptr sptr j st2 else st2))"

text \<open>The loops over the list take the next pointer before they free a jupe: they run over the list as it was.\<close>

fun find_loop :: "jenv \<Rightarrow> string \<Rightarrow> nat list \<Rightarrow> jupe_state \<Rightarrow> nat option \<times> jupe_state" where
  "find_loop e server [] st = (None, st)"
| "find_loop e server (j # js) st =
    (if ju_expire (jupes st j) \<le> CurrentTime e then find_loop e server js (jupe_free j st)
     else if ircd_strcmp server (ju_server (jupes st j)) = 0 then (Some j, st)
     else find_loop e server js st)"

definition jupe_find :: "jenv \<Rightarrow> string \<Rightarrow> jupe_state \<Rightarrow> nat option \<times> jupe_state" where
  "jupe_find e server st = find_loop e server (GlobalJupeList st) st"

definition send_jupe :: "jenv \<Rightarrow> nat \<Rightarrow> nat \<Rightarrow> jupe_state \<Rightarrow> jupe_state" where
  "send_jupe e cptr j st =
    (let ju = jupes st j
     in say (Jupe_one cptr (JupeIsRemActive ju) (ju_server ju) (ju_expire ju - CurrentTime e) (ju_lastmod ju) (ju_reason ju)) st)"

fun burst_loop :: "jenv \<Rightarrow> nat \<Rightarrow> nat list \<Rightarrow> jupe_state \<Rightarrow> jupe_state" where
  "burst_loop e cptr [] st = st"
| "burst_loop e cptr (j # js) st = burst_loop e cptr js
    (if ju_expire (jupes st j) \<le> CurrentTime e then jupe_free j st
     else if \<not> JupeIsLocal (jupes st j) then send_jupe e cptr j st else st)"

definition jupe_burst :: "jenv \<Rightarrow> nat \<Rightarrow> jupe_state \<Rightarrow> jupe_state" where
  "jupe_burst e cptr st = burst_loop e cptr (GlobalJupeList st) st"

definition jupe_resend :: "jenv \<Rightarrow> nat \<Rightarrow> nat \<Rightarrow> jupe_state \<Rightarrow> jupe_state" where
  "jupe_resend e cptr j st = (if JupeIsLocal (jupes st j) then st else send_jupe e cptr j st)"

definition list_jupe :: "jenv \<Rightarrow> nat \<Rightarrow> nat \<Rightarrow> jupe_state \<Rightarrow> jupe_state" where
  "list_jupe e sptr j st =
    (let ju = jupes st j
     in say (Rpl_jupelist sptr (ju_server ju) (ju_expire ju + TSoffset e) (JupeIsLocal ju) (JupeIsActive ju) (ju_reason ju)) st)"

fun list_loop :: "jenv \<Rightarrow> nat \<Rightarrow> nat list \<Rightarrow> jupe_state \<Rightarrow> jupe_state" where
  "list_loop e sptr [] st = st"
| "list_loop e sptr (j # js) st = list_loop e sptr js
    (if ju_expire (jupes st j) \<le> CurrentTime e then jupe_free j st else list_jupe e sptr j st)"

definition jupe_list :: "jenv \<Rightarrow> nat \<Rightarrow> string option \<Rightarrow> jupe_state \<Rightarrow> jupe_state" where
  "jupe_list e sptr server st = (case server of
     Some name \<Rightarrow>
       (case jupe_find e name st of
          (None, st1) \<Rightarrow> say (Err_nosuchjupe sptr name) st1
        | (Some j, st1) \<Rightarrow> say (Rpl_endofjupelist sptr) (list_jupe e sptr j st1))
   | None \<Rightarrow> say (Rpl_endofjupelist sptr) (list_loop e sptr (GlobalJupeList st) st))"

section \<open>The handlers\<close>

text \<open>\<open>atoi\<close> of the C library, for numbers that fit.\<close>

fun digits_value :: "int \<Rightarrow> string \<Rightarrow> int" where
  "digits_value n [] = n"
| "digits_value n (c # s) = (if IsDigit c then digits_value (10 * n + (of_char c - 48)) s else n)"

definition atoi :: "string \<Rightarrow> int" where
  "atoi s =
    (let s = dropWhile (\<lambda>c. c = CHR '' '' \<or> (of_char c :: nat) \<in> {9..13}) s
     in if deref s = CHR ''-'' then - digits_value 0 (tl s)
        else if deref s = CHR ''+'' then digits_value 0 (tl s) else digits_value 0 s)"

text \<open>\<open>ms_jupe\<close> from the search for the jupe on.\<close>

definition receive_jupe :: "jenv \<Rightarrow> nat \<Rightarrow> nat \<Rightarrow> string \<Rightarrow> string \<Rightarrow> int \<Rightarrow> int \<Rightarrow> u32 \<Rightarrow> jupe_state \<Rightarrow> (jupe_result \<times> jupe_state) option" where
  "receive_jupe e cptr sptr server reason expire_off lastmod flags st =
    (case jupe_find e server st of
       (Some j, st1) \<Rightarrow>
         if JupeIsLocal (jupes st1 j) \<and> flags AND JUPE_LOCAL = 0
         then jupe_add e cptr sptr server reason expire_off lastmod flags (jupe_free j st1)
         else if ju_lastmod (jupes st1 j) < lastmod
         then (if flags AND JUPE_ACTIVE \<noteq> 0 then jupe_activate e cptr sptr j lastmod flags st1
               else Some (jupe_deactivate e cptr sptr j lastmod flags st1))
         else if ju_lastmod (jupes st1 j) = lastmod \<or> IsBurstOrBurstAck e cptr then Some (Ret 0, st1)
         else Some (Ret 0, jupe_resend e cptr j st1)
     | (None, st1) \<Rightarrow> jupe_add e cptr sptr server reason expire_off lastmod flags st1)"

text \<open>\<open>parv\<close> has the parameters from \<open>parv[1]\<close> on, so that \<open>parc\<close> is one more than its length.\<close>

definition ms_jupe :: "jenv \<Rightarrow> nat \<Rightarrow> nat \<Rightarrow> string list \<Rightarrow> jupe_state \<Rightarrow> (jupe_result \<times> jupe_state) option" where
  "ms_jupe e cptr sptr parv st =
    (case parv of
       target # server0 # expire # lastmod # reason # _ \<Rightarrow>
         let active = (if deref server0 = CHR ''+'' then JUPE_ACTIVE else 0);
             server = (if deref server0 = CHR ''-'' \<or> deref server0 = CHR ''+'' then tl server0 else server0)
         in if target = ''*'' then receive_jupe e cptr sptr server reason (atoi expire) (atoi lastmod) active st
            else (case FindNServer (jnumerics st) target of
                    None \<Rightarrow> Some (Ret 0, st)
                  | Some acptr \<Rightarrow>
                      if cli_status (jtables st) acptr \<noteq> STAT_ME
                      then Some (Ret 0, say (Jupe_forward sptr acptr target server0 expire lastmod reason) st)
                      else receive_jupe e cptr sptr server reason (atoi expire) (atoi lastmod) (JUPE_LOCAL OR active) st)
     | _ \<Rightarrow> Some (Ret 0, say (Err_needmoreparams sptr ''JUPE'') st))"

text \<open>The rights an operator needs: \<open>Inl\<close> is the answer to one who lacks them, \<open>Inr\<close> has the flags.\<close>

definition jupe_target :: "jenv \<Rightarrow> nat \<Rightarrow> string \<Rightarrow> string \<Rightarrow> string \<Rightarrow> string \<Rightarrow> u32 \<Rightarrow> jupe_state \<Rightarrow> jupe_out + u32" where
  "jupe_target e sptr target server expire reason flags st =
    (if target = ''*'' then (if HasJupe e sptr then Inr flags else Inl (Err_noprivileges sptr))
     else (case find_match_server (jnumerics st) target of
             None \<Rightarrow> Inl (Err_nosuchserver sptr (collapse target))
           | Some acptr \<Rightarrow>
               if cli_status (jtables st) acptr \<noteq> STAT_ME
               then (if HasJupe e sptr then Inl (Jupe_remote sptr acptr (flags AND JUPE_ACTIVE \<noteq> 0) server expire (TStime e) reason)
                     else Inl (Err_noprivileges sptr))
               else if HasLocalJupe e sptr then Inr (flags OR JUPE_LOCAL) else Inl (Err_noprivileges sptr)))"

definition change_jupe :: "jenv \<Rightarrow> nat \<Rightarrow> nat \<Rightarrow> string \<Rightarrow> string \<Rightarrow> int \<Rightarrow> u32 \<Rightarrow> jupe_state \<Rightarrow> (jupe_result \<times> jupe_state) option" where
  "change_jupe e cptr sptr server reason expire_off flags st =
    (case jupe_find e server st of
       (Some j, st1) \<Rightarrow>
         if JupeIsLocal (jupes st1 j) \<and> flags AND JUPE_LOCAL = 0
         then jupe_add e cptr sptr server reason expire_off (TStime e) flags (jupe_free j st1)
         else if flags AND JUPE_ACTIVE \<noteq> 0 then jupe_activate e cptr sptr j (TStime e) flags st1
         else Some (jupe_deactivate e cptr sptr j (TStime e) flags st1)
     | (None, st1) \<Rightarrow> jupe_add e cptr sptr server reason expire_off (TStime e) flags st1)"

definition mo_jupe :: "jenv \<Rightarrow> nat \<Rightarrow> nat \<Rightarrow> string list \<Rightarrow> jupe_state \<Rightarrow> (jupe_result \<times> jupe_state) option" where
  "mo_jupe e cptr sptr parv st =
    (case parv of
       [] \<Rightarrow> Some (Ret 0, jupe_list e sptr None st)
     | server0 # args \<Rightarrow>
         if deref server0 \<noteq> CHR ''+'' \<and> deref server0 \<noteq> CHR ''-'' then Some (Ret 0, jupe_list e sptr (Some server0) st)
         else if \<not> config_opercmds e then Some (Ret 0, say (Err_disabled sptr ''JUPE'') st)
         else
           let server = tl server0;
               flags = (if deref server0 = CHR ''+'' then JUPE_ACTIVE else 0)
           in (case args of
                 [expire, reason] \<Rightarrow> change_jupe e cptr sptr server reason (atoi expire) (flags OR JUPE_LOCAL) st
               | target # expire # reason # _ \<Rightarrow>
                   (case jupe_target e sptr target server expire reason flags st of
                      Inl m \<Rightarrow> Some (Ret 0, say m st)
                    | Inr flags \<Rightarrow> change_jupe e cptr sptr server reason (atoi expire) flags st)
               | _ \<Rightarrow> Some (Ret 0, say (Err_needmoreparams sptr ''JUPE'') st)))"

definition m_jupe :: "jenv \<Rightarrow> nat \<Rightarrow> string list \<Rightarrow> jupe_state \<Rightarrow> jupe_state" where
  "m_jupe e sptr parv st = (case parv of [] \<Rightarrow> jupe_list e sptr None st | server # _ \<Rightarrow> jupe_list e sptr (Some server) st)"

section \<open>Flags\<close>

lemma jupe_bit_consts [simp]:
  "bit JUPE_ACTIVE n \<longleftrightarrow> n = 0" "bit JUPE_LOCAL n \<longleftrightarrow> n = 1" "bit JUPE_LDEACT n \<longleftrightarrow> n = 2" "bit JUPE_MASK n \<longleftrightarrow> n = 0 \<or> n = 1"
  "bit JUPE_ACTMASK n \<longleftrightarrow> n = 0 \<or> n = 2"
proof -
  have b: "bit (push_bit k 1 :: u32) n \<longleftrightarrow> n = k" if "k < 32" for k using that by (auto simp: bit_push_bit_iff bit_1_iff simp del: push_bit_of_1)
  have e: "JUPE_ACTIVE = push_bit 0 1" "JUPE_LOCAL = push_bit 1 1" "JUPE_LDEACT = push_bit 2 1"
    by (simp_all add: JUPE_ACTIVE_def JUPE_LOCAL_def JUPE_LDEACT_def)
  have l: "(0::nat) < 32" "(1::nat) < 32" "(2::nat) < 32" by simp_all
  show a: "bit JUPE_ACTIVE n \<longleftrightarrow> n = 0" "bit JUPE_LOCAL n \<longleftrightarrow> n = 1" "bit JUPE_LDEACT n \<longleftrightarrow> n = 2"
    unfolding e by (rule b [OF l(1)], rule b [OF l(2)], rule b [OF l(3)])
  show "bit JUPE_MASK n \<longleftrightarrow> n = 0 \<or> n = 1" "bit JUPE_ACTMASK n \<longleftrightarrow> n = 0 \<or> n = 2" by (simp_all add: JUPE_MASK_def JUPE_ACTMASK_def bit_or_iff a)
qed

lemma jupe_flag_bits:
  "w AND JUPE_ACTIVE = 0 \<longleftrightarrow> \<not> bit w 0" "w AND JUPE_LOCAL = 0 \<longleftrightarrow> \<not> bit w 1" "w AND JUPE_LDEACT = 0 \<longleftrightarrow> \<not> bit w 2"
  "w AND JUPE_ACTMASK = JUPE_ACTIVE \<longleftrightarrow> bit w 0 \<and> \<not> bit w 2" for w :: u32
proof -
  have q: "a = b \<longleftrightarrow> (\<forall>n. bit a n \<longleftrightarrow> bit b n)" for a b :: u32 by (auto intro: bit_word_eqI)
  have z: "bit (0 :: u32) n = False" for n by simp
  note f = q bit_and_iff jupe_bit_consts z
  show "w AND JUPE_ACTIVE = 0 \<longleftrightarrow> \<not> bit w 0" unfolding f by blast
  show "w AND JUPE_LOCAL = 0 \<longleftrightarrow> \<not> bit w 1" unfolding f by blast
  show "w AND JUPE_LDEACT = 0 \<longleftrightarrow> \<not> bit w 2" unfolding f by blast
  show "w AND JUPE_ACTMASK = JUPE_ACTIVE \<longleftrightarrow> bit w 0 \<and> \<not> bit w 2" unfolding f by (metis (no_types) zero_neq_numeral)
qed

lemmas jupe_is = JupeIsActive_def JupeIsRemActive_def JupeIsLocal_def jupe_flag_bits

section \<open>The state\<close>

lemma jupe_fields [simp]:
  "jupes (say m st) = jupes st" "GlobalJupeList (say m st) = GlobalJupeList st" "jupe_next (say m st) = jupe_next st"
  "jtables (say m st) = jtables st" "jnumerics (say m st) = jnumerics st" "jout (say m st) = jout st @ [m]"
  "jupes (jupe_free j st) = jupes st" "GlobalJupeList (jupe_free j st) = remove1 j (GlobalJupeList st)"
  "jupe_next (jupe_free j st) = jupe_next st" "jtables (jupe_free j st) = jtables st" "jnumerics (jupe_free j st) = jnumerics st"
  "jout (jupe_free j st) = jout st"
  "jupes (set_jupe j f st) = (jupes st)(j := f (jupes st j))" "GlobalJupeList (set_jupe j f st) = GlobalJupeList st"
  "jupe_next (set_jupe j f st) = jupe_next st" "jtables (set_jupe j f st) = jtables st" "jnumerics (set_jupe j f st) = jnumerics st"
  "jout (set_jupe j f st) = jout st"
  by (simp_all add: say_def jupe_free_def set_jupe_def)

text \<open>The jupes of the list that have not expired, and the one of a name.\<close>

definition live :: "jenv \<Rightarrow> jupe_state \<Rightarrow> nat list" where
  "live e st = filter (\<lambda>j. CurrentTime e < ju_expire (jupes st j)) (GlobalJupeList st)"

definition jupe_of :: "jenv \<Rightarrow> jupe_state \<Rightarrow> string \<Rightarrow> Jupe option" where
  "jupe_of e st name = map_option (jupes st) (List.find (\<lambda>j. fold_eq name (ju_server (jupes st j))) (live e st))"

definition jinv :: "jupe_state \<Rightarrow> bool" where
  "jinv st \<longleftrightarrow> client_inv (jtables st) \<and> distinct (GlobalJupeList st) \<and>
    (\<forall>j \<in> set (GlobalJupeList st). j < jupe_next st \<and> is_cstr (ju_server (jupes st j)) \<and>
       (JupeIsLocal (jupes st j) \<longrightarrow> ju_flags (jupes st j) AND JUPE_LDEACT = 0)) \<and>
    (\<forall>i \<in> set (GlobalJupeList st). \<forall>j \<in> set (GlobalJupeList st). fold_eq (ju_server (jupes st i)) (ju_server (jupes st j)) \<longrightarrow> i = j)"

text \<open>Walking the list may drop expired jupes and send something.\<close>

definition trimmed :: "jenv \<Rightarrow> jupe_state \<Rightarrow> jupe_state \<Rightarrow> bool" where
  "trimmed e st st' \<longleftrightarrow> jupes st' = jupes st \<and> jupe_next st' = jupe_next st \<and> jtables st' = jtables st \<and> jnumerics st' = jnumerics st \<and>
    set (GlobalJupeList st') \<subseteq> set (GlobalJupeList st) \<and> (distinct (GlobalJupeList st) \<longrightarrow> distinct (GlobalJupeList st') \<and> live e st' = live e st)"

lemma trimmed_refl: "jupes st' = jupes st \<Longrightarrow> GlobalJupeList st' = GlobalJupeList st \<Longrightarrow> jupe_next st' = jupe_next st \<Longrightarrow> jtables st' = jtables st \<Longrightarrow>
    jnumerics st' = jnumerics st \<Longrightarrow> trimmed e st st'"
  by (simp add: trimmed_def live_def)

lemma trimmed_trans: "trimmed e st st1 \<Longrightarrow> trimmed e st1 st2 \<Longrightarrow> trimmed e st st2"
  by (auto simp: trimmed_def)

lemma trimmed_free: "\<not> CurrentTime e < ju_expire (jupes st j) \<Longrightarrow> trimmed e st (jupe_free j st)"
proof -
  assume a: "\<not> CurrentTime e < ju_expire (jupes st j)"
  have "filter P (remove1 j xs) = filter P xs" if "\<not> P j" for P and xs :: "nat list" using that by (induction xs) auto
  with a show ?thesis by (auto simp: trimmed_def live_def dest: set_remove1_subset [THEN subsetD])
qed

lemma trimmed_jinv: "trimmed e st st' \<Longrightarrow> jinv st \<Longrightarrow> jinv st'"
  unfolding trimmed_def jinv_def by (simp add: subset_iff)

lemma trimmed_of: "trimmed e st st' \<Longrightarrow> jinv st \<Longrightarrow> jupe_of e st' name = jupe_of e st name"
  by (simp add: trimmed_def jinv_def jupe_of_def)

lemma find_loop_ok:
  "find_loop e s js st = (r, st') \<Longrightarrow> trimmed e st st' \<and> jout st' = jout st \<and>
    r = List.find (\<lambda>j. CurrentTime e < ju_expire (jupes st j) \<and> ircd_strcmp s (ju_server (jupes st j)) = 0) js"
proof (induction js arbitrary: st)
  case (Cons j js)
  show ?case
  proof (cases "ju_expire (jupes st j) \<le> CurrentTime e")
    case True
    with Cons.prems Cons.IH [of "jupe_free j st"] trimmed_trans [OF trimmed_free, of e st j st'] show ?thesis by auto
  next
    case False
    with Cons show ?thesis by (auto simp: trimmed_refl split: if_splits)
  qed
qed (auto simp: trimmed_refl)

lemma find_and_filter: "List.find (\<lambda>x. P x \<and> Q x) xs = List.find Q (filter P xs)"
  by (induction xs) auto

lemma find_cong_set: "(\<And>x. x \<in> set xs \<Longrightarrow> P x = Q x) \<Longrightarrow> List.find P xs = List.find Q xs"
  by (induction xs) auto

lemma jupe_find_ok:
  assumes "jinv st" "is_cstr s" "jupe_find e s st = (r, st')"
  shows "trimmed e st st'" "jout st' = jout st" "r = List.find (\<lambda>j. fold_eq s (ju_server (jupes st j))) (live e st)"
proof -
  note f = find_loop_ok [OF assms(3) [unfolded jupe_find_def]]
  then show "trimmed e st st'" "jout st' = jout st" by simp_all
  have "List.find (\<lambda>j. ircd_strcmp s (ju_server (jupes st j)) = 0) (live e st) = List.find (\<lambda>j. fold_eq s (ju_server (jupes st j))) (live e st)"
    by (rule find_cong_set) (use assms in \<open>auto simp: live_def jinv_def ircd_strcmp_0_iff\<close>)
  with f show "r = List.find (\<lambda>j. fold_eq s (ju_server (jupes st j))) (live e st)" by (simp add: find_and_filter live_def)
qed

lemma jupe_of_Some:
  assumes "jinv st"
  shows "jupe_of e st name = Some ju \<longleftrightarrow> (\<exists>j \<in> set (live e st). fold_eq name (ju_server (jupes st j)) \<and> ju = jupes st j)"
proof -
  have u: "i = j" if "i \<in> set (live e st)" "j \<in> set (live e st)" "fold_eq name (ju_server (jupes st i))" "fold_eq name (ju_server (jupes st j))" for i j
    using assms that unfolding jinv_def live_def fold_eq_def by (metis (no_types, lifting) filter_is_subset in_mono)
  show ?thesis
  proof
    assume "jupe_of e st name = Some ju"
    then obtain j where "List.find (\<lambda>j. fold_eq name (ju_server (jupes st j))) (live e st) = Some j" "ju = jupes st j" by (auto simp: jupe_of_def)
    then show "\<exists>j \<in> set (live e st). fold_eq name (ju_server (jupes st j)) \<and> ju = jupes st j" by (auto simp: find_Some_iff)
  next
    assume "\<exists>j \<in> set (live e st). fold_eq name (ju_server (jupes st j)) \<and> ju = jupes st j"
    then obtain j where j: "j \<in> set (live e st)" "fold_eq name (ju_server (jupes st j))" "ju = jupes st j" by blast
    then obtain i where i: "List.find (\<lambda>j. fold_eq name (ju_server (jupes st j))) (live e st) = Some i"
      by (cases "List.find (\<lambda>j. fold_eq name (ju_server (jupes st j))) (live e st)") (auto simp: find_None_iff)
    then have "i \<in> set (live e st)" "fold_eq name (ju_server (jupes st i))" by (auto simp: find_Some_iff)
    with u j have "i = j" by blast
    with i j show "jupe_of e st name = Some ju" by (simp add: jupe_of_def)
  qed
qed

section \<open>The operations\<close>

lemma find_server_ok:
  assumes "client_inv (jtables st)" "is_cstr n"
  shows "\<exists>r h. find_server n st = Some (r, st\<lparr>jtables := h\<rparr>) \<and> client_inv h \<and> cli_status h = cli_status (jtables st) \<and>
    (n \<noteq> [] \<longrightarrow> (case r of None \<Rightarrow> \<forall>c \<in> tmem (clientTable (jtables st)). \<not> client_hit (STAT_ME OR STAT_SERVER) (jtables st) n c
     | Some c \<Rightarrow> c \<in> tmem (clientTable (jtables st)) \<and> client_hit (STAT_ME OR STAT_SERVER) (jtables st) n c))"
proof (cases "n = []")
  case True
  with assms show ?thesis by (auto simp: find_server_def intro!: exI [of _ "jtables st"])
next
  case False
  obtain h r where h: "hSeekClient (jtables st) n (STAT_ME OR STAT_SERVER) = Some (h, r)" "client_inv h"
    "case r of None \<Rightarrow> \<forall>c \<in> tmem (clientTable (jtables st)). \<not> client_hit (STAT_ME OR STAT_SERVER) (jtables st) n c
     | Some c \<Rightarrow> c \<in> tmem (clientTable (jtables st)) \<and> client_hit (STAT_ME OR STAT_SERVER) (jtables st) n c"
    using cl.seek_ok [OF assms, of "STAT_ME OR STAT_SERVER"] by blast
  have "cli_status h = cli_status (jtables st)" using h(1) by (auto simp: hSeekClient_def)
  with h False show ?thesis by (auto simp: find_server_def)
qed

lemma do_jupe_ok:
  assumes "client_inv (jtables st)" "is_cstr (ju_server (jupes st j))"
  shows "\<exists>r h. do_jupe e cptr j st = Some (r, st\<lparr>jtables := h\<rparr>) \<and> client_inv h"
proof -
  obtain r h where "find_server (ju_server (jupes st j)) st = Some (r, st\<lparr>jtables := h\<rparr>)" "client_inv h" using find_server_ok [OF assms] by blast
  with assms(1) show ?thesis unfolding do_jupe_def by (cases r) (auto intro: exI [of _ "jtables st"])
qed

lemma jinv_tables: "jinv st \<Longrightarrow> client_inv h \<Longrightarrow> jinv (st\<lparr>jtables := h\<rparr>)"
  by (simp add: jinv_def)

lemma jinv_say [simp]: "jinv (say m st) = jinv st"
  by (simp add: jinv_def)

lemma propagate_fields [simp]:
  "jupes (propagate_jupe e c s j st) = jupes st" "GlobalJupeList (propagate_jupe e c s j st) = GlobalJupeList st"
  "jupe_next (propagate_jupe e c s j st) = jupe_next st" "jtables (propagate_jupe e c s j st) = jtables st"
  "jinv (propagate_jupe e c s j st) = jinv st"
  by (simp_all add: propagate_jupe_def Let_def)

lemma jinv_free: "jinv st \<Longrightarrow> jinv (jupe_free j st)"
  unfolding jinv_def by (auto dest: set_remove1_subset [THEN subsetD])

lemma jinv_set:
  assumes "jinv st" "ju_server (f (jupes st j)) = ju_server (jupes st j)"
    "JupeIsLocal (f (jupes st j)) \<Longrightarrow> JupeIsLocal (jupes st j) \<Longrightarrow> ju_flags (jupes st j) AND JUPE_LDEACT = 0 \<Longrightarrow> ju_flags (f (jupes st j)) AND JUPE_LDEACT = 0"
    "JupeIsLocal (f (jupes st j)) \<Longrightarrow> JupeIsLocal (jupes st j)"
  shows "jinv (set_jupe j f st)"
  using assms unfolding jinv_def by auto

lemma do_jupe_keeps:
  assumes "jinv st" "j \<in> set (GlobalJupeList st)"
  shows "\<exists>r st'. do_jupe e cptr j st = Some (r, st') \<and> jinv st' \<and> jupes st' = jupes st \<and> GlobalJupeList st' = GlobalJupeList st \<and> jout st' = jout st"
proof -
  have "client_inv (jtables st)" "is_cstr (ju_server (jupes st j))" using assms by (auto simp: jinv_def)
  from do_jupe_ok [OF this] obtain r h where "do_jupe e cptr j st = Some (r, st\<lparr>jtables := h\<rparr>)" "client_inv h" by blast
  with jinv_tables [OF assms(1)] show ?thesis by auto
qed

definition new_jupe :: "string \<Rightarrow> string \<Rightarrow> int \<Rightarrow> int \<Rightarrow> u32 \<Rightarrow> Jupe" where
  "new_jupe server reason expire lastmod flags =
    \<lparr>ju_server = server, ju_reason = reason, ju_expire = expire, ju_lastmod = lastmod, ju_flags = flags AND JUPE_MASK\<rparr>"

lemma jupe_add_ok:
  assumes "jinv st" "is_cstr server" "\<forall>k \<in> set (GlobalJupeList st). \<not> fold_eq server (ju_server (jupes st k))"
  shows "\<exists>r st'. jupe_add e cptr sptr server reason expire lastmod flags st = Some (r, st') \<and> jinv st' \<and>
    (if 0 < expire \<and> expire \<le> JUPE_MAX_EXPIRE
     then jupes st' = (jupes st)(jupe_next st := new_jupe server reason (expire + CurrentTime e) lastmod flags) \<and>
       GlobalJupeList st' = jupe_next st # GlobalJupeList st
     else jupes st' = jupes st \<and> GlobalJupeList st' = GlobalJupeList st)"
proof (cases "0 < expire \<and> expire \<le> JUPE_MAX_EXPIRE")
  case False
  with assms(1) show ?thesis by (auto simp: jupe_add_def)
next
  case True
  let ?j = "new_jupe server reason (expire + CurrentTime e) lastmod flags"
  define st1 where "st1 = say (Jupe_notice (if flags AND JUPE_LOCAL \<noteq> 0 then ''adding local '' else ''adding '') sptr server (expire + CurrentTime e + TSoffset e) reason) st"
  define st2 where "st2 = snd (make_jupe server reason (expire + CurrentTime e) lastmod flags st1)"
  have m: "make_jupe server reason (expire + CurrentTime e) lastmod flags st1 = (jupe_next st, st2)" by (simp add: st2_def make_jupe_def Let_def st1_def)
  have s: "jupes st2 = (jupes st)(jupe_next st := ?j)" "GlobalJupeList st2 = jupe_next st # GlobalJupeList st" "jupe_next st2 = jupe_next st + 1" "jtables st2 = jtables st"
    by (simp_all add: st2_def make_jupe_def Let_def st1_def new_jupe_def)
  have n: "jupe_next st \<notin> set (GlobalJupeList st)" using assms(1) by (auto simp: jinv_def)
  have l: "ju_flags ?j AND JUPE_LDEACT = 0" by (simp add: new_jupe_def jupe_flag_bits bit_and_iff)
  have "jinv st2" using assms n l unfolding jinv_def s by (auto simp: new_jupe_def less_Suc_eq fold_eq_def dest: sym)
  then have "jinv (propagate_jupe e cptr sptr (jupe_next st) st2)" by simp
  from do_jupe_keeps [OF this, of "jupe_next st" e cptr] obtain r st' where
    "do_jupe e cptr (jupe_next st) (propagate_jupe e cptr sptr (jupe_next st) st2) = Some (r, st')" "jinv st'" "jupes st' = jupes st2" "GlobalJupeList st' = GlobalJupeList st2"
    by (auto simp: s)
  with True show ?thesis unfolding jupe_add_def by (auto simp: Let_def s m st1_def [symmetric])
qed

definition activated :: "int \<Rightarrow> u32 \<Rightarrow> Jupe \<Rightarrow> Jupe" where
  "activated lastmod flags ju = (if flags AND JUPE_LOCAL \<noteq> 0 then ju\<lparr>ju_flags := ju_flags ju AND NOT JUPE_LDEACT\<rparr>
     else modified lastmod (ju\<lparr>ju_flags := ju_flags ju OR JUPE_ACTIVE\<rparr>))"

definition deactivated :: "int \<Rightarrow> u32 \<Rightarrow> Jupe \<Rightarrow> Jupe" where
  "deactivated lastmod flags ju = (if flags AND JUPE_LOCAL \<noteq> 0 then ju\<lparr>ju_flags := ju_flags ju OR JUPE_LDEACT\<rparr>
     else modified lastmod (ju\<lparr>ju_flags := ju_flags ju AND NOT JUPE_ACTIVE\<rparr>))"

lemma modified_fields [simp]:
  "ju_server (modified l ju) = ju_server ju" "ju_flags (modified l ju) = ju_flags ju" "ju_expire (modified l ju) = ju_expire ju" "ju_reason (modified l ju) = ju_reason ju"
  by (simp_all add: modified_def)

lemma changed_fields [simp]:
  "ju_server (activated l f ju) = ju_server ju" "ju_expire (activated l f ju) = ju_expire ju" "ju_reason (activated l f ju) = ju_reason ju"
  "ju_server (deactivated l f ju) = ju_server ju" "ju_expire (deactivated l f ju) = ju_expire ju" "ju_reason (deactivated l f ju) = ju_reason ju"
  "JupeIsLocal (activated l f ju) = JupeIsLocal ju" "JupeIsLocal (deactivated l f ju) = JupeIsLocal ju"
  by (auto simp: activated_def deactivated_def jupe_is bit_simps)

lemma activated_ldeact: "ju_flags ju AND JUPE_LDEACT = 0 \<Longrightarrow> ju_flags (activated l f ju) AND JUPE_LDEACT = 0"
  by (simp add: activated_def jupe_flag_bits bit_simps)

lemma jupe_activate_ok:
  assumes "jinv st" "j \<in> set (GlobalJupeList st)"
  shows "\<exists>r st'. jupe_activate e cptr sptr j lastmod flags st = Some (r, st') \<and> jinv st' \<and> GlobalJupeList st' = GlobalJupeList st \<and>
    jupes st' = (jupes st)(j := activated lastmod flags (jupes st j))"
proof -
  define st1 where "st1 = (if flags AND JUPE_LOCAL \<noteq> 0 then set_jupe j (\<lambda>ju. ju\<lparr>ju_flags := ju_flags ju AND NOT JUPE_LDEACT\<rparr>) st
                else set_jupe j (\<lambda>ju. modified lastmod (ju\<lparr>ju_flags := ju_flags ju OR JUPE_ACTIVE\<rparr>)) st)"
  have e: "st1 = set_jupe j (activated lastmod flags) st" by (simp add: st1_def set_jupe_def activated_def)
  have i: "jinv st1" unfolding e by (rule jinv_set [OF assms(1)]) (simp_all add: activated_ldeact)
  define st3 where "st3 = (let ju = jupes st1 j;
              st2 = say (Jupe_notice ''activating '' sptr (ju_server ju) (ju_expire ju + TSoffset e) (ju_reason ju)) st1
          in if flags AND JUPE_LOCAL = 0 then propagate_jupe e cptr sptr j st2 else st2)"
  have s: "jinv st3" "jupes st3 = jupes st1" "GlobalJupeList st3 = GlobalJupeList st1" using i by (auto simp: st3_def Let_def)
  obtain r st' where "do_jupe e cptr j st3 = Some (r, st')" "jinv st'" "jupes st' = jupes st3" "GlobalJupeList st' = GlobalJupeList st3"
    using do_jupe_keeps [OF s(1), of j e cptr] assms(2) by (auto simp: s e)
  moreover have "jupe_activate e cptr sptr j lastmod flags st =
      (if ju_flags (jupes st j) AND JUPE_ACTMASK = JUPE_ACTIVE then Some (Ret 0, st1) else do_jupe e cptr j st3)"
    unfolding jupe_activate_def st3_def st1_def [symmetric] Let_def ..
  ultimately show ?thesis using i s by (auto simp: e)
qed

lemma jupe_deactivate_ok:
  assumes "jinv st" "j \<in> set (GlobalJupeList st)" "jupe_deactivate e cptr sptr j lastmod flags st = (r, st')"
  shows "r = Ret 0 \<and> jinv st' \<and>
    (if JupeIsLocal (jupes st j) then jupes st' = jupes st \<and> GlobalJupeList st' = remove1 j (GlobalJupeList st)
     else jupes st' = (jupes st)(j := deactivated lastmod flags (jupes st j)) \<and> GlobalJupeList st' = GlobalJupeList st)"
proof (cases "JupeIsLocal (jupes st j)")
  case True
  with assms show ?thesis by (auto simp: jupe_deactivate_def Let_def jinv_free)
next
  case False
  define st1 where "st1 = (if flags AND JUPE_LOCAL \<noteq> 0 then set_jupe j (\<lambda>ju. ju\<lparr>ju_flags := ju_flags ju OR JUPE_LDEACT\<rparr>) st
                else set_jupe j (\<lambda>ju. modified lastmod (ju\<lparr>ju_flags := ju_flags ju AND NOT JUPE_ACTIVE\<rparr>)) st)"
  have e: "st1 = set_jupe j (deactivated lastmod flags) st" by (simp add: st1_def set_jupe_def deactivated_def)
  have i: "jinv st1" unfolding e using False by (intro jinv_set [OF assms(1)]) auto
  show ?thesis using assms(3) False i unfolding jupe_deactivate_def st1_def [symmetric] by (auto simp: Let_def e split: if_splits)
qed

section \<open>What an observer sees\<close>

lemma option_ext: "(\<And>x. a = Some x \<longleftrightarrow> b = Some x) \<Longrightarrow> a = b"
  by (metis not_Some_eq)

lemma in_live: "j \<in> set (live e st) \<longleftrightarrow> j \<in> set (GlobalJupeList st) \<and> CurrentTime e < ju_expire (jupes st j)"
  by (auto simp: live_def)

lemma jinv_unique: "jinv st \<Longrightarrow> i \<in> set (GlobalJupeList st) \<Longrightarrow> j \<in> set (GlobalJupeList st) \<Longrightarrow>
    fold_eq n (ju_server (jupes st i)) \<Longrightarrow> fold_eq n (ju_server (jupes st j)) \<Longrightarrow> i = j"
  by (auto simp: jinv_def fold_eq_def)

lemma jupe_of_update:
  assumes "jinv st" "jinv st'" "j \<in> set (live e st)" "GlobalJupeList st' = GlobalJupeList st" "jupes st' = (jupes st)(j := g)"
    "ju_server g = ju_server (jupes st j)" "ju_expire g = ju_expire (jupes st j)"
  shows "jupe_of e st' n = (if fold_eq n (ju_server (jupes st j)) then Some g else jupe_of e st n)"
proof (rule option_ext)
  fix x
  have l: "set (live e st') = set (live e st)" using assms(4-7) by (auto simp: in_live split: if_splits)
  have "i = j" if "i \<in> set (live e st)" "fold_eq n (ju_server (jupes st i))" "fold_eq n (ju_server (jupes st j))" for i
    using jinv_unique [OF assms(1)] that assms(3) by (auto simp: in_live)
  then show "jupe_of e st' n = Some x \<longleftrightarrow> (if fold_eq n (ju_server (jupes st j)) then Some g else jupe_of e st n) = Some x"
    using assms(3,6) unfolding jupe_of_Some [OF assms(2)] l assms(5) by (auto simp: jupe_of_Some [OF assms(1)])
qed

lemma jupe_of_remove:
  assumes "jinv st" "jinv st'" "j \<in> set (GlobalJupeList st)" "set (GlobalJupeList st') = set (GlobalJupeList st) - {j}" "jupes st' = jupes st"
    "\<not> fold_eq n (ju_server (jupes st j))"
  shows "jupe_of e st' n = jupe_of e st n"
proof (rule option_ext)
  fix x
  have l: "set (live e st') = set (live e st) - {j}" by (rule set_eqI) (auto simp: in_live assms(4,5))
  show "jupe_of e st' n = Some x \<longleftrightarrow> jupe_of e st n = Some x"
    unfolding jupe_of_Some [OF assms(2)] jupe_of_Some [OF assms(1)] l assms(5) using assms(6) by blast
qed

lemma jupe_of_add:
  assumes "jinv st" "jinv st'" "GlobalJupeList st' = a # GlobalJupeList st" "jupes st' = (jupes st)(a := g)" "a \<notin> set (GlobalJupeList st)"
    "\<not> fold_eq n (ju_server g)"
  shows "jupe_of e st' n = jupe_of e st n"
proof (rule option_ext)
  fix x
  have l: "set (live e st') - {a} = set (live e st)" using assms(3-5) by (auto simp: in_live split: if_splits)
  have "(\<exists>j \<in> set (live e st'). fold_eq n (ju_server (jupes st' j)) \<and> x = jupes st' j) \<longleftrightarrow> (\<exists>j \<in> set (live e st') - {a}. fold_eq n (ju_server (jupes st' j)) \<and> x = jupes st' j)"
    using assms(4,6) by auto
  also have "\<dots> \<longleftrightarrow> (\<exists>j \<in> set (live e st). fold_eq n (ju_server (jupes st j)) \<and> x = jupes st j)" unfolding l using assms(4,5) by (auto simp: in_live)
  finally show "jupe_of e st' n = Some x \<longleftrightarrow> jupe_of e st n = Some x" unfolding jupe_of_Some [OF assms(2)] jupe_of_Some [OF assms(1)] .
qed

text \<open>Global jupes last until they expire and are not modified backwards.\<close>

definition keeps :: "jenv \<Rightarrow> jupe_state \<Rightarrow> jupe_state \<Rightarrow> bool" where
  "keeps e st st' \<longleftrightarrow> (\<forall>n ju. jupe_of e st n = Some ju \<longrightarrow> \<not> JupeIsLocal ju \<longrightarrow>
    (\<exists>ju'. jupe_of e st' n = Some ju' \<and> \<not> JupeIsLocal ju' \<and> ju_lastmod ju \<le> ju_lastmod ju' \<and> ju_server ju' = ju_server ju \<and>
       ju_expire ju' = ju_expire ju \<and> ju_reason ju' = ju_reason ju))"

lemma keeps_others: "(\<And>n ju. jupe_of e st n = Some ju \<Longrightarrow> \<not> JupeIsLocal ju \<Longrightarrow> jupe_of e st' n = Some ju) \<Longrightarrow> keeps e st st'"
  by (auto simp: keeps_def)

lemma keeps_same: "(\<And>n. jupe_of e st' n = jupe_of e st n) \<Longrightarrow> keeps e st st'"
  by (auto simp: keeps_def)

lemma trimmed_keeps: "trimmed e st st' \<Longrightarrow> jinv st \<Longrightarrow> keeps e st st'"
  by (rule keeps_same) (rule trimmed_of)

lemma jupe_keeps_trans: "keeps e st st1 \<Longrightarrow> keeps e st1 st2 \<Longrightarrow> keeps e st st2"
  unfolding keeps_def by (intro allI impI) (drule spec, drule spec, drule (1) mp, drule (1) mp, elim exE conjE, drule spec, drule spec, drule (1) mp, drule (1) mp,
    elim exE conjE, rule exI, auto)

lemma keeps_local:
  assumes "jinv st" "j \<in> set (live e st)" "JupeIsLocal (jupes st j)" "\<And>n. \<not> fold_eq n (ju_server (jupes st j)) \<Longrightarrow> jupe_of e st' n = jupe_of e st n"
  shows "keeps e st st'"
proof -
  have f: "jupe_of e st n = Some (jupes st j)" if "fold_eq n (ju_server (jupes st j))" for n using that assms(2) jupe_of_Some [OF assms(1)] by auto
  show ?thesis
  proof (rule keeps_others)
    fix n ju
    assume a: "jupe_of e st n = Some ju" "\<not> JupeIsLocal ju"
    then have "\<not> fold_eq n (ju_server (jupes st j))" using f [of n] assms(3) by auto
    with assms(4) a(1) show "jupe_of e st' n = Some ju" by simp
  qed
qed

lemma keeps_update:
  assumes "jinv st" "jinv st'" "j \<in> set (live e st)" "GlobalJupeList st' = GlobalJupeList st" "jupes st' = (jupes st)(j := g)"
    "ju_server g = ju_server (jupes st j)" "ju_expire g = ju_expire (jupes st j)" "ju_reason g = ju_reason (jupes st j)"
    "JupeIsLocal g = JupeIsLocal (jupes st j)" "ju_lastmod (jupes st j) \<le> ju_lastmod g"
  shows "keeps e st st'"
proof -
  note u = jupe_of_update [OF assms(1-7)]
  have s: "jupe_of e st n = Some (jupes st j)" if "fold_eq n (ju_server (jupes st j))" for n using that assms(3) jupe_of_Some [OF assms(1)] by auto
  show ?thesis unfolding keeps_def
  proof (intro allI impI)
    fix n ju
    assume a: "jupe_of e st n = Some ju" "\<not> JupeIsLocal ju"
    show "\<exists>ju'. jupe_of e st' n = Some ju' \<and> \<not> JupeIsLocal ju' \<and> ju_lastmod ju \<le> ju_lastmod ju' \<and> ju_server ju' = ju_server ju \<and>
       ju_expire ju' = ju_expire ju \<and> ju_reason ju' = ju_reason ju"
      using a s [of n] u [of n] assms(6-10) by (cases "fold_eq n (ju_server (jupes st j))") auto
  qed
qed

lemma activated_lastmod: "ju_lastmod ju \<le> ju_lastmod (activated l f ju)" "ju_lastmod ju \<le> ju_lastmod (deactivated l f ju)"
  by (auto simp: activated_def deactivated_def modified_def)

section \<open>The search before an addition\<close>

lemma trimmed_set: "trimmed e st st' \<Longrightarrow> set (GlobalJupeList st') \<subseteq> set (GlobalJupeList st)"
  by (simp add: trimmed_def)

lemma find_loop_None:
  "find_loop e s js st = (None, st') \<Longrightarrow> distinct (GlobalJupeList st) \<Longrightarrow> \<forall>j \<in> set js \<inter> set (GlobalJupeList st'). CurrentTime e < ju_expire (jupes st j)"
proof (induction js arbitrary: st)
  case (Cons j js)
  show ?case
  proof (cases "ju_expire (jupes st j) \<le> CurrentTime e")
    case True
    then have f: "find_loop e s js (jupe_free j st) = (None, st')" using Cons.prems(1) by simp
    have "set (GlobalJupeList st') \<subseteq> set (GlobalJupeList (jupe_free j st))" using find_loop_ok [OF f] trimmed_set by blast
    then have "j \<notin> set (GlobalJupeList st')" using Cons.prems(2) by auto
    with Cons.IH [OF f] Cons.prems(2) show ?thesis by auto
  next
    case False
    with Cons show ?thesis by (auto split: if_splits)
  qed
qed simp

lemma not_found_fresh:
  assumes "jinv st" "is_cstr s" "jupe_find e s st = (None, st1)"
  shows "\<forall>k \<in> set (GlobalJupeList st1). \<not> fold_eq s (ju_server (jupes st1 k))"
proof
  fix k
  assume k: "k \<in> set (GlobalJupeList st1)"
  note f = jupe_find_ok [OF assms]
  have "k \<in> set (GlobalJupeList st)" using k trimmed_set [OF f(1)] by blast
  then have "k \<in> set (live e st)" using find_loop_None [OF assms(3) [unfolded jupe_find_def]] k assms(1) by (auto simp: in_live jinv_def)
  then show "\<not> fold_eq s (ju_server (jupes st1 k))" using f(1) f(3) [symmetric] by (auto simp: find_None_iff trimmed_def)
qed

lemma freed_fresh:
  assumes "jinv st" "j \<in> set (GlobalJupeList st)" "fold_eq s (ju_server (jupes st j))"
  shows "\<forall>k \<in> set (GlobalJupeList (jupe_free j st)). \<not> fold_eq s (ju_server (jupes (jupe_free j st) k))"
  using assms jinv_unique [OF assms(1) assms(2)] by (auto simp: jinv_def)

lemma found_live:
  assumes "jinv st" "is_cstr s" "jupe_find e s st = (Some j, st1)"
  shows "jinv st1" "j \<in> set (live e st1)" "fold_eq s (ju_server (jupes st1 j))" "j \<in> set (GlobalJupeList st1)"
proof -
  note f = jupe_find_ok [OF assms]
  show "jinv st1" using trimmed_jinv [OF f(1) assms(1)] .
  have "j \<in> set (live e st) \<and> fold_eq s (ju_server (jupes st j))" using f(3) [symmetric] by (auto simp: find_Some_iff)
  with f(1) assms(1) show "j \<in> set (live e st1)" "fold_eq s (ju_server (jupes st1 j))" by (simp_all add: trimmed_def jinv_def)
  then show "j \<in> set (GlobalJupeList st1)" by (simp add: in_live)
qed

section \<open>The handlers\<close>

definition step_ok :: "jenv \<Rightarrow> jupe_state \<Rightarrow> (jupe_result \<times> jupe_state) option \<Rightarrow> bool" where
  "step_ok e st res \<longleftrightarrow> (\<exists>r st'. res = Some (r, st') \<and> jinv st' \<and> keeps e st st')"

lemma step_trimmed: "jinv st \<Longrightarrow> trimmed e st st' \<Longrightarrow> step_ok e st (Some (r, st'))"
  by (auto simp: step_ok_def intro: trimmed_jinv trimmed_keeps)

lemma step_trans: "trimmed e st st1 \<Longrightarrow> jinv st \<Longrightarrow> step_ok e st1 res \<Longrightarrow> step_ok e st res"
  unfolding step_ok_def using jupe_keeps_trans [OF trimmed_keeps] by blast

lemma add_others:
  assumes "jinv st" "is_cstr server" "\<forall>k \<in> set (GlobalJupeList st). \<not> fold_eq server (ju_server (jupes st k))"
  shows "\<exists>r st'. jupe_add e cptr sptr server reason expire lastmod flags st = Some (r, st') \<and> jinv st' \<and>
    (\<forall>n. \<not> fold_eq n server \<longrightarrow> jupe_of e st' n = jupe_of e st n)"
proof -
  let ?v = "0 < expire \<and> expire \<le> JUPE_MAX_EXPIRE"
  let ?g = "new_jupe server reason (expire + CurrentTime e) lastmod flags"
  obtain r st' where a: "jupe_add e cptr sptr server reason expire lastmod flags st = Some (r, st')" "jinv st'"
    "if ?v then jupes st' = (jupes st)(jupe_next st := ?g) \<and> GlobalJupeList st' = jupe_next st # GlobalJupeList st
     else jupes st' = jupes st \<and> GlobalJupeList st' = GlobalJupeList st"
    using jupe_add_ok [OF assms] by blast
  have n: "jupe_next st \<notin> set (GlobalJupeList st)" using assms(1) by (auto simp: jinv_def)
  have "jupe_of e st' k = jupe_of e st k" if "\<not> fold_eq k server" for k
  proof (cases ?v)
    case True
    with a(3) have s: "GlobalJupeList st' = jupe_next st # GlobalJupeList st" "jupes st' = (jupes st)(jupe_next st := ?g)" by simp_all
    show ?thesis by (rule jupe_of_add [OF assms(1) a(2) s n]) (use that in \<open>simp add: new_jupe_def\<close>)
  next
    case False
    with a(3) show ?thesis by (auto simp: jupe_of_def live_def)
  qed
  with a show ?thesis by blast
qed

lemma add_step:
  assumes "jinv st" "is_cstr s" "jupe_find e s st = (None, st1)"
  shows "step_ok e st (jupe_add e cptr sptr s reason expire lastmod flags st1)"
proof -
  note f = jupe_find_ok [OF assms]
  have i: "jinv st1" using trimmed_jinv [OF f(1) assms(1)] .
  obtain r st' where a: "jupe_add e cptr sptr s reason expire lastmod flags st1 = Some (r, st')" "jinv st'"
    "\<forall>n. \<not> fold_eq n s \<longrightarrow> jupe_of e st' n = jupe_of e st1 n" using add_others [OF i assms(2) not_found_fresh [OF assms]] by blast
  have "jupe_of e st1 n = None" if "fold_eq n s" for n
    using f(3) [symmetric] that trimmed_of [OF f(1) assms(1), of n] by (auto simp: jupe_of_def find_None_iff fold_eq_def)
  then have "\<not> fold_eq n s" if "jupe_of e st1 n = Some ju" for n ju using that by (metis option.distinct(1))
  with a(3) have "keeps e st1 st'" by (intro keeps_others) auto
  with a step_trans [OF f(1) assms(1)] show ?thesis by (auto simp: step_ok_def)
qed

lemma replace_step:
  assumes "jinv st" "is_cstr s" "jupe_find e s st = (Some j, st1)" "JupeIsLocal (jupes st1 j)"
  shows "step_ok e st (jupe_add e cptr sptr s reason expire lastmod flags (jupe_free j st1))"
proof -
  note f = jupe_find_ok [OF assms(1-3)] and l = found_live [OF assms(1-3)]
  let ?st = "jupe_free j st1"
  have i: "jinv ?st" by (rule jinv_free [OF l(1)])
  obtain r st' where a: "jupe_add e cptr sptr s reason expire lastmod flags ?st = Some (r, st')" "jinv st'"
    "\<forall>n. \<not> fold_eq n s \<longrightarrow> jupe_of e st' n = jupe_of e ?st n" using add_others [OF i assms(2) freed_fresh [OF l(1,4,3)]] by blast
  have r: "jupe_of e ?st n = jupe_of e st1 n" if "\<not> fold_eq n (ju_server (jupes st1 j))" for n
    by (rule jupe_of_remove [OF l(1) i l(4) _ _ that]) (use l(1) in \<open>auto simp: jinv_def\<close>)
  have "keeps e st1 st'" by (rule keeps_local [OF l(1,2) assms(4)]) (use a(3) r l(3) in \<open>auto simp: fold_eq_def\<close>)
  with a step_trans [OF f(1) assms(1)] show ?thesis by (auto simp: step_ok_def)
qed

lemma activate_step:
  assumes "jinv st" "is_cstr s" "jupe_find e s st = (Some j, st1)"
  shows "step_ok e st (jupe_activate e cptr sptr j lastmod flags st1)"
proof -
  note f = jupe_find_ok [OF assms] and l = found_live [OF assms]
  obtain r st' where a: "jupe_activate e cptr sptr j lastmod flags st1 = Some (r, st')" "jinv st'" "GlobalJupeList st' = GlobalJupeList st1"
    "jupes st' = (jupes st1)(j := activated lastmod flags (jupes st1 j))" using jupe_activate_ok [OF l(1,4)] by blast
  have "keeps e st1 st'" by (rule keeps_update [OF l(1) a(2) l(2) a(3,4)]) (simp_all add: activated_lastmod)
  with a step_trans [OF f(1) assms(1)] show ?thesis by (auto simp: step_ok_def)
qed

lemma deactivate_step:
  assumes "jinv st" "is_cstr s" "jupe_find e s st = (Some j, st1)"
  shows "step_ok e st (Some (jupe_deactivate e cptr sptr j lastmod flags st1))"
proof -
  note f = jupe_find_ok [OF assms] and l = found_live [OF assms]
  obtain r st' where d: "jupe_deactivate e cptr sptr j lastmod flags st1 = (r, st')" by (cases "jupe_deactivate e cptr sptr j lastmod flags st1")
  note a = jupe_deactivate_ok [OF l(1,4) d]
  have "keeps e st1 st'"
  proof (cases "JupeIsLocal (jupes st1 j)")
    case True
    with a have s: "jinv st'" "set (GlobalJupeList st') = set (GlobalJupeList st1) - {j}" "jupes st' = jupes st1" using l(1) by (auto simp: jinv_def)
    show ?thesis by (rule keeps_local [OF l(1,2) True]) (rule jupe_of_remove [OF l(1) s(1) l(4) s(2,3)])
  next
    case False
    with a have s: "jinv st'" "GlobalJupeList st' = GlobalJupeList st1" "jupes st' = (jupes st1)(j := deactivated lastmod flags (jupes st1 j))" by auto
    show ?thesis by (rule keeps_update [OF l(1) s(1) l(2) s(2,3)]) (simp_all add: activated_lastmod)
  qed
  with a d step_trans [OF f(1) assms(1)] show ?thesis by (auto simp: step_ok_def)
qed

lemma say_trimmed: "trimmed e st st' \<Longrightarrow> trimmed e st (say m st')"
  by (auto simp: trimmed_def live_def)

lemmas jupe_steps = add_step replace_step activate_step deactivate_step

lemma loops_trimmed: "trimmed e st (burst_loop e cptr js st)" "trimmed e st (list_loop e cptr js st)"
proof (induction js arbitrary: st)
  case (Cons j js)
  {
    case 1
    have "trimmed e st (if ju_expire (jupes st j) \<le> CurrentTime e then jupe_free j st else if \<not> JupeIsLocal (jupes st j) then send_jupe e cptr j st else st)"
      by (auto simp: send_jupe_def Let_def trimmed_free trimmed_refl)
    from trimmed_trans [OF this Cons.IH(1)] show ?case by (simp only: burst_loop.simps)
  next
    case 2
    have "trimmed e st (if ju_expire (jupes st j) \<le> CurrentTime e then jupe_free j st else list_jupe e cptr j st)"
      by (auto simp: list_jupe_def Let_def trimmed_free trimmed_refl)
    from trimmed_trans [OF this Cons.IH(2)] show ?case by (simp only: list_loop.simps)
  }
qed (simp_all add: trimmed_refl)

lemma jupe_list_trimmed: "trimmed e st (jupe_list e sptr name st)"
proof (cases name)
  case None
  then show ?thesis by (simp add: jupe_list_def say_trimmed loops_trimmed)
next
  case (Some n)
  obtain r st1 where f: "jupe_find e n st = (r, st1)" by (cases "jupe_find e n st")
  then have "trimmed e st st1" using find_loop_ok by (auto simp: jupe_find_def)
  with Some f show ?thesis by (cases r) (simp_all add: jupe_list_def list_jupe_def Let_def say_trimmed)
qed

lemma change_jupe_ok:
  assumes "jinv st" "is_cstr s"
  shows "step_ok e st (change_jupe e cptr sptr s reason expire flags st)"
proof -
  obtain r st1 where f: "jupe_find e s st = (r, st1)" by (cases "jupe_find e s st")
  with jupe_steps [OF assms] show ?thesis by (cases r) (auto simp: change_jupe_def)
qed

lemma cstr_tl: "is_cstr s \<Longrightarrow> is_cstr (tl s)"
  by (cases s) (auto simp: is_cstr_def)

lemma mo_jupe_ok:
  assumes "jinv st" "list_all is_cstr parv"
  shows "step_ok e st (mo_jupe e cptr sptr parv st)"
proof -
  have s: "step_ok e st (Some (r, say m st))" for r m by (rule step_trimmed [OF assms(1)]) (simp add: say_trimmed trimmed_refl)
  have l: "step_ok e st (Some (r, jupe_list e sptr n st))" for r n by (rule step_trimmed [OF assms(1) jupe_list_trimmed])
  have c: "step_ok e st (change_jupe e cptr sptr (tl n) reason expire flags st)" if "is_cstr n" for n reason expire flags
    using change_jupe_ok [OF assms(1) cstr_tl [OF that]] .
  show ?thesis using assms(2) unfolding mo_jupe_def Let_def by (auto simp: s l c split: list.splits sum.splits)
qed

lemma receive_jupe_ok:
  assumes "jinv st" "is_cstr s"
  shows "step_ok e st (receive_jupe e cptr sptr s reason expire lastmod flags st)"
proof -
  obtain r st1 where f: "jupe_find e s st = (r, st1)" by (cases "jupe_find e s st")
  note t = jupe_find_ok(1) [OF assms f]
  have "trimmed e st (jupe_resend e cptr j st1)" for j by (simp add: jupe_resend_def send_jupe_def Let_def say_trimmed t)
  with t step_trimmed [OF assms(1)] jupe_steps [OF assms] f show ?thesis by (cases r) (auto simp: receive_jupe_def)
qed

lemma ms_jupe_ok:
  assumes "jinv st" "list_all is_cstr parv"
  shows "step_ok e st (ms_jupe e cptr sptr parv st)"
proof -
  have s: "step_ok e st (Some (r, say m st))" for r m by (rule step_trimmed [OF assms(1)]) (simp add: say_trimmed trimmed_refl)
  have z: "step_ok e st (Some (r, st))" for r by (rule step_trimmed [OF assms(1)]) (simp add: trimmed_refl)
  have c: "step_ok e st (receive_jupe e cptr sptr (if P then tl n else n) reason expire lastmod flags st)" if "is_cstr n" for n reason expire lastmod flags P
    using receive_jupe_ok [OF assms(1)] that cstr_tl [OF that] by simp
  have r: "step_ok e st (if b then x else y)" if "b \<Longrightarrow> step_ok e st x" "\<not> b \<Longrightarrow> step_ok e st y" for b x y using that by simp
  show ?thesis using assms(2) unfolding ms_jupe_def Let_def by (auto simp: s z c intro!: r split del: if_split split: list.split option.split)
qed

section \<open>Two servers\<close>

lemma newest_wins:
  assumes "jinv st" "is_cstr name" "jupe_of e st name = Some ju" "\<not> JupeIsLocal ju"
  shows "\<exists>r st'. receive_jupe e cptr sptr name reason ex lm (if act then JUPE_ACTIVE else 0) st = Some (r, st') \<and> jinv st' \<and>
    jupe_of e st' name = Some (if ju_lastmod ju < lm
      then ju\<lparr>ju_flags := if act then ju_flags ju OR JUPE_ACTIVE else ju_flags ju AND NOT JUPE_ACTIVE, ju_lastmod := lm\<rparr> else ju) \<and>
    (\<not> ju_lastmod ju < lm \<longrightarrow> jout st' = (if ju_lastmod ju = lm \<or> IsBurstOrBurstAck e cptr then jout st
       else jout st @ [Jupe_one cptr (JupeIsRemActive ju) (ju_server ju) (ju_expire ju - CurrentTime e) (ju_lastmod ju) (ju_reason ju)]))"
proof -
  obtain r st1 where f: "jupe_find e name st = (r, st1)" by (cases "jupe_find e name st")
  note o = jupe_find_ok [OF assms(1,2) f]
  obtain j where r: "r = Some j" and j: "jupes st1 j = ju" using o assms(3) by (auto simp: jupe_of_def trimmed_def)
  note l = found_live [OF assms(1,2) f [unfolded r]]
  let ?fl = "if act then JUPE_ACTIVE else 0"
  have g: "?fl AND JUPE_LOCAL = 0" "?fl AND JUPE_ACTIVE \<noteq> 0 \<longleftrightarrow> act" by (auto simp: jupe_flag_bits)
  have e: "receive_jupe e cptr sptr name reason ex lm ?fl st =
     (if ju_lastmod ju < lm then (if act then jupe_activate e cptr sptr j lm ?fl st1 else Some (jupe_deactivate e cptr sptr j lm ?fl st1))
      else if ju_lastmod ju = lm \<or> IsBurstOrBurstAck e cptr then Some (Ret 0, st1) else Some (Ret 0, send_jupe e cptr j st1))"
    unfolding receive_jupe_def f r using assms(4) g by (simp add: j jupe_resend_def)
  show ?thesis
  proof (cases "ju_lastmod ju < lm")
    case False
    have "jupe_of e st1 name = Some ju" using trimmed_of [OF o(1) assms(1)] assms(3) by simp
    moreover have "jupe_of e (send_jupe e cptr j st1) name = jupe_of e st1 name" "jinv (send_jupe e cptr j st1) = jinv st1"
      by (simp_all add: jupe_of_def live_def send_jupe_def Let_def)
    ultimately show ?thesis using False e l(1) o(2) by (auto simp: j send_jupe_def Let_def)
  next
    case True
    let ?g = "if act then activated lm ?fl ju else deactivated lm ?fl ju"
    have gg: "?g = ju\<lparr>ju_flags := if act then ju_flags ju OR JUPE_ACTIVE else ju_flags ju AND NOT JUPE_ACTIVE, ju_lastmod := lm\<rparr>"
      using True g(1) by (auto simp: activated_def deactivated_def modified_def)
    obtain r' st' where s: "receive_jupe e cptr sptr name reason ex lm ?fl st = Some (r', st')" "jinv st'" "GlobalJupeList st' = GlobalJupeList st1"
      "jupes st' = (jupes st1)(j := ?g)"
    proof (cases act)
      case True
      with jupe_activate_ok [OF l(1,4), of e cptr sptr lm ?fl] e \<open>ju_lastmod ju < lm\<close> j that show ?thesis by auto
    next
      case False
      obtain r2 st2 where d: "jupe_deactivate e cptr sptr j lm ?fl st1 = (r2, st2)" by (cases "jupe_deactivate e cptr sptr j lm ?fl st1")
      with jupe_deactivate_ok [OF l(1,4) d] e \<open>ju_lastmod ju < lm\<close> j assms(4) False that show ?thesis by auto
    qed
    have "jupe_of e st' name = Some ?g" using jupe_of_update [OF l(1) s(2) l(2) s(3,4), of name] l(3) by (simp add: j)
    with s True gg show ?thesis by auto
  qed
qed

definition sign :: "Jupe \<Rightarrow> char" where
  "sign ju = (if JupeIsRemActive ju then CHR ''+'' else CHR ''-'')"

lemma ms_jupe_global:
  "ms_jupe e cptr sptr [''*'', sign ju # name, ex, lm, reason] st =
    receive_jupe e cptr sptr name reason (atoi ex) (atoi lm) (if JupeIsRemActive ju then JUPE_ACTIVE else 0) st"
  by (simp add: ms_jupe_def sign_def)

definition same_view :: "jenv \<Rightarrow> jupe_state \<Rightarrow> jenv \<Rightarrow> jupe_state \<Rightarrow> string \<Rightarrow> bool" where
  "same_view ea sa eb sb name \<longleftrightarrow> (\<exists>ja jb. jupe_of ea sa name = Some ja \<and> jupe_of eb sb name = Some jb \<and>
    ju_lastmod ja = ju_lastmod jb \<and> (JupeIsRemActive ja \<longleftrightarrow> JupeIsRemActive jb))"

lemma jupe_of_fold: "fold_eq m n \<Longrightarrow> jupe_of e st m = jupe_of e st n"
  by (simp add: jupe_of_def fold_eq_def)

lemma updated_active:
  "JupeIsRemActive (ju\<lparr>ju_flags := if act then ju_flags ju OR JUPE_ACTIVE else ju_flags ju AND NOT JUPE_ACTIVE, ju_lastmod := lm\<rparr>) \<longleftrightarrow> act"
  by (simp add: jupe_is bit_simps)

text \<open>
  C10.  Two servers with different modification times of a jupe agree once the one with the older time has heard of the newer.
  The server that receives an older jupe than its own answers with its own, and the other takes it over; after this exchange both
  hold the same modification time and both or none hold the jupe active.
\<close>

theorem jupes_converge:
  assumes "jinv sa" "jinv sb" "is_cstr name" "jupe_of ea sa name = Some ja" "jupe_of eb sb name = Some jb" "\<not> JupeIsLocal ja" "\<not> JupeIsLocal jb"
    "ju_lastmod ja \<noteq> ju_lastmod jb" "\<not> IsBurstOrBurstAck eb link" "atoi la = ju_lastmod ja"
  shows "\<exists>rb sb'. ms_jupe eb link src [''*'', sign ja # name, xa, la, reason] sb = Some (rb, sb') \<and>
    (if ju_lastmod jb < ju_lastmod ja then same_view ea sa eb sb' name
     else jout sb' = jout sb @ [Jupe_one link (JupeIsRemActive jb) (ju_server jb) (ju_expire jb - CurrentTime eb) (ju_lastmod jb) (ju_reason jb)] \<and>
       (\<forall>lb xb link' src'. atoi lb = ju_lastmod jb \<longrightarrow>
         (\<exists>ra sa'. ms_jupe ea link' src' [''*'', sign jb # ju_server jb, xb, lb, ju_reason jb] sa = Some (ra, sa') \<and> same_view ea sa' eb sb' name)))"
proof -
  from newest_wins [OF assms(2,3,5,7), of link src reason "atoi xa" "atoi la" "JupeIsRemActive ja"]
  obtain rb sb' where b: "ms_jupe eb link src [''*'', sign ja # name, xa, la, reason] sb = Some (rb, sb')" and
    v: "jupe_of eb sb' name = Some (if ju_lastmod jb < ju_lastmod ja
      then jb\<lparr>ju_flags := if JupeIsRemActive ja then ju_flags jb OR JUPE_ACTIVE else ju_flags jb AND NOT JUPE_ACTIVE, ju_lastmod := ju_lastmod ja\<rparr> else jb)" and
    out: "\<not> ju_lastmod jb < ju_lastmod ja \<longrightarrow> jout sb' = (if ju_lastmod jb = ju_lastmod ja \<or> IsBurstOrBurstAck eb link then jout sb
       else jout sb @ [Jupe_one link (JupeIsRemActive jb) (ju_server jb) (ju_expire jb - CurrentTime eb) (ju_lastmod jb) (ju_reason jb)])"
    unfolding ms_jupe_global assms(10) by blast
  show ?thesis
  proof (cases "ju_lastmod jb < ju_lastmod ja")
    case True
    with v have "same_view ea sa eb sb' name" unfolding same_view_def using assms(4) updated_active by auto
    with b True show ?thesis by auto
  next
    case False
    obtain j where j: "j \<in> set (live eb sb)" "fold_eq name (ju_server jb)" "jb = jupes sb j" using assms(5) jupe_of_Some [OF assms(2)] by auto
    then have c: "is_cstr (ju_server jb)" using assms(2) by (auto simp: jinv_def in_live)
    have a: "jupe_of ea sa (ju_server jb) = Some ja" using jupe_of_fold [OF j(2)] assms(4) by metis
    have "\<exists>ra sa'. ms_jupe ea link' src' [''*'', sign jb # ju_server jb, xb, lb, ju_reason jb] sa = Some (ra, sa') \<and> same_view ea sa' eb sb' name"
      if "atoi lb = ju_lastmod jb" for lb xb link' src'
    proof -
      from newest_wins [OF assms(1) c a assms(6), of link' src' "ju_reason jb" "atoi xb" "atoi lb" "JupeIsRemActive jb"] False assms(8) that
      obtain ra sa' where s: "ms_jupe ea link' src' [''*'', sign jb # ju_server jb, xb, lb, ju_reason jb] sa = Some (ra, sa')"
        "jupe_of ea sa' (ju_server jb) = Some (ja\<lparr>ju_flags := if JupeIsRemActive jb then ju_flags ja OR JUPE_ACTIVE else ju_flags ja AND NOT JUPE_ACTIVE, ju_lastmod := ju_lastmod jb\<rparr>)"
        unfolding ms_jupe_global by auto
      have "jupe_of ea sa' name = jupe_of ea sa' (ju_server jb)" by (rule jupe_of_fold [OF j(2)])
      with s v False have "same_view ea sa' eb sb' name" unfolding same_view_def using updated_active by auto
      with s(1) show ?thesis by blast
    qed
    with b out False assms(8,9) show ?thesis by auto
  qed
qed

text \<open>
  C33.  The handlers of JUPE for servers, operators and users and the burst of jupes to a new server always return; they keep
  the list free of two jupes for one server and of local jupes that are locally deactivated; and a network-wide jupe that has not expired stays
  in the list with its server, expiry and reason, and its modification time never goes back.
\<close>

theorem jupe_handlers_keep:
  assumes "jinv st" "list_all is_cstr parv"
  shows "(\<exists>r st'. ms_jupe e cptr sptr parv st = Some (r, st') \<and> jinv st' \<and> keeps e st st') \<and>
    (\<exists>r st'. mo_jupe e cptr sptr parv st = Some (r, st') \<and> jinv st' \<and> keeps e st st') \<and>
    jinv (m_jupe e sptr parv st) \<and> keeps e st (m_jupe e sptr parv st) \<and>
    jinv (jupe_burst e cptr st) \<and> keeps e st (jupe_burst e cptr st)"
proof -
  have b: "trimmed e st (jupe_burst e cptr st)" by (simp add: jupe_burst_def loops_trimmed)
  have m: "trimmed e st (m_jupe e sptr parv st)" by (cases parv) (simp_all add: m_jupe_def jupe_list_trimmed)
  show ?thesis
    using ms_jupe_ok [OF assms] mo_jupe_ok [OF assms] trimmed_jinv [OF b assms(1)] trimmed_keeps [OF b assms(1)]
      trimmed_jinv [OF m assms(1)] trimmed_keeps [OF m assms(1)] unfolding step_ok_def by blast
qed

text \<open>A local jupe that was set up inactive is not made active by the command that should do so.\<close>

lemma local_jupe_stays_inactive:
  "JupeIsLocal ju \<Longrightarrow> \<not> JupeIsActive ju \<Longrightarrow> ju_flags ju AND JUPE_LDEACT = 0 \<Longrightarrow> flags AND JUPE_LOCAL \<noteq> 0 \<Longrightarrow> \<not> JupeIsActive (activated l flags ju)"
  by (auto simp: activated_def jupe_is bit_simps)

text \<open>A new active jupe of a server that is linked here ends the link.\<close>

lemma juped_link_dropped:
  assumes "jinv st" "is_cstr server" "jupe_find e server st = (None, st1)" "0 < atoi ex" "atoi ex \<le> JUPE_MAX_EXPIRE"
    "acptr \<in> tmem (clientTable (jtables st))" "client_hit (STAT_ME OR STAT_SERVER) (jtables st) server acptr"
    "\<forall>d \<in> tmem (clientTable (jtables st)). client_hit (STAT_ME OR STAT_SERVER) (jtables st) server d \<longrightarrow> d = acptr"
    "MyConnect e acptr" "cli_status (jtables st) acptr \<noteq> STAT_ME" "server \<noteq> []"
  shows "\<exists>st'. ms_jupe e cptr sptr [''*'', CHR ''+'' # server, ex, lm, reason] st = Some (Exit_client_msg cptr acptr reason, st')"
proof -
  let ?st = "propagate_jupe e cptr sptr (jupe_next st1) (snd (make_jupe server reason (atoi ex + CurrentTime e) (atoi lm) JUPE_ACTIVE
      (say (Jupe_notice ''adding '' sptr server (atoi ex + CurrentTime e + TSoffset e) reason) st1)))"
  have t: "jtables st1 = jtables st" using jupe_find_ok(1) [OF assms(1-3)] by (simp add: trimmed_def)
  have g: "JUPE_ACTIVE AND JUPE_LOCAL = 0" by (simp add: jupe_flag_bits)
  have s: "jupes ?st (jupe_next st1) = new_jupe server reason (atoi ex + CurrentTime e) (atoi lm) JUPE_ACTIVE" "jtables ?st = jtables st"
    by (simp_all add: make_jupe_def Let_def new_jupe_def t)
  have m: "ms_jupe e cptr sptr [''*'', CHR ''+'' # server, ex, lm, reason] st = do_jupe e cptr (jupe_next st1) ?st"
    using assms(4,5) g by (simp add: ms_jupe_def receive_jupe_def assms(3) jupe_add_def Let_def make_jupe_def)
  have i: "client_inv (jtables ?st)" using assms(1) unfolding s(2) jinv_def by simp
  obtain r h where f: "find_server server ?st = Some (r, ?st\<lparr>jtables := h\<rparr>)" "cli_status h = cli_status (jtables st)"
    "case r of None \<Rightarrow> \<forall>c \<in> tmem (clientTable (jtables st)). \<not> client_hit (STAT_ME OR STAT_SERVER) (jtables st) server c
     | Some c \<Rightarrow> c \<in> tmem (clientTable (jtables st)) \<and> client_hit (STAT_ME OR STAT_SERVER) (jtables st) server c"
    using find_server_ok [OF i assms(2)] assms(11) unfolding s(2) by blast
  have "r = Some acptr"
  proof (cases r)
    case None
    with f(3) have "\<forall>c \<in> tmem (clientTable (jtables st)). \<not> client_hit (STAT_ME OR STAT_SERVER) (jtables st) server c" by (simp only: option.case)
    with assms(6,7) show ?thesis by blast
  next
    case (Some c)
    with f(3) have "c \<in> tmem (clientTable (jtables st))" "client_hit (STAT_ME OR STAT_SERVER) (jtables st) server c" by (simp_all only: option.case)
    with assms(8) Some show ?thesis by blast
  qed
  moreover have "JupeIsActive (jupes ?st (jupe_next st1))" unfolding s(1) by (simp add: new_jupe_def jupe_is bit_simps)
  moreover have "ju_server (jupes ?st (jupe_next st1)) = server" "ju_reason (jupes ?st (jupe_next st1)) = reason" unfolding s(1) by (simp_all add: new_jupe_def)
  ultimately show ?thesis unfolding m do_jupe_def using f assms(9,10) by simp
qed

definition juped :: "u32 \<Rightarrow> int \<Rightarrow> jupe_state" where
  "juped flags lm = \<lparr>jupes = (\<lambda>_. new_jupe ''Bad.Server'' ''split'' 1000 lm flags), GlobalJupeList = [0], jupe_next = 1,
     jtables = hash_example, jnumerics = nn_example, jout = []\<rparr>"

definition env0 :: jenv where
  "env0 = \<lparr>CurrentTime = 100, TSoffset = 0, MyConnect = (\<lambda>_. True), IsBurstOrBurstAck = (\<lambda>_. False), HasJupe = (\<lambda>_. True),
     HasLocalJupe = (\<lambda>_. True), config_opercmds = True\<rparr>"

lemma juped_inv: "jinv (juped flags lm)"
proof -
  have "client_inv hash_example" by (simp add: client_inv_def hash_example_def)
  then show ?thesis by (simp add: jinv_def juped_def new_jupe_def is_cstr_def jupe_flag_bits bit_simps)
qed

lemma juped_of: "jupe_of env0 (juped flags lm) ''Bad.Server'' = Some (new_jupe ''Bad.Server'' ''split'' 1000 lm flags)"
  by (simp add: jupe_of_def live_def juped_def env0_def new_jupe_def fold_eq_def)

theorem jupes_converge_witness:
  "\<exists>rb sb'. ms_jupe env0 3 3 [''*'', ''+Bad.Server'', ''900'', ''50'', ''split''] (juped 0 40) = Some (rb, sb') \<and>
    same_view env0 (juped JUPE_ACTIVE 50) env0 sb' ''Bad.Server''"
proof -
  let ?a = "new_jupe ''Bad.Server'' ''split'' 1000 50 JUPE_ACTIVE"
  have s: "sign ?a = CHR ''+''" "\<not> JupeIsLocal ?a" "\<not> JupeIsLocal (new_jupe ''Bad.Server'' ''split'' 1000 40 0)"
    by (simp_all add: sign_def new_jupe_def jupe_is bit_simps)
  have n: "is_cstr ''Bad.Server''" "ju_lastmod ?a = 50" "ju_lastmod (new_jupe ''Bad.Server'' ''split'' 1000 40 0) = 40" "\<not> IsBurstOrBurstAck env0 3"
    by (simp_all add: is_cstr_def new_jupe_def env0_def)
  have a: "atoi ''50'' = ju_lastmod ?a" unfolding n by code_simp
  from jupes_converge [OF juped_inv juped_inv n(1) juped_of juped_of s(2,3) _ n(4) a, of 3 "''900''" "''split''"] show ?thesis
    unfolding s n by simp
qed

theorem jupe_handlers_keep_witness:
  "\<exists>r st'. ms_jupe env0 3 3 [''*'', ''-Bad.Server'', ''900'', ''60'', ''done''] (juped JUPE_ACTIVE 50) = Some (r, st') \<and> jinv st' \<and> keeps env0 (juped JUPE_ACTIVE 50) st'"
proof -
  have "list_all is_cstr [''*'', ''-Bad.Server'', ''900'', ''60'', ''done'']" by (simp add: is_cstr_def)
  from jupe_handlers_keep [OF juped_inv this, of env0 3 3 JUPE_ACTIVE 50] show ?thesis by blast
qed

end
