(* ===== verification/Tea.thy ===== *)
theory Tea
  imports Main "HOL-Library.Word"
begin

text \<open>
  The TEA cipher of \<open>ircd/ircd_tea.c\<close>, which checks the passwords of registered nicks, makes random nicks and chains the hash of a database table.

  \<open>v\<close>, \<open>k\<close> and \<open>x\<close> are arrays of two 32-bit words and appear as pairs.  The function that stores into \<open>x\<close> returns
  the new \<open>x\<close>.  The loops run \<open>n\<close> rounds.
\<close>

unbundle bit_operations_syntax

definition delta :: "32 word" where "delta = 0x9E3779B9"

text \<open>The sum that one half of a round adds to the other half; the upper half of the key is zero in the second.\<close>

definition tea_mix :: "32 word \<Rightarrow> 32 word \<Rightarrow> 32 word \<Rightarrow> 32 word \<Rightarrow> 32 word" where
  "tea_mix a b acc z = (push_bit 4 z + a) XOR (z + acc) XOR (drop_bit 5 z + b)"

fun tea_loop :: "nat \<Rightarrow> 32 word \<Rightarrow> 32 word \<Rightarrow> 32 word \<Rightarrow> 32 word \<times> 32 word \<Rightarrow> 32 word \<times> 32 word" where
  "tea_loop 0 a b acc (y, z) = (y, z)"
| "tea_loop (Suc n) a b acc (y, z) =
    (let acc = acc + delta; y = y + tea_mix a b acc z; z = z + tea_mix 0 0 acc y in tea_loop n a b acc (y, z))"

fun ircd_tea :: "32 word \<times> 32 word \<Rightarrow> 32 word \<times> 32 word \<Rightarrow> 32 word \<times> 32 word \<Rightarrow> 32 word \<times> 32 word" where
  "ircd_tea (v0, v1) (k0, k1) (x0, x1) = tea_loop 32 k0 k1 0 (v0 XOR x0, v1 XOR x1)"

fun untea_loop :: "nat \<Rightarrow> 32 word \<Rightarrow> 32 word \<Rightarrow> 32 word \<Rightarrow> 32 word \<times> 32 word \<Rightarrow> 32 word \<times> 32 word" where
  "untea_loop 0 a b acc (y, z) = (y, z)"
| "untea_loop (Suc n) a b acc (y, z) =
    (let z = z - tea_mix 0 0 acc y; y = y - tea_mix a b acc z; acc = acc - delta in untea_loop n a b acc (y, z))"

fun ircd_untea :: "32 word \<times> 32 word \<Rightarrow> 32 word \<times> 32 word \<Rightarrow> 32 word \<times> 32 word" where
  "ircd_untea (v0, v1) (k0, k1) = untea_loop 32 k0 k1 0xC6EF3720 (v0, v1)"

lemma tea_last: "tea_loop (Suc n) a b s p =
    (case tea_loop n a b s p of (y, z) \<Rightarrow>
       let acc = s + of_nat (Suc n) * delta; y = y + tea_mix a b acc z; z = z + tea_mix 0 0 acc y in (y, z))"
proof (induction n arbitrary: s p)
  case 0
  show ?case by (cases p) (simp add: Let_def)
next
  case (Suc n)
  obtain y z where p: "p = (y, z)" by (cases p)
  let ?y = "y + tea_mix a b (s + delta) z"
  let ?z = "z + tea_mix 0 0 (s + delta) ?y"
  have "tea_loop (Suc (Suc n)) a b s p = tea_loop (Suc n) a b (s + delta) (?y, ?z)" unfolding p by (simp only: tea_loop.simps(2) Let_def)
  also have "\<dots> = (case tea_loop n a b (s + delta) (?y, ?z) of (y, z) \<Rightarrow>
       let acc = s + delta + of_nat (Suc n) * delta; y = y + tea_mix a b acc z; z = z + tea_mix 0 0 acc y in (y, z))" by (rule Suc.IH)
  also have "tea_loop n a b (s + delta) (?y, ?z) = tea_loop (Suc n) a b s p" unfolding p by (simp only: tea_loop.simps(2) Let_def)
  also have "s + delta + of_nat (Suc n) * delta = s + of_nat (Suc (Suc n)) * delta" by (simp add: algebra_simps)
  finally show ?case .
qed

lemma untea_tea: "untea_loop n a b (s + of_nat n * delta) (tea_loop n a b s p) = p"
proof (induction n)
  case 0
  show ?case by (cases p) simp
next
  case (Suc n)
  obtain y z where q: "tea_loop n a b s p = (y, z)" by (cases "tea_loop n a b s p")
  have s: "s + of_nat (Suc n) * delta - delta = s + of_nat n * delta" by (simp add: algebra_simps)
  show ?case unfolding tea_last q prod.case Let_def untea_loop.simps(2) s using Suc.IH by (simp add: q)
qed

text \<open>
  C40.  What \<open>ircd_tea\<close> encrypts \<open>ircd_untea\<close> decrypts with the same key: the result is the block combined with the
  chaining value it was encrypted with.
\<close>

theorem untea_inverts_tea: "ircd_untea (ircd_tea (v0, v1) k (x0, x1)) k = (v0 XOR x0, v1 XOR x1)"
proof -
  obtain k0 k1 where k: "k = (k0, k1)" by (cases k)
  have s: "0 + of_nat 32 * delta = 0xC6EF3720" by (simp add: delta_def)
  from untea_tea [of 32 k0 k1 0 "(v0 XOR x0, v1 XOR x1)", unfolded s] show ?thesis unfolding k
    by (cases "tea_loop 32 k0 k1 0 (v0 XOR x0, v1 XOR x1)") simp
qed

end
