(* ===== verification/Spec2Isabelle.thy ===== *)
theory Spec2Isabelle
  imports Match Numnicks Hash IPcheck Dbuf MsgQ Crule ChannelSpeak Parse Packet Whowas Monitor Events Jupe Tea
begin

text \<open>
  A verification library of IRCh, the IRC server of IRC-Hispano (a descendant of ircu), C code under \<open>src/ircd\<close> and
  \<open>src/include\<close>.

  The way of a message through the server, and the theories on it.  The bytes of a connection are kept in a \<open>DBuf\<close>
  (\<open>Dbuf\<close>) or split on arrival (\<open>Packet\<close>) into lines; a line is parsed (\<open>Parse\<close>), its command is looked up in a trie of the
  command table (\<open>MsgTree\<close>) and its sender in the table of numerics (\<open>Numnicks\<close>) or the hash table of names (\<open>Hash\<close>); the handler
  of the command works on the channels (\<open>Channel\<close> and the theories named after it), the nick history (\<open>Whowas\<close>), the monitored
  nicks (\<open>Monitor\<close>) or the juped servers (\<open>Jupe\<close>); what it sends is queued in a \<open>MsgQ\<close> (\<open>MsgQ\<close>).  Before a connection gets
  that far its address is counted (\<open>IPcheck\<close>) and the rules for links are evaluated (\<open>Crule\<close>); timers (\<open>Events\<close>) drive what
  happens later.  Masks are compared by \<open>Match\<close> and \<open>Mmatch\<close>, addresses are printed and parsed by \<open>InAddr\<close>, strings are
  handled by \<open>IrcdString\<close> over the character classes of \<open>Chattr\<close>.

  Common conventions.  A C string is the list of its characters before the terminator and a pointer into it a suffix; an integer of
  fixed width that can wrap is a word, and an \<open>int\<close> or \<open>time_t\<close> that stays small is \<open>int\<close>.  An object is known by its address, a
  natural number, and a record of maps holds the fields of all objects; the next address of \<open>MyMalloc\<close> is a counter.  \<open>None\<close> is a step
  that C does not define or an assertion that fails (a null pointer, a read behind a string, a store behind a buffer), or a loop
  that does not end where the loop is a \<open>partial_function\<close>; so \<open>Some\<close> in a theorem says that none of this happens.  Settings
  (\<open>feature_int\<close>), the clock and callbacks are arguments.  Fuel is used in one place, the recursive descent of \<open>Crule\<close>: 6 units per character and 3 are
  proved to be enough for every text (\<open>crule_parse_ends\<close>), so that no result rests on running out of it.

  The theories, by the files they model:

  \<^item> \<open>Prelude\<close>: C strings, words, lists, the collections of simplification rules.
  \<^item> \<open>Chattr\<close> (\<open>table_gen.c\<close>, \<open>ircd_chattr.h\<close>): the generated character tables and their closed forms.
  \<^item> \<open>IrcdString\<close>, \<open>InAddr\<close> (\<open>ircd_string.c\<close>, \<open>res.h\<close>): tokens, bounded copies, comparison up to case, vectors of names; addresses
    and address masks, printed and parsed.
  \<^item> \<open>Match\<close>, \<open>Mmatch\<close> (\<open>match.c\<close>): wildcard masks.  \<open>match\<close> is proved against the language of a mask, \<open>collapse\<close> to keep it, and \<open>mmatch\<close>,
    which compares two masks, to end and to be sound for the inclusion of languages.
  \<^item> \<open>Hash\<close> (\<open>hash.c\<close>): the tables of clients, channels and monitors with the chains that a lookup reorders.  The locale \<open>lookup_table\<close>
    is the contract of the three tables and is interpreted on each (\<open>cl\<close>, \<open>ch\<close>, \<open>mo\<close>).
  \<^item> \<open>Numnicks\<close> (\<open>numnicks.c\<close>): the base-64 code of numbers and addresses, the allocation of numerics, lookups.
  \<^item> \<open>IPcheck\<close> (\<open>IPcheck.c\<close>): the registry of connections per address, refined to the counts an observer keeps.
  \<^item> \<open>Dbuf\<close>, \<open>MsgQ\<close> (\<open>dbuf.c\<close>, \<open>msgq.c\<close>): the two kinds of buffers; the locale \<open>byte_queue\<close> is the contract of the first.
  \<^item> \<open>Packet\<close> (\<open>packet.c\<close>): lines out of packets.
  \<^item> \<open>MsgTree\<close>, \<open>Parse\<close> (\<open>parse.c\<close>, \<open>msg.h\<close>): the whole command table, the tries (locale \<open>command_index\<close>), service mappings, the two parsers
    up to the call of the handler, which is a value of \<open>action\<close>.
  \<^item> \<open>Crule\<close> (\<open>crule.c\<close>): scanner, parser and evaluation of connection rules, the parser against the grammar of the file's head comment.
  \<^item> \<open>Dlink\<close>, \<open>Channel\<close>, \<open>ChannelInv\<close>, \<open>ChannelNet\<close>, \<open>ChannelSteps\<close> (\<open>channel.c\<close>, \<open>destruct_event.c\<close>): memberships, zombies, invitations, delayed
    destruction; the representation invariant, what each operation does in terms of who is on which channel, and the histories of a network.
  \<^item> \<open>ChannelBans\<close>, \<open>BanLists\<close>, \<open>ChannelSpeak\<close> (\<open>channel.c\<close>): ban masks, ban lists, the right to speak.
  \<^item> \<open>Whowas\<close> (\<open>whowas.c\<close>), \<open>Monitor\<close> (\<open>monitor.c\<close>): refined to a list of entries and to a relation of users and nicks.
  \<^item> \<open>Events\<close> (\<open>ircd_events.c\<close>): timers; the locale \<open>callbacks\<close> says what the operations need of the callbacks, and is interpreted on the jobs of
    the server (\<open>job_call\<close>), which change the rest of it and may put back their own timer.
  \<^item> \<open>Jupe\<close> (\<open>jupe.c\<close>, \<open>m_jupe.c\<close>): the list of juped servers, the three handlers of its message, and two servers that exchange jupes.
  \<^item> \<open>Tea\<close> (\<open>ircd_tea.c\<close>): the cipher.

  The properties.  The theorem behind a block of text that begins with a number C1, C2, ... is a property of the program; the others are the library.
  Invariants and refinements are stated over inductively defined histories (\<open>history\<close> of channels, \<open>ww_run\<close>, \<open>mon_run\<close> and others), whose
  rules are the operations in the order in which the server calls them; totality is part of the statements, as the existence of a result \<open>Some\<close>.
  Lemmas behind the properties that evaluate to \<open>None\<close> or to an unexpected value (\<open>numeric_zero_crashes\<close>, \<open>long_line_overruns\<close>,
  \<open>one_entry_loops\<close>, \<open>mmatch_reads_before_start\<close> and others) record inputs on which the code does not do what it means to.

  Bounds.  The buffer sizes are those of the source (512 bytes of a line, 16 buckets of 8 for the nick history, 15 parameters, 32 branches of a trie); tables
  whose size is a build option are parameters.  A theorem that needs a bound names it: lines under 512 bytes in \<open>packet_lines\<close>, a history of at least two
  entries in \<open>whowas_refines\<close>, less than 65535 clients of an address at a remote connection in \<open>ip_counts_refine\<close>.  Where the code deviates from what it
  means to do, the theorem names the condition that keeps clear of it: \<open>esc_ok\<close> of masks (no escaped wildcard directly behind a wildcard) in \<open>match_correct\<close>,
  \<open>mmatch_superset\<close> and \<open>ban_covers_clients\<close>, where also an address ban must be covered by an address ban; \<open>run_ok\<close> of addresses in \<open>base64_ip_roundtrip\<close>; \<open>in_order\<close>, destruction events
  in the order of their times, in \<open>channel_expiry\<close>.

  Not modelled, and why.  Sockets, event engines, the resolver, TLS, ident and iauth (\<open>s_bsd.c\<close>, \<open>engine_*.c\<close>, \<open>ircd_res.c\<close>, \<open>ircd_ssl.c\<close>, \<open>s_auth.c\<close>) are calls of
  the operating system and of libraries.  Formatting and output (\<open>ircd_snprintf.c\<close>, \<open>send.c\<close>, \<open>s_err.c\<close>, \<open>ircd_reply.c\<close>, the statistics) show
  as values the operations return.  The configuration (\<open>s_conf.c\<close>, \<open>class.c\<close>, \<open>ircd_features.c\<close>, the generated lexer and parser) is the source of the settings that are
  arguments here.  Registration and exit of clients (\<open>s_user.c\<close>, \<open>s_misc.c\<close>, \<open>s_serv.c\<close>, \<open>list.c\<close>) tie the modelled structures to connections.
  The handlers \<open>m_*.c\<close> other than \<open>m_jupe.c\<close>, the buffering of channel modes (\<open>ModeBuf\<close>, \<open>mode_parse\<close>), G-lines, compiled masks (\<open>matchcomp\<close>) and
  the distributed database are left for an extension.
\<close>

end
